(* ===== verification/BTree.thy ===== *)
theory BTree
  imports Prelude
begin

text \<open>
  Rust's ordered containers. A \<open>BTreeMap<K, V>\<close> is its iteration order: the association list of
  its entries with strictly ascending keys. A \<open>BTreeSet<K>\<close> that the code iterates is a map to
  \<open>unit\<close>. The interface the rest of the development uses is the locale \<open>ordered_map\<close>, interpreted
  here on the list functions.
\<close>

type_synonym ('k, 'v) btree = "('k \<times> 'v) list"

definition bt_wf :: "('k::linorder, 'v) btree \<Rightarrow> bool" where
  "bt_wf m = sorted_wrt (<) (map fst m)"

definition bt_get :: "('k, 'v) btree \<Rightarrow> 'k \<Rightarrow> 'v option" where
  "bt_get m k = map_of m k"

definition bt_has :: "('k, 'v) btree \<Rightarrow> 'k \<Rightarrow> bool" where
  "bt_has m k = (bt_get m k \<noteq> None)"

fun bt_insert :: "'k::linorder \<Rightarrow> 'v \<Rightarrow> ('k, 'v) btree \<Rightarrow> ('k, 'v) btree" where
  "bt_insert k v [] = [(k, v)]"
| "bt_insert k v ((a, b) # m) =
     (if k < a then (k, v) # (a, b) # m
      else if k = a then (k, v) # m
      else (a, b) # bt_insert k v m)"

fun bt_remove :: "'k \<Rightarrow> ('k, 'v) btree \<Rightarrow> ('k, 'v) btree" where
  "bt_remove k [] = []"
| "bt_remove k ((a, b) # m) = (if k = a then m else (a, b) # bt_remove k m)"

lemma bt_wf_simps [simp]:
  "bt_wf []"
  "bt_wf ((k, v) # m) \<longleftrightarrow> (\<forall>k' \<in> fst ` set m. k < k') \<and> bt_wf m"
  by (simp_all add: bt_wf_def)

lemma bt_get_Nil [simp]: "bt_get [] k = None"
  by (simp add: bt_get_def)

lemma bt_get_Cons: "bt_get ((a, b) # m) k = (if k = a then Some b else bt_get m k)"
  by (simp add: bt_get_def)

lemma bt_get_None_iff: "bt_get m k = None \<longleftrightarrow> k \<notin> fst ` set m"
  by (simp add: bt_get_def map_of_eq_None_iff)

lemma bt_has_iff: "bt_has m k \<longleftrightarrow> k \<in> fst ` set m"
  by (simp add: bt_has_def bt_get_None_iff)

lemma bt_wf_distinct: "bt_wf m \<Longrightarrow> distinct (map fst m)"
  unfolding bt_wf_def by (simp add: strict_sorted_iff)

lemma bt_get_iff_mem: "bt_wf m \<Longrightarrow> bt_get m k = Some v \<longleftrightarrow> (k, v) \<in> set m"
  by (simp add: bt_get_def map_of_eq_Some_iff bt_wf_distinct)

lemma bt_get_Some_mem: "bt_get m k = Some v \<Longrightarrow> (k, v) \<in> set m"
  by (simp add: bt_get_def map_of_SomeD)

lemma bt_get_insert: "bt_get (bt_insert k v m) k' = (if k' = k then Some v else bt_get m k')"
  by (induction m) (auto simp: bt_get_Cons)

lemma set_bt_insert_subset: "set (bt_insert k v m) \<subseteq> insert (k, v) (set m)"
  by (induction m) (auto split: if_splits)

lemma keys_bt_insert: "fst ` set (bt_insert k v m) = insert k (fst ` set m)"
  by (induction m) (force split: if_splits)+

lemma bt_wf_insert: "bt_wf m \<Longrightarrow> bt_wf (bt_insert k v m)"
proof (induction m)
  case (Cons x m)
  then show ?case
    by (cases x) (auto simp: keys_bt_insert dest: order.strict_trans)
qed simp

lemma set_bt_remove_subset: "set (bt_remove k m) \<subseteq> set m"
  by (induction m) (auto split: if_splits)

lemma bt_wf_remove: "bt_wf m \<Longrightarrow> bt_wf (bt_remove k m)"
proof (induction m)
  case (Cons x m)
  then show ?case
    using set_bt_remove_subset [of k m] by (cases x) auto
qed simp

lemma bt_get_remove: "bt_wf m \<Longrightarrow> bt_get (bt_remove k m) k' = (if k' = k then None else bt_get m k')"
proof (induction m)
  case (Cons x m)
  obtain a b where x: "x = (a, b)" by (cases x)
  with Cons.prems have "bt_get m a = None" by (auto simp: bt_get_None_iff)
  with Cons x show ?case by (auto simp: bt_get_Cons)
qed simp

lemma bt_remove_absent: "bt_get m k = None \<Longrightarrow> bt_remove k m = m"
  by (induction m) (auto simp: bt_get_Cons split: if_splits)

lemma bt_insert_snoc:
  "bt_wf (m @ [(k, v)]) \<Longrightarrow> bt_insert k v m = m @ [(k, v)]"
proof (induction m)
  case (Cons x m)
  then have "fst x < k" by (cases x) auto
  with Cons show ?case by (cases x) auto
qed simp

lemma bt_wf_append:
  "bt_wf (xs @ ys) \<longleftrightarrow> bt_wf xs \<and> bt_wf ys \<and> (\<forall>a \<in> fst ` set xs. \<forall>b \<in> fst ` set ys. a < b)"
  by (auto simp: bt_wf_def sorted_wrt_append)

lemma bt_wf_snoc_iff:
  assumes "bt_wf m"
  shows "bt_wf (m @ [(k, v)]) \<longleftrightarrow> (m = [] \<or> fst (last m) < k)"
proof (cases m rule: rev_cases)
  case (snoc ys y)
  with assms show ?thesis
    by (cases y) (fastforce simp: bt_wf_append)
qed simp

lemma length_bt_insert:
  "bt_wf m \<Longrightarrow> length (bt_insert k v m) = (if bt_has m k then length m else Suc (length m))"
proof (induction m)
  case (Cons x m)
  then show ?case by (cases x) (auto simp: bt_has_iff)
qed (simp add: bt_has_iff)

lemma length_bt_insert_new: "bt_wf m \<Longrightarrow> bt_get m k = None \<Longrightarrow> length (bt_insert k v m) = Suc (length m)"
  by (simp add: length_bt_insert bt_has_def)

lemma length_bt_remove_le: "length (bt_remove k m) \<le> length m"
  by (induction m) auto

lemma sum_bt_insert_new:
  "bt_get m k = None \<Longrightarrow> (\<Sum>x\<leftarrow>bt_insert k v m. f x) = (f (k, v) :: nat) + (\<Sum>x\<leftarrow>m. f x)"
  by (induction m) (auto simp: bt_get_Cons split: if_splits)

lemma sum_bt_remove_le: "(\<Sum>x\<leftarrow>bt_remove k m. f x) \<le> (\<Sum>x\<leftarrow>m. (f x :: nat))"
  by (induction m) auto

lemma sum_filter_le: "(\<Sum>x\<leftarrow>filter p m. f x) \<le> (\<Sum>x\<leftarrow>m. (f x :: nat))"
  by (induction m) auto

lemma bt_wf_filter: "bt_wf m \<Longrightarrow> bt_wf (filter p m)"
  by (induction m) auto

lemma bt_get_filter:
  assumes "bt_wf m"
  shows "bt_get (filter p m) k =
     (case bt_get m k of None \<Rightarrow> None | Some v \<Rightarrow> if p (k, v) then Some v else None)"
proof (cases "bt_get m k")
  case None
  then have "bt_get (filter p m) k = None" by (auto simp: bt_get_None_iff)
  then show ?thesis by (simp add: None)
next
  case (Some v)
  have mem: "(k, u) \<in> set m \<longleftrightarrow> u = v" for u
    using Some bt_get_iff_mem [OF assms, of k u] by auto
  have "bt_get (filter p m) k = Some u \<longleftrightarrow> u = v \<and> p (k, v)" for u
    by (auto simp: bt_get_iff_mem [OF bt_wf_filter [OF assms]] mem)
  then have "bt_get (filter p m) k = (if p (k, v) then Some v else None)"
    by (cases "bt_get (filter p m) k") auto
  then show ?thesis by (simp add: Some)
qed

text \<open>Two maps with the same lookups are the same map, iteration order included.\<close>

lemma bt_from_keys: "bt_wf m \<Longrightarrow> map (\<lambda>k. (k, the (bt_get m k))) (map fst m) = m"
proof (induction m)
  case (Cons x m)
  obtain a b where x: "x = (a, b)" by (cases x)
  have "map (\<lambda>k. (k, the (bt_get ((a, b) # m) k))) (map fst m) =
        map (\<lambda>k. (k, the (bt_get m k))) (map fst m)"
    using Cons.prems x by (intro map_cong) (auto simp: bt_get_Cons)
  with Cons x show ?case by (simp add: bt_get_Cons comp_def)
qed simp

lemma bt_ext:
  assumes "bt_wf m" "bt_wf n" and eq: "\<And>k. bt_get m k = bt_get n k"
  shows "m = n"
proof -
  have "k \<in> fst ` set m \<longleftrightarrow> k \<in> fst ` set n" for k
    using eq [of k] bt_get_None_iff [of m k] bt_get_None_iff [of n k] by auto
  then have "set (map fst n) = set (map fst m)" by auto
  then have "map fst n = map fst m"
    using assms(1,2) unfolding bt_wf_def by (intro strict_sorted_equal)
  then show ?thesis
    using bt_from_keys [OF assms(1)] bt_from_keys [OF assms(2)] eq by simp
qed

lemma bt_get_map_value:
  "bt_get (map (\<lambda>(k, v). (k, f k v)) m) k = map_option (f k) (bt_get m k)"
  by (induction m) (auto simp: bt_get_Cons)

lemma bt_wf_map_value: "bt_wf (map (\<lambda>(k, v). (k, f k v)) m) \<longleftrightarrow> bt_wf m"
  by (simp add: bt_wf_def case_prod_beta comp_def)

text \<open>
  The map interface: what a client of an ordered map may rely on. The second lemma is the one
  overwrite law that clients use when the same key is written twice.
\<close>

locale ordered_map =
  fixes lookup :: "'m \<Rightarrow> 'k::linorder \<Rightarrow> 'v option"
    and insert_at :: "'k \<Rightarrow> 'v \<Rightarrow> 'm \<Rightarrow> 'm"
    and remove_at :: "'k \<Rightarrow> 'm \<Rightarrow> 'm"
    and entries :: "'m \<Rightarrow> ('k \<times> 'v) list"
    and valid :: "'m \<Rightarrow> bool"
  assumes lookup_insert: "valid m \<Longrightarrow> lookup (insert_at k v m) k' = (if k' = k then Some v else lookup m k')"
    and lookup_remove: "valid m \<Longrightarrow> lookup (remove_at k m) k' = (if k' = k then None else lookup m k')"
    and valid_insert: "valid m \<Longrightarrow> valid (insert_at k v m)"
    and valid_remove: "valid m \<Longrightarrow> valid (remove_at k m)"
    and entries_sorted: "valid m \<Longrightarrow> sorted_wrt (<) (map fst (entries m))"
    and entries_lookup: "valid m \<Longrightarrow> map_of (entries m) k = lookup m k"
    and entries_inj: "valid m \<Longrightarrow> valid n \<Longrightarrow> entries m = entries n \<Longrightarrow> m = n"
begin

lemma extensional:
  assumes "valid m" "valid n" "\<And>k. lookup m k = lookup n k"
  shows "m = n"
proof (rule entries_inj [OF assms(1,2)])
  show "entries m = entries n"
  proof (rule bt_ext)
    show "bt_wf (entries m)" "bt_wf (entries n)"
      using assms(1,2) by (simp_all add: bt_wf_def entries_sorted)
    show "bt_get (entries m) k = bt_get (entries n) k" for k
      using assms by (simp add: bt_get_def entries_lookup)
  qed
qed

lemma insert_insert: "valid m \<Longrightarrow> insert_at k v (insert_at k u m) = insert_at k v m"
  by (rule extensional) (simp_all add: valid_insert lookup_insert)

lemma insert_commute:
  "valid m \<Longrightarrow> k \<noteq> l \<Longrightarrow> insert_at k v (insert_at l u m) = insert_at l u (insert_at k v m)"
  by (rule extensional) (simp_all add: valid_insert lookup_insert)

lemma remove_insert: "valid m \<Longrightarrow> lookup m k = None \<Longrightarrow> remove_at k (insert_at k v m) = m"
  by (rule extensional) (simp_all add: valid_insert valid_remove lookup_insert lookup_remove)

end

interpretation btm: ordered_map bt_get bt_insert bt_remove "\<lambda>m. m" bt_wf
  by unfold_locales
    (simp_all add: bt_get_insert bt_get_remove bt_wf_insert bt_wf_remove bt_get_def [symmetric],
     simp add: bt_wf_def)

end
