(* ===== verification/Errors.thy ===== *)
theory Errors
  imports Prelude
begin

text \<open>
  The errors of duckfs-core. The code returns \<open>Err(String)\<close>; each message text of the source is a
  constructor here, with the values it formats as arguments, one datatype per file of the crate
  and \<open>err\<close> their sum. \<open>disk_error\<close> are the errors of the disk stores behind the traits of store.rs, which
  duckfs-core only passes on.

  \<open>OutOfFuel\<close> is no error of the source: a walk whose recursion is bounded by fuel in the
  model returns it, and the walk's theorem says how much fuel excludes it.

  \<open>kind\<close> (objects.rs, \<open>Kind\<close>) stands here because a message of gc.rs names it.
\<close>

type_synonym object_id = bytes

datatype kind = KChunk | KFile | KTree | KSnapshot

text \<open>codec.rs: the frame label a \<open>Reader\<close> carries, and the messages built from it.\<close>

datatype frame = ObjectBody | RefsImage | BlockObjects

datatype codec_error =
    Truncated frame
  | BooleanByte frame
  | NotUtf8 frame
  | TrailingBytes frame

text \<open>actor.rs\<close>

datatype actor_error =
    AccountZero
  | ActorKeyEmpty
  | ActorModuleEmpty
  | InvalidActorTag

text \<open>objects.rs\<close>

datatype object_error =
    ChunkCountOverCap
  | MetaCountOverCap
  | MetaKeyOverCap
  | MetaValueOverCap
  | MetaKeysNotAscending
  | EntryCountOverCap
  | EntryNameOverCap
  | EntryUnknownKind
  | TreeNamesNotAscending
  | SnapshotMessageOverCap
  | ChunkIndexOutOfRange
  | ChunkPrefixOverflows
  | FileSizeSmallerThanChunks
  | LastChunkInconsistent
  | ChunkLengthMismatch
  | EmptyFileHasChunks
  | NonEmptyFileNoChunks
  | ChunkSpanOverflows
  | FileSizeInconsistent

text \<open>paths.rs\<close>

datatype path_error =
    PathNotAbsolute
  | PathNotNfc
  | PathHasNul
  | PathTooLong
  | EmptyOrDotSegment
  | SegmentTooLong
  | PathTooDeep
  | HomeRootNotWritable
  | SharedRootNotWritable
  | OutsideNamespaces

text \<open>state.rs\<close>

datatype refs_error =
    RefsImageOverCap
  | WindowCountOverCap
  | PinCountOverCap
  | PinsNotAscending
  | StagingCountOverCap
  | StagingNotAscending
  | WatchCountOverCap
  | WatchesNotAscending
  | BlockObjectsUnknownKind

text \<open>tree.rs\<close>

datatype tree_error =
    ObjectReadBudget nat
  | SnapshotMissing
  | ExpectedSnapshot
  | TreeMissing
  | ExpectedTree
  | PutRoot
  | MkdirRoot
  | MkdirExists
  | RmRoot
  | RmMissing
  | MvRoot
  | MvOntoRoot
  | MvIntoOwnSubtree
  | MvSourceMissing
  | MvDestinationExists
  | NonDirectoryInTheWay
  | DirectoryMissing
  | DirectoryTooLarge

text \<open>retention.rs\<close>

datatype retention_error =
    RecordShape
  | RecordNoSnapshot
  | RecordNoCount
  | RetentionNumber
  | RetentionSnapshot
  | SnapshotNotCanonicalHex
  | RetentionName
  | RecordNotFile
  | RecordMissing
  | RecordKindMismatch
  | ReferenceEdge
  | MembershipMismatch
  | MembershipEdge
  | AncestorMissing
  | RevisionZero
  | CompareExchangeMismatch
  | RevisionNotAdvanced
  | MembershipUnderflow
  | MembershipOverflow

text \<open>gc.rs\<close>

datatype gc_error =
    RootObjectMissing object_id
  | CorruptGraph object_id kind
  | CatalogDepthExceeded
  | CatalogSymlink
  | CatalogEdge

text \<open>fs.rs\<close>

datatype fs_error =
    SourceRevisionExhausted
  | ChunkEmpty
  | ChunkOverSize
  | StagingTableFull
  | StagingEntryQuota
  | StagingByteQuota
  | RefsImageFull
  | SnapshotNotResolvable
  | ProjectionPathNotFound
  | RetentionModuleOnly
  | RetentionSnapshotNotResolvable
  | PinNameEmpty
  | PinNameOverCap
  | PinTableFull
  | PinNameExists
  | PinQuota
  | PinNotFound
  | WatchModuleEmpty
  | WatchModuleOverCap
  | WatchTableFull
  | WatchExists
  | WatchNotFound
  | WatchOnlySelf
  | WatchModuleOriginOnly

datatype commit_error =
    CommitMessageOverCap
  | CommitEmpty
  | CommitOverChangeCap
  | BaseNotResolvable
  | DuplicatePath
  | CommitMetaCountOverCap
  | CommitMetaKeyOverCap
  | CommitMetaValueOverCap
  | InlineNotBase64
  | InlineBudgetExceeded
  | CommitChunkCountOverCap
  | ChunkDigestNotHex
  | ChunkNotAvailable
  | DigestNotChunk
  | SymlinkTargetOverCap
  | Conflict rstring

datatype sync_error =
    TooManyIds
  | SyncIdNotHex
  | RefsImageOverReplyBudget
  | RefsRootMismatch
  | IngestUnknownKind
  | ObjectIdMismatch
  | IngestFileShape

text \<open>queries.rs\<close>

datatype query_error =
    IdNotHex
  | PathNotFound
  | NotADirectory
  | NotAFile
  | GrepPatternEmpty
  | GrepPatternTooLong
  | DiffTooLarge
  | FileMissing
  | ExpectedFile
  | FewerChunksThanSize
  | ChunkMissing object_id
  | ExpectedChunk
  | ChunkLengthInconsistent object_id

text \<open>
  crates/duckfs/disk: disk.rs and scratch.rs. The operating system's own message and the path or id that
  a message carries beside its text are left out.
\<close>

datatype disk_error =
    FsyncDir
  | PutMkdir | PutCreateTmp | PutWriteTmp | PutFsyncTmp | PutRename
  | GetRead | GetEmpty | GetUnknownKind byte | GetHashMismatch
  | VerifyRead
  | StatRead | StatEmpty | StatUnknownKind byte
  | RemoveFailed
  | ListFailed
  | OpenFailed
  | RefsOpenFailed | RefsLoadFailed | RefsFileShort | RefsMagicMismatch | RefsLenOverflow | RefsFileLength
  | RefsChecksum
  | SaveCreateTmp | SaveWriteTmp | SaveFsyncTmp | SaveRename | SaveFsyncDir
  | ScratchNoName | ScratchEnumerate | ScratchCreate | ScratchClearRefs | ScratchMkdir | ScratchWalk
  | ScratchCopy | ScratchFsync | ScratchPublish
  | PromoteNoRefs | PromoteRoot object_id object_id

datatype err =
    CodecE codec_error
  | ActorE actor_error
  | ObjectE object_error
  | PathE path_error
  | RefsE refs_error
  | TreeE tree_error
  | RetentionE retention_error
  | GcE gc_error
  | FsE fs_error
  | CommitE commit_error
  | SyncE sync_error
  | QueryE query_error
  | DiskE disk_error
  | OutOfFuel

type_synonym 'a res = "err + 'a"

end
