(* ===== verification/Codec.thy ===== *)
theory Codec
  imports BTree Errors
begin

text \<open>
  crates/duckfs/core/src/codec.rs: the canonical byte grammar every duckfs frame speaks
  (little-endian integers, length-prefixed strings, raw 32-byte ids, 0/1 booleans, a whole-input
  \<open>finish\<close>). A \<open>Reader\<close> is the record \<open>reader\<close>: the frame label, the input and the offset.

  The contract between a writer and a reader of one field is the locale \<open>cursor_codec\<close>: reading
  what was written gives the value back and advances past it, and a successful read consumed
  exactly the written form of an admissible value. Each field of the grammar is interpreted, and
  the locale proves what both laws give for a whole frame. \<open>asc_table\<close> extends the contract to the
  counted, strictly ascending tables of tree entries, metadata, pins, staging and watches.
\<close>

subsection \<open>Little-endian integers\<close>

fun le_bytes :: "nat \<Rightarrow> nat \<Rightarrow> bytes" where
  "le_bytes 0 v = []"
| "le_bytes (Suc n) v = of_nat (v mod 256) # le_bytes n (v div 256)"

fun le_val :: "bytes \<Rightarrow> nat" where
  "le_val [] = 0"
| "le_val (b # bs) = unat b + 256 * le_val bs"

lemma length_le_bytes [simp]: "length (le_bytes n v) = n"
  by (induction n arbitrary: v) simp_all

lemma unat_byte_lt [simp]: "unat (b :: byte) < 256"
  using unsigned_less [of b] by simp

lemma le_val_le_bytes: "le_val (le_bytes n v) = v mod 256 ^ n"
  by (induction n arbitrary: v) (simp_all add: unat_of_nat mod_mult2_eq)

lemma le_val_lt: "le_val bs < 256 ^ length bs"
proof (induction bs)
  case (Cons b bs)
  have "le_val (b # bs) < 256 + 256 * le_val bs"
    using unat_byte_lt [of b] by (simp only: le_val.simps)
  also have "\<dots> \<le> 256 ^ length (b # bs)"
    using Cons by simp
  finally show ?case .
qed simp

lemma le_bytes_le_val: "le_bytes (length bs) (le_val bs) = bs"
proof (induction bs)
  case (Cons b bs)
  have "unat b < 256" by simp
  with Cons show ?case by simp
qed simp

lemma le_val_inj: "length as = length bs \<Longrightarrow> le_val as = le_val bs \<Longrightarrow> as = bs"
  by (metis le_bytes_le_val)

definition to_le16 :: "u16 \<Rightarrow> bytes" where "to_le16 w = le_bytes 2 (unat w)"
definition to_le32 :: "u32 \<Rightarrow> bytes" where "to_le32 w = le_bytes 4 (unat w)"
definition to_le64 :: "u64 \<Rightarrow> bytes" where "to_le64 w = le_bytes 8 (unat w)"

lemma length_to_le [simp]:
  "length (to_le16 a) = 2" "length (to_le32 b) = 4" "length (to_le64 c) = 8"
  by (simp_all add: to_le16_def to_le32_def to_le64_def)

subsection \<open>UTF-8\<close>

text \<open>\<open>String::from_utf8\<close>: the well-formed byte sequences of the Unicode standard (table 3-7).\<close>

definition cont :: "byte \<Rightarrow> bool" where
  "cont b \<longleftrightarrow> 0x80 \<le> b \<and> b \<le> 0xBF"

text \<open>The number of bytes a lead byte announces, 0 for a byte that leads no sequence.\<close>

definition utf8_width :: "byte \<Rightarrow> nat" where
  "utf8_width a =
     (if a \<le> 0x7F then 1
      else if 0xC2 \<le> a \<and> a \<le> 0xDF then 2
      else if 0xE0 \<le> a \<and> a \<le> 0xEF then 3
      else if 0xF0 \<le> a \<and> a \<le> 0xF4 then 4
      else 0)"

text \<open>The range of the second byte: no overlong form, no surrogate, nothing past U+10FFFF.\<close>

definition utf8_second :: "byte \<Rightarrow> byte \<Rightarrow> bool" where
  "utf8_second a b =
     (if a = 0xE0 then 0xA0 \<le> b
      else if a = 0xED then b \<le> 0x9F
      else if a = 0xF0 then 0x90 \<le> b
      else if a = 0xF4 then b \<le> 0x8F
      else True)"

definition utf8_lead :: "byte \<Rightarrow> bytes \<Rightarrow> bool" where
  "utf8_lead a bs \<longleftrightarrow>
     utf8_width a \<noteq> 0 \<and> utf8_width a - 1 \<le> length bs \<and>
     list_all cont (take (utf8_width a - 1) bs) \<and>
     (2 \<le> utf8_width a \<longrightarrow> utf8_second a (hd bs))"

fun utf8 :: "bytes \<Rightarrow> bool" where
  "utf8 [] = True"
| "utf8 (a # bs) = (utf8_lead a bs \<and> utf8 (drop (utf8_width a - 1) bs))"

lemma utf8_lead_append: "utf8_lead a bs \<Longrightarrow> utf8_lead a (bs @ ys)"
  by (auto simp: utf8_lead_def hd_append)

lemma utf8_append: "utf8 xs \<Longrightarrow> utf8 (xs @ ys) = utf8 ys"
proof (induction xs rule: utf8.induct)
  case (2 a bs)
  then have "utf8_width a - 1 \<le> length bs" by (simp add: utf8_lead_def)
  with 2 show ?case by (simp add: utf8_lead_append)
qed simp

lemma utf8_ascii: "\<forall>b \<in> set bs. b \<le> 0x7F \<Longrightarrow> utf8 bs"
  by (induction bs) (simp_all add: utf8_lead_def utf8_width_def)

text \<open>An ASCII byte is not inside a sequence: cutting before it leaves two well-formed halves.\<close>

lemma utf8_split: "utf8 (s @ b # t) \<Longrightarrow> b \<le> 0x7F \<Longrightarrow> utf8 s \<and> utf8 (b # t)"
proof (induction s rule: length_induct)
  case (1 s)
  show ?case
  proof (cases s)
    case Nil
    then show ?thesis using 1 by simp
  next
    case (Cons a r)
    let ?w = "utf8_width a - 1"
    have lead: "utf8_lead a (r @ b # t)" and rest: "utf8 (drop ?w (r @ b # t))"
      using 1(2) Cons by simp_all
    have "\<not> cont b" using 1(3) by (auto simp: cont_def word_le_nat_alt)
    have w: "?w \<le> length r"
    proof (rule ccontr)
      assume "\<not> ?w \<le> length r"
      then have "b \<in> set (take ?w (r @ b # t))"
        by (cases "?w - length r") simp_all
      then show False using lead \<open>\<not> cont b\<close> by (auto simp: utf8_lead_def list_all_iff)
    qed
    then have "utf8_lead a r"
      using lead w by (auto simp: utf8_lead_def hd_append split: if_splits)
    moreover have "utf8 (drop ?w r) \<and> utf8 (b # t)"
      using 1(1) [rule_format, of "drop ?w r"] rest w 1(3) Cons by (simp del: utf8.simps)
    ultimately show ?thesis using Cons by simp
  qed
qed

subsection \<open>Writers\<close>

definition push_string :: "rstring \<Rightarrow> bytes" where
  "push_string s = to_le64 (of_nat (length s)) @ s"

definition push_u32 :: "u32 \<Rightarrow> bytes" where
  "push_u32 v = to_le32 v"

definition push_bool :: "bool \<Rightarrow> bytes" where
  "push_bool b = [if b then 1 else 0]"

lemma length_push_string [simp]: "length (push_string s) = 8 + length s"
  by (simp add: push_string_def)

subsection \<open>The reader\<close>

record reader =
  r_what :: frame
  r_bytes :: bytes
  r_off :: nat

definition reader_new :: "frame \<Rightarrow> bytes \<Rightarrow> reader" where
  "reader_new w bs = \<lparr>r_what = w, r_bytes = bs, r_off = 0\<rparr>"

definition rd_array :: "nat \<Rightarrow> reader \<Rightarrow> (bytes \<times> reader) res" where
  "rd_array n r =
     (let e = r_off r + n in
      if e \<le> length (r_bytes r)
      then Inr (take n (drop (r_off r) (r_bytes r)), r\<lparr>r_off := e\<rparr>)
      else Inl (CodecE (Truncated (r_what r))))"

definition rd_u8 :: "reader \<Rightarrow> (byte \<times> reader) res" where
  "rd_u8 r = rbind (rd_array 1 r) (\<lambda>(bs, r'). Inr (hd bs, r'))"

definition rd_u16 :: "reader \<Rightarrow> (u16 \<times> reader) res" where
  "rd_u16 r = rbind (rd_array 2 r) (\<lambda>(bs, r'). Inr (of_nat (le_val bs), r'))"

definition rd_u32 :: "reader \<Rightarrow> (u32 \<times> reader) res" where
  "rd_u32 r = rbind (rd_array 4 r) (\<lambda>(bs, r'). Inr (of_nat (le_val bs), r'))"

definition rd_u64 :: "reader \<Rightarrow> (u64 \<times> reader) res" where
  "rd_u64 r = rbind (rd_array 8 r) (\<lambda>(bs, r'). Inr (of_nat (le_val bs), r'))"

definition rd_bytes32 :: "reader \<Rightarrow> (object_id \<times> reader) res" where
  "rd_bytes32 r = rd_array 32 r"

definition rd_boolean :: "reader \<Rightarrow> (bool \<times> reader) res" where
  "rd_boolean r = rbind (rd_u8 r) (\<lambda>(b, r').
     if b = 0 then Inr (False, r')
     else if b = 1 then Inr (True, r')
     else Inl (CodecE (BooleanByte (r_what r'))))"

text \<open>
  \<open>usize::try_from\<close> fails only where \<open>usize\<close> is narrower than 64 bits, with the error the bounds
  check then gives too, so one bounds check on natural numbers is both.
\<close>

definition rd_bytes :: "reader \<Rightarrow> (bytes \<times> reader) res" where
  "rd_bytes r = rbind (rd_u64 r) (\<lambda>(n, r').
     let e = r_off r' + unat n in
     if e \<le> length (r_bytes r')
     then Inr (take (unat n) (drop (r_off r') (r_bytes r')), r'\<lparr>r_off := e\<rparr>)
     else Inl (CodecE (Truncated (r_what r'))))"

definition rd_string :: "reader \<Rightarrow> (rstring \<times> reader) res" where
  "rd_string r = rbind (rd_bytes r) (\<lambda>(bs, r').
     if utf8 bs then Inr (bs, r') else Inl (CodecE (NotUtf8 (r_what r'))))"

definition rd_finish :: "reader \<Rightarrow> unit res" where
  "rd_finish r = ensure (r_off r = length (r_bytes r)) (CodecE (TrailingBytes (r_what r)))"

subsection \<open>The cursor normal form\<close>

text \<open>\<open>at w pre post\<close>: a reader of frame \<open>w\<close> that has consumed \<open>pre\<close> and has \<open>post\<close> left.\<close>

definition at :: "frame \<Rightarrow> bytes \<Rightarrow> bytes \<Rightarrow> reader" where
  "at w pre post = \<lparr>r_what = w, r_bytes = pre @ post, r_off = length pre\<rparr>"

lemma reader_new_at: "reader_new w bs = at w [] bs"
  by (simp add: reader_new_def at_def)

lemma at_what [simp]: "r_what (at w pre post) = w"
  by (simp add: at_def)

lemma finish_at [simp]: "rd_finish (at w pre post) = (if post = [] then Inr () else Inl (CodecE (TrailingBytes w)))"
  by (simp add: rd_finish_def at_def ensure_def)

lemma rd_array_at:
  "rd_array n (at w pre post) =
     (if n \<le> length post then Inr (take n post, at w (pre @ take n post) (drop n post))
      else Inl (CodecE (Truncated w)))"
  by (auto simp: rd_array_def at_def Let_def)

subsection \<open>The contract of one field\<close>

text \<open>Read one value and demand that the input is used up.\<close>

definition rd_frame :: "(reader \<Rightarrow> ('a \<times> reader) res) \<Rightarrow> frame \<Rightarrow> bytes \<Rightarrow> 'a res" where
  "rd_frame rd w bs = rbind (rd (reader_new w bs)) (\<lambda>(x, r). rbind (rd_finish r) (\<lambda>_. Inr x))"

text \<open>A loop that reads \<open>n\<close> values.\<close>

fun rd_times :: "(reader \<Rightarrow> ('a \<times> reader) res) \<Rightarrow> nat \<Rightarrow> reader \<Rightarrow> ('a list \<times> reader) res" where
  "rd_times rd 0 r = Inr ([], r)"
| "rd_times rd (Suc n) r =
     rbind (rd r) (\<lambda>(x, r1). rbind (rd_times rd n r1) (\<lambda>(xs, r2). Inr (x # xs, r2)))"

locale cursor_codec =
  fixes rd :: "reader \<Rightarrow> ('a \<times> reader) res"
    and wr :: "'a \<Rightarrow> bytes"
    and ok :: "'a \<Rightarrow> bool"
  assumes forward: "ok x \<Longrightarrow> rd (at w pre (wr x @ t)) = Inr (x, at w (pre @ wr x) t)"
    and backward: "rd (at w pre post) = Inr (x, r') \<Longrightarrow>
      \<exists>t. ok x \<and> post = wr x @ t \<and> r' = at w (pre @ wr x) t"
begin

lemma backwardE:
  assumes "rd (at w pre post) = Inr (x, r')"
  obtains t where "ok x" "post = wr x @ t" "r' = at w (pre @ wr x) t"
  using backward [OF assms] by blast

lemma forward_nil: "ok x \<Longrightarrow> rd (at w pre (wr x)) = Inr (x, at w (pre @ wr x) [])"
  using forward [of x w pre "[]"] by simp

text \<open>The decoder accepts exactly the written forms of admissible values.\<close>

lemma frame_iff: "rd_frame rd w bs = Inr x \<longleftrightarrow> ok x \<and> bs = wr x"
proof
  assume "rd_frame rd w bs = Inr x"
  then obtain r where "rd (at w [] bs) = Inr (x, r)" and fin: "rd_finish r = Inr ()"
    by (auto simp: rd_frame_def reader_new_at)
  then obtain t where t: "ok x" "bs = wr x @ t" "r = at w (wr x) t"
    by (auto elim: backwardE)
  with fin have "t = []" by (simp split: if_splits)
  with t show "ok x \<and> bs = wr x" by simp
next
  assume "ok x \<and> bs = wr x"
  then show "rd_frame rd w bs = Inr x"
    using forward [of x w "[]" "[]"] by (simp add: rd_frame_def reader_new_at)
qed

lemma prefix_free:
  assumes "ok x" "ok y" "wr x @ s = wr y @ t"
  shows "x = y \<and> s = t"
  using forward [OF assms(1), of ObjectBody "[]" s] forward [OF assms(2), of ObjectBody "[]" t] assms(3)
  by simp

lemma wr_inj: "ok x \<Longrightarrow> ok y \<Longrightarrow> wr x = wr y \<Longrightarrow> x = y"
  using prefix_free [of x y "[]" "[]"] by simp

lemma times_forward:
  "list_all ok xs \<Longrightarrow>
   rd_times rd (length xs) (at w pre (concat (map wr xs) @ t)) = Inr (xs, at w (pre @ concat (map wr xs)) t)"
  by (induction xs arbitrary: pre) (simp_all add: forward)

lemma times_backward:
  "rd_times rd n (at w pre post) = Inr (xs, r') \<Longrightarrow>
   \<exists>t. list_all ok xs \<and> length xs = n \<and> post = concat (map wr xs) @ t \<and>
     r' = at w (pre @ concat (map wr xs)) t"
proof (induction n arbitrary: pre post xs)
  case (Suc n)
  then obtain x r1 ys where x: "rd (at w pre post) = Inr (x, r1)"
    and ys: "rd_times rd n r1 = Inr (ys, r')" and xs: "xs = x # ys"
    by auto
  from x obtain u where u: "ok x" "post = wr x @ u" "r1 = at w (pre @ wr x) u"
    by (rule backwardE)
  with ys Suc.IH [of "pre @ wr x" u ys] show ?case by (auto simp: xs)
qed simp

lemma times_codec:
  "cursor_codec (rd_times rd n) (\<lambda>xs. concat (map wr xs)) (\<lambda>xs. length xs = n \<and> list_all ok xs)"
proof
  show "rd_times rd n (at w pre (concat (map wr xs) @ t)) = Inr (xs, at w (pre @ concat (map wr xs)) t)"
    if "length xs = n \<and> list_all ok xs" for xs w pre t
    using that times_forward by auto
  show "\<exists>t. (length xs = n \<and> list_all ok xs) \<and> post = concat (map wr xs) @ t \<and>
      r' = at w (pre @ concat (map wr xs)) t"
    if "rd_times rd n (at w pre post) = Inr (xs, r')" for w pre post xs r'
    using times_backward [OF that] by blast
qed

lemmas times_backwardE = cursor_codec.backwardE [OF times_codec]

end

text \<open>
  A counted table with strictly ascending keys: each entry is read, its key compared with the
  last one read, and inserted.
\<close>

fun rd_table :: "(reader \<Rightarrow> (('k::linorder \<times> 'v) \<times> reader) res) \<Rightarrow> err \<Rightarrow> nat \<Rightarrow>
    ('k, 'v) btree \<Rightarrow> reader \<Rightarrow> (('k, 'v) btree \<times> reader) res" where
  "rd_table rd e 0 acc r = Inr (acc, r)"
| "rd_table rd e (Suc n) acc r = rbind (rd r) (\<lambda>((k, v), r').
     if acc \<noteq> [] \<and> k \<le> fst (last acc) then Inl e
     else rd_table rd e n (bt_insert k v acc) r')"

locale asc_table = cursor_codec rd wr ok
  for rd :: "reader \<Rightarrow> (('k::linorder \<times> 'v) \<times> reader) res" and wr ok +
  fixes order_error :: err
begin

lemma table_forward:
  "bt_wf (acc @ xs) \<Longrightarrow> list_all ok xs \<Longrightarrow>
   rd_table rd order_error (length xs) acc (at w pre (concat (map wr xs) @ t)) =
     Inr (acc @ xs, at w (pre @ concat (map wr xs)) t)"
proof (induction xs arbitrary: acc pre)
  case (Cons x xs)
  obtain k v where x: "x = (k, v)" by (cases x)
  from Cons.prems x have "bt_wf ((acc @ [(k, v)]) @ xs)" by simp
  then have snoc: "bt_wf (acc @ [(k, v)])"
    unfolding bt_wf_append [of "acc @ [(k, v)]"] by blast
  then have acc: "bt_wf acc"
    unfolding bt_wf_append [of acc] by blast
  with snoc have "\<not> (acc \<noteq> [] \<and> k \<le> fst (last acc))"
    by (auto simp: bt_wf_snoc_iff)
  moreover have "bt_insert k v acc = acc @ [x]"
    using snoc x by (simp add: bt_insert_snoc)
  ultimately show ?case
    using Cons.prems Cons.IH [of "acc @ [x]" "pre @ wr x"] x by (simp add: forward)
qed simp

lemma table_backward:
  "bt_wf acc \<Longrightarrow> rd_table rd order_error n acc (at w pre post) = Inr (m, r') \<Longrightarrow>
   \<exists>xs t. m = acc @ xs \<and> bt_wf m \<and> list_all ok xs \<and> length xs = n \<and>
     post = concat (map wr xs) @ t \<and> r' = at w (pre @ concat (map wr xs)) t"
proof (induction n arbitrary: acc pre post)
  case (Suc n)
  then obtain k v r1 where kv: "rd (at w pre post) = Inr ((k, v), r1)"
    and asc: "\<not> (acc \<noteq> [] \<and> k \<le> fst (last acc))"
    and rec: "rd_table rd order_error n (bt_insert k v acc) r1 = Inr (m, r')"
    by (auto split: if_splits)
  from kv obtain u where u: "ok (k, v)" "post = wr (k, v) @ u" "r1 = at w (pre @ wr (k, v)) u"
    by (rule backwardE)
  have snoc: "bt_wf (acc @ [(k, v)])"
    using asc Suc.prems(1) by (auto simp: bt_wf_snoc_iff not_le)
  with rec u Suc.IH [of "acc @ [(k, v)]" "pre @ wr (k, v)" u]
  obtain xs t where "m = (acc @ [(k, v)]) @ xs" "bt_wf m" "list_all ok xs" "length xs = n"
    "u = concat (map wr xs) @ t" "r' = at w ((pre @ wr (k, v)) @ concat (map wr xs)) t"
    by (auto simp: bt_insert_snoc)
  with u show ?case
    by (intro exI [of _ "(k, v) # xs"] exI [of _ t]) simp
qed simp

lemma table_codec:
  "cursor_codec (rd_table rd order_error n []) (\<lambda>m. concat (map wr m))
     (\<lambda>m. length m = n \<and> bt_wf m \<and> list_all ok m)"
proof
  show "rd_table rd order_error n [] (at w pre (concat (map wr m) @ t)) =
      Inr (m, at w (pre @ concat (map wr m)) t)"
    if "length m = n \<and> bt_wf m \<and> list_all ok m" for m w pre t
    using that table_forward [of "[]" m] by auto
  show "\<exists>t. (length m = n \<and> bt_wf m \<and> list_all ok m) \<and> post = concat (map wr m) @ t \<and>
      r' = at w (pre @ concat (map wr m)) t"
    if "rd_table rd order_error n [] (at w pre post) = Inr (m, r')" for w pre post m r'
    using table_backward [OF _ that] by auto
qed

lemmas table_read = cursor_codec.forward [OF table_codec]
lemmas table_backwardE = cursor_codec.backwardE [OF table_codec]

end

subsection \<open>The fields\<close>

lemma rd_u8_at: "rd_u8 (at w pre post) =
    (case post of [] \<Rightarrow> Inl (CodecE (Truncated w)) | b # t \<Rightarrow> Inr (b, at w (pre @ [b]) t))"
  by (cases post) (simp_all add: rd_u8_def rd_array_at)

lemma rd_u8_Cons [codec_laws]: "rd_u8 (at w pre (b # t)) = Inr (b, at w (pre @ [b]) t)"
  by (simp add: rd_u8_at)

interpretation u8c: cursor_codec rd_u8 "\<lambda>b. [b]" "\<lambda>_. True"
  by unfold_locales (auto simp: rd_u8_at split: list.splits)

interpretation id32: cursor_codec rd_bytes32 "\<lambda>i. i" "\<lambda>i. length i = 32"
proof
  show "\<exists>t. length x = 32 \<and> post = x @ t \<and> r' = at w (pre @ x) t"
    if "rd_bytes32 (at w pre post) = Inr (x, r')" for w pre post x r'
    using that by (intro exI [of _ "drop 32 post"])
      (auto simp: rd_bytes32_def rd_array_at split: if_splits)
qed (simp add: rd_bytes32_def rd_array_at)

lemma of_nat_le_val_le_bytes:
  assumes "LENGTH('a) = 8 * n"
  shows "of_nat (le_val (le_bytes n (unat w))) = (w :: 'a::len word)"
proof -
  have "unat w < 2 ^ (8 * n)" using unsigned_less [of w] assms by simp
  then have "unat w mod 256 ^ n = unat w" by (simp add: power_mult)
  then show ?thesis by (simp add: le_val_le_bytes)
qed

lemma le_bytes_unat_of_nat:
  assumes "LENGTH('a) = 8 * length bs"
  shows "le_bytes (length bs) (unat (of_nat (le_val bs) :: 'a::len word)) = bs"
proof -
  have "le_val bs < 2 ^ LENGTH('a)"
    using le_val_lt [of bs] assms by (simp add: power_mult)
  then have "unat (of_nat (le_val bs) :: 'a word) = le_val bs"
    by (simp add: unat_of_nat)
  then show ?thesis by (simp add: le_bytes_le_val)
qed

lemma int_backward:
  assumes rd: "rbind (rd_array n (at w pre post)) (\<lambda>(bs, r'). Inr (of_nat (le_val bs), r')) = Inr (x, r')"
    and len: "LENGTH('a) = 8 * n"
  shows "\<exists>t. post = le_bytes n (unat (x :: 'a::len word)) @ t \<and>
    r' = at w (pre @ le_bytes n (unat x)) t"
proof -
  from rd have n: "n \<le> length post" and x: "x = of_nat (le_val (take n post))"
    and r': "r' = at w (pre @ take n post) (drop n post)"
    by (auto simp: rd_array_at split: if_splits)
  have "le_bytes n (unat x) = take n post"
    using le_bytes_unat_of_nat [of "take n post", where 'a = 'a] n len x by simp
  then show ?thesis using r' by (intro exI [of _ "drop n post"]) simp
qed

interpretation u16c: cursor_codec rd_u16 to_le16 "\<lambda>_. True"
proof
  show "\<exists>t. True \<and> post = to_le16 x @ t \<and> r' = at w (pre @ to_le16 x) t"
    if "rd_u16 (at w pre post) = Inr (x, r')" for w pre post x r'
    using int_backward [OF that [unfolded rd_u16_def]] by (simp add: to_le16_def)
qed (simp add: rd_u16_def to_le16_def rd_array_at of_nat_le_val_le_bytes)

interpretation u32c: cursor_codec rd_u32 to_le32 "\<lambda>_. True"
proof
  show "\<exists>t. True \<and> post = to_le32 x @ t \<and> r' = at w (pre @ to_le32 x) t"
    if "rd_u32 (at w pre post) = Inr (x, r')" for w pre post x r'
    using int_backward [OF that [unfolded rd_u32_def]] by (simp add: to_le32_def)
qed (simp add: rd_u32_def to_le32_def rd_array_at of_nat_le_val_le_bytes)

interpretation u64c: cursor_codec rd_u64 to_le64 "\<lambda>_. True"
proof
  show "\<exists>t. True \<and> post = to_le64 x @ t \<and> r' = at w (pre @ to_le64 x) t"
    if "rd_u64 (at w pre post) = Inr (x, r')" for w pre post x r'
    using int_backward [OF that [unfolded rd_u64_def]] by (simp add: to_le64_def)
qed (simp add: rd_u64_def to_le64_def rd_array_at of_nat_le_val_le_bytes)

lemma rd_boolean_at: "rd_boolean (at w pre post) =
    (case post of [] \<Rightarrow> Inl (CodecE (Truncated w))
     | b # t \<Rightarrow> if b = 0 then Inr (False, at w (pre @ [b]) t)
              else if b = 1 then Inr (True, at w (pre @ [b]) t)
              else Inl (CodecE (BooleanByte w)))"
  by (cases post) (simp_all add: rd_boolean_def rd_u8_at)

lemma rd_boolean_Cons [codec_laws]:
  "rd_boolean (at w pre (0 # t)) = Inr (False, at w (pre @ [0]) t)"
  "rd_boolean (at w pre (1 # t)) = Inr (True, at w (pre @ [1]) t)"
  by (simp_all add: rd_boolean_at)

interpretation boolc: cursor_codec rd_boolean push_bool "\<lambda>_. True"
  by unfold_locales (auto simp: rd_boolean_at push_bool_def split: list.splits if_splits)

text \<open>A length-prefixed byte string, and one that must be UTF-8.\<close>

lemma rd_bytes_at:
  "rd_bytes (at w pre (to_le64 n @ t)) =
     (if unat n \<le> length t
      then Inr (take (unat n) t, at w (pre @ to_le64 n @ take (unat n) t) (drop (unat n) t))
      else Inl (CodecE (Truncated w)))"
  by (simp add: rd_bytes_def u64c.forward) (simp add: Let_def at_def)

lemma push_string_eq: "length s < 2 ^ 64 \<Longrightarrow> unat (of_nat (length s) :: u64) = length s"
  by (simp add: unat_of_nat)

interpretation bytesc: cursor_codec rd_bytes push_string "\<lambda>s. length s < 2 ^ 64"
proof
  show "rd_bytes (at w pre (push_string x @ t)) = Inr (x, at w (pre @ push_string x) t)"
    if "length x < 2 ^ 64" for x w pre t
    using that by (simp add: push_string_def rd_bytes_at push_string_eq)
  show "\<exists>t. length x < 2 ^ 64 \<and> post = push_string x @ t \<and> r' = at w (pre @ push_string x) t"
    if "rd_bytes (at w pre post) = Inr (x, r')" for w pre post x r'
  proof -
    from that obtain n r1 where "rd_u64 (at w pre post) = Inr (n, r1)"
      by (auto simp: rd_bytes_def)
    then obtain u where u: "post = to_le64 n @ u" by (auto elim: u64c.backwardE)
    with that have n: "unat n \<le> length u" and x: "x = take (unat n) u"
      and r': "r' = at w (pre @ to_le64 n @ take (unat n) u) (drop (unat n) u)"
      by (auto simp: rd_bytes_at split: if_splits)
    have "length x = unat n" using n x by simp
    then have "length x < 2 ^ 64" "of_nat (length x) = n"
      using unat_lt_64 [of n] by simp_all
    then show ?thesis
      using u x r' by (intro exI [of _ "drop (unat n) u"]) (simp add: push_string_def)
  qed
qed

definition str_ok :: "rstring \<Rightarrow> bool" where
  "str_ok s \<longleftrightarrow> utf8 s \<and> length s < 2 ^ 64"

interpretation stringc: cursor_codec rd_string push_string str_ok
proof
  show "rd_string (at w pre (push_string x @ t)) = Inr (x, at w (pre @ push_string x) t)"
    if "str_ok x" for x w pre t
    using that by (simp add: rd_string_def str_ok_def bytesc.forward)
  show "\<exists>t. str_ok x \<and> post = push_string x @ t \<and> r' = at w (pre @ push_string x) t"
    if "rd_string (at w pre post) = Inr (x, r')" for w pre post x r'
    using that by (auto simp: rd_string_def str_ok_def split: if_splits elim: bytesc.backwardE)
qed

text \<open>
  A flag byte and, when it is 1, a 32-byte id: the form of a snapshot's parent and of the head and
  the retention root of the refs image.
\<close>

definition push_opt32 :: "object_id option \<Rightarrow> bytes" where
  "push_opt32 x = (case x of Some i \<Rightarrow> 1 # i | None \<Rightarrow> [0])"

definition rd_opt32 :: "reader \<Rightarrow> (object_id option \<times> reader) res" where
  "rd_opt32 r = rbind (rd_boolean r) (\<lambda>(b, r).
     if b then rbind (rd_bytes32 r) (\<lambda>(i, r). Inr (Some i, r)) else Inr (None, r))"

interpretation opt32: cursor_codec rd_opt32 push_opt32 "pred_option (\<lambda>i. length i = 32)"
proof
  show "rd_opt32 (at w pre (push_opt32 x @ t)) = Inr (x, at w (pre @ push_opt32 x) t)"
    if "pred_option (\<lambda>i. length i = 32) x" for x w pre t
    using that by (cases x) (simp_all add: rd_opt32_def push_opt32_def rd_boolean_Cons id32.forward)
  show "\<exists>t. pred_option (\<lambda>i. length i = 32) x \<and> post = push_opt32 x @ t \<and> r' = at w (pre @ push_opt32 x) t"
    if "rd_opt32 (at w pre post) = Inr (x, r')" for w pre post x r'
    using that
    by (auto simp: rd_opt32_def push_opt32_def rd_boolean_at split: if_splits list.splits
        elim!: id32.backwardE)
qed

lemma length_push_opt32: "pred_option (\<lambda>i. length i = 32) x \<Longrightarrow>
    length (push_opt32 x) = 1 + (case x of None \<Rightarrow> 0 | Some _ \<Rightarrow> 32)"
  by (cases x) (simp_all add: push_opt32_def)

declare u8c.forward [codec_laws] id32.forward [codec_laws] u16c.forward [codec_laws]
  u32c.forward [codec_laws] u64c.forward [codec_laws] boolc.forward [codec_laws]
  bytesc.forward [codec_laws] stringc.forward [codec_laws] opt32.forward [codec_laws]

lemmas field_backwardE =
  u8c.backwardE id32.backwardE u16c.backwardE u32c.backwardE u64c.backwardE
  boolc.backwardE bytesc.backwardE stringc.backwardE opt32.backwardE

end
