(* ===== verification/Text_Format.thy ===== *)
theory Text_Format
  imports Codec
begin

text \<open>
  The textual forms of ids and numbers: lowercase hex (\<open>to_hex\<close>, \<open>from_hex_32\<close>, \<open>unhex\<close> of
  crates/duckfs/core/src/wire.rs) and the decimal \<open>to_string\<close> and \<open>parse\<close> of \<open>u64\<close> from the
  standard library.
\<close>

subsection \<open>Hex\<close>

definition hex_digit :: "byte \<Rightarrow> byte" where
  "hex_digit n = (if n < 10 then 48 + n else 87 + n)"

definition hex_val :: "byte \<Rightarrow> byte option" where
  "hex_val c =
     (if 48 \<le> c \<and> c \<le> 57 then Some (c - 48)
      else if 97 \<le> c \<and> c \<le> 102 then Some (c - 97 + 10)
      else None)"

definition hex_byte :: "byte \<Rightarrow> bytes" where
  "hex_byte b = [hex_digit (drop_bit 4 b), hex_digit (and b 15)]"

definition to_hex :: "bytes \<Rightarrow> rstring" where
  "to_hex bs = concat (map hex_byte bs)"

text \<open>The loop over the 32 slots of \<open>from_hex_32\<close>, two characters to a byte.\<close>

fun hex_pairs :: "bytes \<Rightarrow> bytes option" where
  "hex_pairs [] = Some []"
| "hex_pairs [c] = None"
| "hex_pairs (c # d # cs) =
     (case hex_val c of None \<Rightarrow> None | Some hi \<Rightarrow>
      case hex_val d of None \<Rightarrow> None | Some lo \<Rightarrow>
        map_option (\<lambda>bs. (or (push_bit 4 hi) lo) # bs) (hex_pairs cs))"

definition from_hex_32 :: "rstring \<Rightarrow> object_id option" where
  "from_hex_32 s = (if length s \<noteq> 64 then None else hex_pairs s)"

text \<open>Facts about nibbles are checked on all of them.\<close>

lemma byte_range:
  assumes "of_nat i \<le> c" "c < of_nat j" "j < 256" "i < 256"
    and "\<forall>n \<in> set [i..<j]. P (of_nat n)"
  shows "P (c :: byte)"
proof -
  have "unat c \<in> set [i..<j]"
    using assms(1-4) by (simp add: word_le_nat_alt word_less_nat_alt unat_of_nat)
  with assms(5) have "P (of_nat (unat c))" by blast
  then show ?thesis by simp
qed

lemma hex_val_digit: "n < 16 \<Longrightarrow> hex_val (hex_digit n) = Some n"
  by (rule byte_range [of 0 n 16]) (simp, simp, simp, simp, code_simp)

lemma hex_val_table:
  "\<forall>n \<in> set [48..<58] \<union> set [97..<103].
     case hex_val (of_nat n) of None \<Rightarrow> False | Some v \<Rightarrow> v < 16 \<and> hex_digit v = of_nat n"
  by code_simp

lemma hex_val_Some:
  assumes "hex_val c = Some v"
  shows "v < 16 \<and> hex_digit v = c"
proof -
  have "48 \<le> c \<and> c \<le> 57 \<or> 97 \<le> c \<and> c \<le> 102"
    using assms unfolding hex_val_def by (metis option.distinct(1))
  then have "unat c \<in> set [48..<58] \<union> set [97..<103]"
    unfolding word_le_nat_alt set_upt by auto
  then have "case hex_val (of_nat (unat c)) of None \<Rightarrow> False
      | Some v \<Rightarrow> v < 16 \<and> hex_digit v = of_nat (unat c)"
    using hex_val_table by blast
  with assms show ?thesis by simp
qed

lemma byte_mask4: "(15 :: byte) = mask 4"
  by (simp add: mask_eq_exp_minus_1)

lemma nibbles:
  "drop_bit 4 b < (16 :: byte)" "and b 15 < (16 :: byte)"
  "or (push_bit 4 (drop_bit 4 b)) (and b 15) = b"
proof -
  have "unat b div 16 < 16" by (simp add: div_less_iff_less_mult)
  then show "drop_bit 4 b < (16 :: byte)"
    by (simp add: word_less_nat_alt unat_drop_bit_eq drop_bit_eq_div unat_div_distrib)
  show "and b 15 < (16 :: byte)"
    using and_mask_less' [of 4 b] by (simp add: byte_mask4)
  show "or (push_bit 4 (drop_bit 4 b)) (and b 15) = b"
    unfolding byte_mask4 by (rule bit_eqI) (auto simp: bit_simps)
qed

lemma split_byte:
  assumes "hi < 16" "lo < (16 :: byte)"
  shows "drop_bit 4 (or (push_bit 4 hi) lo) = hi" "and (or (push_bit 4 hi) lo) 15 = lo"
proof -
  have m: "and x (mask 4) = x" if "x < 16" for x :: byte
    using less_mask_eq [of x 4] that by simp
  have "drop_bit 4 (or (push_bit 4 (and hi (mask 4))) (and lo (mask 4))) = and hi (mask 4)"
    by (rule bit_eqI) (auto simp: bit_simps)
  with assms show "drop_bit 4 (or (push_bit 4 hi) lo) = hi" by (simp add: m)
  have "and (or (push_bit 4 (and hi (mask 4))) (and lo (mask 4))) (mask 4) = and lo (mask 4)"
    by (rule bit_eqI) (auto simp: bit_simps)
  with assms show "and (or (push_bit 4 hi) lo) 15 = lo" by (simp add: m byte_mask4)
qed

lemma hex_pairs_to_hex: "hex_pairs (to_hex bs) = Some bs"
  by (induction bs) (simp_all add: to_hex_def hex_byte_def hex_val_digit nibbles)

lemma to_hex_hex_pairs: "hex_pairs s = Some bs \<Longrightarrow> s = to_hex bs"
proof (induction s arbitrary: bs rule: hex_pairs.induct)
  case (3 c d cs)
  then obtain hi lo rest where "hex_val c = Some hi" "hex_val d = Some lo"
    "hex_pairs cs = Some rest" "bs = or (push_bit 4 hi) lo # rest"
    by (auto split: option.splits)
  moreover from this have "hex_byte (or (push_bit 4 hi) lo) = [c, d]"
    using hex_val_Some [of c hi] hex_val_Some [of d lo] by (simp only: hex_byte_def split_byte)
  ultimately show ?case using 3 by (simp add: to_hex_def)
qed (simp_all add: to_hex_def)

lemma length_to_hex [simp]: "length (to_hex bs) = 2 * length bs"
  by (induction bs) (simp_all add: to_hex_def hex_byte_def)

text \<open>The hex form of an id is unique: exactly its lowercase rendering parses.\<close>

lemma from_hex_32_iff: "from_hex_32 s = Some i \<longleftrightarrow> length i = 32 \<and> s = to_hex i"
  by (auto simp: from_hex_32_def hex_pairs_to_hex dest: to_hex_hex_pairs)

lemma to_hex_inj: "to_hex a = to_hex b \<Longrightarrow> a = b"
  by (metis hex_pairs_to_hex option.inject)

lemma hex_digit_ascii: "n < 16 \<Longrightarrow> hex_digit n \<le> 0x7F"
  by (rule byte_range [of 0 n 16]) (simp, simp, simp, simp, code_simp)

lemma hex_byte_ascii: "c \<in> set (hex_byte b) \<Longrightarrow> c \<le> 0x7F"
  using nibbles(1,2) [of b] hex_digit_ascii by (auto simp: hex_byte_def)

text \<open>The either-case decoder of pasted input.\<close>

definition ascii_hexdigit :: "byte \<Rightarrow> bool" where
  "ascii_hexdigit c \<longleftrightarrow> 48 \<le> c \<and> c \<le> 57 \<or> 97 \<le> c \<and> c \<le> 102 \<or> 65 \<le> c \<and> c \<le> 70"

definition radix16 :: "byte \<Rightarrow> byte" where
  "radix16 c = (if c \<le> 57 then c - 48 else if c \<le> 70 then c - 55 else c - 87)"

fun radix16_pairs :: "bytes \<Rightarrow> bytes" where
  "radix16_pairs (c # d # cs) = (16 * radix16 c + radix16 d) # radix16_pairs cs"
| "radix16_pairs _ = []"

datatype unhex_error = NonHexCharacters | OddLength

definition unhex :: "rstring \<Rightarrow> unhex_error + bytes" where
  "unhex s =
     rbind (ensure (list_all ascii_hexdigit s) NonHexCharacters) (\<lambda>_.
     rbind (ensure (length s mod 2 = 0) OddLength) (\<lambda>_.
     Inr (radix16_pairs s)))"

subsection \<open>Decimal\<close>

fun dec_nat :: "nat \<Rightarrow> rstring" where
  "dec_nat n = (if n < 10 then [of_nat (48 + n)] else dec_nat (n div 10) @ [of_nat (48 + n mod 10)])"

declare dec_nat.simps [simp del]

definition dec_u64 :: "u64 \<Rightarrow> rstring" where
  "dec_u64 w = dec_nat (unat w)"

text \<open>\<open>str::parse::<u64>\<close>: one optional plus sign, at least one digit, the value below \<open>2 ^ 64\<close>.\<close>

fun digits_val :: "nat \<Rightarrow> bytes \<Rightarrow> nat option" where
  "digits_val acc [] = Some acc"
| "digits_val acc (c # cs) =
     (if 48 \<le> c \<and> c \<le> 57 \<and> 10 * acc + (unat c - 48) < 2 ^ 64
      then digits_val (10 * acc + (unat c - 48)) cs else None)"

definition parse_u64 :: "rstring \<Rightarrow> u64 option" where
  "parse_u64 s =
     (let ds = (case s of c # cs \<Rightarrow> if c = 43 then cs else s | [] \<Rightarrow> [])
      in if ds = [] then None else map_option of_nat (digits_val 0 ds))"

lemma dec_nat_nonempty [simp]: "dec_nat n \<noteq> []"
  by (subst dec_nat.simps) simp

lemma digits_val_append:
  "digits_val a xs = Some b \<Longrightarrow> digits_val a (xs @ ys) = digits_val b ys"
  by (induction xs arbitrary: a) (auto split: if_splits)

lemma digit_byte:
  assumes "d < 10"
  shows "48 \<le> (of_nat (48 + d) :: byte)" "(of_nat (48 + d) :: byte) \<le> 57"
    "unat (of_nat (48 + d) :: byte) = 48 + d"
proof -
  show u: "unat (of_nat (48 + d) :: byte) = 48 + d"
    using assms by (simp only: unat_of_nat) simp
  then show "48 \<le> (of_nat (48 + d) :: byte)" "(of_nat (48 + d) :: byte) \<le> 57"
    using assms by (simp_all only: word_le_nat_alt) simp_all
qed

lemma digits_val_dec: "n < 2 ^ 64 \<Longrightarrow> digits_val 0 (dec_nat n) = Some n"
proof (induction n rule: dec_nat.induct)
  case (1 n)
  show ?case
  proof (cases "n < 10")
    case True
    then show ?thesis
      using digit_byte [of n] 1 by (subst dec_nat.simps) simp
  next
    case False
    with 1 have "digits_val 0 (dec_nat (n div 10)) = Some (n div 10)" by simp
    then have "digits_val 0 (dec_nat n) = digits_val (n div 10) [of_nat (48 + n mod 10)]"
      using False by (subst dec_nat.simps) (simp add: digits_val_append)
    also have "\<dots> = Some n"
      using digit_byte [of "n mod 10"] 1 by simp
    finally show ?thesis .
  qed
qed

lemma hd_dec_nat: "hd (dec_nat n) \<noteq> 43"
proof (induction n rule: dec_nat.induct)
  case (1 n)
  have "(of_nat (48 + d) :: byte) \<noteq> 43" if "d < 10" for d
  proof
    assume "(of_nat (48 + d) :: byte) = 43"
    then have "unat (of_nat (48 + d) :: byte) = unat (43 :: byte)" by (rule arg_cong)
    with digit_byte(3) [OF that] show False by simp
  qed
  with 1 show ?case by (subst dec_nat.simps) (simp add: hd_append)
qed

lemma parse_dec_u64: "parse_u64 (dec_u64 w) = Some w"
proof -
  have "parse_u64 (dec_nat n) = map_option of_nat (digits_val 0 (dec_nat n))" for n
    using hd_dec_nat [of n] by (cases "dec_nat n") (simp_all add: parse_u64_def)
  then show ?thesis
    using unat_lt_64 [of w] by (simp add: dec_u64_def digits_val_dec)
qed

lemma dec_u64_inj: "dec_u64 a = dec_u64 b \<Longrightarrow> a = b"
  by (metis parse_dec_u64 option.inject)

end
