(* ===== verification/Wire.thy ===== *)
theory Wire
  imports Text_Format
begin

text \<open>
  crates/duckfs/core/src/wire.rs: the network constants and the types of the write, read and sync
  wires. The JSON framing of these types is serde's and is not modelled; \<open>encode_putblob\<close> is the
  one binary frame.
\<close>

subsection \<open>Network constants\<close>

definition CHUNK_SIZE :: u64 where "CHUNK_SIZE = 1048576"
definition MAX_NAME_BYTES :: nat where [caps]: "MAX_NAME_BYTES = 255"
definition MAX_PATH_BYTES :: nat where [caps]: "MAX_PATH_BYTES = 4096"
definition MAX_DEPTH :: nat where [caps]: "MAX_DEPTH = 128"
definition MAX_DIR_ENTRIES :: nat where [caps]: "MAX_DIR_ENTRIES = 65536"
definition MAX_INLINE_COMMIT_BYTES :: nat where [caps]: "MAX_INLINE_COMMIT_BYTES = 262144"
definition MAX_CHANGES_PER_COMMIT :: nat where [caps]: "MAX_CHANGES_PER_COMMIT = 4096"
definition MAX_OBJECT_READS_PER_OP :: nat where [caps]: "MAX_OBJECT_READS_PER_OP = 256"
definition MAX_MESSAGE_BYTES :: nat where [caps]: "MAX_MESSAGE_BYTES = 4096"
definition MAX_META_ENTRIES :: nat where [caps]: "MAX_META_ENTRIES = 16"
definition MAX_META_KEY_BYTES :: nat where [caps]: "MAX_META_KEY_BYTES = 64"
definition MAX_META_VALUE_BYTES :: nat where [caps]: "MAX_META_VALUE_BYTES = 256"
definition MAX_CHUNKS_PER_FILE :: nat where [caps]: "MAX_CHUNKS_PER_FILE = 4194304"
definition MAX_SYMLINK_TARGET_BYTES :: nat where [caps]: "MAX_SYMLINK_TARGET_BYTES = 4096"
definition STAGING_QUOTA_BYTES :: u64 where "STAGING_QUOTA_BYTES = 1073741824"
definition STAGING_TTL_BLOCKS :: u64 where "STAGING_TTL_BLOCKS = 4096"
definition MAX_PINS :: nat where [caps]: "MAX_PINS = 1024"
definition MAX_PINS_PER_OWNER :: nat where [caps]: "MAX_PINS_PER_OWNER = MAX_PINS div 32"
definition MAX_STAGING_ENTRIES :: nat where [caps]: "MAX_STAGING_ENTRIES = MAX_PINS * 64"
definition MAX_STAGING_ENTRIES_PER_OWNER :: nat where [caps]: "MAX_STAGING_ENTRIES_PER_OWNER = 4096"
definition MAX_PIN_NAME_BYTES :: nat where [caps]: "MAX_PIN_NAME_BYTES = 128"
definition MAX_WATCHES :: nat where [caps]: "MAX_WATCHES = 256"
definition MAX_WATCH_MODULE_ID_BYTES :: nat where [caps]: "MAX_WATCH_MODULE_ID_BYTES = 128"
definition HISTORY_WINDOW :: nat where [caps]: "HISTORY_WINDOW = 1024"
definition MAX_PAGE :: u64 where "MAX_PAGE = 256"
definition MAX_SYNC_IDS :: nat where [caps]: "MAX_SYNC_IDS = 256"
definition MAX_SYNC_REPLY_BYTES :: nat where [caps]: "MAX_SYNC_REPLY_BYTES = 1572864"
definition MAX_REFS_IMAGE_BYTES :: nat where [caps]: "MAX_REFS_IMAGE_BYTES = 1048576"
definition MAX_READ_BYTES :: u64 where "MAX_READ_BYTES = 1048576"
definition MAX_GREP_SCAN_BYTES :: u64 where "MAX_GREP_SCAN_BYTES = 8388608"
definition MAX_GREP_LINE_BYTES :: nat where [caps]: "MAX_GREP_LINE_BYTES = 256"
definition MAX_GREP_HITS_PER_CALL :: nat where [caps]: "MAX_GREP_HITS_PER_CALL = 256 * 16"
definition PUTBLOB_FRAME_TAG :: byte where "PUTBLOB_FRAME_TAG = 0"

lemma unat_CHUNK_SIZE [simp]: "unat CHUNK_SIZE = 1048576"
  by (simp add: CHUNK_SIZE_def)

subsection \<open>The write wire\<close>

datatype content =
    Inline rstring
  | Chunks u64 "rstring list"

datatype change =
    Put rstring bool "(rstring, rstring) btree" content
  | Mkdir rstring
  | Rm rstring
  | Mv rstring rstring
  | Symlink rstring rstring

record retention_reference =
  rr_snapshot :: rstring
  rr_revision :: u64

datatype files_msg =
    Commit "rstring option" rstring "change list"
  | ProjectSnapshot rstring rstring
  | CompareExchangeRetention rstring "retention_reference option" "retention_reference option"
  | Pin rstring rstring
  | Unpin rstring
  | Watch rstring rstring
  | Unwatch rstring rstring

definition encode_putblob :: "bytes \<Rightarrow> bytes" where
  "encode_putblob bs = PUTBLOB_FRAME_TAG # bs"

text \<open>The path, an at sign, the snapshot, \<open>#L\<close> and the line.\<close>

definition evidence_locator :: "rstring \<Rightarrow> rstring \<Rightarrow> u64 \<Rightarrow> rstring" where
  "evidence_locator path snapshot line = path @ [64] @ snapshot @ str ''#L'' @ dec_u64 line"

end
