(* ===== verification/Actors.thy ===== *)
theory Actors
  imports Wire
begin

text \<open>
  crates/duckfs/core/src/actor.rs: \<open>Actor\<close> (stable ownership and authorship, a field of frames)
  and \<open>Authority\<close> (the authenticated evidence of an operation). The codec of an actor satisfies
  \<open>cursor_codec\<close> for the actors \<open>decode\<close> admits.
\<close>

datatype actor =
    Account u64
  | Key bytes
  | Module rstring
  | System

fun actor_encoded_len :: "actor \<Rightarrow> nat" where
  "actor_encoded_len (Account _) = 9"
| "actor_encoded_len (Key key) = 9 + length key"
| "actor_encoded_len (Module m) = 9 + length m"
| "actor_encoded_len System = 1"

fun actor_encode :: "actor \<Rightarrow> bytes" where
  "actor_encode (Account n) = 0 # to_le64 n"
| "actor_encode (Key key) = 1 # to_le64 (of_nat (length key)) @ key"
| "actor_encode (Module m) = 2 # push_string m"
| "actor_encode System = [3]"

definition actor_decode :: "reader \<Rightarrow> (actor \<times> reader) res" where
  "actor_decode r = rbind (rd_u8 r) (\<lambda>(tag, r).
     if tag = 0 then rbind (rd_u64 r) (\<lambda>(n, r).
       if n = 0 then Inl (ActorE AccountZero) else Inr (Account n, r))
     else if tag = 1 then rbind (rd_bytes r) (\<lambda>(key, r).
       if key = [] then Inl (ActorE ActorKeyEmpty) else Inr (Key key, r))
     else if tag = 2 then rbind (rd_string r) (\<lambda>(m, r).
       if m = [] then Inl (ActorE ActorModuleEmpty) else Inr (Module m, r))
     else if tag = 3 then Inr (System, r)
     else Inl (ActorE InvalidActorTag))"

text \<open>\<open>impl Display for Actor\<close>\<close>

fun actor_display :: "actor \<Rightarrow> rstring" where
  "actor_display (Account n) = str ''acct:'' @ dec_u64 n"
| "actor_display (Key key) = str ''ext:'' @ to_hex key"
| "actor_display (Module m) = str ''module:'' @ m"
| "actor_display System = str ''system''"

datatype authority =
    External bytes "u64 option"
  | Program u64
  | AuthModule rstring
  | AuthSystem

fun authority_actor :: "authority \<Rightarrow> actor" where
  "authority_actor (External key None) = Key key"
| "authority_actor (External _ (Some n)) = Account n"
| "authority_actor (Program n) = Account n"
| "authority_actor (AuthModule m) = Module m"
| "authority_actor AuthSystem = System"

definition authority_validate :: "authority \<Rightarrow> unit res" where
  "authority_validate a =
     (case authority_actor a of
        Account n \<Rightarrow> if n = 0 then Inl (ActorE AccountZero) else Inr ()
      | System \<Rightarrow> Inr ()
      | Key key \<Rightarrow> if key = [] then Inl (ActorE ActorKeyEmpty) else Inr ()
      | Module m \<Rightarrow> if m = [] then Inl (ActorE ActorModuleEmpty) else Inr ())"

fun controls :: "authority \<Rightarrow> actor \<Rightarrow> bool" where
  "controls (External key _) (Key owner) = (owner = key)"
| "controls _ (Key _) = False"
| "controls a owner = (owner = authority_actor a)"

text \<open>
  The admissible actors. Lengths below \<open>2 ^ 64\<close> and UTF-8 are what the Rust types \<open>Vec<u8>\<close> and
  \<open>String\<close> guarantee.
\<close>

fun actor_ok :: "actor \<Rightarrow> bool" where
  "actor_ok (Account n) \<longleftrightarrow> n \<noteq> 0"
| "actor_ok (Key key) \<longleftrightarrow> key \<noteq> [] \<and> length key < 2 ^ 64"
| "actor_ok (Module m) \<longleftrightarrow> m \<noteq> [] \<and> str_ok m"
| "actor_ok System \<longleftrightarrow> True"

fun authority_typed :: "authority \<Rightarrow> bool" where
  "authority_typed (External key _) \<longleftrightarrow> length key < 2 ^ 64"
| "authority_typed (AuthModule m) \<longleftrightarrow> str_ok m"
| "authority_typed _ \<longleftrightarrow> True"

interpretation actorc: cursor_codec actor_decode actor_encode actor_ok
proof
  show "actor_decode (at w pre (actor_encode x @ t)) = Inr (x, at w (pre @ actor_encode x) t)"
    if "actor_ok x" for x w pre t
  proof (cases x)
    case (Key key)
    then show ?thesis
      using that bytesc.forward [of key w "pre @ [1]" t]
      by (simp add: actor_decode_def codec_laws push_string_def)
  qed (use that in \<open>simp_all add: actor_decode_def codec_laws\<close>)
  show "\<exists>t. actor_ok x \<and> post = actor_encode x @ t \<and> r' = at w (pre @ actor_encode x) t"
    if "actor_decode (at w pre post) = Inr (x, r')" for w pre post x r'
    using that
    by (auto simp: actor_decode_def push_string_def split: if_splits elim!: field_backwardE)
qed

declare actorc.forward [codec_laws]

lemma length_actor_encode: "length (actor_encode a) = actor_encoded_len a"
  by (cases a) simp_all

lemma authority_actor_ok:
  "authority_validate a = Inr () \<Longrightarrow> authority_typed a \<Longrightarrow> actor_ok (authority_actor a)"
  by (cases a rule: authority_actor.cases)
     (auto simp: authority_validate_def split: if_splits)

text \<open>What \<open>controls\<close> decides: the exact key for a key-owned entry, else the authority's actor.\<close>

lemma controls_own_actor: "controls a (authority_actor a)"
  by (cases a rule: authority_actor.cases) simp_all

end
