(* ===== verification/Objects.thy ===== *)
theory Objects
  imports Actors
begin

text \<open>
  crates/duckfs/core/src/objects.rs: the immutable object model. \<open>H\<close> is SHA-256 of the crate
  sha2, a parameter. A \<open>BTreeMap\<close> field is a \<open>btree\<close>; \<open>as u32\<close> and \<open>as u16\<close> of a length wrap.
  Each decoder is characterised by one equivalence: it accepts exactly the encodings of the
  admissible values (\<open>file_ok\<close>, \<open>tree_ok\<close>, \<open>snapshot_ok\<close>), so an object has one body.
\<close>

subsection \<open>Kinds and ids\<close>

fun kind_tag :: "kind \<Rightarrow> byte" where
  "kind_tag KChunk = 0"
| "kind_tag KFile = 1"
| "kind_tag KTree = 2"
| "kind_tag KSnapshot = 3"

definition kind_from_u8 :: "byte \<Rightarrow> kind option" where
  "kind_from_u8 v =
     (if v = 0 then Some KChunk else if v = 1 then Some KFile
      else if v = 2 then Some KTree else if v = 3 then Some KSnapshot else None)"

lemma kind_from_u8_tag [simp]: "kind_from_u8 (kind_tag k) = Some k"
  by (cases k) (simp_all add: kind_from_u8_def)

lemma kind_from_u8_Some: "kind_from_u8 v = Some k \<longleftrightarrow> v = kind_tag k"
  by (cases k) (auto simp: kind_from_u8_def)

text \<open>\<open>#[derive(Ord)]\<close> on \<open>Kind\<close>: by discriminant.\<close>

instantiation kind :: linorder
begin

definition less_eq_kind :: "kind \<Rightarrow> kind \<Rightarrow> bool" where
  "k \<le> l \<longleftrightarrow> kind_tag k \<le> kind_tag l"

definition less_kind :: "kind \<Rightarrow> kind \<Rightarrow> bool" where
  "k < l \<longleftrightarrow> kind_tag k < kind_tag l"

instance
proof
  fix x y z :: kind
  show "x \<le> y \<or> y \<le> x" by (auto simp: less_eq_kind_def)
  show "x \<le> y \<Longrightarrow> y \<le> x \<Longrightarrow> x = y"
    by (cases x; cases y) (simp_all add: less_eq_kind_def word_le_nat_alt)
qed (auto simp: less_eq_kind_def less_kind_def)

end

definition object_id :: "(bytes \<Rightarrow> object_id) \<Rightarrow> kind \<Rightarrow> bytes \<Rightarrow> object_id" where
  "object_id H k body = H (kind_tag k # body)"

subsection \<open>Records\<close>

record file_obj =
  f_size :: u64
  f_chunks :: "object_id list"
  f_meta :: "(rstring, rstring) btree"

datatype entry_kind = EFile | EDir | ESymlink

record tree_entry =
  e_kind :: entry_kind
  e_id :: object_id
  e_exec :: bool
  e_size :: u64

record tree_obj =
  t_entries :: "(rstring, tree_entry) btree"

record snapshot_obj =
  s_root :: object_id
  s_parent :: "object_id option"
  s_author :: actor
  s_time :: u64
  s_height :: u64
  s_message :: rstring

subsection \<open>Files\<close>

definition wr_meta :: "rstring \<times> rstring \<Rightarrow> bytes" where
  "wr_meta kv = push_string (fst kv) @ push_string (snd kv)"

definition file_encode :: "file_obj \<Rightarrow> bytes" where
  "file_encode f =
     to_le64 (f_size f) @ to_le32 (of_nat (length (f_chunks f))) @ concat (f_chunks f) @
     to_le16 (of_nat (length (f_meta f))) @ concat (map wr_meta (f_meta f))"

definition rd_meta :: "reader \<Rightarrow> ((rstring \<times> rstring) \<times> reader) res" where
  "rd_meta r = rbind (rd_string r) (\<lambda>(key, r). rbind (rd_string r) (\<lambda>(value, r).
     rbind (ensure (length key \<le> MAX_META_KEY_BYTES) (ObjectE MetaKeyOverCap)) (\<lambda>_.
     rbind (ensure (length value \<le> MAX_META_VALUE_BYTES) (ObjectE MetaValueOverCap)) (\<lambda>_.
     Inr ((key, value), r)))))"

definition file_decode :: "bytes \<Rightarrow> file_obj res" where
  "file_decode bs =
     rbind (rd_u64 (reader_new ObjectBody bs)) (\<lambda>(size, r).
     rbind (rd_u32 r) (\<lambda>(n, r).
     rbind (ensure (unat n \<le> MAX_CHUNKS_PER_FILE) (ObjectE ChunkCountOverCap)) (\<lambda>_.
     rbind (rd_times rd_bytes32 (unat n) r) (\<lambda>(chunks, r).
     rbind (rd_u16 r) (\<lambda>(m, r).
     rbind (ensure (unat m \<le> MAX_META_ENTRIES) (ObjectE MetaCountOverCap)) (\<lambda>_.
     rbind (rd_table rd_meta (ObjectE MetaKeysNotAscending) (unat m) [] r) (\<lambda>(meta, r).
     rbind (rd_finish r) (\<lambda>_.
     Inr \<lparr>f_size = size, f_chunks = chunks, f_meta = meta\<rparr>))))))))"

definition meta_ok :: "rstring \<times> rstring \<Rightarrow> bool" where
  "meta_ok kv \<longleftrightarrow> utf8 (fst kv) \<and> utf8 (snd kv) \<and>
     length (fst kv) \<le> MAX_META_KEY_BYTES \<and> length (snd kv) \<le> MAX_META_VALUE_BYTES"

definition file_ok :: "file_obj \<Rightarrow> bool" where
  "file_ok f \<longleftrightarrow>
     length (f_chunks f) \<le> MAX_CHUNKS_PER_FILE \<and> list_all (\<lambda>i. length i = 32) (f_chunks f) \<and>
     length (f_meta f) \<le> MAX_META_ENTRIES \<and> bt_wf (f_meta f) \<and> list_all meta_ok (f_meta f)"

lemma meta_ok_str: "meta_ok (k, v) \<Longrightarrow> str_ok k \<and> str_ok v"
  by (simp add: meta_ok_def str_ok_def caps)

interpretation metac: asc_table rd_meta wr_meta meta_ok "ObjectE MetaKeysNotAscending"
proof
  show "rd_meta (at w pre (wr_meta x @ t)) = Inr (x, at w (pre @ wr_meta x) t)"
    if "meta_ok x" for x w pre t
    using that meta_ok_str [of "fst x" "snd x"]
    by (simp add: rd_meta_def wr_meta_def codec_laws meta_ok_def)
  show "\<exists>t. meta_ok x \<and> post = wr_meta x @ t \<and> r' = at w (pre @ wr_meta x) t"
    if "rd_meta (at w pre post) = Inr (x, r')" for w pre post x r'
    using that
    by (auto simp: rd_meta_def wr_meta_def meta_ok_def str_ok_def elim!: field_backwardE)
qed

lemma file_decode_encode:
  assumes "file_ok f"
  shows "file_decode (file_encode f) = Inr f"
proof -
  let ?n = "length (f_chunks f)" and ?m = "length (f_meta f)"
  have caps': "?n \<le> MAX_CHUNKS_PER_FILE" "?m \<le> MAX_META_ENTRIES"
    using assms by (simp_all add: file_ok_def)
  then have n: "unat (of_nat ?n :: u32) = ?n" and m: "unat (of_nat ?m :: u16) = ?m"
    by (simp_all add: unat_of_nat caps)
  show ?thesis
    using assms id32.times_forward [of "f_chunks f"] metac.table_forward [of "[]" "f_meta f" _ _ "[]"]
    by (simp add: file_decode_def file_encode_def reader_new_at codec_laws n m caps' file_ok_def)
qed

lemma file_decode_only:
  assumes "file_decode bs = Inr f"
  shows "file_ok f \<and> bs = file_encode f"
  using assms
  by (auto simp: file_decode_def file_encode_def file_ok_def reader_new_at split: if_splits
      elim!: field_backwardE id32.times_backwardE metac.table_backwardE)

subsection \<open>Trees\<close>

fun entry_kind_tag :: "entry_kind \<Rightarrow> byte" where
  "entry_kind_tag EFile = 0"
| "entry_kind_tag EDir = 1"
| "entry_kind_tag ESymlink = 2"

definition entry_kind_from_u8 :: "byte \<Rightarrow> entry_kind option" where
  "entry_kind_from_u8 v =
     (if v = 0 then Some EFile else if v = 1 then Some EDir
      else if v = 2 then Some ESymlink else None)"

lemma entry_kind_from_u8_tag [simp]: "entry_kind_from_u8 (entry_kind_tag k) = Some k"
  by (cases k) (simp_all add: entry_kind_from_u8_def)

lemma entry_kind_from_u8_Some: "entry_kind_from_u8 v = Some k \<longleftrightarrow> v = entry_kind_tag k"
  by (cases k) (auto simp: entry_kind_from_u8_def)

definition wr_entry :: "rstring \<times> tree_entry \<Rightarrow> bytes" where
  "wr_entry ne = push_string (fst ne) @ entry_kind_tag (e_kind (snd ne)) # e_id (snd ne) @
     push_bool (e_exec (snd ne)) @ to_le64 (e_size (snd ne))"

definition tree_encode :: "tree_obj \<Rightarrow> bytes" where
  "tree_encode t = to_le32 (of_nat (length (t_entries t))) @ concat (map wr_entry (t_entries t))"

definition rd_entry :: "reader \<Rightarrow> ((rstring \<times> tree_entry) \<times> reader) res" where
  "rd_entry r = rbind (rd_string r) (\<lambda>(name, r).
     rbind (ensure (length name \<le> MAX_NAME_BYTES) (ObjectE EntryNameOverCap)) (\<lambda>_.
     rbind (rd_u8 r) (\<lambda>(tag, r).
     rbind (ok_or (entry_kind_from_u8 tag) (ObjectE EntryUnknownKind)) (\<lambda>kind.
     rbind (rd_bytes32 r) (\<lambda>(id, r).
     rbind (rd_boolean r) (\<lambda>(exec, r).
     rbind (rd_u64 r) (\<lambda>(size, r).
     Inr ((name, \<lparr>e_kind = kind, e_id = id, e_exec = exec, e_size = size\<rparr>), r))))))))"

definition tree_decode :: "bytes \<Rightarrow> tree_obj res" where
  "tree_decode bs =
     rbind (rd_u32 (reader_new ObjectBody bs)) (\<lambda>(n, r).
     rbind (ensure (unat n \<le> MAX_DIR_ENTRIES) (ObjectE EntryCountOverCap)) (\<lambda>_.
     rbind (rd_table rd_entry (ObjectE TreeNamesNotAscending) (unat n) [] r) (\<lambda>(entries, r).
     rbind (rd_finish r) (\<lambda>_.
     Inr \<lparr>t_entries = entries\<rparr>))))"

definition entry_ok :: "rstring \<times> tree_entry \<Rightarrow> bool" where
  "entry_ok ne \<longleftrightarrow> utf8 (fst ne) \<and> length (fst ne) \<le> MAX_NAME_BYTES \<and> length (e_id (snd ne)) = 32"

definition tree_ok :: "tree_obj \<Rightarrow> bool" where
  "tree_ok t \<longleftrightarrow>
     length (t_entries t) \<le> MAX_DIR_ENTRIES \<and> bt_wf (t_entries t) \<and> list_all entry_ok (t_entries t)"

interpretation entryc: asc_table rd_entry wr_entry entry_ok "ObjectE TreeNamesNotAscending"
proof
  show "rd_entry (at w pre (wr_entry x @ t)) = Inr (x, at w (pre @ wr_entry x) t)"
    if "entry_ok x" for x w pre t
  proof -
    have "str_ok (fst x)" "length (e_id (snd x)) = 32"
      using that by (simp_all add: entry_ok_def str_ok_def caps)
    then show ?thesis
      using that by (simp add: rd_entry_def wr_entry_def codec_laws entry_ok_def prod_eq_iff)
  qed
  show "\<exists>t. entry_ok x \<and> post = wr_entry x @ t \<and> r' = at w (pre @ wr_entry x) t"
    if "rd_entry (at w pre post) = Inr (x, r')" for w pre post x r'
    using that
    by (auto simp: rd_entry_def wr_entry_def entry_ok_def str_ok_def entry_kind_from_u8_Some
        elim!: field_backwardE)
qed

lemma tree_decode_encode:
  assumes "tree_ok t"
  shows "tree_decode (tree_encode t) = Inr t"
proof -
  let ?n = "length (t_entries t)"
  have n: "?n \<le> MAX_DIR_ENTRIES" using assms by (simp add: tree_ok_def)
  then have "unat (of_nat ?n :: u32) = ?n" by (simp add: unat_of_nat caps)
  with assms n show ?thesis
    using entryc.table_forward [of "[]" "t_entries t" _ _ "[]"]
    by (simp add: tree_decode_def tree_encode_def reader_new_at codec_laws tree_ok_def)
qed

lemma tree_decode_only:
  assumes "tree_decode bs = Inr t"
  shows "tree_ok t \<and> bs = tree_encode t"
  using assms
  by (auto simp: tree_decode_def tree_encode_def tree_ok_def reader_new_at split: if_splits
      elim!: field_backwardE entryc.table_backwardE)

subsection \<open>Snapshots\<close>

definition snapshot_encode :: "snapshot_obj \<Rightarrow> bytes" where
  "snapshot_encode s = s_root s @ push_opt32 (s_parent s) @ actor_encode (s_author s) @
     to_le64 (s_time s) @ to_le64 (s_height s) @ push_string (s_message s)"

definition snapshot_decode :: "bytes \<Rightarrow> snapshot_obj res" where
  "snapshot_decode bs =
     rbind (rd_bytes32 (reader_new ObjectBody bs)) (\<lambda>(root, r).
     rbind (rd_opt32 r) (\<lambda>(parent, r).
     rbind (actor_decode r) (\<lambda>(author, r).
     rbind (rd_u64 r) (\<lambda>(time, r).
     rbind (rd_u64 r) (\<lambda>(height, r).
     rbind (rd_string r) (\<lambda>(message, r).
     rbind (ensure (length message \<le> MAX_MESSAGE_BYTES) (ObjectE SnapshotMessageOverCap)) (\<lambda>_.
     rbind (rd_finish r) (\<lambda>_.
     Inr \<lparr>s_root = root, s_parent = parent, s_author = author, s_time = time,
          s_height = height, s_message = message\<rparr>))))))))"

definition snapshot_ok :: "snapshot_obj \<Rightarrow> bool" where
  "snapshot_ok s \<longleftrightarrow>
     length (s_root s) = 32 \<and> pred_option (\<lambda>i. length i = 32) (s_parent s) \<and>
     actor_ok (s_author s) \<and> utf8 (s_message s) \<and> length (s_message s) \<le> MAX_MESSAGE_BYTES"

lemma snapshot_decode_encode:
  assumes "snapshot_ok s"
  shows "snapshot_decode (snapshot_encode s) = Inr s"
proof -
  have "str_ok (s_message s)" using assms by (simp add: snapshot_ok_def str_ok_def caps)
  with assms show ?thesis
    by (simp add: snapshot_decode_def snapshot_encode_def reader_new_at codec_laws
        stringc.forward_nil snapshot_ok_def)
qed

lemma snapshot_decode_only:
  assumes "snapshot_decode bs = Inr s"
  shows "snapshot_ok s \<and> bs = snapshot_encode s"
  using assms
  by (auto simp: snapshot_decode_def snapshot_encode_def snapshot_ok_def str_ok_def reader_new_at
      split: if_splits elim!: field_backwardE actorc.backwardE)

text \<open>The executable decoders invert the encoders, hence no two admissible values share a body.\<close>

lemma file_decode_iff: "file_decode bs = Inr f \<longleftrightarrow> file_ok f \<and> bs = file_encode f"
  using file_decode_encode file_decode_only by blast

lemma tree_decode_iff: "tree_decode bs = Inr t \<longleftrightarrow> tree_ok t \<and> bs = tree_encode t"
  using tree_decode_encode tree_decode_only by blast

lemma snapshot_decode_iff: "snapshot_decode bs = Inr s \<longleftrightarrow> snapshot_ok s \<and> bs = snapshot_encode s"
  using snapshot_decode_encode snapshot_decode_only by blast

subsection \<open>The chunk-length and shape rules\<close>

definition verify_chunk_len_at :: "u64 \<Rightarrow> nat \<Rightarrow> nat \<Rightarrow> u64 \<Rightarrow> unit res" where
  "verify_chunk_len_at sz n index got_len =
     (if index \<ge> n then Inl (ObjectE ChunkIndexOutOfRange)
      else rbind
        (if index + 1 = n then
           rbind (ok_or (checked_mul64 (of_nat n - 1) CHUNK_SIZE) (ObjectE ChunkPrefixOverflows)) (\<lambda>prefix.
           rbind (ok_or (checked_sub64 sz prefix) (ObjectE FileSizeSmallerThanChunks)) (\<lambda>last.
           if last = 0 \<or> last > CHUNK_SIZE then Inl (ObjectE LastChunkInconsistent)
           else Inr last))
         else Inr CHUNK_SIZE)
        (\<lambda>expected. if got_len \<noteq> expected then Inl (ObjectE ChunkLengthMismatch) else Inr ()))"

definition verify_chunk_len :: "file_obj \<Rightarrow> nat \<Rightarrow> u64 \<Rightarrow> unit res" where
  "verify_chunk_len f index got_len =
     verify_chunk_len_at (f_size f) (length (f_chunks f)) index got_len"

definition verify_file_shape :: "u64 \<Rightarrow> nat \<Rightarrow> unit res" where
  "verify_file_shape sz chunk_count =
     (if sz = 0 then
        (if chunk_count \<noteq> 0 then Inl (ObjectE EmptyFileHasChunks) else Inr ())
      else let n = of_nat chunk_count :: u64 in
        if n = 0 then Inl (ObjectE NonEmptyFileNoChunks)
        else rbind (ok_or (checked_mul64 (n - 1) CHUNK_SIZE) (ObjectE ChunkSpanOverflows)) (\<lambda>lower.
          rbind (ok_or (checked_mul64 n CHUNK_SIZE) (ObjectE ChunkSpanOverflows)) (\<lambda>upper.
          if sz \<le> lower \<or> sz > upper then Inl (ObjectE FileSizeInconsistent) else Inr ())))"


text \<open>
  Both rules on natural numbers. \<open>as u64\<close> of a \<open>usize\<close> is exact: a Vec holds fewer than \<open>2 ^ 64\<close>
  elements.
\<close>

lemma unat_of_nat_pred:
  assumes "0 < n" "n < 2 ^ 64"
  shows "unat (of_nat n - 1 :: u64) = n - 1"
proof -
  have "(of_nat n - 1 :: u64) = of_nat (n - 1)" using assms(1) by simp
  then show ?thesis using assms(2) by (simp only: unat_of_nat) simp
qed

lemma verify_last_chunk:
  assumes "0 < n" "n < 2 ^ 64"
  shows "verify_chunk_len_at sz n (n - 1) got = Inr () \<longleftrightarrow>
     (n - 1) * 1048576 < unat sz \<and> unat sz - (n - 1) * 1048576 \<le> 1048576 \<and>
     unat got = unat sz - (n - 1) * 1048576"
proof -
  let ?p = "(n - 1) * 1048576"
  have pred: "unat (of_nat n - 1 :: u64) = n - 1" using assms by (rule unat_of_nat_pred)
  have def: "verify_chunk_len_at sz n (n - 1) got = Inr () \<longleftrightarrow>
      (\<exists>p d. checked_mul64 (of_nat n - 1) CHUNK_SIZE = Some p \<and> checked_sub64 sz p = Some d \<and>
        d \<noteq> 0 \<and> \<not> CHUNK_SIZE < d \<and> got = d)"
    using assms(1) by (auto simp: verify_chunk_len_at_def rbind_eq_Inr split: if_splits)
  show ?thesis
  proof
    assume "verify_chunk_len_at sz n (n - 1) got = Inr ()"
    then obtain p where p: "checked_mul64 (of_nat n - 1) CHUNK_SIZE = Some p"
      and d: "checked_sub64 sz p = Some got" and b: "got \<noteq> 0" "\<not> CHUNK_SIZE < got"
      unfolding def by blast
    have "unat p = ?p" using checked_mul64_unat [OF p] pred by simp
    moreover have "unat got = unat sz - unat p" "unat p \<le> unat sz"
      using checked_sub64_unat [OF d] by auto
    moreover have "unat got \<noteq> 0" "unat got \<le> 1048576"
      using b by (simp_all add: unat_eq_0 word_less_nat_alt)
    ultimately show "?p < unat sz \<and> unat sz - ?p \<le> 1048576 \<and> unat got = unat sz - ?p"
      by linarith
  next
    assume r: "?p < unat sz \<and> unat sz - ?p \<le> 1048576 \<and> unat got = unat sz - ?p"
    have "?p < 2 ^ 64" using r unat_lt_64 [of sz] by linarith
    then obtain p where p: "checked_mul64 (of_nat n - 1) CHUNK_SIZE = Some p"
      using pred by (simp add: checked_mul64_def)
    have pu: "unat p = ?p" using checked_mul64_unat [OF p] pred by simp
    have "p \<le> sz" using r pu by (simp add: word_le_nat_alt)
    then have d: "checked_sub64 sz p = Some (sz - p)" by (simp add: checked_sub64_def)
    have du: "unat (sz - p) = unat got" using checked_sub64_unat [OF d] r pu by simp
    then have "got = sz - p" by (simp add: word_unat_eq_iff)
    moreover have "sz - p \<noteq> 0" "\<not> CHUNK_SIZE < sz - p"
      using r du by (auto simp: word_less_nat_alt simp flip: unat_eq_0)
    ultimately show "verify_chunk_len_at sz n (n - 1) got = Inr ()"
      using p d unfolding def by blast
  qed
qed

lemma verify_inner_chunk:
  "i + 1 < n \<Longrightarrow> verify_chunk_len_at sz n i got = Inr () \<longleftrightarrow> got = CHUNK_SIZE"
  by (simp add: verify_chunk_len_at_def)

lemma verify_file_shape_iff:
  assumes "n < 2 ^ 64"
  shows "verify_file_shape sz n = Inr () \<longleftrightarrow>
     (if sz = 0 then n = 0
      else 0 < n \<and> n * unat CHUNK_SIZE < 2 ^ 64 \<and> (n - 1) * unat CHUNK_SIZE < unat sz \<and>
        unat sz \<le> n * unat CHUNK_SIZE)"
proof (cases "sz = 0 \<or> n = 0")
  case True
  then show ?thesis by (auto simp: verify_file_shape_def)
next
  case False
  then have pos: "0 < n" and sz: "sz \<noteq> 0" by auto
  have pred: "unat (of_nat n - 1 :: u64) = n - 1" using pos assms by (rule unat_of_nat_pred)
  have n: "unat (of_nat n :: u64) = n" using assms by (simp add: unat_of_nat)
  then have nz: "(of_nat n :: u64) \<noteq> 0" using pos by (metis unat_0 less_numeral_extra(3))
  show ?thesis
    using pos sz nz n pred
    by (auto simp: verify_file_shape_def Let_def checked_mul64_def word_le_nat_alt word_less_nat_alt
        unat_word_ariths rbind_eq_Inr)
qed

text \<open>A well-shaped file has as many chunks as its size needs.\<close>

lemma ceil_div_iff:
  fixes c n s :: nat
  assumes "0 < c" "0 < s"
  shows "(0 < n \<and> (n - 1) * c < s \<and> s \<le> n * c) \<longleftrightarrow> n = (s + c - 1) div c"
proof
  assume a: "0 < n \<and> (n - 1) * c < s \<and> s \<le> n * c"
  then have "c * n \<le> s + c - 1 \<and> s + c - 1 < c * Suc n"
    using assms by (cases n) (auto simp: algebra_simps)
  then show "n = (s + c - 1) div c" by (metis div_nat_eqI)
next
  assume n: "n = (s + c - 1) div c"
  have "c * n + (s + c - 1) mod c = s + c - 1" by (simp add: n)
  moreover have "(s + c - 1) mod c < c" using assms by simp
  ultimately have "c * n \<le> s + c - 1 \<and> s \<le> c * n" using assms by linarith
  then show "0 < n \<and> (n - 1) * c < s \<and> s \<le> n * c"
    using assms by (cases n) (auto simp: algebra_simps)
qed

lemma verify_file_shape_count:
  assumes "n < 2 ^ 44"
  shows "verify_file_shape sz n = Inr () \<longleftrightarrow> n = (unat sz + unat CHUNK_SIZE - 1) div unat CHUNK_SIZE"
proof (cases "sz = 0")
  case True
  with assms show ?thesis by (simp add: verify_file_shape_iff)
next
  case False
  then have "0 < unat sz" by (simp add: unat_gt_0)
  with assms False show ?thesis
    using ceil_div_iff [of 1048576 "unat sz" n] by (simp add: verify_file_shape_iff)
qed

lemma verify_chunk_len_sum:
  assumes "n < 2 ^ 64" "0 < n" "length lens = n"
    and ver: "\<And>i. i < n \<Longrightarrow> verify_chunk_len_at sz n i (lens ! i) = Inr ()"
  shows "(\<Sum>l\<leftarrow>lens. unat l) = unat sz"
proof -
  obtain ini la where lens: "lens = ini @ [la]" "length ini = n - 1"
    using assms(2,3) by (cases lens rule: rev_cases) auto
  have "ini ! i = CHUNK_SIZE" if "i < n - 1" for i
    using ver [of i] that lens by (simp add: verify_inner_chunk nth_append)
  then have "ini = replicate (n - 1) CHUNK_SIZE"
    using lens(2) by (auto intro: nth_equalityI)
  moreover have "(n - 1) * 1048576 < unat sz \<and> unat la = unat sz - (n - 1) * 1048576"
  proof -
    have "verify_chunk_len_at sz n (n - 1) la = Inr ()"
      using ver [of "n - 1"] assms(2) lens by (simp add: nth_append)
    then show ?thesis
      unfolding verify_last_chunk [OF assms(2,1)] by blast
  qed
  ultimately show ?thesis using lens by (simp add: sum_list_replicate)
qed

end
