(* ===== verification/Paths.thy ===== *)
theory Paths
  imports Objects
begin

text \<open>
  crates/duckfs/core/src/paths.rs. A path is validated and split, never rewritten; \<open>nfc\<close> is the
  composition of the crate unicode-normalization, a parameter. The segments \<open>canonical\<close> returns
  determine the path (\<open>canonical_iff\<close>), so the rest of the development speaks of segment lists.
\<close>

definition SLASH :: byte where "SLASH = 0x2F"

text \<open>\<open>str::split('/')\<close>: at least one piece, empty pieces kept.\<close>

fun split_slash :: "bytes \<Rightarrow> bytes list" where
  "split_slash [] = [[]]"
| "split_slash (b # bs) =
     (if b = SLASH then [] # split_slash bs
      else (case split_slash bs of [] \<Rightarrow> [[b]] | s # ss \<Rightarrow> (b # s) # ss))"

definition check_segment :: "bytes \<Rightarrow> bytes res" where
  "check_segment s =
     (if s = [] \<or> s = str ''.'' \<or> s = str ''..'' then Inl (PathE EmptyOrDotSegment)
      else if length s > MAX_NAME_BYTES then Inl (PathE SegmentTooLong)
      else Inr s)"

definition canonical :: "(rstring \<Rightarrow> rstring) \<Rightarrow> rstring \<Rightarrow> rstring list res" where
  "canonical nfc path =
     (if path = [] \<or> hd path \<noteq> SLASH then Inl (PathE PathNotAbsolute)
      else if nfc path \<noteq> path then Inl (PathE PathNotNfc)
      else if 0 \<in> set path then Inl (PathE PathHasNul)
      else if length path > MAX_PATH_BYTES then Inl (PathE PathTooLong)
      else if path = [SLASH] then Inr []
      else rbind (rmap check_segment (split_slash (tl path))) (\<lambda>segments.
        if length segments > MAX_DEPTH then Inl (PathE PathTooDeep) else Inr segments))"

definition is_namespace_root :: "rstring list \<Rightarrow> bool" where
  "is_namespace_root segments =
     (case segments of
        [root] \<Rightarrow> root = str ''shared'' \<or> root = str ''home''
      | [root, _] \<Rightarrow> root = str ''home''
      | _ \<Rightarrow> False)"

definition check_authority :: "authority \<Rightarrow> rstring list \<Rightarrow> unit res" where
  "check_authority a segments =
     (if a = AuthSystem then Inr ()
      else case segments of
        [] \<Rightarrow> Inl (PathE OutsideNamespaces)
      | root # _ \<Rightarrow>
          if root = str ''home'' then
            (if length segments \<ge> 3 then Inr () else Inl (PathE HomeRootNotWritable))
          else if root = str ''shared'' then
            (if length segments \<ge> 2 then Inr () else Inl (PathE SharedRootNotWritable))
          else Inl (PathE OutsideNamespaces))"

subsection \<open>Splitting and joining\<close>

text \<open>The path of a segment list: the inverse of \<open>canonical\<close>.\<close>

definition join_segs :: "rstring list \<Rightarrow> rstring" where
  "join_segs segs = (if segs = [] then [SLASH] else concat (map (\<lambda>s. SLASH # s) segs))"

definition seg_ok :: "rstring \<Rightarrow> bool" where
  "seg_ok s \<longleftrightarrow> s \<noteq> [] \<and> s \<noteq> str ''.'' \<and> s \<noteq> str ''..'' \<and> SLASH \<notin> set s \<and> 0 \<notin> set s \<and>
     length s \<le> MAX_NAME_BYTES"

definition segs_ok :: "rstring list \<Rightarrow> bool" where
  "segs_ok segs \<longleftrightarrow> list_all seg_ok segs \<and> length segs \<le> MAX_DEPTH"

lemma split_slash_nonempty [simp]: "split_slash bs \<noteq> []"
  by (cases bs) (auto split: list.splits)

lemma split_slash_join: "concat (map (\<lambda>s. SLASH # s) (split_slash bs)) = SLASH # bs"
proof (induction bs)
  case (Cons b bs)
  then show ?case by (cases "split_slash bs") auto
qed simp

lemma split_slash_pieces: "s \<in> set (split_slash bs) \<Longrightarrow> SLASH \<notin> set s \<and> set s \<subseteq> set bs"
proof (induction bs arbitrary: s)
  case (Cons b bs)
  obtain t ts where "split_slash bs = t # ts" by (cases "split_slash bs") auto
  with Cons show ?case by (fastforce split: if_splits)
qed simp

lemma split_slash_piece: "SLASH \<notin> set s \<Longrightarrow> split_slash s = [s]"
  by (induction s) auto

lemma split_slash_cons: "SLASH \<notin> set s \<Longrightarrow> split_slash (s @ SLASH # bs) = s # split_slash bs"
  by (induction s) auto

lemma split_slash_concat:
  "ss \<noteq> [] \<Longrightarrow> \<forall>s \<in> set ss. SLASH \<notin> set s \<Longrightarrow>
   split_slash (tl (concat (map (\<lambda>s. SLASH # s) ss))) = ss"
proof (induction ss)
  case (Cons s ss)
  show ?case
  proof (cases ss)
    case Nil
    with Cons.prems show ?thesis by (simp add: split_slash_piece)
  next
    case (Cons t ts)
    with Cons.IH Cons.prems show ?thesis by (simp add: split_slash_cons)
  qed
qed simp

lemma rmap_check_segment:
  "rmap check_segment ss = Inr ts \<longleftrightarrow>
     ts = ss \<and> (\<forall>s \<in> set ss. s \<noteq> [] \<and> s \<noteq> str ''.'' \<and> s \<noteq> str ''..'' \<and> length s \<le> MAX_NAME_BYTES)"
  by (induction ss arbitrary: ts) (auto simp: check_segment_def rbind_eq_Inr split: if_splits)

lemma canonical_iff:
  "canonical nfc path = Inr segs \<longleftrightarrow>
     path = join_segs segs \<and> segs_ok segs \<and> nfc path = path \<and> length path \<le> MAX_PATH_BYTES"
  (is "?L \<longleftrightarrow> ?R")
proof
  assume L: ?L
  then obtain bs where path: "path = SLASH # bs" and nfc: "nfc path = path" and nul: "0 \<notin> set path"
    and len: "length path \<le> MAX_PATH_BYTES"
    by (cases path) (auto simp: canonical_def split: if_splits)
  show ?R
  proof (cases "bs = []")
    case True
    with L path show ?thesis
      by (simp add: canonical_def segs_ok_def join_segs_def split: if_splits)
  next
    case False
    with L path nul have "rmap check_segment (split_slash bs) = Inr segs" "length segs \<le> MAX_DEPTH"
      by (auto simp: canonical_def split: if_splits)
    then have segs: "segs = split_slash bs" "length segs \<le> MAX_DEPTH"
      and ok: "\<forall>s \<in> set segs. s \<noteq> [] \<and> s \<noteq> str ''.'' \<and> s \<noteq> str ''..'' \<and> length s \<le> MAX_NAME_BYTES"
      by (auto simp only: rmap_check_segment)
    have "seg_ok s" if "s \<in> set segs" for s
      using ok that nul path split_slash_pieces [of s bs] segs(1) by (auto simp: seg_ok_def)
    moreover have "path = join_segs segs"
      using path segs(1) split_slash_join [of bs] by (simp add: join_segs_def)
    ultimately show ?thesis
      using segs(2) nfc len by (simp add: segs_ok_def list_all_iff)
  qed
next
  assume R: ?R
  show ?L
  proof (cases segs)
    case Nil
    with R show ?thesis by (auto simp: canonical_def join_segs_def SLASH_def)
  next
    case (Cons s ss)
    have ok: "\<forall>t \<in> set segs. seg_ok t" using R by (simp add: segs_ok_def list_all_iff)
    have path: "path = SLASH # tl path" "path \<noteq> [SLASH]"
      using R Cons ok by (auto simp: join_segs_def seg_ok_def)
    have "split_slash (tl path) = segs"
      using split_slash_concat [of segs] R Cons ok by (simp add: join_segs_def seg_ok_def)
    moreover have "rmap check_segment segs = Inr segs"
      using ok by (simp add: rmap_check_segment seg_ok_def)
    moreover have "0 \<notin> set path"
      using R ok by (auto simp: join_segs_def seg_ok_def SLASH_def split: if_splits)
    moreover have "path \<noteq> []" "hd path = SLASH" by (metis path(1) list.distinct(1), metis path(1) list.sel(1))
    ultimately show ?thesis
      using R path(2) by (auto simp: canonical_def segs_ok_def)
  qed
qed

lemma join_segs_inj:
  assumes "segs_ok ss" "segs_ok ts" "join_segs ss = join_segs ts"
  shows "ss = ts"
proof -
  have ne: "split_slash (tl (join_segs us)) = us" if "segs_ok us" "us \<noteq> []" for us
    using that split_slash_concat [of us] by (auto simp: join_segs_def segs_ok_def seg_ok_def list_all_iff)
  have root: "us = []" if "segs_ok us" "join_segs us = [SLASH]" for us
    using that by (cases us) (auto simp: join_segs_def segs_ok_def seg_ok_def)
  show ?thesis
    using assms ne [of ss] ne [of ts] root [of ss] root [of ts]
    by (metis join_segs_def)
qed

text \<open>The write gate, stated by namespaces.\<close>

lemma check_authority_iff:
  "check_authority a segs = Inr () \<longleftrightarrow>
     a = AuthSystem \<or>
     (\<exists>label s rest. segs = str ''home'' # label # s # rest) \<or>
     (\<exists>s rest. segs = str ''shared'' # s # rest)"
  by (cases segs rule: list.exhaust; cases "tl segs"; cases "tl (tl segs)")
    (auto simp: check_authority_def)

text \<open>The segments of a string are strings, since the slash is ASCII.\<close>

lemma utf8_SLASH: "utf8 (SLASH # s) = utf8 s"
  by (simp add: utf8_lead_def utf8_width_def SLASH_def)

lemma utf8_segments: "utf8 (concat (map (\<lambda>s. SLASH # s) ss)) \<Longrightarrow> list_all utf8 ss"
proof (induction ss)
  case (Cons s ss)
  then have u: "utf8 (s @ concat (map (\<lambda>s. SLASH # s) ss))" by (simp add: utf8_SLASH del: utf8.simps)
  show ?case
  proof (cases ss)
    case Nil
    then show ?thesis using u by simp
  next
    case (Cons t ts)
    have "SLASH \<le> 0x7F" by (simp add: SLASH_def)
    then have "utf8 s \<and> utf8 (concat (map (\<lambda>s. SLASH # s) ss))"
      using utf8_split [of s SLASH] u Cons by (simp del: utf8.simps)
    then show ?thesis using Cons.IH by simp
  qed
qed simp

lemma canonical_names: "canonical nfc path = Inr segs \<Longrightarrow> utf8 path \<Longrightarrow> \<forall>s \<in> set segs. utf8 s \<and> length s \<le> MAX_NAME_BYTES"
  using utf8_segments [of segs]
  by (auto simp: canonical_iff join_segs_def segs_ok_def seg_ok_def list_all_iff split: if_splits)

end
