(* ===== verification/Refs_State.thy ===== *)
theory Refs_State
  imports Paths
begin

text \<open>
  crates/duckfs/core/src/state.rs: \<open>Refs\<close>, the whole mutable state of duckfs, its canonical image,
  the arithmetic that predicts the length of the image, and the block-object index of the wasm
  guest. A \<open>VecDeque\<close> is the list of its elements front first. \<open>decode_refs_iff\<close> says which values
  have an image and that the image is unique.
\<close>

record pin_entry =
  pin_snapshot :: object_id
  pin_owner :: actor

record staged =
  st_owner :: actor
  st_len :: u64
  st_expires_at :: u64

record refs =
  source_revision :: u64
  head :: "object_id option"
  window :: "object_id list"
  pins :: "(rstring, pin_entry) btree"
  staging :: "(object_id, staged) btree"
  watches :: "(rstring \<times> rstring, unit) btree"
  retention_root :: "object_id option"

definition refs_default :: refs where
  "refs_default = \<lparr>source_revision = 0, head = None, window = [], pins = [], staging = [],
     watches = [], retention_root = None\<rparr>"

subsection \<open>The image\<close>

definition wr_pin :: "rstring \<times> pin_entry \<Rightarrow> bytes" where
  "wr_pin np = push_string (fst np) @ pin_snapshot (snd np) @ actor_encode (pin_owner (snd np))"

definition wr_staged :: "object_id \<times> staged \<Rightarrow> bytes" where
  "wr_staged ds = fst ds @ actor_encode (st_owner (snd ds)) @ to_le64 (st_len (snd ds)) @
     to_le64 (st_expires_at (snd ds))"

definition wr_watch :: "(rstring \<times> rstring) \<times> unit \<Rightarrow> bytes" where
  "wr_watch pm = push_string (fst (fst pm)) @ push_string (snd (fst pm))"

definition encode_refs :: "refs \<Rightarrow> bytes" where
  "encode_refs r =
     push_opt32 (head r) @
     push_u32 (of_nat (length (window r))) @ concat (window r) @
     push_u32 (of_nat (length (pins r))) @ concat (map wr_pin (pins r)) @
     push_u32 (of_nat (length (staging r))) @ concat (map wr_staged (staging r)) @
     push_u32 (of_nat (length (watches r))) @ concat (map wr_watch (watches r)) @
     to_le64 (source_revision r) @
     push_opt32 (retention_root r)"

definition pin_entry_len :: "rstring \<Rightarrow> actor \<Rightarrow> nat" where
  "pin_entry_len name owner = 8 + length name + 32 + actor_encoded_len owner"

definition staged_entry_len :: "actor \<Rightarrow> nat" where
  "staged_entry_len owner = 32 + actor_encoded_len owner + 8 + 8"

definition watch_entry_len :: "rstring \<Rightarrow> rstring \<Rightarrow> nat" where
  "watch_entry_len prefix module_id = 8 + length prefix + 8 + length module_id"

definition opt_len :: "object_id option \<Rightarrow> nat" where
  "opt_len x = 1 + (case x of None \<Rightarrow> 0 | Some _ \<Rightarrow> 32)"

definition encoded_refs_len :: "refs \<Rightarrow> nat" where
  "encoded_refs_len r =
     opt_len (head r) + (4 + 32 * length (window r)) +
     (4 + (\<Sum>(name, pin)\<leftarrow>pins r. pin_entry_len name (pin_owner pin))) +
     (4 + (\<Sum>(_, s)\<leftarrow>staging r. staged_entry_len (st_owner s))) +
     (4 + (\<Sum>((prefix, module_id), _)\<leftarrow>watches r. watch_entry_len prefix module_id)) +
     8 + opt_len (retention_root r)"

definition rd_pin :: "reader \<Rightarrow> ((rstring \<times> pin_entry) \<times> reader) res" where
  "rd_pin r = rbind (rd_string r) (\<lambda>(name, r). rbind (rd_bytes32 r) (\<lambda>(snapshot, r).
     rbind (actor_decode r) (\<lambda>(owner, r).
     Inr ((name, \<lparr>pin_snapshot = snapshot, pin_owner = owner\<rparr>), r))))"

definition rd_staged :: "reader \<Rightarrow> ((object_id \<times> staged) \<times> reader) res" where
  "rd_staged r = rbind (rd_bytes32 r) (\<lambda>(digest, r). rbind (actor_decode r) (\<lambda>(owner, r).
     rbind (rd_u64 r) (\<lambda>(len, r). rbind (rd_u64 r) (\<lambda>(expires_at, r).
     Inr ((digest, \<lparr>st_owner = owner, st_len = len, st_expires_at = expires_at\<rparr>), r)))))"

definition rd_watch :: "reader \<Rightarrow> (((rstring \<times> rstring) \<times> unit) \<times> reader) res" where
  "rd_watch r = rbind (rd_string r) (\<lambda>(prefix, r). rbind (rd_string r) (\<lambda>(module_id, r).
     Inr (((prefix, module_id), ()), r)))"

definition decode_refs :: "bytes \<Rightarrow> refs res" where
  "decode_refs bs =
     rbind (ensure (length bs \<le> MAX_REFS_IMAGE_BYTES) (RefsE RefsImageOverCap)) (\<lambda>_.
     rbind (rd_opt32 (reader_new RefsImage bs)) (\<lambda>(hd, r).
     rbind (rd_u32 r) (\<lambda>(n, r).
     rbind (ensure (unat n \<le> HISTORY_WINDOW) (RefsE WindowCountOverCap)) (\<lambda>_.
     rbind (rd_times rd_bytes32 (unat n) r) (\<lambda>(win, r).
     rbind (rd_u32 r) (\<lambda>(n, r).
     rbind (ensure (unat n \<le> MAX_PINS) (RefsE PinCountOverCap)) (\<lambda>_.
     rbind (rd_table rd_pin (RefsE PinsNotAscending) (unat n) [] r) (\<lambda>(ps, r).
     rbind (rd_u32 r) (\<lambda>(n, r).
     rbind (ensure (unat n \<le> MAX_STAGING_ENTRIES) (RefsE StagingCountOverCap)) (\<lambda>_.
     rbind (rd_table rd_staged (RefsE StagingNotAscending) (unat n) [] r) (\<lambda>(st, r).
     rbind (rd_u32 r) (\<lambda>(n, r).
     rbind (ensure (unat n \<le> MAX_WATCHES) (RefsE WatchCountOverCap)) (\<lambda>_.
     rbind (rd_table rd_watch (RefsE WatchesNotAscending) (unat n) [] r) (\<lambda>(ws, r).
     rbind (rd_u64 r) (\<lambda>(rev, r).
     rbind (rd_opt32 r) (\<lambda>(root, r).
     rbind (rd_finish r) (\<lambda>_.
     Inr \<lparr>source_revision = rev, head = hd, window = win, pins = ps, staging = st,
          watches = ws, retention_root = root\<rparr>)))))))))))))))))"

definition root_bytes :: "(bytes \<Rightarrow> object_id) \<Rightarrow> refs \<Rightarrow> object_id" where
  "root_bytes H r = H (encode_refs r)"

subsection \<open>What an image holds\<close>

definition pin_ok :: "rstring \<times> pin_entry \<Rightarrow> bool" where
  "pin_ok np \<longleftrightarrow> str_ok (fst np) \<and> length (pin_snapshot (snd np)) = 32 \<and> actor_ok (pin_owner (snd np))"

definition staged_ok :: "object_id \<times> staged \<Rightarrow> bool" where
  "staged_ok ds \<longleftrightarrow> length (fst ds) = 32 \<and> actor_ok (st_owner (snd ds))"

definition watch_ok :: "(rstring \<times> rstring) \<times> unit \<Rightarrow> bool" where
  "watch_ok pm \<longleftrightarrow> str_ok (fst (fst pm)) \<and> str_ok (snd (fst pm))"

definition id_ok :: "object_id \<Rightarrow> bool" where
  "id_ok i \<longleftrightarrow> length i = 32"

definition refs_typed :: "refs \<Rightarrow> bool" where
  "refs_typed r \<longleftrightarrow>
     pred_option id_ok (head r) \<and> list_all id_ok (window r) \<and>
     bt_wf (pins r) \<and> list_all pin_ok (pins r) \<and>
     bt_wf (staging r) \<and> list_all staged_ok (staging r) \<and>
     bt_wf (watches r) \<and> list_all watch_ok (watches r) \<and>
     pred_option id_ok (retention_root r)"

definition refs_counts :: "refs \<Rightarrow> bool" where
  "refs_counts r \<longleftrightarrow> length (window r) \<le> HISTORY_WINDOW \<and> length (pins r) \<le> MAX_PINS \<and>
     length (staging r) \<le> MAX_STAGING_ENTRIES \<and> length (watches r) \<le> MAX_WATCHES"

definition refs_ok :: "refs \<Rightarrow> bool" where
  "refs_ok r \<longleftrightarrow> refs_typed r \<and> refs_counts r \<and> encoded_refs_len r \<le> MAX_REFS_IMAGE_BYTES"

interpretation pinc: asc_table rd_pin wr_pin pin_ok "RefsE PinsNotAscending"
proof
  show "rd_pin (at w pre (wr_pin x @ t)) = Inr (x, at w (pre @ wr_pin x) t)"
    if "pin_ok x" for x w pre t
    using that by (cases x) (simp add: rd_pin_def wr_pin_def codec_laws pin_ok_def)
  show "\<exists>t. pin_ok x \<and> post = wr_pin x @ t \<and> r' = at w (pre @ wr_pin x) t"
    if "rd_pin (at w pre post) = Inr (x, r')" for w pre post x r'
    using that
    by (auto simp: rd_pin_def wr_pin_def pin_ok_def elim!: field_backwardE actorc.backwardE)
qed

interpretation stagedc: asc_table rd_staged wr_staged staged_ok "RefsE StagingNotAscending"
proof
  show "rd_staged (at w pre (wr_staged x @ t)) = Inr (x, at w (pre @ wr_staged x) t)"
    if "staged_ok x" for x w pre t
    using that by (cases x) (simp add: rd_staged_def wr_staged_def codec_laws staged_ok_def)
  show "\<exists>t. staged_ok x \<and> post = wr_staged x @ t \<and> r' = at w (pre @ wr_staged x) t"
    if "rd_staged (at w pre post) = Inr (x, r')" for w pre post x r'
    using that
    by (auto simp: rd_staged_def wr_staged_def staged_ok_def elim!: field_backwardE actorc.backwardE)
qed

interpretation watchc: asc_table rd_watch wr_watch watch_ok "RefsE WatchesNotAscending"
proof
  show "rd_watch (at w pre (wr_watch x @ t)) = Inr (x, at w (pre @ wr_watch x) t)"
    if "watch_ok x" for x w pre t
    using that by (cases x) (auto simp add: rd_watch_def wr_watch_def codec_laws watch_ok_def)
  show "\<exists>t. watch_ok x \<and> post = wr_watch x @ t \<and> r' = at w (pre @ wr_watch x) t"
    if "rd_watch (at w pre post) = Inr (x, r')" for w pre post x r'
    using that
    by (auto simp: rd_watch_def wr_watch_def watch_ok_def elim!: field_backwardE)
qed

text \<open>The predicted length of the image is its length.\<close>

lemma length_concat_ids: "list_all id_ok is \<Longrightarrow> length (concat is) = 32 * length is"
  by (induction "is") (simp_all add: id_ok_def)

lemma length_wr_pin: "pin_ok (name, pin) \<Longrightarrow> length (wr_pin (name, pin)) = pin_entry_len name (pin_owner pin)"
  by (simp add: wr_pin_def pin_ok_def pin_entry_len_def length_actor_encode)

lemma length_wr_staged: "staged_ok (d, s) \<Longrightarrow> length (wr_staged (d, s)) = staged_entry_len (st_owner s)"
  by (simp add: wr_staged_def staged_ok_def staged_entry_len_def length_actor_encode)

lemma length_wr_watch: "length (wr_watch ((p, m), u)) = watch_entry_len p m"
  by (simp add: wr_watch_def watch_entry_len_def)

lemma opt_len_eq: "pred_option id_ok x \<Longrightarrow> length (push_opt32 x) = opt_len x"
  by (cases x) (simp_all add: push_opt32_def opt_len_def id_ok_def)

lemma length_encode_refs:
  assumes "refs_typed r"
  shows "length (encode_refs r) = encoded_refs_len r"
proof -
  have "(\<Sum>x\<leftarrow>pins r. length (wr_pin x)) =
      (\<Sum>(name, pin)\<leftarrow>pins r. pin_entry_len name (pin_owner pin))"
    using assms
    by (intro arg_cong [where f = sum_list] map_cong refl)
      (auto simp: refs_typed_def list_all_iff length_wr_pin)
  moreover have "(\<Sum>x\<leftarrow>staging r. length (wr_staged x)) =
      (\<Sum>(_, s)\<leftarrow>staging r. staged_entry_len (st_owner s))"
    using assms
    by (intro arg_cong [where f = sum_list] map_cong refl)
      (auto simp: refs_typed_def list_all_iff length_wr_staged)
  moreover have "(\<Sum>x\<leftarrow>watches r. length (wr_watch x)) =
      (\<Sum>((p, m), _)\<leftarrow>watches r. watch_entry_len p m)"
    by (intro arg_cong [where f = sum_list] map_cong refl) (auto simp: length_wr_watch)
  ultimately show ?thesis
    using assms
    by (simp add: encode_refs_def encoded_refs_len_def length_concat comp_def push_u32_def
        opt_len_eq refs_typed_def length_concat_ids [unfolded length_concat])
qed

lemma refs_counts_u32:
  assumes "refs_counts r"
  shows "unat (of_nat (length (window r)) :: u32) = length (window r)"
    "unat (of_nat (length (pins r)) :: u32) = length (pins r)"
    "unat (of_nat (length (staging r)) :: u32) = length (staging r)"
    "unat (of_nat (length (watches r)) :: u32) = length (watches r)"
  using assms by (simp_all add: unat_of_nat refs_counts_def caps)

lemma decode_encode_refs:
  assumes "refs_ok r"
  shows "decode_refs (encode_refs r) = Inr r"
proof -
  have len: "length (encode_refs r) \<le> MAX_REFS_IMAGE_BYTES"
    using assms by (simp add: refs_ok_def length_encode_refs)
  have typed: "refs_typed r" and counts: "refs_counts r" using assms by (simp_all add: refs_ok_def)
  have ids: "list_all (\<lambda>i. length i = 32) (window r)" "pred_option (\<lambda>i. length i = 32) (head r)"
    "pred_option (\<lambda>i. length i = 32) (retention_root r)"
    using typed by (simp_all add: refs_typed_def id_ok_def [abs_def])
  note fields = codec_laws id32.times_forward [OF ids(1), simplified]
    pinc.table_read stagedc.table_read watchc.table_read opt32.forward_nil
  show ?thesis
    using len [unfolded encode_refs_def push_u32_def] typed counts ids
    by (simp add: decode_refs_def encode_refs_def push_u32_def reader_new_at fields
        refs_counts_u32 refs_typed_def) (simp add: refs_counts_def)
qed

lemma decode_refs_only:
  assumes "decode_refs bs = Inr r"
  shows "refs_ok r \<and> bs = encode_refs r"
proof -
  have "refs_typed r \<and> refs_counts r \<and> bs = encode_refs r" and len: "length bs \<le> MAX_REFS_IMAGE_BYTES"
    using assms
    by (auto simp: decode_refs_def encode_refs_def push_u32_def refs_typed_def refs_counts_def
        id_ok_def [abs_def] reader_new_at split: if_splits
        elim!: field_backwardE id32.times_backwardE pinc.table_backwardE stagedc.table_backwardE
          watchc.table_backwardE)
  then show ?thesis using length_encode_refs [of r] by (auto simp: refs_ok_def)
qed

lemma decode_refs_iff: "decode_refs bs = Inr r \<longleftrightarrow> refs_ok r \<and> bs = encode_refs r"
  using decode_encode_refs decode_refs_only by blast

lemma encode_refs_inj: "refs_ok r \<Longrightarrow> refs_ok s \<Longrightarrow> encode_refs r = encode_refs s \<Longrightarrow> r = s"
  by (metis decode_encode_refs sum.inject(2))

subsection \<open>The block-object index of the guest\<close>

type_synonym block_index = "(object_id, kind \<times> u64) btree"

definition wr_block_object :: "object_id \<times> kind \<times> u64 \<Rightarrow> bytes" where
  "wr_block_object x = (case x of (i, kind, len) \<Rightarrow> i @ kind_tag kind # to_le64 len)"

definition encode_block_objects :: "block_index \<Rightarrow> bytes" where
  "encode_block_objects index =
     push_u32 (of_nat (length index)) @ concat (map wr_block_object index)"

definition rd_block_object :: "reader \<Rightarrow> ((object_id \<times> kind \<times> u64) \<times> reader) res" where
  "rd_block_object r = rbind (rd_bytes32 r) (\<lambda>(id, r). rbind (rd_u8 r) (\<lambda>(tag, r).
     rbind (ok_or (kind_from_u8 tag) (RefsE BlockObjectsUnknownKind)) (\<lambda>kind.
     rbind (rd_u64 r) (\<lambda>(len, r). Inr ((id, kind, len), r)))))"

text \<open>The loop reads the entries in order and inserts each; it checks no order.\<close>

definition decode_block_objects :: "bytes \<Rightarrow> block_index res" where
  "decode_block_objects bs =
     rbind (rd_u32 (reader_new BlockObjects bs)) (\<lambda>(n, r).
     rbind (rd_times rd_block_object (unat n) r) (\<lambda>(es, r).
     rbind (rd_finish r) (\<lambda>_.
     Inr (fold (\<lambda>(id, v) index. bt_insert id v index) es []))))"

definition block_object_ok :: "object_id \<times> kind \<times> u64 \<Rightarrow> bool" where
  "block_object_ok x \<longleftrightarrow> length (fst x) = 32"

interpretation blockc: cursor_codec rd_block_object wr_block_object block_object_ok
proof
  show "rd_block_object (at w pre (wr_block_object x @ t)) = Inr (x, at w (pre @ wr_block_object x) t)"
    if "block_object_ok x" for x w pre t
    using that by (cases x) (simp add: rd_block_object_def wr_block_object_def codec_laws block_object_ok_def)
  show "\<exists>t. block_object_ok x \<and> post = wr_block_object x @ t \<and> r' = at w (pre @ wr_block_object x) t"
    if "rd_block_object (at w pre post) = Inr (x, r')" for w pre post x r'
    using that
    by (auto simp: rd_block_object_def wr_block_object_def block_object_ok_def kind_from_u8_Some
        elim!: field_backwardE)
qed

lemma fold_insert_sorted:
  "bt_wf (acc @ es) \<Longrightarrow> fold (\<lambda>(id, v) index. bt_insert id v index) es acc = acc @ es"
proof (induction es arbitrary: acc)
  case (Cons x es)
  obtain k v where x: "x = (k, v)" by (cases x)
  from Cons.prems x have wf: "bt_wf ((acc @ [(k, v)]) @ es)" by simp
  then have "bt_wf (acc @ [(k, v)])"
    unfolding bt_wf_append [of "acc @ [(k, v)]"] by blast
  with Cons.IH [OF wf] x show ?case by (simp add: bt_insert_snoc)
qed simp

lemma decode_encode_block_objects:
  assumes "bt_wf index" "list_all block_object_ok index" "length index < 2 ^ 32"
  shows "decode_block_objects (encode_block_objects index) = Inr index"
proof -
  have "unat (of_nat (length index) :: u32) = length index"
    using assms(3) by (simp add: unat_of_nat)
  then show ?thesis
    using assms fold_insert_sorted [of "[]" index] blockc.times_forward [of index _ _ "[]"]
    by (simp add: decode_block_objects_def encode_block_objects_def push_u32_def reader_new_at
        codec_laws)
qed

lemma bt_wf_fold_insert: "bt_wf m \<Longrightarrow> bt_wf (fold (\<lambda>(id, v) index. bt_insert id v index) es m)"
  by (induction es arbitrary: m) (auto simp: bt_wf_insert)

lemma decode_block_objects_wf: "decode_block_objects bs = Inr index \<Longrightarrow> bt_wf index"
  by (auto simp: decode_block_objects_def bt_wf_fold_insert)

end
