(* ===== verification/Object_Store.thy ===== *)
theory Object_Store
  imports Refs_State
begin

text \<open>
  crates/duckfs/core/src/store.rs: the persistence seam. A trait is the record of its methods over
  the implementor's state; a method taking \<open>&mut self\<close> returns the state with its result, whether
  it failed or not. \<open>MemStore\<close> and \<open>MemRefs\<close> are the implementors of this file.

  What the core relies on is the locale \<open>object_store\<close>: \<open>contents\<close> is the map an implementor holds
  and every object is filed under the id its bytes hash to. Reads may fail (a disk), so their laws
  speak of successful calls.
\<close>

subsection \<open>The traits\<close>

record 's store_ops =
  so_put :: "kind \<Rightarrow> bytes \<Rightarrow> 's \<Rightarrow> object_id res \<times> 's"
  so_get :: "'s \<Rightarrow> object_id \<Rightarrow> (kind \<times> bytes) option res"
  so_has :: "'s \<Rightarrow> object_id \<Rightarrow> bool"
  so_verify :: "object_id \<Rightarrow> 's \<Rightarrow> bool res \<times> 's"
  so_stat :: "'s \<Rightarrow> object_id \<Rightarrow> (kind \<times> u64) option res"
  so_remove :: "object_id \<Rightarrow> 's \<Rightarrow> unit res \<times> 's"
  so_list :: "'s \<Rightarrow> object_id list res"
  so_sync_dirs :: "'s \<Rightarrow> unit res \<times> 's"

record 'r refs_store_ops =
  ro_load :: "'r \<Rightarrow> (refs \<times> u64 \<times> u64) option res"
  ro_save :: "refs \<Rightarrow> u64 \<Rightarrow> u64 \<Rightarrow> 'r \<Rightarrow> unit res \<times> 'r"

subsection \<open>The in-memory stores\<close>

type_synonym mem_store = "(object_id, kind \<times> bytes) btree"

definition mem_put :: "(bytes \<Rightarrow> object_id) \<Rightarrow> kind \<Rightarrow> bytes \<Rightarrow> mem_store \<Rightarrow> object_id res \<times> mem_store" where
  "mem_put H k body s = (let i = object_id H k body in (Inr i, bt_insert i (k, body) s))"

definition mem_get :: "mem_store \<Rightarrow> object_id \<Rightarrow> (kind \<times> bytes) option res" where
  "mem_get s i = Inr (bt_get s i)"

definition mem_has :: "mem_store \<Rightarrow> object_id \<Rightarrow> bool" where
  "mem_has s i = bt_has s i"

text \<open>The trait's default \<open>verify\<close>: presence is trusted.\<close>

definition mem_verify :: "object_id \<Rightarrow> mem_store \<Rightarrow> bool res \<times> mem_store" where
  "mem_verify i s = (Inr (mem_has s i), s)"

definition mem_stat :: "mem_store \<Rightarrow> object_id \<Rightarrow> (kind \<times> u64) option res" where
  "mem_stat s i = Inr (map_option (\<lambda>(k, body). (k, of_nat (length body))) (bt_get s i))"

definition mem_remove :: "object_id \<Rightarrow> mem_store \<Rightarrow> unit res \<times> mem_store" where
  "mem_remove i s = (Inr (), bt_remove i s)"

definition mem_list :: "mem_store \<Rightarrow> object_id list res" where
  "mem_list s = Inr (map fst s)"

definition mem_sync_dirs :: "mem_store \<Rightarrow> unit res \<times> mem_store" where
  "mem_sync_dirs s = (Inr (), s)"

definition mem_ops :: "(bytes \<Rightarrow> object_id) \<Rightarrow> mem_store store_ops" where
  "mem_ops H = \<lparr>so_put = mem_put H, so_get = mem_get, so_has = mem_has, so_verify = mem_verify,
     so_stat = mem_stat, so_remove = mem_remove, so_list = mem_list, so_sync_dirs = mem_sync_dirs\<rparr>"

type_synonym mem_refs = "(refs \<times> u64 \<times> u64) option"

definition mem_refs_load :: "mem_refs \<Rightarrow> (refs \<times> u64 \<times> u64) option res" where
  "mem_refs_load s = Inr s"

definition mem_refs_save :: "refs \<Rightarrow> u64 \<Rightarrow> u64 \<Rightarrow> mem_refs \<Rightarrow> unit res \<times> mem_refs" where
  "mem_refs_save r height watermark s = (Inr (), Some (r, height, watermark))"

definition mem_refs_ops :: "mem_refs refs_store_ops" where
  "mem_refs_ops = \<lparr>ro_load = mem_refs_load, ro_save = mem_refs_save\<rparr>"

subsection \<open>The contract\<close>

type_synonym contents = "object_id \<Rightarrow> (kind \<times> bytes) option"

definition addressed :: "(bytes \<Rightarrow> object_id) \<Rightarrow> contents \<Rightarrow> bool" where
  "addressed H F \<longleftrightarrow> (\<forall>i k body. F i = Some (k, body) \<longrightarrow> i = object_id H k body)"

text \<open>The objects a caller flushes one by one, stopping at the first failure.\<close>

fun put_all :: "'s store_ops \<Rightarrow> (kind \<times> bytes) list \<Rightarrow> 's \<Rightarrow> unit res \<times> 's" where
  "put_all ops [] s = (Inr (), s)"
| "put_all ops ((k, body) # os) s =
     (case so_put ops k body s of
        (Inl e, s') \<Rightarrow> (Inl e, s')
      | (Inr _, s') \<Rightarrow> put_all ops os s')"

text \<open>The sweep of a collector: remove each listed id outside \<open>live\<close>, counting.\<close>

fun remove_dead :: "'s store_ops \<Rightarrow> (object_id \<Rightarrow> bool) \<Rightarrow> object_id list \<Rightarrow> u64 \<Rightarrow> 's \<Rightarrow> u64 res \<times> 's" where
  "remove_dead ops live [] n s = (Inr n, s)"
| "remove_dead ops live (i # is) n s =
     (if live i then remove_dead ops live is n s
      else (case so_remove ops i s of
              (Inl e, s') \<Rightarrow> (Inl e, s')
            | (Inr _, s') \<Rightarrow> remove_dead ops live is (n + 1) s'))"

locale object_store =
  fixes H :: "bytes \<Rightarrow> object_id"
    and ops :: "'s store_ops"
    and contents :: "'s \<Rightarrow> contents"
    and valid :: "'s \<Rightarrow> bool"
  assumes valid_addressed: "valid s \<Longrightarrow> addressed H (contents s)"
    and get_sound: "valid s \<Longrightarrow> so_get ops s i = Inr x \<Longrightarrow> x = contents s i"
    and has_iff: "valid s \<Longrightarrow> so_has ops s i \<longleftrightarrow> contents s i \<noteq> None"
    and stat_sound: "valid s \<Longrightarrow> so_stat ops s i = Inr y \<Longrightarrow>
      y = map_option (\<lambda>(k, body). (k, of_nat (length body))) (contents s i)"
    and put_ok: "valid s \<Longrightarrow> so_put ops k body s = (Inr i, s') \<Longrightarrow>
      i = object_id H k body \<and> valid s' \<and>
      (contents s' = (contents s)(i \<mapsto> (k, body)) \<or> contents s' = contents s \<and> contents s i \<noteq> None)"
    and put_err: "valid s \<Longrightarrow> so_put ops k body s = (Inl e, s') \<Longrightarrow>
      valid s' \<and> contents s \<subseteq>\<^sub>m contents s'"
    and remove_ok: "valid s \<Longrightarrow> so_remove ops i s = (Inr u, s') \<Longrightarrow>
      valid s' \<and> contents s' = (contents s)(i := None)"
    and remove_err: "valid s \<Longrightarrow> so_remove ops i s = (Inl e, s') \<Longrightarrow>
      valid s' \<and> contents s' \<subseteq>\<^sub>m contents s \<and> (\<forall>j. j \<noteq> i \<longrightarrow> contents s' j = contents s j)"
    and verify_ok: "valid s \<Longrightarrow> so_verify ops i s = (r, s') \<Longrightarrow>
      valid s' \<and> contents s' \<subseteq>\<^sub>m contents s \<and> (r = Inr True \<longrightarrow> contents s' = contents s \<and> contents s i \<noteq> None)"
    and list_sound: "so_list ops s = Inr is \<Longrightarrow> valid s \<Longrightarrow> set is = dom (contents s)"
begin

text \<open>A flush that succeeds leaves every object readable and loses none.\<close>

lemma put_exact:
  assumes "valid s" "so_put ops k body s = (Inr i, s')"
    and inj: "inj_on (\<lambda>(k, body). object_id H k body) (insert (k, body) (ran (contents s)))"
  shows "contents s' = (contents s)(object_id H k body \<mapsto> (k, body))" "contents s \<subseteq>\<^sub>m contents s'"
proof -
  let ?h = "\<lambda>(k, body). object_id H k body"
  have same: "kb = (k, body)" if "contents s (object_id H k body) = Some kb" for kb
  proof -
    have "?h kb = ?h (k, body)"
      using valid_addressed [OF assms(1)] that by (cases kb) (simp add: addressed_def)
    moreover have "kb \<in> ran (contents s)" using that by (auto simp: ran_def)
    ultimately show ?thesis using inj_onD [OF inj] by blast
  qed
  show eq: "contents s' = (contents s)(object_id H k body \<mapsto> (k, body))"
    using put_ok [OF assms(1,2)] same by (auto simp: fun_eq_iff)
  show "contents s \<subseteq>\<^sub>m contents s'" unfolding eq using same by (auto simp: map_le_def)
qed

lemma put_all_keeps:
  assumes "valid s" "put_all ops os s = (Inr u, s')" "inj_on (\<lambda>(k, body). object_id H k body) (set os \<union> ran (contents s))"
  shows "valid s'" "\<And>k body. (k, body) \<in> set os \<Longrightarrow> contents s' (object_id H k body) = Some (k, body)"
    and "contents s \<subseteq>\<^sub>m contents s'"
proof -
  have "valid s' \<and> (\<forall>(k, body) \<in> set os. contents s' (object_id H k body) = Some (k, body)) \<and> contents s \<subseteq>\<^sub>m contents s'"
    using assms
  proof (induction os arbitrary: s)
    case (Cons o1 os)
    obtain k body where o1: "o1 = (k, body)" by (cases o1)
    from Cons.prems(2) o1 obtain i s1 where p: "so_put ops k body s = (Inr i, s1)"
      and rest: "put_all ops os s1 = (Inr u, s')"
      by (auto split: prod.splits sum.splits)
    have "inj_on (\<lambda>(k, body). object_id H k body) (insert (k, body) (ran (contents s)))"
      by (rule inj_on_subset [OF Cons.prems(3)]) (auto simp: o1)
    note s1 = put_exact [OF Cons.prems(1) p this]
    have "ran (contents s1) \<subseteq> insert (k, body) (ran (contents s))" unfolding s1(1) by (auto simp: ran_def)
    then have "inj_on (\<lambda>(k, body). object_id H k body) (set os \<union> ran (contents s1))"
      by (intro inj_on_subset [OF Cons.prems(3)]) (auto simp: o1)
    moreover have "valid s1" using put_ok [OF Cons.prems(1) p] by simp
    ultimately have "valid s' \<and> (\<forall>(k, body) \<in> set os. contents s' (object_id H k body) = Some (k, body)) \<and>
        contents s1 \<subseteq>\<^sub>m contents s'"
      using Cons.IH rest by blast
    moreover from this have "contents s' (object_id H k body) = Some (k, body)"
      using s1(1) by (auto simp: map_le_def dom_def)
    ultimately show ?case using s1(2) o1 map_le_trans by auto
  qed simp
  then show "valid s'" "\<And>k body. (k, body) \<in> set os \<Longrightarrow> contents s' (object_id H k body) = Some (k, body)"
    "contents s \<subseteq>\<^sub>m contents s'" by auto
qed

text \<open>A sweep, finished or interrupted by a failure, never touches a live object.\<close>

lemma remove_dead_live:
  "valid s \<Longrightarrow> remove_dead ops live is n s = (r, s') \<Longrightarrow>
   valid s' \<and> contents s' \<subseteq>\<^sub>m contents s \<and> (\<forall>i. live i \<longrightarrow> contents s' i = contents s i)"
proof (induction "is" arbitrary: s n)
  case (Cons i "is")
  show ?case
  proof (cases "live i")
    case True
    then show ?thesis using Cons by simp
  next
    case False
    obtain q s1 where q: "so_remove ops i s = (q, s1)" by (cases "so_remove ops i s")
    have s1: "valid s1" "contents s1 \<subseteq>\<^sub>m contents s" "\<And>j. j \<noteq> i \<Longrightarrow> contents s1 j = contents s j"
      using remove_ok [OF Cons.prems(1), of i _ s1] remove_err [OF Cons.prems(1), of i _ s1] q
      by (cases q; auto simp: map_le_def)+
    have "valid s' \<and> contents s' \<subseteq>\<^sub>m contents s1 \<and> (\<forall>i. live i \<longrightarrow> contents s' i = contents s1 i)"
      using Cons.prems(2) False q s1 Cons.IH [of s1 "n + 1"] by (auto split: sum.splits)
    then show ?thesis using s1 False by (metis map_le_trans)
  qed
qed simp

text \<open>A finished sweep over the listing removed everything else.\<close>

lemma remove_dead_done:
  "valid s \<Longrightarrow> remove_dead ops live is n s = (Inr m, s') \<Longrightarrow>
   \<forall>i. contents s' i = (if i \<in> set is \<and> \<not> live i then None else contents s i)"
proof (induction "is" arbitrary: s n)
  case (Cons i "is")
  show ?case
  proof (cases "live i")
    case True
    then show ?thesis using Cons by auto
  next
    case False
    with Cons.prems obtain u s1 where q: "so_remove ops i s = (Inr u, s1)"
      and rest: "remove_dead ops live is (n + 1) s1 = (Inr m, s')"
      by (auto split: prod.splits sum.splits)
    from remove_ok [OF Cons.prems(1) q] show ?thesis
      using Cons.IH [OF _ rest] False by auto
  qed
qed simp

end

definition mem_valid :: "(bytes \<Rightarrow> object_id) \<Rightarrow> mem_store \<Rightarrow> bool" where
  "mem_valid H s \<longleftrightarrow> bt_wf s \<and> list_all (\<lambda>(i, k, body). i = object_id H k body) s"

lemma mem_valid_put: "mem_valid H s \<Longrightarrow> mem_valid H (bt_insert (object_id H k body) (k, body) s)"
  using set_bt_insert_subset [of "object_id H k body" "(k, body)" s]
  by (auto simp: mem_valid_def bt_wf_insert list_all_iff)

lemma mem_valid_remove: "mem_valid H s \<Longrightarrow> mem_valid H (bt_remove i s)"
  using set_bt_remove_subset [of i s] by (auto simp: mem_valid_def bt_wf_remove list_all_iff)

interpretation mem: object_store H "mem_ops H" bt_get "mem_valid H" for H
proof
  fix s i k body e u "is" and s' :: mem_store
  show "mem_valid H s \<Longrightarrow> addressed H (bt_get s)"
    by (auto simp: mem_valid_def addressed_def list_all_iff dest!: bt_get_Some_mem)
  show "mem_valid H s \<Longrightarrow> so_put (mem_ops H) k body s = (Inr i, s') \<Longrightarrow>
      i = object_id H k body \<and> mem_valid H s' \<and>
      (bt_get s' = (bt_get s)(i \<mapsto> (k, body)) \<or> bt_get s' = bt_get s \<and> bt_get s i \<noteq> None)"
    by (auto simp: mem_ops_def mem_put_def Let_def mem_valid_put bt_get_insert)
  show "mem_valid H s \<Longrightarrow> so_remove (mem_ops H) i s = (Inr u, s') \<Longrightarrow>
      mem_valid H s' \<and> bt_get s' = (bt_get s)(i := None)"
    using mem_valid_remove [of H s i]
    by (auto simp: mem_ops_def mem_remove_def bt_get_remove mem_valid_def)
  show "so_list (mem_ops H) s = Inr is \<Longrightarrow> mem_valid H s \<Longrightarrow> set is = dom (bt_get s)"
    by (force simp: mem_ops_def mem_list_def bt_get_None_iff dom_def)
qed (auto simp: mem_ops_def mem_get_def mem_has_def mem_stat_def bt_has_def mem_put_def mem_remove_def
    mem_verify_def Let_def)

text \<open>Images a refs store can read back are \<open>good\<close>: the in-memory one keeps any.\<close>

locale refs_store =
  fixes ops :: "'r refs_store_ops" and saved :: "'r \<Rightarrow> (refs \<times> u64 \<times> u64) option" and good :: "refs \<Rightarrow> bool"
  assumes load_sound: "ro_load ops s = Inr x \<Longrightarrow> x = saved s"
    and save_ok: "good r \<Longrightarrow> ro_save ops r h w s = (Inr u, s') \<Longrightarrow> saved s' = Some (r, h, w)"
    and save_err: "good r \<Longrightarrow> ro_save ops r h w s = (Inl e, s') \<Longrightarrow> saved s' = saved s \<or> saved s' = Some (r, h, w)"
begin

text \<open>A load after a save sees the old triple or the new one, never a mixture.\<close>

lemma load_after_save:
  assumes "good r" "ro_save ops r h w s = (q, s')" "ro_load ops s' = Inr x"
  shows "x = Some (r, h, w) \<or> (q \<noteq> Inr () \<and> x = saved s)"
  using assms load_sound [of s' x] save_ok [of r h w s] save_err [of r h w s] by (cases q) auto

end

interpretation memr: refs_store mem_refs_ops "\<lambda>s. s" "\<lambda>_. True"
  by unfold_locales (auto simp: mem_refs_ops_def mem_refs_load_def mem_refs_save_def)

end
