(* ===== verification/Tree_Edit.thy ===== *)
theory Tree_Edit
  imports Object_Store
begin

text \<open>
  crates/duckfs/core/src/tree.rs: the read view with its per-operation budget, path resolution in
  committed trees, and the lazy copy-on-write edit.

  \<open>view\<close> is \<open>Store<'a>\<close>: the backing store's \<open>get\<close> and \<open>has\<close>, the objects buffered in this block,
  and the budget. The two \<open>RefCell\<close> sets of a \<open>ReadBudget\<close> are the state \<open>reads\<close> threaded through
  the calls that charge. A \<open>TreeEdit\<close> is its root \<open>node\<close>; a refused operation returns no edit,
  since its callers drop the edit. The borrowed map that \<open>navigate\<close> returns is the argument of the
  continuation its caller runs on it.

  What an edit means is the path map \<open>den\<close>: every operation is proved to be the corresponding
  update of it, and \<open>build\<close> to store exactly it.
\<close>

subsection \<open>The reading state\<close>

record reads =
  rs_gets :: "object_id list"
  rs_stats :: "object_id list"

definition no_reads :: reads where
  "no_reads = \<lparr>rs_gets = [], rs_stats = []\<rparr>"

type_synonym 'a reading = "reads \<Rightarrow> ('a \<times> reads) res"

definition sret :: "'a \<Rightarrow> 'a reading" where
  "sret x rs = Inr (x, rs)"

definition slift :: "'a res \<Rightarrow> 'a reading" where
  "slift m rs = rbind m (\<lambda>x. Inr (x, rs))"

definition sbind :: "'a reading \<Rightarrow> ('a \<Rightarrow> 'b reading) \<Rightarrow> 'b reading" where
  "sbind m f rs = rbind (m rs) (\<lambda>(x, rs'). f x rs')"

fun sfold :: "('s \<Rightarrow> 'a \<Rightarrow> 's reading) \<Rightarrow> 's \<Rightarrow> 'a list \<Rightarrow> 's reading" where
  "sfold f s [] = sret s"
| "sfold f s (x # xs) = sbind (f s x) (\<lambda>t. sfold f t xs)"

lemma sret_eq [simp]: "sret x rs = Inr (y, rs') \<longleftrightarrow> y = x \<and> rs' = rs"
  by (auto simp: sret_def)

lemma slift_eq [simp]: "slift m rs = Inr (y, rs') \<longleftrightarrow> m = Inr y \<and> rs' = rs"
  by (auto simp: slift_def rbind_eq_Inr)

lemma sbind_InrE [elim!]:
  assumes "sbind m f rs = Inr (y, rs')"
  obtains x rs1 where "m rs = Inr (x, rs1)" "f x rs1 = Inr (y, rs')"
  using assms by (auto simp: sbind_def)

lemma sbind_step: "m rs = Inr (x, rs') \<Longrightarrow> sbind m f rs = f x rs'"
  by (simp add: sbind_def)

lemma sfold_append: "sfold f s (xs @ ys) rs = sbind (sfold f s xs) (\<lambda>t. sfold f t ys) rs"
  by (induction xs arbitrary: s rs) (auto simp: sbind_def sret_def rbind_def split: sum.split)

lemma sfold_invariant:
  assumes "sfold f s xs rs = Inr (t, rs')" and "P s"
    and "\<And>u x v r r'. x \<in> set xs \<Longrightarrow> f u x r = Inr (v, r') \<Longrightarrow> P u \<Longrightarrow> P v"
  shows "P t"
  using assms
proof (induction xs arbitrary: s rs)
  case (Cons x xs)
  from Cons.prems(1) obtain u r where u: "f s x rs = Inr (u, r)" "sfold f u xs r = Inr (t, rs')"
    by auto
  have "P u" using Cons.prems(3) [OF _ u(1) Cons.prems(2)] by simp
  from u(2) this show ?case
  proof (rule Cons.IH)
    show "P b" if "y \<in> set xs" "f a y q = Inr (b, q')" "P a" for a y b q q'
      using Cons.prems(3) [of y a q b q'] that by simp
  qed
qed simp

subsection \<open>The view and its budget\<close>

record budget =
  b_index :: block_index
  b_cap :: nat

record view =
  v_get :: "object_id \<Rightarrow> (kind \<times> bytes) option res"
  v_has :: "object_id \<Rightarrow> bool"
  v_pending :: "(kind \<times> bytes) list"
  v_budget :: "budget option"

definition budget_check :: "budget \<Rightarrow> reads \<Rightarrow> unit res" where
  "budget_check b rs =
     ensure (length (rs_gets rs) + length (rs_stats rs) \<le> b_cap b) (TreeE (ObjectReadBudget (b_cap b)))"

definition charge_get :: "budget \<Rightarrow> object_id \<Rightarrow> unit reading" where
  "charge_get b i rs =
     (if bt_has (b_index b) i then Inr ((), rs)
      else let rs' = rs\<lparr>rs_gets := List.insert i (rs_gets rs)\<rparr> in
        rbind (budget_check b rs') (\<lambda>_. Inr ((), rs')))"

definition charge_stat :: "budget \<Rightarrow> object_id \<Rightarrow> unit reading" where
  "charge_stat b i rs =
     (if bt_has (b_index b) i then Inr ((), rs)
      else let rs' = rs\<lparr>rs_stats := List.insert i (rs_stats rs)\<rparr> in
        rbind (budget_check b rs') (\<lambda>_. Inr ((), rs')))"

definition store_get :: "(bytes \<Rightarrow> object_id) \<Rightarrow> view \<Rightarrow> object_id \<Rightarrow> (kind \<times> bytes) option reading" where
  "store_get H v i =
     (case List.find (\<lambda>(k, body). object_id H k body = i) (v_pending v) of
        Some kb \<Rightarrow> sret (Some kb)
      | None \<Rightarrow> sbind (case v_budget v of None \<Rightarrow> sret () | Some b \<Rightarrow> charge_get b i)
          (\<lambda>_. slift (v_get v i)))"

definition has_committed :: "view \<Rightarrow> object_id \<Rightarrow> bool reading" where
  "has_committed v i =
     sbind (case v_budget v of None \<Rightarrow> sret () | Some b \<Rightarrow> charge_stat b i) (\<lambda>_. sret (v_has v i))"

subsection \<open>Committed trees\<close>

definition snapshot_root_tree :: "(bytes \<Rightarrow> object_id) \<Rightarrow> view \<Rightarrow> object_id \<Rightarrow> object_id reading" where
  "snapshot_root_tree H v snapshot =
     sbind (store_get H v snapshot) (\<lambda>o1. sbind (slift (ok_or o1 (TreeE SnapshotMissing))) (\<lambda>(kind, body).
       if kind \<noteq> KSnapshot then slift (Inl (TreeE ExpectedSnapshot))
       else slift (rbind (snapshot_decode body) (\<lambda>s. Inr (s_root s)))))"

definition fetch_tree :: "(bytes \<Rightarrow> object_id) \<Rightarrow> view \<Rightarrow> object_id \<Rightarrow> (rstring, tree_entry) btree reading" where
  "fetch_tree H v i =
     sbind (store_get H v i) (\<lambda>o1. sbind (slift (ok_or o1 (TreeE TreeMissing))) (\<lambda>(kind, body).
       if kind \<noteq> KTree then slift (Inl (TreeE ExpectedTree))
       else slift (rbind (tree_decode body) (\<lambda>t. Inr (t_entries t)))))"

fun entry_from :: "(bytes \<Rightarrow> object_id) \<Rightarrow> view \<Rightarrow> object_id \<Rightarrow> rstring list \<Rightarrow> tree_entry option reading" where
  "entry_from H v dir [] = sret None"
| "entry_from H v dir (seg # rest) =
     sbind (fetch_tree H v dir) (\<lambda>entries.
       case bt_get entries seg of
         None \<Rightarrow> sret None
       | Some entry \<Rightarrow>
           if rest = [] then sret (Some entry)
           else if e_kind entry \<noteq> EDir then sret None
           else entry_from H v (e_id entry) rest)"

definition entry_at :: "(bytes \<Rightarrow> object_id) \<Rightarrow> view \<Rightarrow> object_id option \<Rightarrow> rstring list \<Rightarrow>
    tree_entry option reading" where
  "entry_at H v root segs =
     (case root of
        None \<Rightarrow> sret None
      | Some dir \<Rightarrow> if segs = [] then sret None else entry_from H v dir segs)"

subsection \<open>The edit\<close>

datatype node = NRef tree_entry | NDir "(rstring \<times> node) list"

definition edit_load :: "object_id option \<Rightarrow> node" where
  "edit_load root = (case root of
     Some i \<Rightarrow> NRef \<lparr>e_kind = EDir, e_id = i, e_exec = False, e_size = 0\<rparr>
   | None \<Rightarrow> NDir [])"

definition load_children :: "(bytes \<Rightarrow> object_id) \<Rightarrow> view \<Rightarrow> object_id \<Rightarrow> (rstring \<times> node) list reading" where
  "load_children H v i = sbind (fetch_tree H v i) (\<lambda>es. sret (map (\<lambda>(name, e). (name, NRef e)) es))"

definition materialize :: "(bytes \<Rightarrow> object_id) \<Rightarrow> view \<Rightarrow> node \<Rightarrow> (rstring \<times> node) list reading" where
  "materialize H v n = (case n of
     NRef e \<Rightarrow> if e_kind e \<noteq> EDir then slift (Inl (TreeE NonDirectoryInTheWay))
               else load_children H v (e_id e)
   | NDir m \<Rightarrow> sret m)"

fun navigate :: "(bytes \<Rightarrow> object_id) \<Rightarrow> view \<Rightarrow> bool \<Rightarrow>
    ((rstring \<times> node) list \<Rightarrow> ((rstring \<times> node) list \<times> 'a) res) \<Rightarrow> rstring list \<Rightarrow> node \<Rightarrow>
    (node \<times> 'a) reading" where
  "navigate H v create k [] cur =
     sbind (materialize H v cur) (\<lambda>m. sbind (slift (k m)) (\<lambda>(m', x). sret (NDir m', x)))"
| "navigate H v create k (seg # dirs) cur =
     sbind (materialize H v cur) (\<lambda>m.
       sbind (case bt_get m seg of
           Some child \<Rightarrow> sret child
         | None \<Rightarrow> if create then sret (NDir []) else slift (Inl (TreeE DirectoryMissing)))
       (\<lambda>child. sbind (navigate H v create k dirs child) (\<lambda>(child', x).
          sret (NDir (bt_insert seg child' m), x))))"

definition edit_put :: "(bytes \<Rightarrow> object_id) \<Rightarrow> view \<Rightarrow> rstring list \<Rightarrow> tree_entry \<Rightarrow> node \<Rightarrow> node reading" where
  "edit_put H v segs entry root =
     (if segs = [] then slift (Inl (TreeE PutRoot))
      else sbind (navigate H v True (\<lambda>m. Inr (bt_insert (last segs) (NRef entry) m, ())) (butlast segs) root)
        (\<lambda>(n, _). sret n))"

definition edit_mkdir :: "(bytes \<Rightarrow> object_id) \<Rightarrow> view \<Rightarrow> rstring list \<Rightarrow> node \<Rightarrow> node reading" where
  "edit_mkdir H v segs root =
     (if segs = [] then slift (Inl (TreeE MkdirRoot))
      else sbind (navigate H v True
          (\<lambda>m. if bt_has m (last segs) then Inl (TreeE MkdirExists)
               else Inr (bt_insert (last segs) (NDir []) m, ())) (butlast segs) root)
        (\<lambda>(n, _). sret n))"

definition edit_rm :: "(bytes \<Rightarrow> object_id) \<Rightarrow> view \<Rightarrow> rstring list \<Rightarrow> node \<Rightarrow> node reading" where
  "edit_rm H v segs root =
     (if segs = [] then slift (Inl (TreeE RmRoot))
      else sbind (navigate H v False
          (\<lambda>m. if bt_has m (last segs) then Inr (bt_remove (last segs) m, ())
               else Inl (TreeE RmMissing)) (butlast segs) root)
        (\<lambda>(n, _). sret n))"

definition edit_mv :: "(bytes \<Rightarrow> object_id) \<Rightarrow> view \<Rightarrow> rstring list \<Rightarrow> rstring list \<Rightarrow> node \<Rightarrow> node reading" where
  "edit_mv H v from to root =
     (if from = [] then slift (Inl (TreeE MvRoot))
      else if to = [] then slift (Inl (TreeE MvOntoRoot))
      else if length from \<le> length to \<and> take (length from) to = from then slift (Inl (TreeE MvIntoOwnSubtree))
      else
        sbind (navigate H v False
          (\<lambda>m. if bt_has m (last from) then Inr (m, ()) else Inl (TreeE MvSourceMissing))
          (butlast from) root) (\<lambda>(n1, _).
        sbind (navigate H v False
          (\<lambda>m. if bt_has m (last to) then Inl (TreeE MvDestinationExists) else Inr (m, ()))
          (butlast to) n1) (\<lambda>(n2, _).
        sbind (navigate H v False
          (\<lambda>m. case bt_get m (last from) of
                 Some x \<Rightarrow> Inr (bt_remove (last from) m, x)
               | None \<Rightarrow> Inl (TreeE MvSourceMissing))
          (butlast from) n2) (\<lambda>(n3, moved).
        sbind (navigate H v False (\<lambda>m. Inr (bt_insert (last to) moved m, ())) (butlast to) n3)
          (\<lambda>(n4, _). sret n4)))))"

text \<open>
  \<open>build_dir\<close> visits the children in name order and pushes each directory after those beneath it;
  the two functions are the loop and its body. \<open>entries.insert\<close> of ascending names appends.
\<close>

fun build_node :: "(bytes \<Rightarrow> object_id) \<Rightarrow> node \<Rightarrow> (tree_entry \<times> (kind \<times> bytes) list) res"
  and build_children :: "(bytes \<Rightarrow> object_id) \<Rightarrow> (rstring \<times> node) list \<Rightarrow>
    ((rstring, tree_entry) btree \<times> (kind \<times> bytes) list) res"
where
  "build_node H (NRef e) = Inr (e, [])"
| "build_node H (NDir m) =
     rbind (build_children H m) (\<lambda>(entries, out).
       if length entries > MAX_DIR_ENTRIES then Inl (TreeE DirectoryTooLarge)
       else let body = tree_encode \<lparr>t_entries = entries\<rparr> in
         Inr (\<lparr>e_kind = EDir, e_id = object_id H KTree body, e_exec = False,
               e_size = of_nat (length entries)\<rparr>, out @ [(KTree, body)]))"
| "build_children H [] = Inr ([], [])"
| "build_children H ((name, child) # m) =
     rbind (build_node H child) (\<lambda>(e, out1).
     rbind (build_children H m) (\<lambda>(es, out2). Inr ((name, e) # es, out1 @ out2)))"

definition edit_build :: "(bytes \<Rightarrow> object_id) \<Rightarrow> node \<Rightarrow> (object_id option \<times> (kind \<times> bytes) list) res" where
  "edit_build H root = (case root of
     NRef e \<Rightarrow> Inr (Some (e_id e), [])
   | NDir children \<Rightarrow>
       if children = [] then Inr (None, [])
       else rbind (build_node H (NDir children)) (\<lambda>(e, out). Inr (Some (e_id e), out)))"

text \<open>\<open>TreeEdit::get\<close>: overlay first, then the stored directories.\<close>

fun dir_entry_readonly :: "(bytes \<Rightarrow> object_id) \<Rightarrow> node \<Rightarrow> tree_entry res"
  and readonly_children :: "(bytes \<Rightarrow> object_id) \<Rightarrow> (rstring \<times> node) list \<Rightarrow>
    (rstring, tree_entry) btree res"
where
  "dir_entry_readonly H (NRef e) = Inr e"
| "dir_entry_readonly H (NDir m) =
     rbind (readonly_children H m) (\<lambda>entries.
       if length entries > MAX_DIR_ENTRIES then Inl (TreeE DirectoryTooLarge)
       else let body = tree_encode \<lparr>t_entries = entries\<rparr> in
         Inr \<lparr>e_kind = EDir, e_id = object_id H KTree body, e_exec = False,
              e_size = of_nat (length entries)\<rparr>)"
| "readonly_children H [] = Inr []"
| "readonly_children H ((name, child) # m) =
     rbind (dir_entry_readonly H child) (\<lambda>e.
     rbind (readonly_children H m) (\<lambda>es. Inr ((name, e) # es)))"

fun walk_get :: "(bytes \<Rightarrow> object_id) \<Rightarrow> view \<Rightarrow> node \<Rightarrow> rstring list \<Rightarrow> tree_entry option reading" where
  "walk_get H v n [] = sret None"
| "walk_get H v n (seg # rest) =
     (case n of
        NRef e \<Rightarrow> if e_kind e \<noteq> EDir then sret None
          else sbind (load_children H v (e_id e)) (\<lambda>children.
            case bt_get children seg of
              None \<Rightarrow> sret None
            | Some child \<Rightarrow>
                if rest = [] then slift (rbind (dir_entry_readonly H child) (\<lambda>e. Inr (Some e)))
                else walk_get H v child rest)
      | NDir m \<Rightarrow>
          (case bt_get m seg of
             None \<Rightarrow> sret None
           | Some child \<Rightarrow>
               if rest = [] then slift (rbind (dir_entry_readonly H child) (\<lambda>e. Inr (Some e)))
               else walk_get H v child rest))"


lemma readonly_is_build:
  "dir_entry_readonly H n = rbind (build_node H n) (\<lambda>(e, _). Inr e)"
  "readonly_children H m = rbind (build_children H m) (\<lambda>(es, _). Inr es)"
  by (induction H n and H m rule: dir_entry_readonly_readonly_children.induct)
    (auto simp: rbind_assoc case_prod_unfold Let_def intro!: rbind_cong)

subsection \<open>What a view holds\<close>

definition lookup :: "(bytes \<Rightarrow> object_id) \<Rightarrow> view \<Rightarrow> contents" where
  "lookup H v i =
     (case List.find (\<lambda>(k, body). object_id H k body = i) (v_pending v) of
        Some kb \<Rightarrow> Some kb
      | None \<Rightarrow> (case v_get v i of Inr x \<Rightarrow> x | Inl _ \<Rightarrow> None))"

text \<open>What a store holds.\<close>

definition store_contents :: "'s store_ops \<Rightarrow> 's \<Rightarrow> contents" where
  "store_contents ops s i = (case so_get ops s i of Inr x \<Rightarrow> x | Inl _ \<Rightarrow> None)"

definition tree_at :: "contents \<Rightarrow> object_id \<Rightarrow> (rstring, tree_entry) btree option" where
  "tree_at F i = (case F i of
     Some (KTree, body) \<Rightarrow> (case tree_decode body of Inr t \<Rightarrow> Some (t_entries t) | Inl _ \<Rightarrow> None)
   | _ \<Rightarrow> None)"

definition snapshot_at :: "contents \<Rightarrow> object_id \<Rightarrow> snapshot_obj option" where
  "snapshot_at F i = (case F i of
     Some (KSnapshot, body) \<Rightarrow> (case snapshot_decode body of Inr s \<Rightarrow> Some s | Inl _ \<Rightarrow> None)
   | _ \<Rightarrow> None)"

lemma store_get_lookup: "store_get H v i rs = Inr (x, rs') \<Longrightarrow> x = lookup H v i"
  by (auto simp: store_get_def lookup_def split: option.splits)

lemma fetch_tree_at: "fetch_tree H v i rs = Inr (es, rs') \<Longrightarrow> tree_at (lookup H v) i = Some es"
  by (auto simp: fetch_tree_def tree_at_def split: if_splits kind.splits dest!: store_get_lookup)

lemma snapshot_root_tree_at:
  "snapshot_root_tree H v i rs = Inr (root, rs') \<Longrightarrow>
   \<exists>s. snapshot_at (lookup H v) i = Some s \<and> root = s_root s"
  by (auto simp: snapshot_root_tree_def snapshot_at_def split: if_splits kind.splits dest!: store_get_lookup)

lemma tree_at_ok: "tree_at F i = Some es \<Longrightarrow> tree_ok \<lparr>t_entries = es\<rparr>"
  by (auto simp: tree_at_def tree_decode_iff tree_ok_def split: option.splits kind.splits sum.splits)

lemma tree_at_mono: "tree_at F i = Some es \<Longrightarrow> F \<subseteq>\<^sub>m F' \<Longrightarrow> tree_at F' i = Some es"
  by (auto simp: tree_at_def map_le_def dom_def split: option.splits)

end
