(* ===== verification/Tree_Spec.thy ===== *)
theory Tree_Spec
  imports Tree_Edit "HOL-Library.Sublist"
begin

text \<open>
  The abstract specification of tree.rs: a directory tree is a partial map from paths to
  directories and leaves, and each operation of an edit is an update of that map. \<open>den\<close> is the map
  an overlay node denotes over the stored objects \<open>F\<close>; the theorems say that \<open>put\<close>, \<open>mkdir\<close>, \<open>rm\<close>
  and \<open>mv\<close>, whenever they succeed, are \<open>pm_write\<close>, \<open>pm_remove\<close> and \<open>pm_move\<close> on it, and that the
  objects \<open>build\<close> emits denote the same map as the overlay.
\<close>

subsection \<open>Path maps\<close>

datatype item = IDir | ILeaf tree_entry

type_synonym path_map = "rstring list \<Rightarrow> item option"

definition pm_empty :: path_map where
  "pm_empty q = (if q = [] then Some IDir else None)"

definition pm_leaf :: "tree_entry \<Rightarrow> path_map" where
  "pm_leaf e q = (if q = [] then Some (ILeaf e) else None)"

text \<open>Put the map \<open>S\<close> at a path, the directories above it included.\<close>

definition pm_graft :: "path_map \<Rightarrow> rstring list \<Rightarrow> path_map \<Rightarrow> path_map" where
  "pm_graft D segs S q =
     (if prefix segs q then S (drop (length segs) q)
      else if prefix q segs then Some IDir
      else D q)"

definition pm_remove :: "path_map \<Rightarrow> rstring list \<Rightarrow> path_map" where
  "pm_remove D segs q = (if prefix segs q then None else D q)"

definition pm_sub :: "path_map \<Rightarrow> rstring list \<Rightarrow> path_map" where
  "pm_sub D segs q = D (segs @ q)"

definition pm_move :: "path_map \<Rightarrow> rstring list \<Rightarrow> rstring list \<Rightarrow> path_map" where
  "pm_move D from to = pm_graft (pm_remove D from) to (pm_sub D from)"

subsection \<open>The map of a node\<close>

definition item_of :: "node \<Rightarrow> item" where
  "item_of n = (case n of NDir _ \<Rightarrow> IDir | NRef e \<Rightarrow> if e_kind e = EDir then IDir else ILeaf e)"

definition children :: "contents \<Rightarrow> node \<Rightarrow> (rstring \<times> node) list option" where
  "children F n = (case n of
     NDir m \<Rightarrow> Some m
   | NRef e \<Rightarrow> if e_kind e = EDir
       then map_option (map (\<lambda>(name, e'). (name, NRef e'))) (tree_at F (e_id e)) else None)"

fun node_at :: "contents \<Rightarrow> node \<Rightarrow> rstring list \<Rightarrow> node option" where
  "node_at F n [] = Some n"
| "node_at F n (s # p) =
     (case children F n of None \<Rightarrow> None
      | Some m \<Rightarrow> (case bt_get m s of None \<Rightarrow> None | Some c \<Rightarrow> node_at F c p))"

definition den :: "contents \<Rightarrow> node \<Rightarrow> path_map" where
  "den F n p = map_option item_of (node_at F n p)"

definition name_ok :: "rstring \<Rightarrow> bool" where
  "name_ok s \<longleftrightarrow> utf8 s \<and> length s \<le> MAX_NAME_BYTES"

fun node_ok :: "node \<Rightarrow> bool"
  and children_ok :: "(rstring \<times> node) list \<Rightarrow> bool"
where
  "node_ok (NRef e) = (length (e_id e) = 32)"
| "node_ok (NDir m) = (bt_wf m \<and> children_ok m)"
| "children_ok [] = True"
| "children_ok ((s, c) # m) = (name_ok s \<and> node_ok c \<and> children_ok m)"

lemma children_ok_iff: "children_ok m \<longleftrightarrow> (\<forall>x \<in> set m. name_ok (fst x) \<and> node_ok (snd x))"
  by (induction m) auto

lemma den_Nil [simp]: "den F n [] = Some (item_of n)"
  by (simp add: den_def)

lemma den_Cons:
  "den F n (s # p) =
     (case children F n of None \<Rightarrow> None
      | Some m \<Rightarrow> (case bt_get m s of None \<Rightarrow> None | Some c \<Rightarrow> den F c p))"
  by (simp add: den_def split: option.splits)

lemma den_NDir_Cons: "den F (NDir m) (s # p) = (case bt_get m s of None \<Rightarrow> None | Some c \<Rightarrow> den F c p)"
  by (simp add: den_Cons children_def)

lemma item_of_NDir [simp]: "item_of (NDir m) = IDir"
  by (simp add: item_of_def)

lemma den_NDir_Nil: "den F (NDir []) = pm_empty"
proof
  show "den F (NDir []) p = pm_empty p" for p
    by (cases p) (simp_all add: pm_empty_def den_NDir_Cons)
qed

lemma den_leaf: "e_kind e \<noteq> EDir \<Longrightarrow> den F (NRef e) = pm_leaf e"
proof
  show "e_kind e \<noteq> EDir \<Longrightarrow> den F (NRef e) p = pm_leaf e p" for p
    by (cases p) (simp_all add: pm_leaf_def den_Cons children_def item_of_def)
qed

lemma node_ok_insert: "node_ok (NDir m) \<Longrightarrow> name_ok s \<Longrightarrow> node_ok c \<Longrightarrow> node_ok (NDir (bt_insert s c m))"
  using set_bt_insert_subset [of s c m] by (auto simp: children_ok_iff bt_wf_insert)

lemma node_ok_remove: "node_ok (NDir m) \<Longrightarrow> node_ok (NDir (bt_remove s m))"
  using set_bt_remove_subset [of s m] by (auto simp: children_ok_iff bt_wf_remove)

lemma node_ok_child: "node_ok (NDir m) \<Longrightarrow> bt_get m s = Some c \<Longrightarrow> name_ok s \<and> node_ok c"
  using bt_get_Some_mem [of m s c] by (auto simp: children_ok_iff)

lemma node_ok_children: "node_ok n \<Longrightarrow> children F n = Some m \<Longrightarrow> node_ok (NDir m)"
  using tree_at_ok [of F]
  by (cases n) (fastforce simp: children_def children_ok_iff tree_ok_def list_all_iff entry_ok_def
      name_ok_def bt_wf_map_value split: if_splits)+

lemma children_mono: "children F n = Some m \<Longrightarrow> F \<subseteq>\<^sub>m F' \<Longrightarrow> children F' n = Some m"
  using tree_at_mono [of F _ _ F'] by (cases n) (auto simp: children_def split: if_splits)

subsection \<open>Navigation is a graft\<close>

lemma materialize_children:
  assumes "materialize H v n rs = Inr (m, rs')" and "lookup H v \<subseteq>\<^sub>m F"
  shows "children F n = Some m"
proof (rule children_mono [OF _ assms(2)])
  show "children (lookup H v) n = Some m"
  using assms(1)
  by (cases n) (auto simp: materialize_def children_def load_children_def dest!: fetch_tree_at
      split: if_splits)
qed

lemma materialize_den:
  assumes "materialize H v n rs = Inr (m, rs')" and "lookup H v \<subseteq>\<^sub>m F"
  shows "den F (NDir m) = den F n"
proof
  fix p
  have "item_of n = IDir"
    using materialize_children [OF assms] by (cases n) (auto simp: children_def item_of_def split: if_splits)
  then show "den F (NDir m) p = den F n p"
    using materialize_children [OF assms] by (cases p) (simp_all add: den_Cons children_def)
qed

text \<open>What the path to the parent must look like, and what the parent holds below itself.\<close>

definition dir_above :: "bool \<Rightarrow> path_map \<Rightarrow> rstring list \<Rightarrow> bool" where
  "dir_above create D dirs \<longleftrightarrow>
     (\<forall>q. prefix q dirs \<longrightarrow> D q = Some IDir \<or> (create \<and> D q = None))"

lemma navigate_graft:
  assumes "navigate H v create k dirs cur rs = Inr ((n, x), rs')" and "node_ok cur"
    and "list_all name_ok dirs"
    and keep: "\<forall>m m' x. k m = Inr (m', x) \<longrightarrow> node_ok (NDir m) \<longrightarrow> node_ok (NDir m')"
    and le: "lookup H v \<subseteq>\<^sub>m F"
  shows "\<exists>m m'. k m = Inr (m', x) \<and> node_ok (NDir m) \<and> node_ok n \<and>
     dir_above create (den F cur) dirs \<and>
     (\<forall>s p. den F cur (dirs @ s # p) = den F (NDir m) (s # p)) \<and>
     den F n = pm_graft (den F cur) dirs (den F (NDir m'))"
  using assms(1-3)
proof (induction dirs arbitrary: cur rs n rs')
  case Nil
  from Nil.prems obtain m m' where m: "materialize H v cur rs = Inr (m, rs')"
    and k: "k m = Inr (m', x)" and n: "n = NDir m'"
    by auto
  note ch = materialize_children [OF m le] and den = materialize_den [OF m le]
  have "node_ok (NDir m)" using Nil.prems(2) ch by (rule node_ok_children)
  moreover have "den F cur [] = Some IDir" using fun_cong [OF den, of "[]"] by simp
  ultimately show ?case
    using k n den keep
    by (intro exI [of _ m] exI [of _ m']) (auto simp: dir_above_def pm_graft_def)
next
  case (Cons s dirs)
  from Cons.prems(1) obtain m r1 child r2 child' r3 where m: "materialize H v cur rs = Inr (m, r1)"
    and child: "(case bt_get m s of Some c \<Rightarrow> sret c
      | None \<Rightarrow> if create then sret (NDir []) else slift (Inl (TreeE DirectoryMissing))) r1 = Inr (child, r2)"
    and nav: "navigate H v create k dirs child r2 = Inr ((child', x), r3)"
    and n: "n = NDir (bt_insert s child' m)"
    by auto
  note ch = materialize_children [OF m le] and den = materialize_den [OF m le]
  have okm: "node_ok (NDir m)" using Cons.prems(2) ch by (rule node_ok_children)
  have root: "den F cur [] = Some IDir" using fun_cong [OF den, of "[]"] by simp
  have child_ok: "node_ok child"
    using child node_ok_child [OF okm, of s] by (auto split: option.splits if_splits)
  have below: "den F cur (s # t # p) = den F child (t # p)" for t p
    using child fun_cong [OF den, of "s # t # p"]
    by (auto simp: den_NDir_Cons den_NDir_Nil pm_empty_def split: option.splits if_splits)
  have at: "den F cur [s] = den F child [] \<or> (create \<and> den F cur [s] = None \<and> child = NDir [])"
    using child fun_cong [OF den, of "[s]"] by (auto simp: den_NDir_Cons split: option.splits if_splits)
  from Cons.IH [OF nav child_ok] Cons.prems(3) obtain mm m' where
    k: "k mm = Inr (m', x)" and ok: "node_ok (NDir mm)" "node_ok child'"
    and above: "dir_above create (den F child) dirs"
    and sub: "\<And>t p. den F child (dirs @ t # p) = den F (NDir mm) (t # p)"
    and g: "den F child' = pm_graft (den F child) dirs (den F (NDir m'))"
    by auto
  have "dir_above create (den F cur) (s # dirs)"
    unfolding dir_above_def
  proof (intro allI impI)
    fix q assume q: "prefix q (s # dirs)"
    show "den F cur q = Some IDir \<or> (create \<and> den F cur q = None)"
    proof (cases q)
      case Nil
      then show ?thesis using root by simp
    next
      case (Cons a p)
      with q have a: "a = s" and p: "prefix p dirs" by auto
      have ab: "den F child p = Some IDir \<or> (create \<and> den F child p = None)"
        using above p by (auto simp: dir_above_def)
      show ?thesis
        using ab at below Cons a by (cases p) auto
    qed
  qed
  moreover have "den F cur ((s # dirs) @ t # p) = den F (NDir mm) (t # p)" for t p
    using below sub by (cases dirs) auto
  moreover have "den F n q = pm_graft (den F cur) (s # dirs) (den F (NDir m')) q" for q
  proof (cases q)
    case Nil
    then show ?thesis using n by (simp add: pm_graft_def)
  next
    case (Cons a p)
    have "den F n (a # p) = (if a = s then den F child' p else den F cur (a # p))"
      using n fun_cong [OF den, of "a # p"] by (simp add: den_NDir_Cons bt_get_insert)
    moreover have "den F child p = den F cur (s # p)" if "\<not> prefix p dirs"
      using that below by (cases p) auto
    ultimately show ?thesis using Cons g by (auto simp: pm_graft_def)
  qed
  moreover have "node_ok n"
    using n okm ok(2) Cons.prems(3) node_ok_insert by simp
  ultimately show ?case using k ok(1) by blast
qed

subsection \<open>The operations as path-map updates\<close>

lemma segs_cases:
  assumes "segs \<noteq> []"
  obtains dirs name where "segs = dirs @ [name]"
  using assms by (cases segs rule: rev_cases) auto

text \<open>Replacing one entry of the parent directory, seen from the root.\<close>

lemma graft_entry:
  assumes sub: "\<And>s p. D (dirs @ s # p) = den F (NDir m) (s # p)"
  shows "pm_graft D dirs (den F (NDir (bt_insert name c m))) = pm_graft D (dirs @ [name]) (den F c)"
proof
  fix q
  show "pm_graft D dirs (den F (NDir (bt_insert name c m))) q = pm_graft D (dirs @ [name]) (den F c) q"
  proof (cases "prefix dirs q")
    case False
    then show ?thesis by (auto simp: pm_graft_def prefix_def append_eq_append_conv2)
  next
    case True
    then obtain r where q: "q = dirs @ r" by (auto simp: prefix_def)
    show ?thesis
      using sub by (cases r) (auto simp: q pm_graft_def den_NDir_Cons bt_get_insert)
  qed
qed

lemma edit_put_spec:
  assumes "edit_put H v segs e n rs = Inr (n', rs')" and "node_ok n"
    and "list_all name_ok segs" and "length (e_id e) = 32"
    and le: "lookup H v \<subseteq>\<^sub>m F"
  shows "den F n' = pm_graft (den F n) segs (den F (NRef e))"
    and "node_ok n'" and "dir_above True (den F n) (butlast segs)" and "segs \<noteq> []"
proof -
  show ne: "segs \<noteq> []" using assms(1) by (auto simp: edit_put_def split: if_splits)
  then obtain dirs name where segs: "segs = dirs @ [name]" by (rule segs_cases)
  have names: "list_all name_ok dirs" "name_ok name" using assms(3) segs by auto
  from assms(1) ne segs have nav:
    "navigate H v True (\<lambda>m. Inr (bt_insert name (NRef e) m, ())) dirs n rs = Inr ((n', ()), rs')"
    by (auto simp: edit_put_def)
  obtain m m' where m: "Inr (bt_insert name (NRef e) m, ()) = (Inr (m', ()) :: _ res)"
    and ok: "node_ok n'" and above: "dir_above True (den F n) dirs"
    and sub: "\<And>s p. den F n (dirs @ s # p) = den F (NDir m) (s # p)"
    and g: "den F n' = pm_graft (den F n) dirs (den F (NDir m'))"
    using navigate_graft [OF nav assms(2) names(1) _ le] node_ok_insert [of _ name "NRef e"] names(2) assms(4)
    by auto
  show "den F n' = pm_graft (den F n) segs (den F (NRef e))"
    using g m graft_entry [OF sub, of name "NRef e"] segs by simp
  show "node_ok n'" by (rule ok)
  show "dir_above True (den F n) (butlast segs)" using above segs by simp
qed

lemma edit_mkdir_spec:
  assumes "edit_mkdir H v segs n rs = Inr (n', rs')" and "node_ok n" and "list_all name_ok segs"
    and le: "lookup H v \<subseteq>\<^sub>m F"
  shows "den F n' = pm_graft (den F n) segs pm_empty"
    and "node_ok n'" and "dir_above True (den F n) (butlast segs)" and "segs \<noteq> []"
    and "den F n segs = None"
proof -
  show ne: "segs \<noteq> []" using assms(1) by (auto simp: edit_mkdir_def split: if_splits)
  then obtain dirs name where segs: "segs = dirs @ [name]" by (rule segs_cases)
  have names: "list_all name_ok dirs" "name_ok name" using assms(3) segs by auto
  let ?k = "\<lambda>m. if bt_has m name then Inl (TreeE MkdirExists) else Inr (bt_insert name (NDir []) m, ())"
  from assms(1) ne segs have nav: "navigate H v True ?k dirs n rs = Inr ((n', ()), rs')"
    unfolding edit_mkdir_def segs last_snoc butlast_snoc by auto
  have keep: "\<forall>m m' x. ?k m = Inr (m', x) \<longrightarrow> node_ok (NDir m) \<longrightarrow> node_ok (NDir m')"
    using node_ok_insert [of _ name "NDir []"] names(2) by (auto split: if_splits)
  obtain m m' where m: "?k m = Inr (m', ())"
    and ok: "node_ok n'" and above: "dir_above True (den F n) dirs"
    and sub: "\<And>s p. den F n (dirs @ s # p) = den F (NDir m) (s # p)"
    and g: "den F n' = pm_graft (den F n) dirs (den F (NDir m'))"
    using navigate_graft [OF nav assms(2) names(1) keep le] by blast
  show "den F n' = pm_graft (den F n) segs pm_empty"
    using g m graft_entry [OF sub, of name "NDir []"] segs by (auto simp: den_NDir_Nil split: if_splits)
  show "node_ok n'" by (rule ok)
  show "dir_above True (den F n) (butlast segs)" using above segs by simp
  show "den F n segs = None"
    using sub [of name "[]"] m segs by (auto simp: den_NDir_Cons bt_has_def split: if_splits option.splits)
qed

lemma graft_remove:
  assumes sub: "\<And>s p. D (dirs @ s # p) = den F (NDir m) (s # p)"
    and above: "dir_above False D dirs" and wf: "bt_wf m"
  shows "pm_graft D dirs (den F (NDir (bt_remove name m))) = pm_remove D (dirs @ [name])"
proof
  fix q
  show "pm_graft D dirs (den F (NDir (bt_remove name m))) q = pm_remove D (dirs @ [name]) q"
  proof (cases "prefix dirs q")
    case False
    then show ?thesis
      using above by (auto simp: pm_graft_def pm_remove_def prefix_def dir_above_def append_eq_append_conv2)
  next
    case True
    then obtain r where q: "q = dirs @ r" by (auto simp: prefix_def)
    show ?thesis
      using sub above wf
      by (cases r) (auto simp: q pm_graft_def pm_remove_def den_NDir_Cons bt_get_remove dir_above_def)
  qed
qed

lemma graft_same:
  assumes sub: "\<And>s p. D (dirs @ s # p) = den F (NDir m) (s # p)"
    and above: "dir_above False D dirs"
  shows "pm_graft D dirs (den F (NDir m)) = D"
proof
  fix q
  show "pm_graft D dirs (den F (NDir m)) q = D q"
  proof (cases "prefix dirs q")
    case False
    then show ?thesis using above by (auto simp: pm_graft_def dir_above_def)
  next
    case True
    then obtain r where q: "q = dirs @ r" by (auto simp: prefix_def)
    show ?thesis using sub above by (cases r) (auto simp: q pm_graft_def dir_above_def)
  qed
qed

lemma edit_rm_spec:
  assumes "edit_rm H v segs n rs = Inr (n', rs')" and "node_ok n" and "list_all name_ok segs"
    and le: "lookup H v \<subseteq>\<^sub>m F"
  shows "den F n' = pm_remove (den F n) segs"
    and "node_ok n'" and "den F n segs \<noteq> None" and "segs \<noteq> []"
proof -
  show ne: "segs \<noteq> []" using assms(1) by (auto simp: edit_rm_def split: if_splits)
  then obtain dirs name where segs: "segs = dirs @ [name]" by (rule segs_cases)
  have names: "list_all name_ok dirs" using assms(3) segs by auto
  let ?k = "\<lambda>m. if bt_has m name then Inr (bt_remove name m, ()) else Inl (TreeE RmMissing)"
  from assms(1) ne segs have nav: "navigate H v False ?k dirs n rs = Inr ((n', ()), rs')"
    unfolding edit_rm_def segs last_snoc butlast_snoc by auto
  have keep: "\<forall>m m' x. ?k m = Inr (m', x) \<longrightarrow> node_ok (NDir m) \<longrightarrow> node_ok (NDir m')"
    using node_ok_remove [of _ name] by (auto split: if_splits)
  obtain m m' where m: "?k m = Inr (m', ())" and okm: "node_ok (NDir m)"
    and ok: "node_ok n'" and above: "dir_above False (den F n) dirs"
    and sub: "\<And>s p. den F n (dirs @ s # p) = den F (NDir m) (s # p)"
    and g: "den F n' = pm_graft (den F n) dirs (den F (NDir m'))"
    using navigate_graft [OF nav assms(2) names keep le] by blast
  show "den F n' = pm_remove (den F n) segs"
    using g m graft_remove [OF sub above, of name] segs okm by (auto split: if_splits)
  show "node_ok n'" by (rule ok)
  show "den F n segs \<noteq> None"
    using sub [of name "[]"] m segs by (auto simp: den_NDir_Cons bt_has_def split: if_splits option.splits)
qed

text \<open>A navigation that changes nothing leaves the map as it is.\<close>

lemma navigate_probe:
  assumes "navigate H v False k dirs n rs = Inr ((n', x), rs')" and "node_ok n" and "list_all name_ok dirs"
    and id: "\<forall>m m' x. k m = Inr (m', x) \<longrightarrow> m' = m" and le: "lookup H v \<subseteq>\<^sub>m F"
  shows "den F n' = den F n \<and> node_ok n' \<and>
    dir_above False (den F n) dirs \<and>
    (\<exists>m. k m = Inr (m, x) \<and>
       (\<forall>s p. den F n (dirs @ s # p) = den F (NDir m) (s # p)))"
proof -
  obtain m m' where "k m = Inr (m', x)" "node_ok n'" "dir_above False (den F n) dirs"
    "\<And>s p. den F n (dirs @ s # p) = den F (NDir m) (s # p)"
    "den F n' = pm_graft (den F n) dirs (den F (NDir m'))"
    using navigate_graft [OF assms(1-3) _ le] id by blast
  moreover have "m' = m" using id calculation(1) by blast
  ultimately show ?thesis using graft_same [of "den F n" dirs] by auto
qed

lemma edit_mv_spec:
  assumes "edit_mv H v from to n rs = Inr (n', rs')" and "node_ok n"
    and "list_all name_ok from" and "list_all name_ok to" and le: "lookup H v \<subseteq>\<^sub>m F"
  shows "den F n' = pm_move (den F n) from to"
    and "node_ok n'" and "den F n from \<noteq> None" and "den F n to = None"
    and "den F n (butlast to) = Some IDir" and "\<not> prefix from to"
    and "from \<noteq> []" and "to \<noteq> []"
proof -
  show ne: "from \<noteq> []" "to \<noteq> []" using assms(1) by (auto simp: edit_mv_def split: if_splits)
  show np: "\<not> prefix from to"
    using assms(1) ne by (auto simp: edit_mv_def prefix_def split: if_splits)
  obtain fd fn where f: "from = fd @ [fn]" using ne(1) by (rule segs_cases)
  obtain td tn where t: "to = td @ [tn]" using ne(2) by (rule segs_cases)
  have names: "list_all name_ok fd" "name_ok fn" "list_all name_ok td" "name_ok tn"
    using assms(3,4) f t by auto
  let ?k1 = "\<lambda>m. if bt_has m fn then Inr (m, ()) else Inl (TreeE MvSourceMissing)"
  let ?k2 = "\<lambda>m. if bt_has m tn then Inl (TreeE MvDestinationExists) else Inr (m, ())"
  let ?k3 = "\<lambda>m. case bt_get m fn of Some x \<Rightarrow> Inr (bt_remove fn m, x) | None \<Rightarrow> Inl (TreeE MvSourceMissing)"
  let ?k4 = "\<lambda>moved m. Inr (bt_insert tn moved m, ())"
  have npc: "\<not> (length from \<le> length to \<and> take (length from) to = from)"
    using np by (metis append_take_drop_id prefixI)
  from assms(1) ne npc obtain n1 r1 n2 r2 n3 moved r3 where
    v1: "navigate H v False ?k1 fd n rs = Inr ((n1, ()), r1)" and
    v2: "navigate H v False ?k2 td n1 r1 = Inr ((n2, ()), r2)" and
    v3: "navigate H v False ?k3 fd n2 r2 = Inr ((n3, moved), r3)" and
    v4: "navigate H v False (?k4 moved) td n3 r3 = Inr ((n', ()), rs')"
    unfolding edit_mv_def f t last_snoc butlast_snoc by (simp only: if_False) auto
  have id1: "\<forall>m m' x. ?k1 m = Inr (m', x) \<longrightarrow> m' = m" by (auto split: if_splits)
  have id2: "\<forall>m m' x. ?k2 m = Inr (m', x) \<longrightarrow> m' = m" by (auto split: if_splits)
  from navigate_probe [OF v1 assms(2) names(1) id1 le] obtain m1
    where d1: "den F n1 = den F n" "node_ok n1" and m1: "?k1 m1 = Inr (m1, ())"
      and s1: "\<And>s p. den F n (fd @ s # p) = den F (NDir m1) (s # p)"
    by blast
  from navigate_probe [OF v2 d1(2) names(3) id2 le] obtain m2
    where d2: "den F n2 = den F n" "node_ok n2" and m2: "?k2 m2 = Inr (m2, ())"
      and a2: "dir_above False (den F n) td"
      and s2: "\<And>s p. den F n (td @ s # p) = den F (NDir m2) (s # p)"
    unfolding d1 by blast
  show "den F n from \<noteq> None"
    using s1 [of fn "[]"] m1 f by (auto simp: den_NDir_Cons bt_has_def split: if_splits option.splits)
  show free: "den F n to = None"
    using s2 [of tn "[]"] m2 t by (auto simp: den_NDir_Cons bt_has_def split: if_splits option.splits)
  show "den F n (butlast to) = Some IDir" using a2 t by (auto simp: dir_above_def)
  have keep3: "\<forall>m m' x. ?k3 m = Inr (m', x) \<longrightarrow> node_ok (NDir m) \<longrightarrow> node_ok (NDir m')"
    using node_ok_remove [of _ fn] by (auto split: option.splits)
  from navigate_graft [OF v3 d2(2) names(1) keep3 le] obtain m3 m3'
    where k3: "?k3 m3 = Inr (m3', moved)" and ok3: "node_ok (NDir m3)" "node_ok n3"
      and a3: "dir_above False (den F n) fd"
      and s3: "\<And>s p. den F n (fd @ s # p) = den F (NDir m3) (s # p)"
      and g3: "den F n3 = pm_graft (den F n) fd (den F (NDir m3'))"
    unfolding d2 by blast
  have moved: "bt_get m3 fn = Some moved" "m3' = bt_remove fn m3"
    using k3 by (auto split: option.splits)
  have D3: "den F n3 = pm_remove (den F n) from"
    using g3 moved graft_remove [OF s3 a3, of fn] ok3 f by simp
  have mden: "den F moved = pm_sub (den F n) from"
    using s3 [of fn] moved f by (auto simp: den_NDir_Cons pm_sub_def)
  have okm: "node_ok moved" using node_ok_child [OF ok3(1) moved(1)] by blast
  have keep4: "\<forall>m m' x. ?k4 moved m = Inr (m', x) \<longrightarrow> node_ok (NDir m) \<longrightarrow> node_ok (NDir m')"
    using node_ok_insert [of _ tn moved] names(4) okm by auto
  from navigate_graft [OF v4 ok3(2) names(3) keep4 le] obtain m4 m4'
    where k4: "?k4 moved m4 = (Inr (m4', ()) :: _ res)" and ok4: "node_ok n'"
      and s4: "\<And>s p. den F n3 (td @ s # p) = den F (NDir m4) (s # p)"
      and g4: "den F n' = pm_graft (den F n3) td (den F (NDir m4'))"
    by blast
  show "den F n' = pm_move (den F n) from to"
    using g4 k4 graft_entry [OF s4, of tn moved] t D3 mden by (simp add: pm_move_def)
  show "node_ok n'" by (rule ok4)
qed

subsection \<open>Building\<close>

text \<open>\<open>F\<close> holds each of the objects under its own id.\<close>

definition holds :: "(bytes \<Rightarrow> object_id) \<Rightarrow> contents \<Rightarrow> (kind \<times> bytes) list \<Rightarrow> bool" where
  "holds H F os \<longleftrightarrow> (\<forall>(k, body) \<in> set os. F (object_id H k body) = Some (k, body))"

lemma holds_append [simp]: "holds H F (xs @ ys) \<longleftrightarrow> holds H F xs \<and> holds H F ys"
  by (auto simp: holds_def)

lemma holds_Cons [simp]: "holds H F ((k, body) # os) \<longleftrightarrow> F (object_id H k body) = Some (k, body) \<and> holds H F os"
  by (auto simp: holds_def)

definition built_as :: "contents \<Rightarrow> rstring \<times> node \<Rightarrow> rstring \<times> tree_entry \<Rightarrow> bool" where
  "built_as F x y \<longleftrightarrow> fst x = fst y \<and> length (e_id (snd y)) = 32 \<and> den F (NRef (snd y)) = den F (snd x)"

lemma built_as_get:
  "list_all2 (built_as F) m es \<Longrightarrow>
   rel_option (\<lambda>c e. den F (NRef e) = den F c) (bt_get m s) (bt_get es s)"
  by (induction rule: list_all2_induct) (auto simp: built_as_def bt_get_Cons)

lemma built_as_names: "list_all2 (built_as F) m es \<Longrightarrow> map fst es = map fst m"
  by (induction rule: list_all2_induct) (auto simp: built_as_def)

lemma built_as_ok: "list_all2 (built_as F) m es \<Longrightarrow> children_ok m \<Longrightarrow> list_all entry_ok es"
  by (induction rule: list_all2_induct) (auto simp: built_as_def entry_ok_def name_ok_def)

lemma bt_get_map_NRef:
  "bt_get (map (\<lambda>(name, e). (name, NRef e)) es) s = map_option NRef (bt_get es s)"
  by (induction es) (auto simp: bt_get_Cons)

lemma den_NRef_Cons:
  "e_kind e = EDir \<Longrightarrow> tree_at F (e_id e) = Some es \<Longrightarrow>
   den F (NRef e) (s # p) = (case bt_get es s of None \<Rightarrow> None | Some c \<Rightarrow> den F (NRef c) p)"
  by (simp add: den_Cons children_def bt_get_map_NRef split: option.splits)

lemma build_den:
  "\<forall>b. length (H b) = 32 \<Longrightarrow> build_node H n = Inr (e, out) \<Longrightarrow> node_ok n \<Longrightarrow> holds H F out \<Longrightarrow>
      den F (NRef e) = den F n \<and> length (e_id e) = 32"
    and "\<forall>b. length (H b) = 32 \<Longrightarrow> build_children H m = Inr (es, out) \<Longrightarrow> children_ok m \<Longrightarrow> holds H F out \<Longrightarrow>
      list_all2 (built_as F) m es"
proof (induction H n and H m arbitrary: e out and es out rule: build_node_build_children.induct)
  case (2 H m)
  from 2(3) obtain es os where b: "build_children H m = Inr (es, os)"
    and len: "length es \<le> MAX_DIR_ENTRIES"
    and e: "e = \<lparr>e_kind = EDir, e_id = object_id H KTree (tree_encode \<lparr>t_entries = es\<rparr>),
      e_exec = False, e_size = of_nat (length es)\<rparr>"
    and out: "out = os @ [(KTree, tree_encode \<lparr>t_entries = es\<rparr>)]"
    by (auto simp: Let_def split: if_splits)
  from 2(4) have okm: "bt_wf m" "children_ok m" by simp_all
  have rel: "list_all2 (built_as F) m es" using 2(1) [OF 2(2) b okm(2)] 2(5) out by simp
  have "tree_ok \<lparr>t_entries = es\<rparr>"
    using len okm(1) built_as_names [OF rel] built_as_ok [OF rel okm(2)]
    by (simp add: tree_ok_def bt_wf_def)
  moreover have "F (e_id e) = Some (KTree, tree_encode \<lparr>t_entries = es\<rparr>)"
    using 2(5) out e by simp
  ultimately have at: "tree_at F (e_id e) = Some es"
    by (simp add: tree_at_def tree_decode_encode)
  have "den F (NRef e) p = den F (NDir m) p" for p
  proof (cases p)
    case Nil
    then show ?thesis by (simp add: item_of_def e)
  next
    case (Cons s q)
    have "rel_option (\<lambda>c e. den F (NRef e) = den F c) (bt_get m s) (bt_get es s)"
      using rel by (rule built_as_get)
    then show ?thesis
      using Cons den_NRef_Cons [OF _ at, of s q] e
      by (auto simp: den_NDir_Cons elim: option.rel_cases)
  qed
  then show ?case using 2(2) e by (auto simp: object_id_def)
qed (auto simp: built_as_def)

lemma build_node_dir: "build_node H (NDir m) = Inr (e, out) \<Longrightarrow> e_kind e = EDir"
  by (auto simp: Let_def split: if_splits)

lemma edit_build_NDir:
  "m \<noteq> [] \<Longrightarrow> edit_build H (NDir m) =
     rbind (build_node H (NDir m)) (\<lambda>(e, out). Inr (Some (e_id e), out))"
  by (simp add: edit_build_def del: build_node.simps)

lemma den_dir_ref:
  "e_kind e = EDir \<Longrightarrow> e_kind e' = EDir \<Longrightarrow> e_id e = e_id e' \<Longrightarrow> den F (NRef e) = den F (NRef e')"
proof
  show "e_kind e = EDir \<Longrightarrow> e_kind e' = EDir \<Longrightarrow> e_id e = e_id e' \<Longrightarrow> den F (NRef e) p = den F (NRef e') p" for p
    by (cases p) (simp_all add: den_Cons children_def item_of_def)
qed

lemma edit_load_ok: "pred_option (\<lambda>i. length i = 32) root \<Longrightarrow> node_ok (edit_load root)"
  by (cases root) (simp_all add: edit_load_def)

text \<open>\<open>build\<close> stores exactly the map of the overlay; an empty root stores nothing.\<close>

lemma edit_build_spec:
  assumes "\<forall>b. length (H b) = 32" and "edit_build H n = Inr (root, out)" and "node_ok n"
    and "item_of n = IDir" and "holds H F out"
  shows "den F (edit_load root) = den F n"
proof (cases n)
  case (NRef e)
  then have "root = Some (e_id e)" "e_kind e = EDir"
    using assms(2,4) by (auto simp: edit_build_def item_of_def split: if_splits)
  then show ?thesis
    using NRef den_dir_ref [of "\<lparr>e_kind = EDir, e_id = e_id e, e_exec = False, e_size = 0\<rparr>" e F]
    by (simp add: edit_load_def)
next
  case (NDir m)
  show ?thesis
  proof (cases "m = []")
    case True
    then show ?thesis using assms(2) NDir by (simp add: edit_build_def edit_load_def)
  next
    case False
    with assms(2) NDir obtain e where e: "build_node H n = Inr (e, out)" "root = Some (e_id e)"
      by (auto simp: edit_build_NDir simp del: build_node.simps)
    have "e_kind e = EDir" using e(1) NDir build_node_dir by blast
    moreover have "den F (NRef e) = den F n" using build_den(1) [OF assms(1) e(1) assms(3,5)] by simp
    ultimately show ?thesis
      using e(2) den_dir_ref [of "\<lparr>e_kind = EDir, e_id = e_id e, e_exec = False, e_size = 0\<rparr>" e F]
      by (simp add: edit_load_def)
  qed
qed

lemma edit_build_root_len:
  assumes "\<forall>b. length (H b) = 32" and "edit_build H n = Inr (Some i, out)" and "node_ok n"
  shows "length i = 32"
proof (cases n)
  case (NRef e)
  then show ?thesis using assms by (auto simp: edit_build_def)
next
  case (NDir m)
  show ?thesis
  proof (cases "m = []")
    case True
    then show ?thesis using assms(2) NDir by (simp add: edit_build_def)
  next
    case False
    with assms(2) NDir obtain e where e: "build_node H (NDir m) = Inr (e, out)" "i = e_id e"
      by (auto simp: edit_build_NDir simp del: build_node.simps)
    then show ?thesis using assms(1) by (auto simp: Let_def object_id_def split: if_splits)
  qed
qed

subsection \<open>Reading\<close>

lemma entry_from_node_at:
  "entry_from H v dir segs rs = Inr (x, rs') \<Longrightarrow> segs \<noteq> [] \<Longrightarrow> e_kind e = EDir \<Longrightarrow> e_id e = dir \<Longrightarrow>
   node_at (lookup H v) (NRef e) segs = map_option NRef x"
proof (induction H v dir segs arbitrary: rs e rule: entry_from.induct)
  case (2 H v dir seg rest)
  let ?F = "lookup H v"
  from "2.prems"(1) obtain es r1 where es: "fetch_tree H v dir rs = Inr (es, r1)"
    and k: "(case bt_get es seg of None \<Rightarrow> sret None
      | Some entry \<Rightarrow> if rest = [] then sret (Some entry)
         else if e_kind entry \<noteq> EDir then sret None
         else entry_from H v (e_id entry) rest) r1 = Inr (x, rs')"
    by auto
  have ch: "children ?F (NRef e) = Some (map (\<lambda>(name, e). (name, NRef e)) es)"
    using fetch_tree_at [OF es] "2.prems"(3,4) by (simp add: children_def)
  show ?case
  proof (cases "bt_get es seg")
    case None
    then show ?thesis using k ch by (simp add: bt_get_map_NRef)
  next
    case (Some entry)
    show ?thesis
    proof (cases "rest = [] \<or> e_kind entry \<noteq> EDir")
      case True
      then show ?thesis using k ch Some
        by (cases rest) (auto simp: bt_get_map_NRef children_def split: if_splits)
    next
      case False
      then have "node_at ?F (NRef entry) rest = map_option NRef x"
        using k Some "2.IH" [of es entry] by auto
      then show ?thesis using ch Some by (simp add: bt_get_map_NRef)
    qed
  qed
qed simp

lemma entry_at_node_at:
  assumes "entry_at H v root segs rs = Inr (x, rs')" and "segs \<noteq> []"
  shows "node_at (lookup H v) (edit_load root) segs = map_option NRef x"
proof (cases root)
  case None
  then show ?thesis using assms by (cases segs) (auto simp: entry_at_def edit_load_def children_def)
next
  case (Some dir)
  then show ?thesis
    using assms entry_from_node_at [of H v dir segs rs x rs' "\<lparr>e_kind = EDir, e_id = dir, e_exec = False, e_size = 0\<rparr>"]
    by (auto simp: entry_at_def edit_load_def)
qed

text \<open>\<open>TreeEdit::get\<close> reads the edited map.\<close>

lemma readonly_item: "dir_entry_readonly H n = Inr e \<Longrightarrow> item_of (NRef e) = item_of n"
  by (cases n) (auto simp: item_of_def Let_def split: if_splits)

lemma walk_get_den:
  "walk_get H v n segs rs = Inr (x, rs') \<Longrightarrow> segs \<noteq> [] \<Longrightarrow> lookup H v \<subseteq>\<^sub>m F \<Longrightarrow>
   den F n segs = map_option (\<lambda>e. item_of (NRef e)) x"
proof (induction segs arbitrary: n rs)
  case (Cons s rest)
  show ?case
  proof (cases "children F n")
    case None
    then show ?thesis using Cons.prems(1) tree_at_mono [OF _ Cons.prems(3)]
      by (cases n) (fastforce simp: children_def den_Cons load_children_def split: if_splits dest!: fetch_tree_at)+
  next
    case (Some m)
    have step: "(case bt_get m s of None \<Rightarrow> sret None
        | Some child \<Rightarrow> if rest = [] then slift (rbind (dir_entry_readonly H child) (\<lambda>e. Inr (Some e)))
           else walk_get H v child rest) rs1 = Inr (x, rs') \<Longrightarrow> ?thesis" for rs1
      using Some Cons.IH Cons.prems(3)
      by (cases "rest = []")
        (auto simp: den_Cons readonly_item simp del: walk_get.simps split: option.splits)
    show ?thesis
    proof (cases n)
      case (NDir m')
      then show ?thesis using Cons.prems(1) Some step [of rs] by (simp add: children_def)
    next
      case (NRef e)
      then have d: "e_kind e = EDir" using Some by (auto simp: children_def split: if_splits)
      with Cons.prems(1) NRef obtain m' r1 where m': "load_children H v (e_id e) rs = Inr (m', r1)"
        and k: "(case bt_get m' s of None \<Rightarrow> sret None
        | Some child \<Rightarrow> if rest = [] then slift (rbind (dir_entry_readonly H child) (\<lambda>e. Inr (Some e)))
           else walk_get H v child rest) r1 = Inr (x, rs')"
        by auto
      have "m' = m" using materialize_children [of H v n rs m' r1 F] Cons.prems(3) m' d NRef Some by (simp add: materialize_def)
      then show ?thesis using k step by blast
    qed
  qed
qed simp

subsection \<open>Growing the store\<close>

text \<open>Every directory of the tree is stored.\<close>

definition tree_complete :: "contents \<Rightarrow> node \<Rightarrow> bool" where
  "tree_complete F n \<longleftrightarrow>
     (\<forall>p c. node_at F n p = Some c \<longrightarrow> item_of c = IDir \<longrightarrow> children F c \<noteq> None)"

lemma tree_complete_child:
  "tree_complete F n \<Longrightarrow> children F n = Some m \<Longrightarrow> bt_get m s = Some c \<Longrightarrow> tree_complete F c"
  unfolding tree_complete_def
proof (intro allI impI)
  fix p d
  assume a: "\<forall>p c. node_at F n p = Some c \<longrightarrow> item_of c = IDir \<longrightarrow> children F c \<noteq> None"
    and "children F n = Some m" "bt_get m s = Some c" "node_at F c p = Some d" "item_of d = IDir"
  then have "node_at F n (s # p) = Some d" by simp
  with a \<open>item_of d = IDir\<close> show "children F d \<noteq> None" by blast
qed

lemma node_at_grow:
  "tree_complete F n \<Longrightarrow> F \<subseteq>\<^sub>m F' \<Longrightarrow> node_at F' n p = node_at F n p"
proof (induction p arbitrary: n)
  case (Cons s p)
  show ?case
  proof (cases "children F n")
    case None
    then have "item_of n \<noteq> IDir"
      using Cons.prems(1) unfolding tree_complete_def by (metis node_at.simps(1))
    then have "children F' n = None" by (cases n) (auto simp: item_of_def children_def split: if_splits)
    then show ?thesis using None by simp
  next
    case (Some m)
    have "node_at F' c p = node_at F c p" if "bt_get m s = Some c" for c
      using tree_complete_child [OF Cons.prems(1) Some that] Cons.prems(2) by (rule Cons.IH)
    then show ?thesis
      using Some children_mono [OF Some Cons.prems(2)] by (cases "bt_get m s") simp_all
  qed
qed simp

lemma den_grow: "tree_complete F n \<Longrightarrow> F \<subseteq>\<^sub>m F' \<Longrightarrow> den F' n = den F n"
  by (rule ext) (simp add: den_def node_at_grow [of F n F'])

end
