(* ===== verification/Retention.thy ===== *)
theory Retention
  imports Tree_Spec
begin

text \<open>
  crates/duckfs/core/src/retention.rs: the protected references, a copy-on-write catalog of record
  files under hash-sharded paths, and the compare-and-exchange that moves a reference and the
  membership counts of the snapshots it names under one root. \<open>BTreeMap::from([..])\<close> inserts the
  pairs in turn.
\<close>

definition CATALOG_DEPTH :: nat where [caps]: "CATALOG_DEPTH = 33"

datatype retention_record =
    Reference retention_reference
  | Membership object_id u64

definition reference_of :: "rstring \<Rightarrow> u64 \<Rightarrow> retention_reference" where
  "reference_of snapshot revision = \<lparr>rr_snapshot = snapshot, rr_revision = revision\<rparr>"

text \<open>\<open>expect("decoded reference snapshot")\<close> is the \<open>the\<close> of an option that \<open>decode_record\<close> fills.\<close>

fun record_snapshot :: "retention_record \<Rightarrow> object_id" where
  "record_snapshot (Reference r) = the (from_hex_32 (rr_snapshot r))"
| "record_snapshot (Membership snapshot _) = snapshot"

fun record_file :: "retention_record \<Rightarrow> file_obj" where
  "record_file (Reference r) =
     \<lparr>f_size = 0, f_chunks = [],
      f_meta = bt_insert (str ''revision'') (dec_u64 (rr_revision r))
        (bt_insert (str ''snapshot'') (rr_snapshot r) [])\<rparr>"
| "record_file (Membership snapshot count) =
     \<lparr>f_size = 0, f_chunks = [],
      f_meta = bt_insert (str ''count'') (dec_u64 count)
        (bt_insert (str ''snapshot'') (to_hex snapshot) [])\<rparr>"

definition positive_number :: "rstring \<Rightarrow> u64 res" where
  "positive_number v =
     rbind (ok_or (parse_u64 v) (RetentionE RetentionNumber)) (\<lambda>n.
     if n \<noteq> 0 \<and> dec_u64 n = v then Inr n else Inl (RetentionE RetentionNumber))"

definition snapshot_id :: "rstring \<Rightarrow> object_id res" where
  "snapshot_id s =
     rbind (ok_or (from_hex_32 s) (RetentionE RetentionSnapshot)) (\<lambda>i.
     if to_hex i \<noteq> s then Inl (RetentionE SnapshotNotCanonicalHex) else Inr i)"

definition decode_record :: "bytes \<Rightarrow> retention_record res" where
  "decode_record body =
     rbind (file_decode body) (\<lambda>f.
     if \<not> (f_size f = 0 \<and> f_chunks f = [] \<and> length (f_meta f) = 2) then Inl (RetentionE RecordShape)
     else rbind (ok_or (bt_get (f_meta f) (str ''snapshot'')) (RetentionE RecordNoSnapshot)) (\<lambda>snapshot.
     rbind (snapshot_id snapshot) (\<lambda>i.
     case bt_get (f_meta f) (str ''revision'') of
       Some revision \<Rightarrow> rbind (positive_number revision) (\<lambda>n. Inr (Reference (reference_of snapshot n)))
     | None \<Rightarrow>
         rbind (ok_or (bt_get (f_meta f) (str ''count'')) (RetentionE RecordNoCount)) (\<lambda>count.
         rbind (positive_number count) (\<lambda>n. Inr (Membership i n))))))"

definition validate_name :: "rstring \<Rightarrow> rstring \<Rightarrow> unit res" where
  "validate_name module key =
     (let valid_module = (module \<noteq> [] \<and> length module \<le> MAX_WATCH_MODULE_ID_BYTES);
          valid_key = (key \<noteq> [] \<and> length key \<le> MAX_PIN_NAME_BYTES)
      in if \<not> valid_module \<or> \<not> valid_key then Inl (RetentionE RetentionName) else Inr ())"

definition shards :: "rstring \<Rightarrow> object_id \<Rightarrow> rstring list" where
  "shards section i = section # map hex_byte i"

definition reference_path :: "(bytes \<Rightarrow> object_id) \<Rightarrow> rstring \<Rightarrow> rstring \<Rightarrow> rstring list" where
  "reference_path H module key =
     shards (str ''references'') (object_id H KChunk (push_string module @ push_string key))"

definition membership_path :: "object_id \<Rightarrow> rstring list" where
  "membership_path i = shards (str ''snapshots'') i"

definition edit_get :: "(bytes \<Rightarrow> object_id) \<Rightarrow> view \<Rightarrow> rstring list \<Rightarrow> node \<Rightarrow> tree_entry option reading" where
  "edit_get H v segs n = (if segs = [] then sret None else walk_get H v n segs)"

definition get_record :: "(bytes \<Rightarrow> object_id) \<Rightarrow> view \<Rightarrow> object_id option \<Rightarrow> rstring list \<Rightarrow>
    retention_record option reading" where
  "get_record H v root path =
     sbind (edit_get H v path (edit_load root)) (\<lambda>entry. case entry of
       None \<Rightarrow> sret None
     | Some e \<Rightarrow>
         if e_kind e \<noteq> EFile then slift (Inl (RetentionE RecordNotFile))
         else sbind (store_get H v (e_id e)) (\<lambda>o1. case o1 of
           None \<Rightarrow> slift (Inl (RetentionE RecordMissing))
         | Some (kind, body) \<Rightarrow>
             if kind \<noteq> KFile then slift (Inl (RetentionE RecordKindMismatch))
             else slift (rbind (decode_record body) (\<lambda>r. Inr (Some r)))))"

definition retention_get :: "(bytes \<Rightarrow> object_id) \<Rightarrow> view \<Rightarrow> object_id option \<Rightarrow> rstring \<Rightarrow> rstring \<Rightarrow>
    retention_reference option reading" where
  "retention_get H v root module key =
     sbind (slift (validate_name module key)) (\<lambda>_.
     sbind (get_record H v root (reference_path H module key)) (\<lambda>r. case r of
       None \<Rightarrow> sret None
     | Some (Reference reference) \<Rightarrow> sret (Some reference)
     | Some (Membership _ _) \<Rightarrow> slift (Inl (RetentionE ReferenceEdge))))"

definition retention_count :: "(bytes \<Rightarrow> object_id) \<Rightarrow> view \<Rightarrow> object_id option \<Rightarrow> object_id \<Rightarrow> u64 reading" where
  "retention_count H v root i =
     sbind (get_record H v root (membership_path i)) (\<lambda>r. case r of
       None \<Rightarrow> sret 0
     | Some (Membership snapshot count) \<Rightarrow>
         if snapshot \<noteq> i then slift (Inl (RetentionE MembershipMismatch)) else sret count
     | Some (Reference _) \<Rightarrow> slift (Inl (RetentionE MembershipEdge)))"

definition retention_contains :: "(bytes \<Rightarrow> object_id) \<Rightarrow> view \<Rightarrow> object_id option \<Rightarrow> object_id \<Rightarrow> bool reading" where
  "retention_contains H v root i = sbind (retention_count H v root i) (\<lambda>n. sret (n \<noteq> 0))"

type_synonym edit_state = "node \<times> (kind \<times> bytes) list"

definition retention_put :: "(bytes \<Rightarrow> object_id) \<Rightarrow> view \<Rightarrow> rstring list \<Rightarrow> retention_record \<Rightarrow>
    edit_state \<Rightarrow> edit_state reading" where
  "retention_put H v path r st =
     (let body = file_encode (record_file r); i = object_id H KFile body in
      sbind (edit_put H v path \<lparr>e_kind = EFile, e_id = i, e_exec = False, e_size = 0\<rparr> (fst st)) (\<lambda>n.
      sret (n, snd st @ [(KFile, body)])))"

text \<open>\<open>for depth in (1..path.len()).rev()\<close>, the depth counting down.\<close>

fun remove_spine :: "(bytes \<Rightarrow> object_id) \<Rightarrow> view \<Rightarrow> rstring list \<Rightarrow> nat \<Rightarrow> node \<Rightarrow> node reading" where
  "remove_spine H v path 0 n = sret n"
| "remove_spine H v path (Suc d) n =
     sbind (edit_get H v (take (Suc d) path) n) (\<lambda>entry. case entry of
       None \<Rightarrow> slift (Inl (RetentionE AncestorMissing))
     | Some e \<Rightarrow>
         if \<not> (e_kind e = EDir \<and> e_size e = 0) then sret n
         else sbind (edit_rm H v (take (Suc d) path) n) (\<lambda>n'. remove_spine H v path d n'))"

definition retention_remove :: "(bytes \<Rightarrow> object_id) \<Rightarrow> view \<Rightarrow> rstring list \<Rightarrow> edit_state \<Rightarrow> edit_state reading" where
  "retention_remove H v path st =
     sbind (edit_rm H v path (fst st)) (\<lambda>n.
     sbind (remove_spine H v path (length path - 1) n) (\<lambda>n'. sret (n', snd st)))"

fun check_references :: "retention_reference list \<Rightarrow> unit res" where
  "check_references [] = Inr ()"
| "check_references (r # rs) =
     rbind (snapshot_id (rr_snapshot r)) (\<lambda>_.
     if rr_revision r = 0 then Inl (RetentionE RevisionZero) else check_references rs)"

definition optional_id :: "retention_reference option \<Rightarrow> object_id option res" where
  "optional_id r = (case r of None \<Rightarrow> Inr None
     | Some x \<Rightarrow> rbind (snapshot_id (rr_snapshot x)) (\<lambda>i. Inr (Some i)))"

definition release_membership :: "(bytes \<Rightarrow> object_id) \<Rightarrow> view \<Rightarrow> object_id option \<Rightarrow> object_id option \<Rightarrow>
    edit_state \<Rightarrow> edit_state reading" where
  "release_membership H v root previous st = (case previous of
     None \<Rightarrow> sret st
   | Some i \<Rightarrow>
       sbind (retention_count H v root i) (\<lambda>n.
       sbind (slift (ok_or (checked_sub64 n 1) (RetentionE MembershipUnderflow))) (\<lambda>remaining.
       if remaining = 0 then retention_remove H v (membership_path i) st
       else retention_put H v (membership_path i) (Membership i remaining) st)))"

definition acquire_membership :: "(bytes \<Rightarrow> object_id) \<Rightarrow> view \<Rightarrow> object_id option \<Rightarrow> object_id option \<Rightarrow>
    edit_state \<Rightarrow> edit_state reading" where
  "acquire_membership H v root next1 st = (case next1 of
     None \<Rightarrow> sret st
   | Some i \<Rightarrow>
       sbind (retention_count H v root i) (\<lambda>n.
       sbind (slift (ok_or (checked_add64 n 1) (RetentionE MembershipOverflow))) (\<lambda>added.
       retention_put H v (membership_path i) (Membership i added) st)))"

definition list_of_option :: "'a option \<Rightarrow> 'a list" where
  "list_of_option x = (case x of None \<Rightarrow> [] | Some y \<Rightarrow> [y])"

definition revision_regressed :: "retention_reference option \<Rightarrow> retention_reference option \<Rightarrow> bool" where
  "revision_regressed expected replacement = (case (expected, replacement) of
     (Some old, Some new) \<Rightarrow> rr_revision new \<le> rr_revision old
   | _ \<Rightarrow> False)"

text \<open>The edits of an accepted exchange: the reference, then the counts it moves.\<close>

definition exchange_edits :: "(bytes \<Rightarrow> object_id) \<Rightarrow> view \<Rightarrow> object_id option \<Rightarrow> rstring list \<Rightarrow>
    retention_reference option \<Rightarrow> retention_reference option \<Rightarrow> edit_state reading" where
  "exchange_edits H v root path expected replacement =
     sbind (case replacement of
         Some reference \<Rightarrow> retention_put H v path (Reference reference) (edit_load root, [])
       | None \<Rightarrow> retention_remove H v path (edit_load root, [])) (\<lambda>st.
     sbind (slift (optional_id expected)) (\<lambda>previous.
     sbind (slift (optional_id replacement)) (\<lambda>next1.
     if previous \<noteq> next1
     then sbind (release_membership H v root previous st) (acquire_membership H v root next1)
     else sret st)))"

definition compare_exchange :: "(bytes \<Rightarrow> object_id) \<Rightarrow> view \<Rightarrow> object_id option \<Rightarrow> rstring \<Rightarrow> rstring \<Rightarrow>
    retention_reference option \<Rightarrow> retention_reference option \<Rightarrow>
    (object_id option \<times> (kind \<times> bytes) list) reading" where
  "compare_exchange H v root module key expected replacement =
     sbind (slift (validate_name module key)) (\<lambda>_.
     sbind (slift (check_references (list_of_option expected @ list_of_option replacement))) (\<lambda>_.
     sbind (retention_get H v root module key) (\<lambda>current.
     if current \<noteq> expected then slift (Inl (RetentionE CompareExchangeMismatch))
     else if expected = replacement then sret (root, [])
     else if revision_regressed expected replacement then slift (Inl (RetentionE RevisionNotAdvanced))
     else
       sbind (exchange_edits H v root (reference_path H module key) expected replacement) (\<lambda>st.
       slift (rbind (edit_build H (fst st)) (\<lambda>(new_root, out). Inr (new_root, snd st @ out)))))))"

end
