(* ===== verification/Gc.thy ===== *)
theory Gc
  imports Retention
begin

text \<open>
  crates/duckfs/core/src/gc.rs: the strict mark over committed refs and its twin that collects the
  absent objects. Only the recursion through directories and the catalog's work list need fuel.
  A \<open>BTreeSet\<close> used for membership is a set; \<open>missing\<close>, whose order is observed, is a btree.
  \<open>w_held\<close> is the probe of a chunk: \<open>has\<close>, or \<open>verify\<close> at a possession boundary. A verifying
  store deletes a corrupt chunk; a walk probes a chunk once, so the deletion is not seen again
  within it and is not threaded here.
\<close>

record walk =
  w_get :: "object_id \<Rightarrow> (kind \<times> bytes) option res"
  w_has :: "object_id \<Rightarrow> bool"
  w_held :: "object_id \<Rightarrow> bool res"

definition gc_fetch :: "walk \<Rightarrow> object_id \<Rightarrow> kind \<Rightarrow> bytes res" where
  "gc_fetch w i expected =
     rbind (w_get w i) (\<lambda>o1. case o1 of
       None \<Rightarrow> Inl (GcE (RootObjectMissing i))
     | Some (kind, body) \<Rightarrow>
         if kind \<noteq> expected then Inl (GcE (CorruptGraph i expected)) else Inr body)"

subsection \<open>Mark\<close>

definition mark_chunk :: "walk \<Rightarrow> object_id \<Rightarrow> object_id set \<Rightarrow> object_id set res" where
  "mark_chunk w i live =
     (if i \<in> live then Inr live
      else if \<not> w_has w i then Inl (GcE (RootObjectMissing i))
      else Inr (insert i live))"

definition mark_file :: "walk \<Rightarrow> object_id \<Rightarrow> object_id set \<Rightarrow> object_id set res" where
  "mark_file w i live =
     (if i \<in> live then Inr live
      else rbind (gc_fetch w i KFile) (\<lambda>body. rbind (file_decode body) (\<lambda>f.
        rfold (\<lambda>l c. mark_chunk w c l) (insert i live) (f_chunks f))))"

fun mark_tree :: "nat \<Rightarrow> walk \<Rightarrow> object_id \<Rightarrow> object_id set \<Rightarrow> object_id set res" where
  "mark_tree 0 w i live = Inl OutOfFuel"
| "mark_tree (Suc n) w i live =
     (if i \<in> live then Inr live
      else rbind (gc_fetch w i KTree) (\<lambda>body. rbind (tree_decode body) (\<lambda>t.
        rfold (\<lambda>l (_, e). case e_kind e of
            EDir \<Rightarrow> mark_tree n w (e_id e) l
          | EFile \<Rightarrow> mark_file w (e_id e) l
          | ESymlink \<Rightarrow> mark_file w (e_id e) l) (insert i live) (t_entries t))))"

definition mark_snapshot :: "nat \<Rightarrow> walk \<Rightarrow> object_id \<Rightarrow> object_id set \<Rightarrow> object_id set res" where
  "mark_snapshot n w i live =
     (if i \<in> live then Inr live
      else rbind (gc_fetch w i KSnapshot) (\<lambda>body. rbind (snapshot_decode body) (\<lambda>s.
        mark_tree n w (s_root s) (insert i live))))"

subsection \<open>Collect\<close>

type_synonym collected = "object_id set \<times> (object_id, unit) btree"

definition collect_chunk :: "walk \<Rightarrow> object_id \<Rightarrow> collected \<Rightarrow> collected res" where
  "collect_chunk w i st = (case st of (visited, missing) \<Rightarrow>
     if i \<in> visited then Inr st
     else rbind (w_held w i) (\<lambda>held.
       Inr (insert i visited, if held then missing else bt_insert i () missing)))"

definition collect_file :: "walk \<Rightarrow> object_id \<Rightarrow> collected \<Rightarrow> collected res" where
  "collect_file w i st = (case st of (visited, missing) \<Rightarrow>
     if i \<in> visited then Inr st
     else if \<not> w_has w i then Inr (insert i visited, bt_insert i () missing)
     else rbind (gc_fetch w i KFile) (\<lambda>body. rbind (file_decode body) (\<lambda>f.
       rfold (\<lambda>l c. collect_chunk w c l) (insert i visited, missing) (f_chunks f))))"

fun collect_tree :: "nat \<Rightarrow> walk \<Rightarrow> object_id \<Rightarrow> collected \<Rightarrow> collected res" where
  "collect_tree 0 w i st = Inl OutOfFuel"
| "collect_tree (Suc n) w i st = (case st of (visited, missing) \<Rightarrow>
     if i \<in> visited then Inr st
     else if \<not> w_has w i then Inr (insert i visited, bt_insert i () missing)
     else rbind (gc_fetch w i KTree) (\<lambda>body. rbind (tree_decode body) (\<lambda>t.
       rfold (\<lambda>l (_, e). case e_kind e of
           EDir \<Rightarrow> collect_tree n w (e_id e) l
         | EFile \<Rightarrow> collect_file w (e_id e) l
         | ESymlink \<Rightarrow> collect_file w (e_id e) l) (insert i visited, missing) (t_entries t))))"

definition collect_snapshot :: "nat \<Rightarrow> walk \<Rightarrow> object_id \<Rightarrow> collected \<Rightarrow> collected res" where
  "collect_snapshot n w i st = (case st of (visited, missing) \<Rightarrow>
     if i \<in> visited then Inr st
     else if \<not> w_has w i then Inr (insert i visited, bt_insert i () missing)
     else rbind (gc_fetch w i KSnapshot) (\<lambda>body. rbind (snapshot_decode body) (\<lambda>s.
       collect_tree n w (s_root s) (insert i visited, missing))))"

text \<open>
  The catalog's stack, top first; \<open>push\<close> in entry order leaves the last entry on top. The second
  component is the catalog's own visited set.
\<close>

definition catalog_child :: "nat \<Rightarrow> rstring \<times> tree_entry \<Rightarrow> (object_id \<times> kind \<times> nat) res" where
  "catalog_child depth ne = (case e_kind (snd ne) of
     EDir \<Rightarrow> Inr (e_id (snd ne), KTree, depth + 1)
   | EFile \<Rightarrow> Inr (e_id (snd ne), KFile, depth + 1)
   | ESymlink \<Rightarrow> Inl (GcE CatalogSymlink))"

fun catalog_loop :: "nat \<Rightarrow> nat \<Rightarrow> walk \<Rightarrow> (object_id \<times> kind \<times> nat) list \<Rightarrow> object_id set \<Rightarrow>
    collected \<Rightarrow> collected res" where
  "catalog_loop 0 n w stack catalog st = Inl OutOfFuel"
| "catalog_loop (Suc m) n w [] catalog st = Inr st"
| "catalog_loop (Suc m) n w ((i, kind, depth) # stack) catalog (visited, missing) =
     (if depth > CATALOG_DEPTH then Inl (GcE CatalogDepthExceeded)
      else if i \<in> catalog then catalog_loop m n w stack catalog (visited, missing)
      else if \<not> w_has w i then
        catalog_loop m n w stack (insert i catalog) (insert i visited, bt_insert i () missing)
      else rbind (gc_fetch w i kind) (\<lambda>body. case kind of
          KTree \<Rightarrow> rbind (tree_decode body) (\<lambda>t.
            rbind (rmap (catalog_child depth) (t_entries t)) (\<lambda>kids.
            catalog_loop m n w (rev kids @ stack) (insert i catalog) (insert i visited, missing)))
        | KFile \<Rightarrow> rbind (decode_record body) (\<lambda>r.
            rbind (collect_snapshot n w (record_snapshot r) (insert i visited, missing)) (\<lambda>st'.
            catalog_loop m n w stack (insert i catalog) st'))
        | _ \<Rightarrow> Inl (GcE CatalogEdge)))"

definition collect_retention :: "nat \<Rightarrow> nat \<Rightarrow> walk \<Rightarrow> object_id \<Rightarrow> collected \<Rightarrow> collected res" where
  "collect_retention m n w root st = catalog_loop m n w [(root, KTree, 0)] {} st"

definition collect :: "nat \<Rightarrow> nat \<Rightarrow> walk \<Rightarrow> refs \<Rightarrow> (object_id, unit) btree res" where
  "collect m n w r =
     rbind (rfold (\<lambda>st i. collect_snapshot n w i st) ({}, []) (list_of_option (head r))) (\<lambda>st.
     rbind (rfold (\<lambda>st i. collect_snapshot n w i st) st (window r)) (\<lambda>st.
     rbind (rfold (\<lambda>st (_, p). collect_snapshot n w (pin_snapshot p) st) st (pins r)) (\<lambda>st.
     rbind (rfold (\<lambda>st (d, _). collect_chunk w d st) st (staging r)) (\<lambda>st.
     rbind (rfold (\<lambda>st i. collect_retention m n w i st) st (list_of_option (retention_root r))) (\<lambda>st.
     Inr (snd st))))))"

definition walk_of :: "'s store_ops \<Rightarrow> 's \<Rightarrow> bool \<Rightarrow> walk" where
  "walk_of ops s verify_chunks =
     \<lparr>w_get = so_get ops s, w_has = so_has ops s,
      w_held = (if verify_chunks then (\<lambda>i. fst (so_verify ops i s)) else (\<lambda>i. Inr (so_has ops s i)))\<rparr>"

definition collect_missing :: "nat \<Rightarrow> nat \<Rightarrow> 's store_ops \<Rightarrow> refs \<Rightarrow> 's \<Rightarrow> (object_id, unit) btree res" where
  "collect_missing m n ops r s = collect m n (walk_of ops s False) r"

definition collect_missing_verified :: "nat \<Rightarrow> nat \<Rightarrow> 's store_ops \<Rightarrow> refs \<Rightarrow> 's \<Rightarrow> (object_id, unit) btree res" where
  "collect_missing_verified m n ops r s = collect m n (walk_of ops s True) r"

definition mark :: "nat \<Rightarrow> nat \<Rightarrow> 's store_ops \<Rightarrow> refs \<Rightarrow> 's \<Rightarrow> object_id set res" where
  "mark m n ops r s =
     (let w = walk_of ops s False in
      rbind (rfold (\<lambda>l i. mark_snapshot n w i l) {} (list_of_option (head r))) (\<lambda>live.
      rbind (rfold (\<lambda>l i. mark_snapshot n w i l) live (window r)) (\<lambda>live.
      rbind (rfold (\<lambda>l (_, p). mark_snapshot n w (pin_snapshot p) l) live (pins r)) (\<lambda>live.
      rbind (rfold (\<lambda>l (d, _). mark_chunk w d l) live (staging r)) (\<lambda>live.
      case retention_root r of
        None \<Rightarrow> Inr live
      | Some root \<Rightarrow>
          rbind (collect_retention m n w root (live, [])) (\<lambda>(visited, missing). case missing of
            [] \<Rightarrow> Inr visited
          | (i, _) # _ \<Rightarrow> Inl (GcE (RootObjectMissing i))))))))"

end
