(* ===== verification/Commit.thy ===== *)
theory Commit
  imports Gc
begin

text \<open>
  crates/duckfs/core/src/fs.rs, the commit internals: the free functions from
  \<open>refs_contains_snapshot\<close> to \<open>stage_object\<close>. \<open>nfc\<close> and \<open>b64_decode\<close> are the crates
  unicode-normalization and base64 (\<open>STANDARD.decode\<close>), parameters. The locals of \<open>commit_apply\<close>
  that its loop over the changes mutates are the record \<open>plan_state\<close>.
\<close>

subsection \<open>Small helpers\<close>

definition sweep_expired :: "u64 \<Rightarrow> refs \<Rightarrow> refs" where
  "sweep_expired height r = r\<lparr>staging := filter (\<lambda>(_, s). st_expires_at s > height) (staging r)\<rparr>"

definition push_window :: "nat \<Rightarrow> object_id \<Rightarrow> refs \<Rightarrow> refs" where
  "push_window cap i r = (let w = window r @ [i] in r\<lparr>window := drop (length w - cap) w\<rparr>)"

definition refs_commit_headroom :: "refs \<Rightarrow> nat \<Rightarrow> nat" where
  "refs_commit_headroom r window_cap =
     (if head r = None then 32 else 0) + 32 * (window_cap - length (window r)) +
     (if retention_root r = None then 32 else 0)"

definition refuse_refs_growth :: "refs \<Rightarrow> nat \<Rightarrow> nat \<Rightarrow> unit res" where
  "refuse_refs_growth r entry_len window_cap =
     ensure (encoded_refs_len r + entry_len + refs_commit_headroom r window_cap \<le> MAX_REFS_IMAGE_BYTES)
       (FsE RefsImageFull)"

definition canon_authorized :: "(rstring \<Rightarrow> rstring) \<Rightarrow> authority \<Rightarrow> rstring \<Rightarrow> rstring list res" where
  "canon_authorized nfc a path =
     rbind (canonical nfc path) (\<lambda>segs. rbind (check_authority a segs) (\<lambda>_. Inr segs))"

definition watch_origin_gate :: "authority \<Rightarrow> rstring \<Rightarrow> unit res" where
  "watch_origin_gate a module_id = (case a of
     AuthSystem \<Rightarrow> Inr ()
   | AuthModule actor \<Rightarrow> if actor \<noteq> module_id then Inl (FsE WatchOnlySelf) else Inr ()
   | External _ _ \<Rightarrow> Inl (FsE WatchModuleOriginOnly)
   | Program _ \<Rightarrow> Inl (FsE WatchModuleOriginOnly))"

definition canonical_watch_prefix :: "(rstring \<Rightarrow> rstring) \<Rightarrow> rstring \<Rightarrow> rstring res" where
  "canonical_watch_prefix nfc p = rbind (canonical nfc p) (\<lambda>segs. Inr (join_segs segs))"

definition watch_matches :: "rstring \<Rightarrow> rstring \<Rightarrow> bool" where
  "watch_matches p q =
     (if p = [SLASH] then True
      else if q = p then True
      else take (length p) q = p \<and> length p < length q \<and> q ! length p = SLASH)"

definition dedup :: "rstring \<Rightarrow> rstring set \<Rightarrow> rstring set res" where
  "dedup joined seen = (if joined \<in> seen then Inl (CommitE DuplicatePath) else Inr (insert joined seen))"

fun validate_meta_entries :: "(rstring, rstring) btree \<Rightarrow> unit res" where
  "validate_meta_entries [] = Inr ()"
| "validate_meta_entries ((key, value) # m) =
     (if length key > MAX_META_KEY_BYTES then Inl (CommitE CommitMetaKeyOverCap)
      else if length value > MAX_META_VALUE_BYTES then Inl (CommitE CommitMetaValueOverCap)
      else validate_meta_entries m)"

definition validate_meta :: "(rstring, rstring) btree \<Rightarrow> unit res" where
  "validate_meta m =
     (if length m > MAX_META_ENTRIES then Inl (CommitE CommitMetaCountOverCap)
      else validate_meta_entries m)"

definition validate_chunks :: "u64 \<Rightarrow> rstring list \<Rightarrow> object_id list res" where
  "validate_chunks sz chunks =
     (if length chunks > MAX_CHUNKS_PER_FILE then Inl (CommitE CommitChunkCountOverCap)
      else rbind (verify_file_shape sz (length chunks)) (\<lambda>_.
        rmap (\<lambda>hex. ok_or (from_hex_32 hex) (CommitE ChunkDigestNotHex)) chunks))"

definition chunk_stat :: "object_id \<Rightarrow> refs \<Rightarrow> block_index \<Rightarrow> block_index \<Rightarrow> u64 option res" where
  "chunk_stat i r pending_ids staged_ids =
     (case bt_get (staging r) i of
        Some s \<Rightarrow> Inr (Some (st_len s))
      | None \<Rightarrow>
          (case (case bt_get pending_ids i of Some x \<Rightarrow> Some x | None \<Rightarrow> bt_get staged_ids i) of
             Some (kind, len) \<Rightarrow> if kind \<noteq> KChunk then Inl (CommitE DigestNotChunk) else Inr (Some len)
           | None \<Rightarrow> Inr None))"

definition refs_contains_snapshot :: "(bytes \<Rightarrow> object_id) \<Rightarrow> view \<Rightarrow> refs \<Rightarrow> object_id \<Rightarrow> bool reading" where
  "refs_contains_snapshot H v r i =
     (if head r = Some i \<or> i \<in> set (window r) \<or> (\<exists>(_, p) \<in> set (pins r). pin_snapshot p = i)
      then sret True else retention_contains H v (retention_root r) i)"

subsection \<open>Staging objects\<close>

type_synonym staged_objects = "(kind \<times> bytes) list"
type_synonym stage_state = "staged_objects \<times> block_index"

definition stage_object :: "(bytes \<Rightarrow> object_id) \<Rightarrow> view \<Rightarrow> block_index \<Rightarrow> kind \<Rightarrow> bytes \<Rightarrow> stage_state \<Rightarrow>
    (object_id \<times> stage_state) reading" where
  "stage_object H v pending_ids kind body st = (case st of (objects, staged_ids) \<Rightarrow>
     let i = object_id H kind body in
     if bt_has staged_ids i \<or> bt_has pending_ids i then sret (i, st)
     else sbind (has_committed v i) (\<lambda>held.
       if held then sret (i, st)
       else sret (i, (objects @ [(kind, body)], bt_insert i (kind, of_nat (length body)) staged_ids))))"

text \<open>\<open>slice::chunks(CHUNK_SIZE)\<close>\<close>

function chunk_pieces :: "bytes \<Rightarrow> bytes list" where
  "chunk_pieces bs =
     (if bs = [] then []
      else take (unat CHUNK_SIZE) bs # chunk_pieces (drop (unat CHUNK_SIZE) bs))"
  by pat_completeness auto
termination
  by (relation "measure length") auto

declare chunk_pieces.simps [simp del]

fun stage_pieces :: "(bytes \<Rightarrow> object_id) \<Rightarrow> view \<Rightarrow> block_index \<Rightarrow> bytes list \<Rightarrow> stage_state \<Rightarrow>
    (object_id list \<times> stage_state) reading" where
  "stage_pieces H v pending_ids [] st = sret ([], st)"
| "stage_pieces H v pending_ids (c # cs) st =
     sbind (stage_object H v pending_ids KChunk c st) (\<lambda>(i, st1).
     sbind (stage_pieces H v pending_ids cs st1) (\<lambda>(ids, st2). sret (i # ids, st2)))"

definition chunk_bytes :: "(bytes \<Rightarrow> object_id) \<Rightarrow> view \<Rightarrow> block_index \<Rightarrow> bytes \<Rightarrow> stage_state \<Rightarrow>
    (object_id list \<times> stage_state) reading" where
  "chunk_bytes H v pending_ids bs st =
     (if bs = [] then sret ([], st) else stage_pieces H v pending_ids (chunk_pieces bs) st)"

definition stage_fileobj :: "(bytes \<Rightarrow> object_id) \<Rightarrow> view \<Rightarrow> block_index \<Rightarrow> u64 \<Rightarrow> object_id list \<Rightarrow>
    (rstring, rstring) btree \<Rightarrow> stage_state \<Rightarrow> (object_id \<times> stage_state) reading" where
  "stage_fileobj H v pending_ids sz chunks meta st =
     stage_object H v pending_ids KFile
       (file_encode \<lparr>f_size = sz, f_chunks = chunks, f_meta = meta\<rparr>) st"

subsection \<open>Planning\<close>

datatype edit_op =
    PlanPut "rstring list" tree_entry
  | PlanMkdir "rstring list"
  | PlanRm "rstring list"
  | PlanMv "rstring list" "rstring list"

record plan_state =
  ps_stage :: stage_state
  ps_plan :: "edit_op list"
  ps_touched :: "(rstring \<times> rstring list) list"
  ps_seen :: "rstring set"
  ps_chunk_refs :: "object_id list"
  ps_checks :: "(u64 \<times> object_id list) list"
  ps_inline :: nat

definition plan_start :: plan_state where
  "plan_start = \<lparr>ps_stage = ([], []), ps_plan = [], ps_touched = [], ps_seen = {},
     ps_chunk_refs = [], ps_checks = [], ps_inline = 0\<rparr>"

definition plan_op :: "edit_op \<Rightarrow> rstring list list \<Rightarrow> rstring set \<Rightarrow> plan_state \<Rightarrow> plan_state" where
  "plan_op op paths seen ps =
     ps\<lparr>ps_plan := ps_plan ps @ [op],
        ps_touched := ps_touched ps @ map (\<lambda>segs. (join_segs segs, segs)) paths,
        ps_seen := seen\<rparr>"

text \<open>The file object of a \<open>Put\<close>: its id, its chunks and its size.\<close>

definition plan_content :: "(bytes \<Rightarrow> object_id) \<Rightarrow> (rstring \<Rightarrow> bytes option) \<Rightarrow> view \<Rightarrow> block_index \<Rightarrow>
    (rstring, rstring) btree \<Rightarrow> content \<Rightarrow> plan_state \<Rightarrow>
    (object_id \<times> object_id list \<times> u64 \<times> plan_state) reading" where
  "plan_content H b64_decode v pending_ids meta content ps = (case content of
     Inline b64 \<Rightarrow>
       sbind (slift (ok_or (b64_decode b64) (CommitE InlineNotBase64))) (\<lambda>bs.
       let inline = ps_inline ps + length bs in
       if inline > MAX_INLINE_COMMIT_BYTES then slift (Inl (CommitE InlineBudgetExceeded))
       else
         sbind (chunk_bytes H v pending_ids bs (ps_stage ps)) (\<lambda>(ids, st1).
         sbind (stage_fileobj H v pending_ids (of_nat (length bs)) ids meta st1) (\<lambda>(i, st2).
         sret (i, ids, of_nat (length bs), ps\<lparr>ps_stage := st2, ps_inline := inline\<rparr>))))
   | Chunks sz chunks \<Rightarrow>
       sbind (slift (validate_chunks sz chunks)) (\<lambda>ids.
       sbind (stage_fileobj H v pending_ids sz ids meta (ps_stage ps)) (\<lambda>(i, st).
       sret (i, ids, sz, ps\<lparr>ps_stage := st, ps_checks := ps_checks ps @ [(sz, ids)]\<rparr>))))"

definition plan_change :: "(bytes \<Rightarrow> object_id) \<Rightarrow> (rstring \<Rightarrow> rstring) \<Rightarrow> (rstring \<Rightarrow> bytes option) \<Rightarrow>
    view \<Rightarrow> block_index \<Rightarrow> authority \<Rightarrow> plan_state \<Rightarrow> change \<Rightarrow> plan_state reading" where
  "plan_change H nfc b64_decode v pending_ids a ps ch = (case ch of
     Put path exec meta content \<Rightarrow>
       sbind (slift (canon_authorized nfc a path)) (\<lambda>segs.
       sbind (slift (dedup (join_segs segs) (ps_seen ps))) (\<lambda>seen.
       sbind (slift (validate_meta meta)) (\<lambda>_.
       sbind (plan_content H b64_decode v pending_ids meta content ps) (\<lambda>(i, ids, sz, ps1).
       sret (plan_op (PlanPut segs \<lparr>e_kind = EFile, e_id = i, e_exec = exec, e_size = sz\<rparr>) [segs] seen
              (ps1\<lparr>ps_chunk_refs := ps_chunk_refs ps1 @ ids\<rparr>))))))
   | Mkdir path \<Rightarrow>
       sbind (slift (canon_authorized nfc a path)) (\<lambda>segs.
       sbind (slift (dedup (join_segs segs) (ps_seen ps))) (\<lambda>seen.
       sret (plan_op (PlanMkdir segs) [segs] seen ps)))
   | Rm path \<Rightarrow>
       sbind (slift (canon_authorized nfc a path)) (\<lambda>segs.
       sbind (slift (dedup (join_segs segs) (ps_seen ps))) (\<lambda>seen.
       sret (plan_op (PlanRm segs) [segs] seen ps)))
   | Mv from to \<Rightarrow>
       sbind (slift (canon_authorized nfc a from)) (\<lambda>from_segs.
       sbind (slift (canon_authorized nfc a to)) (\<lambda>to_segs.
       sbind (slift (dedup (join_segs from_segs) (ps_seen ps))) (\<lambda>seen1.
       sbind (slift (dedup (join_segs to_segs) seen1)) (\<lambda>seen2.
       sret (plan_op (PlanMv from_segs to_segs) [from_segs, to_segs] seen2 ps)))))
   | Symlink path target \<Rightarrow>
       sbind (slift (canon_authorized nfc a path)) (\<lambda>segs.
       sbind (slift (dedup (join_segs segs) (ps_seen ps))) (\<lambda>seen.
       if length target > MAX_SYMLINK_TARGET_BYTES then slift (Inl (CommitE SymlinkTargetOverCap))
       else
         sbind (stage_object H v pending_ids KChunk target (ps_stage ps)) (\<lambda>(chunk, st1).
         sbind (stage_object H v pending_ids KFile
             (file_encode \<lparr>f_size = of_nat (length target), f_chunks = [chunk], f_meta = []\<rparr>) st1)
           (\<lambda>(i, st2).
         sret (plan_op (PlanPut segs \<lparr>e_kind = ESymlink, e_id = i, e_exec = False,
                                     e_size = of_nat (length target)\<rparr>) [segs] seen
                (ps\<lparr>ps_stage := st2, ps_chunk_refs := ps_chunk_refs ps @ [chunk]\<rparr>)))))))"

subsection \<open>The checks after the plan\<close>

fun check_chunks :: "refs \<Rightarrow> block_index \<Rightarrow> block_index \<Rightarrow> u64 \<Rightarrow> nat \<Rightarrow> nat \<Rightarrow> object_id list \<Rightarrow> unit res" where
  "check_chunks r pending_ids staged_ids sz n index [] = Inr ()"
| "check_chunks r pending_ids staged_ids sz n index (i # ids) =
     rbind (chunk_stat i r pending_ids staged_ids) (\<lambda>o1.
     rbind (ok_or o1 (CommitE ChunkNotAvailable)) (\<lambda>got.
     rbind (verify_chunk_len_at sz n index got) (\<lambda>_.
     check_chunks r pending_ids staged_ids sz n (index + 1) ids)))"

fun check_availability :: "refs \<Rightarrow> block_index \<Rightarrow> block_index \<Rightarrow> (u64 \<times> object_id list) list \<Rightarrow> unit res" where
  "check_availability r pending_ids staged_ids [] = Inr ()"
| "check_availability r pending_ids staged_ids ((sz, ids) # cs) =
     rbind (check_chunks r pending_ids staged_ids sz (length ids) 0 ids) (\<lambda>_.
     check_availability r pending_ids staged_ids cs)"

text \<open>Step 7, the compare-and-swap per path.\<close>

fun check_conflicts :: "(bytes \<Rightarrow> object_id) \<Rightarrow> view \<Rightarrow> object_id option \<Rightarrow> object_id option \<Rightarrow>
    (rstring \<times> rstring list) list \<Rightarrow> unit reading" where
  "check_conflicts H v base_root effective_root [] = sret ()"
| "check_conflicts H v base_root effective_root ((joined, segs) # ts) =
     sbind (entry_at H v base_root segs) (\<lambda>x.
     sbind (entry_at H v effective_root segs) (\<lambda>y.
     if x \<noteq> y then slift (Inl (CommitE (Conflict joined)))
     else check_conflicts H v base_root effective_root ts))"

definition apply_op :: "(bytes \<Rightarrow> object_id) \<Rightarrow> view \<Rightarrow> node \<Rightarrow> edit_op \<Rightarrow> node reading" where
  "apply_op H v n op = (case op of
     PlanPut segs entry \<Rightarrow> edit_put H v segs entry n
   | PlanMkdir segs \<Rightarrow> edit_mkdir H v segs n
   | PlanRm segs \<Rightarrow> edit_rm H v segs n
   | PlanMv from to \<Rightarrow> edit_mv H v from to n)"

record notification =
  n_module :: rstring
  n_prefix :: rstring
  n_path :: rstring
  n_snapshot :: rstring

definition notify :: "(rstring \<times> rstring, unit) btree \<Rightarrow> rstring \<Rightarrow> rstring list \<Rightarrow> notification list" where
  "notify ws snapshot paths =
     concat (map (\<lambda>joined.
       map (\<lambda>((p, m), _). \<lparr>n_module = m, n_prefix = p, n_path = joined, n_snapshot = snapshot\<rparr>)
         (filter (\<lambda>((p, m), _). watch_matches p joined) ws)) paths)"

subsection \<open>The commit engine\<close>

text \<open>Step 9 for an empty filesystem: the canonical empty tree stands in for the root.\<close>

definition stage_root :: "(bytes \<Rightarrow> object_id) \<Rightarrow> view \<Rightarrow> block_index \<Rightarrow> object_id option \<Rightarrow> staged_objects \<Rightarrow>
    block_index \<Rightarrow> (object_id \<times> staged_objects) reading" where
  "stage_root H v pending_ids root objects staged_ids = (case root of
     Some i \<Rightarrow> sret (i, objects)
   | None \<Rightarrow>
       let body = tree_encode \<lparr>t_entries = []\<rparr>; i = object_id H KTree body in
       if bt_has staged_ids i \<or> bt_has pending_ids i then sret (i, objects)
       else sbind (has_committed v i) (\<lambda>held.
         if held then sret (i, objects) else sret (i, objects @ [(KTree, body)])))"

definition resolve_base :: "(bytes \<Rightarrow> object_id) \<Rightarrow> view \<Rightarrow> refs \<Rightarrow> rstring option \<Rightarrow> object_id option reading" where
  "resolve_base H v r base = (case base of
     None \<Rightarrow> sret None
   | Some hex \<Rightarrow>
       sbind (slift (ok_or (from_hex_32 hex) (CommitE BaseNotResolvable))) (\<lambda>i.
       sbind (refs_contains_snapshot H v r i) (\<lambda>known.
       if \<not> known then slift (Inl (CommitE BaseNotResolvable))
       else sbind (snapshot_root_tree H v i) (\<lambda>root. sret (Some root)))))"

definition effective_root_of :: "(bytes \<Rightarrow> object_id) \<Rightarrow> view \<Rightarrow> object_id option \<Rightarrow> object_id option reading" where
  "effective_root_of H v snapshot = (case snapshot of
     None \<Rightarrow> sret None
   | Some h \<Rightarrow> sbind (snapshot_root_tree H v h) (\<lambda>root. sret (Some root)))"

record commit_built =
  cb_refs :: refs
  cb_objects :: staged_objects
  cb_notifications :: "notification list"

text \<open>The end of step 9, and steps 10 and 11: the snapshot, the refs and the watch fan-out.\<close>

definition commit_snapshot :: "refs \<Rightarrow> authority \<Rightarrow> u64 \<Rightarrow> u64 \<Rightarrow> rstring \<Rightarrow> object_id \<Rightarrow> snapshot_obj" where
  "commit_snapshot r a height time message root =
     \<lparr>s_root = root, s_parent = head r, s_author = authority_actor a,
      s_time = time, s_height = height, s_message = message\<rparr>"

definition seal_commit :: "(bytes \<Rightarrow> object_id) \<Rightarrow> refs \<Rightarrow> snapshot_obj \<Rightarrow> nat \<Rightarrow> plan_state \<Rightarrow>
    staged_objects \<Rightarrow> commit_built" where
  "seal_commit H r s window_cap ps objects =
     (let body = snapshot_encode s;
          snap = object_id H KSnapshot body;
          r' = push_window window_cap snap (r\<lparr>head := Some snap\<rparr>);
          r'' = r'\<lparr>staging := fold bt_remove (ps_chunk_refs ps) (staging r')\<rparr>
      in \<lparr>cb_refs = r'', cb_objects = objects @ [(KSnapshot, body)],
          cb_notifications = notify (watches r'') (to_hex snap) (map fst (ps_touched ps))\<rparr>)"

definition commit_apply :: "(bytes \<Rightarrow> object_id) \<Rightarrow> (rstring \<Rightarrow> rstring) \<Rightarrow> (rstring \<Rightarrow> bytes option) \<Rightarrow>
    view \<Rightarrow> block_index \<Rightarrow> refs \<Rightarrow> authority \<Rightarrow> u64 \<Rightarrow> u64 \<Rightarrow> rstring option \<Rightarrow> rstring \<Rightarrow> change list \<Rightarrow>
    nat \<Rightarrow> commit_built reading" where
  "commit_apply H nfc b64_decode v pending_ids refs0 a height time base message changes window_cap =
     (let r = sweep_expired height refs0 in
      if length message > MAX_MESSAGE_BYTES then slift (Inl (CommitE CommitMessageOverCap))
      else if changes = [] then slift (Inl (CommitE CommitEmpty))
      else if length changes > MAX_CHANGES_PER_COMMIT then slift (Inl (CommitE CommitOverChangeCap))
      else
        sbind (resolve_base H v r base) (\<lambda>base_root.
        sbind (effective_root_of H v (head r)) (\<lambda>effective_root.
        sbind (sfold (plan_change H nfc b64_decode v pending_ids a) plan_start changes) (\<lambda>ps.
        sbind (slift (check_availability r pending_ids (snd (ps_stage ps)) (ps_checks ps))) (\<lambda>_.
        sbind (check_conflicts H v base_root effective_root (ps_touched ps)) (\<lambda>_.
        sbind (sfold (apply_op H v) (edit_load effective_root) (ps_plan ps)) (\<lambda>edit.
        sbind (slift (edit_build H edit)) (\<lambda>(root1, out).
        sbind (stage_root H v pending_ids root1 (fst (ps_stage ps) @ out) (snd (ps_stage ps)))
          (\<lambda>(root, objects).
        sret (seal_commit H r (commit_snapshot r a height time message root) window_cap ps objects))))))))))"

text \<open>The steps of an accepted commit.\<close>

lemma commit_applyE:
  assumes "commit_apply H nfc b64_decode v pending_ids refs0 a height time base message changes cap rs = Inr (built, rs')"
  obtains base_root r1 effective_root r2 ps r3 r4 edit r5 root1 out root objects where
    "resolve_base H v (sweep_expired height refs0) base rs = Inr (base_root, r1)"
    "effective_root_of H v (head (sweep_expired height refs0)) r1 = Inr (effective_root, r2)"
    "sfold (plan_change H nfc b64_decode v pending_ids a) plan_start changes r2 = Inr (ps, r3)"
    "check_availability (sweep_expired height refs0) pending_ids (snd (ps_stage ps)) (ps_checks ps) = Inr ()"
    "check_conflicts H v base_root effective_root (ps_touched ps) r3 = Inr ((), r4)"
    "sfold (apply_op H v) (edit_load effective_root) (ps_plan ps) r4 = Inr (edit, r5)"
    "edit_build H edit = Inr (root1, out)"
    "stage_root H v pending_ids root1 (fst (ps_stage ps) @ out) (snd (ps_stage ps)) r5 = Inr ((root, objects), rs')"
    "built = seal_commit H (sweep_expired height refs0)
       (commit_snapshot (sweep_expired height refs0) a height time message root) cap ps objects"
  using assms
  by (auto simp: commit_apply_def Let_def split: if_splits)

end
