(* ===== verification/Fs_Core.thy ===== *)
theory Fs_Core
  imports Commit
begin

text \<open>
  crates/duckfs/core/src/fs.rs: the state machine \<open>Fs<S>\<close>, its verbs, the block boundary and the
  sync lane. A verb takes the state to its result and the state after it, refused or not. The
  trait object \<open>S: ObjectStore\<close> is the record \<open>ops\<close>; queries are in the theory Queries.
\<close>

record pending =
  p_refs :: refs
  p_objects :: staged_objects
  p_object_ids :: block_index
  p_height :: u64

record 's fs =
  store :: 's
  fs_refs :: refs
  pending :: "pending option"
  quota :: u64
  grep_budget :: u64
  window_cap :: nat
  staging_entry_cap :: nat
  staging_entry_cap_per_owner :: nat
  object_read_cap :: nat

type_synonym ('s, 'a) verb = "'s fs \<Rightarrow> 'a res \<times> 's fs"

definition fs_new :: "'s \<Rightarrow> refs \<Rightarrow> 's fs" where
  "fs_new s r = \<lparr>store = s, fs_refs = r, pending = None, quota = STAGING_QUOTA_BYTES,
     grep_budget = MAX_GREP_SCAN_BYTES, window_cap = HISTORY_WINDOW,
     staging_entry_cap = MAX_STAGING_ENTRIES,
     staging_entry_cap_per_owner = MAX_STAGING_ENTRIES_PER_OWNER,
     object_read_cap = MAX_OBJECT_READS_PER_OP\<rparr>"

definition push_object :: "(bytes \<Rightarrow> object_id) \<Rightarrow> kind \<Rightarrow> bytes \<Rightarrow> pending \<Rightarrow> pending" where
  "push_object H kind body p =
     p\<lparr>p_object_ids := bt_insert (object_id H kind body) (kind, of_nat (length body)) (p_object_ids p),
       p_objects := p_objects p @ [(kind, body)]\<rparr>"

definition push_objects :: "(bytes \<Rightarrow> object_id) \<Rightarrow> staged_objects \<Rightarrow> pending \<Rightarrow> pending" where
  "push_objects H os p = fold (\<lambda>(kind, body). push_object H kind body) os p"

definition require_pending :: "u64 \<Rightarrow> 's fs \<Rightarrow> 's fs" where
  "require_pending height fs = (case pending fs of
     Some _ \<Rightarrow> fs
   | None \<Rightarrow> fs\<lparr>pending := Some \<lparr>p_refs = fs_refs fs, p_objects = [], p_object_ids = [], p_height = height\<rparr>\<rparr>)"

definition pending_refs :: "'s fs \<Rightarrow> refs" where
  "pending_refs fs = (case pending fs of None \<Rightarrow> fs_refs fs | Some p \<Rightarrow> p_refs p)"

definition set_pending_refs :: "refs \<Rightarrow> 's fs \<Rightarrow> 's fs" where
  "set_pending_refs r fs = fs\<lparr>pending := map_option (\<lambda>p. p\<lparr>p_refs := r\<rparr>) (pending fs)\<rparr>"

definition fs_root_bytes :: "(bytes \<Rightarrow> object_id) \<Rightarrow> 's fs \<Rightarrow> object_id" where
  "fs_root_bytes H fs = root_bytes H (fs_refs fs)"

definition transact :: "authority \<Rightarrow> u64 \<Rightarrow> ('s, 'a) verb \<Rightarrow> ('s, 'a) verb" where
  "transact a height operation fs =
     (case authority_validate a of
        Inl e \<Rightarrow> (Inl e, fs)
      | Inr _ \<Rightarrow>
          let fs1 = require_pending height fs; before = pending_refs fs1 in
          case checked_add64 (source_revision before) 1 of
            None \<Rightarrow> (Inl (FsE SourceRevisionExhausted), fs1)
          | Some next_revision \<Rightarrow>
              (case operation fs1 of
                 (Inr x, fs2) \<Rightarrow>
                   (Inr x, if pending_refs fs2 \<noteq> before
                           then set_pending_refs ((pending_refs fs2)\<lparr>source_revision := next_revision\<rparr>) fs2
                           else fs2)
               | (Inl e, fs2) \<Rightarrow> (Inl e, set_pending_refs before fs2)))"

text \<open>
  The shape of \<open>putblob\<close>, \<open>pin\<close>, \<open>unpin\<close>, \<open>watch\<close> and \<open>unwatch\<close>: fork the pending view, sweep it,
  check, and mutate it last.
\<close>

definition swept :: "u64 \<Rightarrow> ('s fs \<Rightarrow> pending \<Rightarrow> pending res) \<Rightarrow> ('s, unit) verb" where
  "swept height step fs =
     (let fs1 = require_pending height fs in
      case pending fs1 of
        None \<Rightarrow> (Inr (), fs1)
      | Some p0 \<Rightarrow>
          let p = p0\<lparr>p_refs := sweep_expired height (p_refs p0)\<rparr>;
              fs2 = fs1\<lparr>pending := Some p\<rparr> in
          case step fs2 p of
            Inl e \<Rightarrow> (Inl e, fs2)
          | Inr p' \<Rightarrow> (Inr (), fs2\<lparr>pending := Some p'\<rparr>))"

definition fs_view :: "'s store_ops \<Rightarrow> 's fs \<Rightarrow> pending \<Rightarrow> view" where
  "fs_view ops fs p =
     \<lparr>v_get = so_get ops (store fs), v_has = so_has ops (store fs), v_pending = p_objects p,
      v_budget = Some \<lparr>b_index = p_object_ids p, b_cap = object_read_cap fs\<rparr>\<rparr>"

subsection \<open>Staging a chunk\<close>

definition owner_usage :: "authority \<Rightarrow> (object_id, staged) btree \<Rightarrow> u64 \<times> nat" where
  "owner_usage a st =
     fold (\<lambda>(_, s) (used, n). (saturating_add64 used (st_len s), n + 1))
       (filter (\<lambda>(_, s). controls a (st_owner s)) st) (0, 0)"

definition putblob_step :: "(bytes \<Rightarrow> object_id) \<Rightarrow> authority \<Rightarrow> u64 \<Rightarrow> bytes \<Rightarrow> 's fs \<Rightarrow> pending \<Rightarrow> pending res" where
  "putblob_step H a height bs fs p =
     (if bs = [] then Inl (FsE ChunkEmpty)
      else if (of_nat (length bs) :: u64) > CHUNK_SIZE then Inl (FsE ChunkOverSize)
      else let digest = object_id H KChunk bs in
        if bt_has (p_object_ids p) digest \<or> bt_has (staging (p_refs p)) digest then Inr p
        else if length (staging (p_refs p)) \<ge> staging_entry_cap fs then Inl (FsE StagingTableFull)
        else let len = of_nat (length bs) :: u64; (used, owner_entries) = owner_usage a (staging (p_refs p)) in
          if owner_entries \<ge> staging_entry_cap_per_owner fs then Inl (FsE StagingEntryQuota)
          else if saturating_add64 used len > quota fs then Inl (FsE StagingByteQuota)
          else rbind (refuse_refs_growth (p_refs p) (staged_entry_len (authority_actor a)) (window_cap fs)) (\<lambda>_.
            let entry = \<lparr>st_owner = authority_actor a, st_len = len,
                  st_expires_at = saturating_add64 height STAGING_TTL_BLOCKS\<rparr>;
                r = (p_refs p)\<lparr>staging := bt_insert digest entry (staging (p_refs p))\<rparr>
            in Inr (push_object H KChunk bs (p\<lparr>p_refs := r\<rparr>))))"

definition putblob :: "(bytes \<Rightarrow> object_id) \<Rightarrow> authority \<Rightarrow> u64 \<Rightarrow> bytes \<Rightarrow> ('s, unit) verb" where
  "putblob H a height bs = transact a height (swept height (putblob_step H a height bs))"

subsection \<open>Commit\<close>

definition commit_op :: "(bytes \<Rightarrow> object_id) \<Rightarrow> (rstring \<Rightarrow> rstring) \<Rightarrow> (rstring \<Rightarrow> bytes option) \<Rightarrow>
    's store_ops \<Rightarrow> authority \<Rightarrow> u64 \<Rightarrow> u64 \<Rightarrow> rstring option \<Rightarrow> rstring \<Rightarrow> change list \<Rightarrow>
    ('s, notification list) verb" where
  "commit_op H nfc b64_decode ops a height time base message changes fs =
     (let fs1 = require_pending height fs in
      case pending fs1 of
        None \<Rightarrow> (Inr [], fs1)
      | Some p \<Rightarrow>
          (case commit_apply H nfc b64_decode (fs_view ops fs1 p) (p_object_ids p) (p_refs p) a height time
                  base message changes (window_cap fs1) no_reads of
             Inl e \<Rightarrow> (Inl e, fs1)
           | Inr (built, _) \<Rightarrow>
               (Inr (cb_notifications built),
                fs1\<lparr>pending := Some (push_objects H (cb_objects built) (p\<lparr>p_refs := cb_refs built\<rparr>))\<rparr>)))"

definition commit :: "(bytes \<Rightarrow> object_id) \<Rightarrow> (rstring \<Rightarrow> rstring) \<Rightarrow> (rstring \<Rightarrow> bytes option) \<Rightarrow>
    's store_ops \<Rightarrow> authority \<Rightarrow> u64 \<Rightarrow> u64 \<Rightarrow> rstring option \<Rightarrow> rstring \<Rightarrow> change list \<Rightarrow>
    ('s, notification list) verb" where
  "commit H nfc b64_decode ops a height time base message changes =
     transact a height (commit_op H nfc b64_decode ops a height time base message changes)"

subsection \<open>Projection\<close>

text \<open>The candidate's id and the objects that make it; \<open>expect\<close> is the \<open>the\<close> of a non-empty root.\<close>

definition project_built :: "(bytes \<Rightarrow> object_id) \<Rightarrow> (rstring \<Rightarrow> rstring) \<Rightarrow> view \<Rightarrow> refs \<Rightarrow> authority \<Rightarrow>
    u64 \<Rightarrow> u64 \<Rightarrow> rstring \<Rightarrow> rstring \<Rightarrow> (object_id \<times> staged_objects) reading" where
  "project_built H nfc v r a height time snapshot path =
     sbind (slift (canonical nfc path)) (\<lambda>segments.
     sbind (slift (ok_or (from_hex_32 snapshot) (FsE SnapshotNotResolvable))) (\<lambda>i.
     sbind (refs_contains_snapshot H v r i) (\<lambda>known.
     if \<not> known then slift (Inl (FsE SnapshotNotResolvable))
     else sbind (snapshot_root_tree H v i) (\<lambda>source_root.
       sbind (if segments = [] then sret (source_root, [])
              else sbind (entry_at H v (Some source_root) segments) (\<lambda>o1.
                sbind (slift (ok_or o1 (FsE ProjectionPathNotFound))) (\<lambda>entry.
                sbind (edit_put H v segments entry (edit_load None)) (\<lambda>edit.
                slift (rbind (edit_build H edit) (\<lambda>(root, out). Inr (the root, out)))))))
         (\<lambda>(root, objects).
       let body = snapshot_encode \<lparr>s_root = root, s_parent = None, s_author = authority_actor a,
             s_time = time, s_height = height, s_message = []\<rparr>
       in sret (object_id H KSnapshot body, objects @ [(KSnapshot, body)]))))))"

definition project_op :: "(bytes \<Rightarrow> object_id) \<Rightarrow> (rstring \<Rightarrow> rstring) \<Rightarrow> 's store_ops \<Rightarrow> authority \<Rightarrow>
    u64 \<Rightarrow> u64 \<Rightarrow> rstring \<Rightarrow> rstring \<Rightarrow> ('s, rstring) verb" where
  "project_op H nfc ops a height time snapshot path fs =
     (case pending fs of
        None \<Rightarrow> (Inr [], fs)
      | Some p \<Rightarrow>
          (case project_built H nfc (fs_view ops fs p) (p_refs p) a height time snapshot path no_reads of
             Inl e \<Rightarrow> (Inl e, fs)
           | Inr ((projected, objects), _) \<Rightarrow>
               let r = push_window (window_cap fs) projected (sweep_expired height (p_refs p)) in
               (Inr (to_hex projected),
                fs\<lparr>pending := Some (push_objects H objects (p\<lparr>p_refs := r\<rparr>))\<rparr>)))"

definition project_snapshot :: "(bytes \<Rightarrow> object_id) \<Rightarrow> (rstring \<Rightarrow> rstring) \<Rightarrow> 's store_ops \<Rightarrow> authority \<Rightarrow>
    u64 \<Rightarrow> u64 \<Rightarrow> rstring \<Rightarrow> rstring \<Rightarrow> ('s, rstring) verb" where
  "project_snapshot H nfc ops a height time snapshot path =
     transact a height (project_op H nfc ops a height time snapshot path)"

subsection \<open>Retention\<close>

definition retention_built :: "(bytes \<Rightarrow> object_id) \<Rightarrow> view \<Rightarrow> refs \<Rightarrow> rstring \<Rightarrow> rstring \<Rightarrow>
    retention_reference option \<Rightarrow> retention_reference option \<Rightarrow>
    (object_id option \<times> staged_objects) reading" where
  "retention_built H v r module key expected replacement =
     sbind (case replacement of
         None \<Rightarrow> sret ()
       | Some reference \<Rightarrow>
           sbind (slift (snapshot_id (rr_snapshot reference))) (\<lambda>i.
           sbind (refs_contains_snapshot H v r i) (\<lambda>known.
           if known then sret () else slift (Inl (FsE RetentionSnapshotNotResolvable)))))
       (\<lambda>_. compare_exchange H v (retention_root r) module key expected replacement)"

definition retention_op :: "(bytes \<Rightarrow> object_id) \<Rightarrow> 's store_ops \<Rightarrow> authority \<Rightarrow> u64 \<Rightarrow> rstring \<Rightarrow>
    retention_reference option \<Rightarrow> retention_reference option \<Rightarrow> ('s, unit) verb" where
  "retention_op H ops a height key expected replacement fs = (case a of
     AuthModule module \<Rightarrow>
       (case pending fs of
          None \<Rightarrow> (Inr (), fs)
        | Some p \<Rightarrow>
            (case retention_built H (fs_view ops fs p) (p_refs p) module key expected replacement no_reads of
               Inl e \<Rightarrow> (Inl e, fs)
             | Inr ((root, objects), _) \<Rightarrow>
                 let r = (sweep_expired height (p_refs p))\<lparr>retention_root := root\<rparr> in
                 (Inr (), fs\<lparr>pending := Some (push_objects H objects (p\<lparr>p_refs := r\<rparr>))\<rparr>)))
   | _ \<Rightarrow> (Inl (FsE RetentionModuleOnly), fs))"

definition compare_exchange_retention :: "(bytes \<Rightarrow> object_id) \<Rightarrow> 's store_ops \<Rightarrow> authority \<Rightarrow> u64 \<Rightarrow> rstring \<Rightarrow>
    retention_reference option \<Rightarrow> retention_reference option \<Rightarrow> ('s, unit) verb" where
  "compare_exchange_retention H ops a height key expected replacement =
     transact a height (retention_op H ops a height key expected replacement)"

subsection \<open>Pins and watches\<close>

definition pin_step :: "(bytes \<Rightarrow> object_id) \<Rightarrow> 's store_ops \<Rightarrow> authority \<Rightarrow> rstring \<Rightarrow> rstring \<Rightarrow>
    's fs \<Rightarrow> pending \<Rightarrow> pending res" where
  "pin_step H ops a snapshot name fs p =
     (let r = p_refs p in
      if name = [] then Inl (FsE PinNameEmpty)
      else if length name > MAX_PIN_NAME_BYTES then Inl (FsE PinNameOverCap)
      else if length (pins r) \<ge> MAX_PINS then Inl (FsE PinTableFull)
      else if bt_has (pins r) name then Inl (FsE PinNameExists)
      else if length (filter (\<lambda>(_, pin). controls a (pin_owner pin)) (pins r)) \<ge> MAX_PINS_PER_OWNER
      then Inl (FsE PinQuota)
      else
        rbind (ok_or (from_hex_32 snapshot) (FsE SnapshotNotResolvable)) (\<lambda>i.
        rbind (refs_contains_snapshot H (fs_view ops fs p) r i no_reads) (\<lambda>(known, _).
        if \<not> known then Inl (FsE SnapshotNotResolvable)
        else rbind (refuse_refs_growth r (pin_entry_len name (authority_actor a)) (window_cap fs)) (\<lambda>_.
          Inr (p\<lparr>p_refs := r\<lparr>pins := bt_insert name \<lparr>pin_snapshot = i, pin_owner = authority_actor a\<rparr> (pins r)\<rparr>\<rparr>)))))"

definition pin :: "(bytes \<Rightarrow> object_id) \<Rightarrow> 's store_ops \<Rightarrow> authority \<Rightarrow> u64 \<Rightarrow> rstring \<Rightarrow> rstring \<Rightarrow> ('s, unit) verb" where
  "pin H ops a height snapshot name = transact a height (swept height (pin_step H ops a snapshot name))"

definition unpin_step :: "rstring \<Rightarrow> 's fs \<Rightarrow> pending \<Rightarrow> pending res" where
  "unpin_step name fs p =
     (if bt_has (pins (p_refs p)) name
      then Inr (p\<lparr>p_refs := (p_refs p)\<lparr>pins := bt_remove name (pins (p_refs p))\<rparr>\<rparr>)
      else Inl (FsE PinNotFound))"

definition unpin :: "authority \<Rightarrow> u64 \<Rightarrow> rstring \<Rightarrow> ('s, unit) verb" where
  "unpin a height name = transact a height (swept height (unpin_step name))"

definition watch_step :: "(rstring \<Rightarrow> rstring) \<Rightarrow> authority \<Rightarrow> rstring \<Rightarrow> rstring \<Rightarrow> 's fs \<Rightarrow> pending \<Rightarrow> pending res" where
  "watch_step nfc a pre module_id fs p =
     (let r = p_refs p in
      rbind (watch_origin_gate a module_id) (\<lambda>_.
      if module_id = [] then Inl (FsE WatchModuleEmpty)
      else if length module_id > MAX_WATCH_MODULE_ID_BYTES then Inl (FsE WatchModuleOverCap)
      else rbind (canonical_watch_prefix nfc pre) (\<lambda>pre.
        if length (watches r) \<ge> MAX_WATCHES then Inl (FsE WatchTableFull)
        else if bt_has (watches r) (pre, module_id) then Inl (FsE WatchExists)
        else rbind (refuse_refs_growth r (watch_entry_len pre module_id) (window_cap fs)) (\<lambda>_.
          Inr (p\<lparr>p_refs := r\<lparr>watches := bt_insert (pre, module_id) () (watches r)\<rparr>\<rparr>)))))"

definition watch :: "(rstring \<Rightarrow> rstring) \<Rightarrow> authority \<Rightarrow> u64 \<Rightarrow> rstring \<Rightarrow> rstring \<Rightarrow> ('s, unit) verb" where
  "watch nfc a height pre module_id = transact a height (swept height (watch_step nfc a pre module_id))"

definition unwatch_step :: "(rstring \<Rightarrow> rstring) \<Rightarrow> authority \<Rightarrow> rstring \<Rightarrow> rstring \<Rightarrow> 's fs \<Rightarrow> pending \<Rightarrow> pending res" where
  "unwatch_step nfc a pre module_id fs p =
     (let r = p_refs p in
      rbind (watch_origin_gate a module_id) (\<lambda>_.
      rbind (canonical_watch_prefix nfc pre) (\<lambda>pre.
      if bt_has (watches r) (pre, module_id)
      then Inr (p\<lparr>p_refs := r\<lparr>watches := bt_remove (pre, module_id) (watches r)\<rparr>\<rparr>)
      else Inl (FsE WatchNotFound))))"

definition unwatch :: "(rstring \<Rightarrow> rstring) \<Rightarrow> authority \<Rightarrow> u64 \<Rightarrow> rstring \<Rightarrow> rstring \<Rightarrow> ('s, unit) verb" where
  "unwatch nfc a height pre module_id = transact a height (swept height (unwatch_step nfc a pre module_id))"

subsection \<open>The block boundary\<close>

definition commit_block :: "'s fs \<Rightarrow> (refs \<times> u64 \<times> staged_objects) option \<times> 's fs" where
  "commit_block fs =
     (map_option (\<lambda>p. (p_refs p, p_height p, p_objects p)) (pending fs), fs\<lparr>pending := None\<rparr>)"

definition adopt_refs :: "refs \<Rightarrow> 's fs \<Rightarrow> 's fs" where
  "adopt_refs r fs = fs\<lparr>fs_refs := r\<rparr>"

definition abort_block :: "'s fs \<Rightarrow> 's fs" where
  "abort_block fs = fs\<lparr>pending := None\<rparr>"

definition seed_block_objects :: "u64 \<Rightarrow> block_index \<Rightarrow> 's fs \<Rightarrow> 's fs" where
  "seed_block_objects height index fs =
     (let fs1 = require_pending height fs in
      fs1\<lparr>pending := map_option (\<lambda>p. p\<lparr>p_object_ids := index\<rparr>) (pending fs1)\<rparr>)"

definition block_objects :: "'s fs \<Rightarrow> block_index" where
  "block_objects fs = (case pending fs of None \<Rightarrow> [] | Some p \<Rightarrow> p_object_ids p)"

definition stage_pending :: "(bytes \<Rightarrow> object_id) \<Rightarrow> refs \<Rightarrow> u64 \<Rightarrow> staged_objects \<Rightarrow> 's fs \<Rightarrow> 's fs" where
  "stage_pending H r height objects fs =
     fs\<lparr>pending := Some \<lparr>p_refs = r, p_objects = objects,
       p_object_ids = fold (\<lambda>(k, b). bt_insert (object_id H k b) (k, of_nat (length b))) objects [],
       p_height = height\<rparr>\<rparr>"

subsection \<open>Sync\<close>

datatype sync_req = GetObjects "rstring list" | GetRefs

record sync_object =
  so_id :: rstring
  so_present :: bool
  so_kind :: byte
  so_b64 :: rstring

datatype sync_resp = SyncObjects "sync_object list" | SyncRefs rstring

definition absent_object :: "object_id \<Rightarrow> sync_object" where
  "absent_object i = \<lparr>so_id = to_hex i, so_present = False, so_kind = 0, so_b64 = []\<rparr>"

fun serve_objects :: "(bytes \<Rightarrow> rstring) \<Rightarrow> 's store_ops \<Rightarrow> 's \<Rightarrow> nat \<Rightarrow> nat \<Rightarrow> rstring list \<Rightarrow>
    sync_object list res" where
  "serve_objects b64_encode ops s spent served [] = Inr []"
| "serve_objects b64_encode ops s spent served (hex # ids) =
     rbind (ok_or (from_hex_32 hex) (SyncE SyncIdNotHex)) (\<lambda>i.
     rbind (so_get ops s i) (\<lambda>o1. case o1 of
       None \<Rightarrow> rbind (serve_objects b64_encode ops s spent served ids) (\<lambda>out. Inr (absent_object i # out))
     | Some (kind, body) \<Rightarrow>
         let b64 = b64_encode body; cost = 64 + length b64 + 48 in
         if served > 0 \<and> spent + cost > MAX_SYNC_REPLY_BYTES
         then rbind (serve_objects b64_encode ops s spent served ids) (\<lambda>out. Inr (absent_object i # out))
         else rbind (serve_objects b64_encode ops s (spent + cost) (served + 1) ids) (\<lambda>out.
           Inr (\<lparr>so_id = to_hex i, so_present = True, so_kind = kind_tag kind, so_b64 = b64\<rparr> # out))))"

definition snapshot_refs :: "'s fs \<Rightarrow> bytes" where
  "snapshot_refs fs = encode_refs (fs_refs fs)"

definition serve_sync :: "(bytes \<Rightarrow> rstring) \<Rightarrow> 's store_ops \<Rightarrow> sync_req \<Rightarrow> 's fs \<Rightarrow> sync_resp res" where
  "serve_sync b64_encode ops req fs = (case req of
     GetObjects ids \<Rightarrow>
       if length ids > MAX_SYNC_IDS then Inl (SyncE TooManyIds)
       else rbind (serve_objects b64_encode ops (store fs) 0 0 ids) (\<lambda>out. Inr (SyncObjects out))
   | GetRefs \<Rightarrow>
       let b64 = b64_encode (snapshot_refs fs) in
       if length b64 \<le> MAX_SYNC_REPLY_BYTES then Inr (SyncRefs b64)
       else Inl (SyncE RefsImageOverReplyBudget))"

definition install_refs :: "(bytes \<Rightarrow> object_id) \<Rightarrow> bytes \<Rightarrow> object_id \<Rightarrow> ('s, unit) verb" where
  "install_refs H bs expected_root fs =
     (case decode_refs bs of
        Inl e \<Rightarrow> (Inl e, fs)
      | Inr r \<Rightarrow>
          if root_bytes H r \<noteq> expected_root then (Inl (SyncE RefsRootMismatch), fs)
          else (Inr (), fs\<lparr>fs_refs := r, pending := None\<rparr>))"

definition missing_objects :: "nat \<Rightarrow> nat \<Rightarrow> 's store_ops \<Rightarrow> nat \<Rightarrow> 's fs \<Rightarrow> object_id list res" where
  "missing_objects m n ops limit fs =
     rbind (collect_missing m n ops (fs_refs fs) (store fs)) (\<lambda>missing. Inr (take limit (map fst missing)))"

definition possession_complete :: "nat \<Rightarrow> nat \<Rightarrow> 's store_ops \<Rightarrow> 's fs \<Rightarrow> bool res" where
  "possession_complete m n ops fs =
     rbind (collect_missing_verified m n ops (fs_refs fs) (store fs)) (\<lambda>missing. Inr (missing = []))"

definition ingest_object :: "(bytes \<Rightarrow> object_id) \<Rightarrow> 's store_ops \<Rightarrow> object_id \<Rightarrow> byte \<Rightarrow> bytes \<Rightarrow> ('s, unit) verb" where
  "ingest_object H ops i tag body fs =
     (case rbind (ok_or (kind_from_u8 tag) (SyncE IngestUnknownKind)) (\<lambda>kind.
           rbind (ensure (object_id H kind body = i) (SyncE ObjectIdMismatch)) (\<lambda>_.
           if kind = KFile then
             rbind (file_decode body) (\<lambda>f.
             (case verify_file_shape (f_size f) (length (f_chunks f)) of
                Inl _ \<Rightarrow> Inl (SyncE IngestFileShape) | Inr _ \<Rightarrow> Inr kind))
           else Inr kind)) of
        Inl e \<Rightarrow> (Inl e, fs)
      | Inr kind \<Rightarrow>
          (case so_put ops kind body (store fs) of
             (Inl e, s) \<Rightarrow> (Inl e, fs\<lparr>store := s\<rparr>)
           | (Inr _, s) \<Rightarrow> (Inr (), fs\<lparr>store := s\<rparr>)))"

definition fs_gc :: "nat \<Rightarrow> nat \<Rightarrow> 's store_ops \<Rightarrow> ('s, u64) verb" where
  "fs_gc m n ops fs =
     (case mark m n ops (fs_refs fs) (store fs) of
        Inl e \<Rightarrow> (Inl e, fs)
      | Inr live \<Rightarrow>
          (case so_list ops (store fs) of
             Inl e \<Rightarrow> (Inl e, fs)
           | Inr ids \<Rightarrow>
               (case remove_dead ops (\<lambda>i. i \<in> live) ids 0 (store fs) of
                  (r, s) \<Rightarrow> (r, fs\<lparr>store := s\<rparr>))))"

end
