(* ===== verification/Fs_Invariant.thy ===== *)
theory Fs_Invariant
  imports Fs_Core
begin

text \<open>
  The invariant of the refs: they are typed, within the counted caps, and their image leaves room
  for what commits, projections and retention add ungated. Every verb keeps it on the pending view
  and no verb touches the committed refs, so every image the state machine produces decodes.
\<close>

definition image_budget :: "refs \<Rightarrow> nat" where
  "image_budget r = encoded_refs_len r + refs_commit_headroom r HISTORY_WINDOW"

definition refs_inv :: "refs \<Rightarrow> bool" where
  "refs_inv r \<longleftrightarrow> refs_typed r \<and> refs_counts r \<and> image_budget r \<le> MAX_REFS_IMAGE_BYTES"

lemma image_budget_parts:
  "image_budget r = 86 +
     (32 * length (window r) + 32 * (HISTORY_WINDOW - length (window r))) +
     (\<Sum>(name, pin)\<leftarrow>pins r. pin_entry_len name (pin_owner pin)) +
     (\<Sum>(_, s)\<leftarrow>staging r. staged_entry_len (st_owner s)) +
     (\<Sum>((prefix, module_id), _)\<leftarrow>watches r. watch_entry_len prefix module_id) + 4"
  by (cases "head r"; cases "retention_root r")
    (simp_all add: image_budget_def encoded_refs_len_def refs_commit_headroom_def opt_len_def)

lemma refs_inv_ok: "refs_inv r \<Longrightarrow> refs_ok r"
  by (simp add: refs_inv_def refs_ok_def image_budget_def)

lemma refs_inv_default: "refs_inv refs_default"
  by (simp add: refs_inv_def refs_typed_def refs_counts_def image_budget_def refs_default_def
      encoded_refs_len_def refs_commit_headroom_def opt_len_def caps)

text \<open>Each part of the refs that a verb changes, and what that does to the invariant.\<close>

lemma sum_map_filter_le: "(\<Sum>x\<leftarrow>filter P xs. f x) \<le> (\<Sum>x\<leftarrow>xs. (f x :: nat))"
  by (rule sum_filter_le)

lemma inv_staging_subset:
  assumes "refs_inv r" "bt_wf st" "set st \<subseteq> set (staging r)" "length st \<le> length (staging r)"
    "(\<Sum>(_, s)\<leftarrow>st. staged_entry_len (st_owner s)) \<le> (\<Sum>(_, s)\<leftarrow>staging r. staged_entry_len (st_owner s))"
  shows "refs_inv (r\<lparr>staging := st\<rparr>)"
  using assms
  by (auto simp: refs_inv_def refs_typed_def refs_counts_def image_budget_parts list_all_iff)

lemma inv_sweep: "refs_inv r \<Longrightarrow> refs_inv (sweep_expired height r)"
  unfolding sweep_expired_def
  by (rule inv_staging_subset)
    (auto simp: refs_inv_def refs_typed_def bt_wf_filter sum_filter_le)

lemma inv_unstage: "refs_inv r \<Longrightarrow> refs_inv (r\<lparr>staging := bt_remove i (staging r)\<rparr>)"
proof (rule inv_staging_subset)
  assume "refs_inv r"
  then show "refs_inv r" "bt_wf (bt_remove i (staging r))"
    by (simp_all add: refs_inv_def refs_typed_def bt_wf_remove)
qed (simp_all add: set_bt_remove_subset length_bt_remove_le sum_bt_remove_le)

lemma inv_unstage_all: "refs_inv r \<Longrightarrow> refs_inv (r\<lparr>staging := fold bt_remove ids (staging r)\<rparr>)"
proof (induction ids arbitrary: r)
  case (Cons i ids)
  then show ?case using Cons.IH [OF inv_unstage [OF Cons.prems, of i]] by simp
qed simp

lemma inv_head: "refs_inv r \<Longrightarrow> id_ok i \<Longrightarrow> refs_inv (r\<lparr>head := Some i\<rparr>)"
  by (auto simp: refs_inv_def refs_typed_def refs_counts_def image_budget_parts)

lemma inv_window:
  assumes "refs_inv r" "list_all id_ok w" "length w \<le> HISTORY_WINDOW"
  shows "refs_inv (r\<lparr>window := w\<rparr>)"
proof -
  have "length (window r) \<le> HISTORY_WINDOW" using assms(1) by (simp add: refs_inv_def refs_counts_def)
  then have "image_budget (r\<lparr>window := w\<rparr>) = image_budget r"
    using assms(3) by (simp add: image_budget_parts)
  then show ?thesis
    using assms by (simp add: refs_inv_def refs_typed_def refs_counts_def)
qed

lemma inv_push_window: "refs_inv r \<Longrightarrow> id_ok i \<Longrightarrow> refs_inv (push_window HISTORY_WINDOW i r)"
  unfolding push_window_def Let_def
proof (rule inv_window)
  assume "refs_inv r" "id_ok i"
  then have "list_all id_ok (window r @ [i])" by (simp add: refs_inv_def refs_typed_def)
  then show "list_all id_ok (drop (length (window r @ [i]) - HISTORY_WINDOW) (window r @ [i]))"
    unfolding list_all_iff by (meson in_set_dropD)
qed simp_all

lemma inv_retention_root: "refs_inv r \<Longrightarrow> pred_option id_ok x \<Longrightarrow> refs_inv (r\<lparr>retention_root := x\<rparr>)"
  by (auto simp: refs_inv_def refs_typed_def refs_counts_def image_budget_parts)

lemma inv_revision: "refs_inv (r\<lparr>source_revision := n\<rparr>) \<longleftrightarrow> refs_inv r"
  by (simp add: refs_inv_def refs_typed_def refs_counts_def image_budget_parts)

lemma refuse_growth_ok:
  "refuse_refs_growth r n HISTORY_WINDOW = Inr u \<Longrightarrow> image_budget r + n \<le> MAX_REFS_IMAGE_BYTES"
  by (simp add: refuse_refs_growth_def image_budget_def)

lemma list_all_bt_insert: "list_all P m \<Longrightarrow> P (k, v) \<Longrightarrow> list_all P (bt_insert k v m)"
  using set_bt_insert_subset [of k v m] by (auto simp: list_all_iff)

lemma inv_stage:
  assumes "refs_inv r" "bt_get (staging r) d = None" "length (staging r) < MAX_STAGING_ENTRIES"
    and "staged_ok (d, s)" "image_budget r + staged_entry_len (st_owner s) \<le> MAX_REFS_IMAGE_BYTES"
  shows "refs_inv (r\<lparr>staging := bt_insert d s (staging r)\<rparr>)"
proof -
  have wf: "bt_wf (staging r)" using assms(1) by (simp add: refs_inv_def refs_typed_def)
  then have "length (bt_insert d s (staging r)) \<le> MAX_STAGING_ENTRIES"
    using assms(2,3) by (simp add: length_bt_insert_new)
  then show ?thesis
    using assms wf
    by (simp add: refs_inv_def refs_typed_def refs_counts_def image_budget_parts bt_wf_insert list_all_bt_insert
        sum_bt_insert_new [where f = "\<lambda>(_, s). staged_entry_len (st_owner s)"])
qed

lemma inv_pin:
  assumes "refs_inv r" "bt_get (pins r) n = None" "length (pins r) < MAX_PINS"
    and "pin_ok (n, p)" "image_budget r + pin_entry_len n (pin_owner p) \<le> MAX_REFS_IMAGE_BYTES"
  shows "refs_inv (r\<lparr>pins := bt_insert n p (pins r)\<rparr>)"
proof -
  have wf: "bt_wf (pins r)" using assms(1) by (simp add: refs_inv_def refs_typed_def)
  then have "length (bt_insert n p (pins r)) \<le> MAX_PINS"
    using assms(2,3) by (simp add: length_bt_insert_new)
  then show ?thesis
    using assms wf
    by (simp add: refs_inv_def refs_typed_def refs_counts_def image_budget_parts bt_wf_insert list_all_bt_insert
        sum_bt_insert_new [where f = "\<lambda>(n, p). pin_entry_len n (pin_owner p)"])
qed

lemma inv_unpin: "refs_inv r \<Longrightarrow> refs_inv (r\<lparr>pins := bt_remove n (pins r)\<rparr>)"
  using set_bt_remove_subset [of n "pins r"] length_bt_remove_le [of n "pins r"]
    sum_bt_remove_le [of "\<lambda>(n, p). pin_entry_len n (pin_owner p)" n "pins r"]
  by (auto simp: refs_inv_def refs_typed_def refs_counts_def image_budget_parts bt_wf_remove list_all_iff)

lemma inv_watch:
  assumes "refs_inv r" "bt_get (watches r) k = None" "length (watches r) < MAX_WATCHES"
    and "watch_ok (k, ())" "image_budget r + watch_entry_len (fst k) (snd k) \<le> MAX_REFS_IMAGE_BYTES"
  shows "refs_inv (r\<lparr>watches := bt_insert k () (watches r)\<rparr>)"
proof -
  have wf: "bt_wf (watches r)" using assms(1) by (simp add: refs_inv_def refs_typed_def)
  then have "length (bt_insert k () (watches r)) \<le> MAX_WATCHES"
    using assms(2,3) by (simp add: length_bt_insert_new)
  then show ?thesis
    using assms wf
    by (cases k) (simp add: refs_inv_def refs_typed_def refs_counts_def image_budget_parts bt_wf_insert list_all_bt_insert
        sum_bt_insert_new [where f = "\<lambda>((p, m), _). watch_entry_len p m"])
qed

lemma inv_unwatch: "refs_inv r \<Longrightarrow> refs_inv (r\<lparr>watches := bt_remove k (watches r)\<rparr>)"
  using set_bt_remove_subset [of k "watches r"] length_bt_remove_le [of k "watches r"]
    sum_bt_remove_le [of "\<lambda>((p, m), _). watch_entry_len p m" k "watches r"]
  by (auto simp: refs_inv_def refs_typed_def refs_counts_def image_budget_parts bt_wf_remove list_all_iff)

end
