(* ===== verification/Retention_Spec.thy ===== *)
theory Retention_Spec
  imports Retention
begin

text \<open>
  What the catalog of retention.rs promises: a record decodes to itself and nothing else decodes
  to it, the compare-and-exchange refuses a stale expectation or a revision that does not advance,
  and the root it returns is a tree id again.
\<close>

subsection \<open>The texts of a record\<close>

lemma utf8_to_hex: "utf8 (to_hex bs)"
  using hex_byte_ascii by (intro utf8_ascii) (auto simp: to_hex_def)

lemma utf8_hex_byte: "utf8 (hex_byte b)"
  using hex_byte_ascii by (intro utf8_ascii) auto

lemma dec_nat_ascii: "c \<in> set (dec_nat n) \<Longrightarrow> c \<le> 0x7F"
proof (induction n rule: dec_nat.induct)
  case (1 n)
  have d: "(of_nat (48 + d) :: byte) \<le> 0x7F" if "d < 10" for d
    using digit_byte(3) [OF that] that by (simp only: word_le_nat_alt) simp
  show ?case
    using 1 d [of n] d [of "n mod 10"]
    by (subst (asm) (2) dec_nat.simps) (auto split: if_splits)
qed

lemma length_dec_nat: "n < 10 ^ k \<Longrightarrow> 0 < k \<Longrightarrow> length (dec_nat n) \<le> k"
proof (induction k arbitrary: n)
  case (Suc k)
  show ?case
  proof (cases "n < 10")
    case True
    then show ?thesis by (subst dec_nat.simps) simp
  next
    case False
    then have "0 < k" using Suc.prems by (cases k) auto
    then have "length (dec_nat (n div 10)) \<le> k" using Suc by (intro Suc.IH) auto
    then show ?thesis using False by (subst dec_nat.simps) simp
  qed
qed simp

lemma dec_u64_text: "utf8 (dec_u64 w)" "length (dec_u64 w) \<le> 20"
proof -
  show "utf8 (dec_u64 w)" using dec_nat_ascii by (intro utf8_ascii) (auto simp: dec_u64_def)
  have "unat w < 10 ^ 20" using unat_lt_64 [of w] by simp
  then show "length (dec_u64 w) \<le> 20" unfolding dec_u64_def by (rule length_dec_nat) simp
qed

lemma utf8_words:
  "utf8 (str ''snapshot'')" "utf8 (str ''revision'')" "utf8 (str ''count'')"
  "utf8 (str ''references'')" "utf8 (str ''snapshots'')"
  by (rule utf8_ascii; simp)+

subsection \<open>Records\<close>

definition record_ok :: "retention_record \<Rightarrow> bool" where
  "record_ok r = (case r of
     Reference x \<Rightarrow> length (record_snapshot r) = 32 \<and> rr_snapshot x = to_hex (record_snapshot r) \<and>
       rr_revision x \<noteq> 0
   | Membership i n \<Rightarrow> length i = 32 \<and> n \<noteq> 0)"

lemma from_hex_to_hex: "length i = 32 \<Longrightarrow> from_hex_32 (to_hex i) = Some i"
  by (simp add: from_hex_32_iff)

lemma snapshot_id_iff: "snapshot_id s = Inr i \<longleftrightarrow> length i = 32 \<and> s = to_hex i"
  by (auto simp: snapshot_id_def rbind_eq_Inr from_hex_32_iff)

lemma positive_number_iff: "positive_number v = Inr n \<longleftrightarrow> n \<noteq> 0 \<and> v = dec_u64 n"
proof
  assume "positive_number v = Inr n"
  then show "n \<noteq> 0 \<and> v = dec_u64 n"
    unfolding positive_number_def by (cases "parse_u64 v") (simp_all split: if_splits)
next
  assume "n \<noteq> 0 \<and> v = dec_u64 n"
  then show "positive_number v = Inr n"
    by (simp add: positive_number_def parse_dec_u64)
qed

lemma record_words_less:
  "str ''revision'' < str ''snapshot''" "str ''count'' < str ''snapshot''"
  "str ''count'' < str ''revision''"
  by (simp_all add: less_list_code)

lemma record_file_meta:
  "f_meta (record_file (Reference x)) =
     [(str ''revision'', dec_u64 (rr_revision x)), (str ''snapshot'', rr_snapshot x)]"
  "f_meta (record_file (Membership i n)) =
     [(str ''count'', dec_u64 n), (str ''snapshot'', to_hex i)]"
  using record_words_less by (simp_all del: str_simps)

lemma length_str: "length (str s) = length s"
  by (simp add: str_def)

lemma record_file_shape [simp]:
  "f_size (record_file r) = 0" "f_chunks (record_file r) = []"
  by (cases r; simp)+

lemma record_file_ok:
  assumes "record_ok r"
  shows "file_ok (record_file r)"
proof (cases r)
  case (Reference x)
  then show ?thesis
    using assms record_words_less(1) utf8_words(1,2) dec_u64_text [of "rr_revision x"]
      utf8_to_hex [of "record_snapshot r"]
    by (auto simp: file_ok_def record_file_meta record_ok_def meta_ok_def caps
        length_str simp del: record_file.simps record_snapshot.simps str_simps)
next
  case (Membership i n)
  then show ?thesis
    using assms record_words_less(2) utf8_words(1,3) dec_u64_text [of n] utf8_to_hex [of i]
    by (auto simp: file_ok_def record_file_meta record_ok_def meta_ok_def caps
        length_str simp del: record_file.simps str_simps)
qed

lemma decode_record_file:
  assumes "record_ok r"
  shows "decode_record (file_encode (record_file r)) = Inr r"
proof -
  have f: "file_decode (file_encode (record_file r)) = Inr (record_file r)"
    using assms by (intro file_decode_encode record_file_ok)
  have ne: "str ''revision'' \<noteq> str ''snapshot''" "str ''count'' \<noteq> str ''snapshot''"
    "str ''revision'' \<noteq> str ''count''"
    using record_words_less by (metis order_less_irrefl)+
  show ?thesis
  proof (cases r)
    case (Reference x)
    have "snapshot_id (rr_snapshot x) = Inr (record_snapshot r)" "positive_number (dec_u64 (rr_revision x)) = Inr (rr_revision x)"
      using assms Reference
      by (simp_all add: record_ok_def snapshot_id_iff positive_number_iff del: record_snapshot.simps)
    then show ?thesis
      using f ne unfolding Reference
      by (simp add: decode_record_def record_file_meta bt_get_Cons reference_of_def
          del: record_file.simps record_snapshot.simps str_simps)
  next
    case (Membership i n)
    have "snapshot_id (to_hex i) = Inr i" "positive_number (dec_u64 n) = Inr n"
      using assms Membership by (simp_all add: record_ok_def snapshot_id_iff positive_number_iff)
    then show ?thesis
      using f ne unfolding Membership
      by (simp add: decode_record_def record_file_meta bt_get_Cons del: record_file.simps str_simps)
  qed
qed

text \<open>A wf table of two entries that has both of two ascending keys is exactly those two.\<close>

lemma two_entries:
  assumes "bt_wf m" "length m = 2" "bt_get m a = Some x" "bt_get m b = Some y" "a < b"
  shows "m = [(a, x), (b, y)]"
proof -
  obtain k u l v where m: "m = [(k, u), (l, v)]"
    using assms(2) by (cases m; cases "tl m") (auto simp: length_Suc_conv numeral_2_eq_2)
  with assms(1) have "k < l" by simp
  with assms(3-5) m show ?thesis by (auto simp: bt_get_Cons split: if_splits)
qed

lemma decode_record_only:
  assumes "decode_record body = Inr r"
  shows "record_ok r \<and> body = file_encode (record_file r)"
proof -
  from assms obtain f snapshot i where f: "file_decode body = Inr f"
    and shape: "f_size f = 0" "f_chunks f = []" "length (f_meta f) = 2"
    and s: "bt_get (f_meta f) (str ''snapshot'') = Some snapshot" and i: "snapshot_id snapshot = Inr i"
    and rest: "(case bt_get (f_meta f) (str ''revision'') of
       Some revision \<Rightarrow> rbind (positive_number revision) (\<lambda>n. Inr (Reference (reference_of snapshot n)))
     | None \<Rightarrow>
         rbind (ok_or (bt_get (f_meta f) (str ''count'')) (RetentionE RecordNoCount)) (\<lambda>count.
         rbind (positive_number count) (\<lambda>n. Inr (Membership i n)))) = Inr r"
    unfolding decode_record_def by (auto split: if_splits simp del: str_simps)
  have fok: "file_ok f" "body = file_encode f" using file_decode_only [OF f] by auto
  have wf: "bt_wf (f_meta f)" using fok(1) by (simp add: file_ok_def)
  have hex: "length i = 32" "snapshot = to_hex i" using i by (simp_all add: snapshot_id_iff)
  show ?thesis
  proof (cases "bt_get (f_meta f) (str ''revision'')")
    case (Some revision)
    then obtain n where n: "n \<noteq> 0" "revision = dec_u64 n" and r: "r = Reference (reference_of snapshot n)"
      using rest by (auto simp: positive_number_iff simp del: str_simps)
    have "f_meta f = [(str ''revision'', revision), (str ''snapshot'', snapshot)]"
      using two_entries [OF wf shape(3) Some s record_words_less(1)] .
    then have "f = record_file r"
      using shape n r record_file_meta(1) [of "reference_of snapshot n"]
      by (cases f) (simp add: reference_of_def)
    moreover have "record_ok r"
      using r n hex by (simp add: record_ok_def reference_of_def from_hex_to_hex)
    ultimately show ?thesis using fok(2) by simp
  next
    case None
    then obtain count n where c: "bt_get (f_meta f) (str ''count'') = Some count"
      and n: "n \<noteq> 0" "count = dec_u64 n" and r: "r = Membership i n"
      using rest by (auto simp: positive_number_iff simp del: str_simps)
    have "f_meta f = [(str ''count'', count), (str ''snapshot'', snapshot)]"
      using two_entries [OF wf shape(3) c s record_words_less(2)] .
    then have "f = record_file r"
      using shape n r hex record_file_meta(2) [of i n] by (cases f) simp
    moreover have "record_ok r" using r n hex by (simp add: record_ok_def)
    ultimately show ?thesis using fok(2) by simp
  qed
qed

lemma decode_record_iff: "decode_record body = Inr r \<longleftrightarrow> record_ok r \<and> body = file_encode (record_file r)"
  using decode_record_file decode_record_only by blast

subsection \<open>The edits of the catalog\<close>

lemma shards_ok: "utf8 section \<Longrightarrow> length section \<le> MAX_NAME_BYTES \<Longrightarrow> list_all name_ok (shards section i)"
  using utf8_hex_byte by (simp add: shards_def name_ok_def list_all_iff hex_byte_def caps)

lemma catalog_paths_ok: "list_all name_ok (reference_path H module key)" "list_all name_ok (membership_path i)"
  using utf8_words(4,5) shards_ok by (auto simp: reference_path_def membership_path_def caps simp del: str_simps)
    (simp_all add: str_simps)

lemma list_all_take: "list_all P xs \<Longrightarrow> list_all P (take n xs)"
  by (auto simp: list_all_iff dest: in_set_takeD)

lemma retention_put_ok:
  assumes "retention_put H v path r st rs = Inr (st', rs')" "node_ok (fst st)" "list_all name_ok path"
    "\<forall>b. length (H b) = 32"
  shows "node_ok (fst st')"
  using assms edit_put_spec(2) [where H = H and v = v and segs = path and n = "fst st", OF _ _ _ _ map_le_refl]
  by (auto simp: retention_put_def Let_def object_id_def)

lemma remove_spine_ok:
  "remove_spine H v path d n rs = Inr (n', rs') \<Longrightarrow> node_ok n \<Longrightarrow> list_all name_ok path \<Longrightarrow> node_ok n'"
proof (induction d arbitrary: n rs)
  case (Suc d)
  from Suc.prems(1) obtain x rs1 where x: "edit_get H v (take (Suc d) path) n rs = Inr (x, rs1)"
    and k: "(case x of None \<Rightarrow> slift (Inl (RetentionE AncestorMissing))
     | Some e \<Rightarrow>
         if \<not> (e_kind e = EDir \<and> e_size e = 0) then sret n
         else sbind (edit_rm H v (take (Suc d) path) n) (\<lambda>n'. remove_spine H v path d n')) rs1 = Inr (n', rs')"
    unfolding remove_spine.simps by (rule sbind_InrE)
  then obtain e where e: "x = Some e" by (cases x) auto
  show ?case
  proof (cases "e_kind e = EDir \<and> e_size e = 0")
    case False
    then show ?thesis using k e Suc.prems(2) by auto
  next
    case True
    then obtain n1 rs2 where n1: "edit_rm H v (take (Suc d) path) n rs1 = Inr (n1, rs2)"
      and rec: "remove_spine H v path d n1 rs2 = Inr (n', rs')"
      using k e by auto
    have "node_ok n1" using edit_rm_spec(2) [OF n1 Suc.prems(2) _ map_le_refl] Suc.prems(3) by (simp add: list_all_take)
    then show ?thesis using Suc.IH [OF rec] Suc.prems(3) by blast
  qed
qed simp

lemma retention_remove_ok:
  assumes "retention_remove H v path st rs = Inr (st', rs')" "node_ok (fst st)" "list_all name_ok path"
  shows "node_ok (fst st')"
proof -
  from assms(1) obtain n r1 n' where n: "edit_rm H v path (fst st) rs = Inr (n, r1)"
    and n': "remove_spine H v path (length path - 1) n r1 = Inr (n', rs')" and st': "fst st' = n'"
    unfolding retention_remove_def by auto
  have "node_ok n" using edit_rm_spec(2) [OF n assms(2,3) map_le_refl] .
  then show ?thesis using remove_spine_ok [OF n'] assms(3) st' by simp
qed

lemma release_ok:
  assumes "release_membership H v root previous st rs = Inr (st', rs')" "node_ok (fst st)"
    "\<forall>b. length (H b) = 32"
  shows "node_ok (fst st')"
  using assms
  by (auto simp: release_membership_def split: option.splits if_splits
      dest: retention_remove_ok [OF _ assms(2) catalog_paths_ok(2)]
        retention_put_ok [OF _ assms(2) catalog_paths_ok(2) assms(3)])

lemma acquire_ok:
  assumes "acquire_membership H v root next1 st rs = Inr (st', rs')" "node_ok (fst st)"
    "\<forall>b. length (H b) = 32"
  shows "node_ok (fst st')"
  using assms
  by (auto simp: acquire_membership_def split: option.splits
      dest: retention_put_ok [OF _ assms(2) catalog_paths_ok(2) assms(3)])

text \<open>A success matched the expectation, and a replacement of a reference advanced its revision.\<close>

lemma compare_exchange_guards:
  assumes "compare_exchange H v root module key expected replacement rs = Inr (built, rs')"
  shows "\<exists>r. retention_get H v root module key rs = Inr (expected, r)"
    and "module \<noteq> []" and "key \<noteq> []" and "expected = replacement \<or> \<not> revision_regressed expected replacement"
  using assms by (auto simp: compare_exchange_def validate_name_def split: if_splits)

lemma exchange_edits_ok:
  assumes "exchange_edits H v root path expected replacement rs = Inr (st', rs')"
    and "\<forall>b. length (H b) = 32" and "pred_option (\<lambda>i. length i = 32) root" and "list_all name_ok path"
  shows "node_ok (fst st')"
proof -
  have root: "node_ok (fst (edit_load root, []))" using edit_load_ok [OF assms(3)] by simp
  from assms(1) obtain st r1 where st: "(case replacement of
         Some reference \<Rightarrow> retention_put H v path (Reference reference) (edit_load root, [])
       | None \<Rightarrow> retention_remove H v path (edit_load root, [])) rs = Inr (st, r1)"
    and k: "sbind (slift (optional_id expected)) (\<lambda>previous.
     sbind (slift (optional_id replacement)) (\<lambda>next1.
     if previous \<noteq> next1
     then sbind (release_membership H v root previous st) (acquire_membership H v root next1)
     else sret st)) r1 = Inr (st', rs')"
    unfolding exchange_edits_def by (rule sbind_InrE)
  have ok: "node_ok (fst st)"
    using st retention_put_ok [OF _ root assms(4,2)] retention_remove_ok [OF _ root assms(4)]
    by (cases replacement) auto
  from k obtain previous next1 where "(if previous \<noteq> next1
     then sbind (release_membership H v root previous st) (acquire_membership H v root next1)
     else sret st) r1 = Inr (st', rs')"
    by auto
  then show ?thesis
    using ok by (auto split: if_splits dest!: acquire_ok [OF _ _ assms(2)] dest: release_ok [OF _ ok assms(2)])
qed

lemma compare_exchange_root:
  assumes "compare_exchange H v root module key expected replacement rs = Inr ((root', out), rs')"
    and "\<forall>b. length (H b) = 32" and "pred_option (\<lambda>i. length i = 32) root"
  shows "pred_option (\<lambda>i. length i = 32) root'"
proof (cases "expected = replacement")
  case True
  then show ?thesis using assms(1,3) by (auto simp: compare_exchange_def split: if_splits)
next
  case False
  from assms(1) False obtain st r1 r2 out' where
    st: "exchange_edits H v root (reference_path H module key) expected replacement r1 = Inr (st, r2)" and
    b: "edit_build H (fst st) = Inr (root', out')"
    unfolding compare_exchange_def by (auto split: if_splits)
  have "node_ok (fst st)" using exchange_edits_ok [OF st assms(2,3) catalog_paths_ok(1)] .
  then show ?thesis
    using edit_build_root_len [OF assms(2)] b by (cases root') auto
qed

end
