(* ===== verification/Fs_Verbs.thy ===== *)
theory Fs_Verbs
  imports Fs_Invariant Retention_Spec
begin

text \<open>
  The contract every verb of \<open>Fs\<close> shares (locale \<open>block_verb\<close>): it edits nothing but the pending
  view, and refused it buffers nothing. \<open>transact\<close> is reasoned about once, inside the locale, and
  each operation of fs.rs is an interpretation. The second half is the invariant of the reachable
  states, by rule induction on the steps \<open>fs_step\<close>.
\<close>

definition staged_of :: "'s fs \<Rightarrow> staged_objects" where
  "staged_of fs = (case pending fs of None \<Rightarrow> [] | Some p \<Rightarrow> p_objects p)"

text \<open>Everything but the pending view: the store, the committed refs and the caps.\<close>

definition same_base :: "'s fs \<Rightarrow> 's fs \<Rightarrow> bool" where
  "same_base fs fs' \<longleftrightarrow> fs'\<lparr>pending := None\<rparr> = fs\<lparr>pending := None\<rparr>"

lemma same_base_refl [simp]: "same_base fs fs"
  by (simp add: same_base_def)

lemma same_base_trans: "same_base a b \<Longrightarrow> same_base b c \<Longrightarrow> same_base a c"
  by (simp add: same_base_def)

lemma same_base_pending [simp]: "same_base fs (fs\<lparr>pending := p\<rparr>)"
  by (simp add: same_base_def)

lemma same_base_fields:
  assumes "same_base fs fs'"
  shows "fs_refs fs' = fs_refs fs" "store fs' = store fs" "window_cap fs' = window_cap fs"
    "staging_entry_cap fs' = staging_entry_cap fs" "quota fs' = quota fs"
    "staging_entry_cap_per_owner fs' = staging_entry_cap_per_owner fs"
    "object_read_cap fs' = object_read_cap fs"
proof -
  have eq: "fs'\<lparr>pending := None\<rparr> = fs\<lparr>pending := None\<rparr>" using assms by (simp add: same_base_def)
  show "fs_refs fs' = fs_refs fs" "store fs' = store fs" "window_cap fs' = window_cap fs"
    "staging_entry_cap fs' = staging_entry_cap fs" "quota fs' = quota fs"
    "staging_entry_cap_per_owner fs' = staging_entry_cap_per_owner fs"
    "object_read_cap fs' = object_read_cap fs"
    using arg_cong [OF eq, of fs_refs] arg_cong [OF eq, of store] arg_cong [OF eq, of window_cap]
      arg_cong [OF eq, of staging_entry_cap] arg_cong [OF eq, of quota]
      arg_cong [OF eq, of staging_entry_cap_per_owner] arg_cong [OF eq, of object_read_cap]
    by simp_all
qed

lemma require_pending_view:
  "pending (require_pending height fs) \<noteq> None"
  "pending_refs (require_pending height fs) = pending_refs fs"
  "staged_of (require_pending height fs) = staged_of fs"
  "block_objects (require_pending height fs) = block_objects fs"
  "same_base fs (require_pending height fs)"
  by (auto simp: require_pending_def pending_refs_def staged_of_def block_objects_def split: option.splits)

lemma set_pending_refs_view:
  assumes "pending fs \<noteq> None"
  shows "pending_refs (set_pending_refs r fs) = r"
    "staged_of (set_pending_refs r fs) = staged_of fs"
    "block_objects (set_pending_refs r fs) = block_objects fs"
    "same_base fs (set_pending_refs r fs)"
  using assms
  by (auto simp: set_pending_refs_def pending_refs_def staged_of_def block_objects_def)

locale block_verb =
  fixes operation :: "('s, 'a) verb"
  assumes frame: "operation fs = (r, fs') \<Longrightarrow> same_base fs fs'"
    and forked: "operation fs = (r, fs') \<Longrightarrow> pending fs \<noteq> None \<Longrightarrow> pending fs' \<noteq> None"
    and refused: "operation fs = (Inl e, fs') \<Longrightarrow> pending fs \<noteq> None \<Longrightarrow>
      staged_of fs' = staged_of fs \<and> block_objects fs' = block_objects fs"
begin

lemma transact_cases:
  assumes "transact a height operation fs = (r, fs')"
  obtains (unauthenticated) e where "r = Inl e" "fs' = fs"
  | (exhausted) e where "r = Inl e" "fs' = require_pending height fs"
  | (refused) e fs2 where "r = Inl e" "operation (require_pending height fs) = (Inl e, fs2)"
      "fs' = set_pending_refs (pending_refs fs) fs2" "authority_validate a = Inr ()"
  | (accepted) x fs2 where "r = Inr x" "operation (require_pending height fs) = (Inr x, fs2)"
      "unat (source_revision (pending_refs fs)) + 1 < 2 ^ 64" "authority_validate a = Inr ()"
      "fs' = (if pending_refs fs2 \<noteq> pending_refs fs
         then set_pending_refs ((pending_refs fs2)\<lparr>source_revision := source_revision (pending_refs fs) + 1\<rparr>) fs2
         else fs2)"
proof (cases "authority_validate a")
  case (Inl e)
  then show thesis using assms unauthenticated [of e] by (simp add: transact_def)
next
  case (Inr u)
  note a = this
  show thesis
  proof (cases "checked_add64 (source_revision (pending_refs fs)) 1")
    case None
    then show thesis
      using assms Inr exhausted [of "FsE SourceRevisionExhausted"]
      by (simp add: transact_def Let_def require_pending_view)
  next
    case (Some n)
    obtain q fs2 where o1: "operation (require_pending height fs) = (q, fs2)"
      by (cases "operation (require_pending height fs)")
    show thesis
    proof (cases q)
      case (Inl e)
      then show thesis
        using assms a Some o1 refused [of e fs2] by (simp add: transact_def Let_def require_pending_view)
    next
      case (Inr x)
      then show thesis
        using assms a Some o1 accepted [of x fs2]
        by (auto simp: transact_def Let_def require_pending_view checked_add64_Some)
    qed
  qed
qed

text \<open>A refused verb leaves the block as it was.\<close>

lemma transact_refused:
  assumes "transact a height operation fs = (Inl e, fs')"
  shows "pending_refs fs' = pending_refs fs \<and> staged_of fs' = staged_of fs \<and>
    block_objects fs' = block_objects fs"
  using assms
proof (cases rule: transact_cases)
  case (refused e' fs2)
  have "pending fs2 \<noteq> None" using forked [OF refused(2) require_pending_view(1)] .
  then show ?thesis
    using refused block_verb.refused [OF block_verb_axioms refused(2) require_pending_view(1)]
    by (simp add: set_pending_refs_view require_pending_view)
qed (simp_all add: require_pending_view)

lemma transact_frame:
  assumes "transact a height operation fs = (r, fs')"
  shows "same_base fs fs'"
  using assms
proof (cases rule: transact_cases)
  case (refused e fs2)
  have "same_base fs fs2"
    using require_pending_view(5) frame [OF refused(2)] by (rule same_base_trans)
  then show ?thesis using refused(3) by (simp add: set_pending_refs_def same_base_def)
next
  case (accepted x fs2)
  have "same_base fs fs2"
    using require_pending_view(5) frame [OF accepted(2)] by (rule same_base_trans)
  then show ?thesis using accepted(5) by (simp add: set_pending_refs_def same_base_def)
qed (simp_all add: require_pending_view)

text \<open>The source revision advances by one exactly when the refs changed, and never wraps.\<close>

lemma transact_revision:
  assumes "transact a height operation fs = (Inr x, fs')"
  shows "pending_refs fs' = pending_refs fs \<or>
    unat (source_revision (pending_refs fs')) = unat (source_revision (pending_refs fs)) + 1"
  using assms
proof (cases rule: transact_cases)
  case (accepted y fs2)
  have "pending fs2 \<noteq> None" using forked [OF accepted(2) require_pending_view(1)] .
  then show ?thesis
    using accepted(3,5) by (auto simp: set_pending_refs_view unat_word_ariths)
qed simp_all

end

subsection \<open>The operations are verbs\<close>

lemma pending_refs_Some: "pending fs = Some p \<Longrightarrow> pending_refs fs = p_refs p"
  by (simp add: pending_refs_def)

lemma push_objects_append:
  "p_objects (push_objects H os p) = p_objects p @ os"
  "p_refs (push_objects H os p) = p_refs p"
  "p_height (push_objects H os p) = p_height p"
  unfolding push_objects_def
  by (induction os arbitrary: p) (auto simp: push_object_def)

lemma swept_cases:
  assumes "swept height step fs = (r, fs')" "pending fs = Some p"
  obtains (refused) e where "r = Inl e"
      "fs' = fs\<lparr>pending := Some (p\<lparr>p_refs := sweep_expired height (p_refs p)\<rparr>)\<rparr>"
  | (accepted) p' where "r = Inr ()" "fs' = fs\<lparr>pending := Some p'\<rparr>"
      "step (fs\<lparr>pending := Some (p\<lparr>p_refs := sweep_expired height (p_refs p)\<rparr>)\<rparr>)
         (p\<lparr>p_refs := sweep_expired height (p_refs p)\<rparr>) = Inr p'"
  using assms
  by (auto simp: swept_def require_pending_def Let_def split: sum.splits)

interpretation swept_verb: block_verb "swept height step" for height step
proof
  fix fs fs' :: "'a fs" and r e
  show "swept height step fs = (r, fs') \<Longrightarrow> same_base fs fs'"
    by (auto simp: swept_def require_pending_def Let_def same_base_def split: option.splits sum.splits)
  show "swept height step fs = (r, fs') \<Longrightarrow> pending fs \<noteq> None \<Longrightarrow> pending fs' \<noteq> None"
    by (auto elim: swept_cases)
  show "swept height step fs = (Inl e, fs') \<Longrightarrow> pending fs \<noteq> None \<Longrightarrow>
      staged_of fs' = staged_of fs \<and> block_objects fs' = block_objects fs"
    by (auto simp: staged_of_def block_objects_def elim: swept_cases)
qed

interpretation commit_verb: block_verb "commit_op H nfc b64_decode ops a height time base message changes"
  for H nfc b64_decode ops a height time base message changes
  by unfold_locales
    (auto simp: commit_op_def require_pending_def Let_def same_base_def split: option.splits sum.splits)

interpretation project_verb: block_verb "project_op H nfc ops a height time snapshot path"
  for H nfc ops a height time snapshot path
  by unfold_locales
    (auto simp: project_op_def Let_def same_base_def split: option.splits sum.splits)

interpretation retention_verb: block_verb "retention_op H ops a height key expected replacement"
  for H ops a height key expected replacement
  by unfold_locales
    (auto simp: retention_op_def Let_def same_base_def split: option.splits sum.splits authority.splits)

subsection \<open>The invariant of the state machine\<close>

definition fs_inv :: "'s fs \<Rightarrow> bool" where
  "fs_inv fs \<longleftrightarrow> window_cap fs = HISTORY_WINDOW \<and> staging_entry_cap fs \<le> MAX_STAGING_ENTRIES \<and>
     refs_inv (fs_refs fs) \<and> refs_inv (pending_refs fs)"

lemma fs_inv_new: "refs_inv r \<Longrightarrow> fs_inv (fs_new s r)"
  by (simp add: fs_inv_def fs_new_def pending_refs_def)

lemma fs_inv_same_base:
  "fs_inv fs \<Longrightarrow> same_base fs fs' \<Longrightarrow> refs_inv (pending_refs fs') \<Longrightarrow> fs_inv fs'"
  by (simp add: fs_inv_def same_base_fields)

definition keeps_inv :: "('s, 'a) verb \<Rightarrow> bool" where
  "keeps_inv operation \<longleftrightarrow> (\<forall>g r g'. operation g = (r, g') \<longrightarrow> pending g \<noteq> None \<longrightarrow> fs_inv g \<longrightarrow>
     refs_inv (pending_refs g'))"

context block_verb
begin

lemma transact_inv:
  assumes "transact a height operation fs = (r, fs')" "fs_inv fs" "authority_typed a"
    and keep: "actor_ok (authority_actor a) \<Longrightarrow> keeps_inv operation"
  shows "fs_inv fs'"
proof (rule fs_inv_same_base [OF assms(2) transact_frame [OF assms(1)]])
  let ?g = "require_pending height fs"
  have g: "fs_inv ?g"
    using assms(2) require_pending_view(2,5) by (metis fs_inv_same_base fs_inv_def)
  show "refs_inv (pending_refs fs')"
    using assms(1)
  proof (cases rule: transact_cases)
    case (refused e fs2)
    then have "pending_refs fs' = pending_refs fs" using transact_refused assms(1) by blast
    then show ?thesis using assms(2) by (simp add: fs_inv_def)
  next
    case (accepted x fs2)
    have "actor_ok (authority_actor a)" using accepted(4) assms(3) by (rule authority_actor_ok)
    then have k: "refs_inv (pending_refs fs2)"
      using keep accepted(2) g require_pending_view(1) unfolding keeps_inv_def by blast
    have "pending fs2 \<noteq> None" using forked [OF accepted(2) require_pending_view(1)] .
    then show ?thesis
      using accepted(5) k by (auto simp: set_pending_refs_view inv_revision)
  qed (use assms(2) in \<open>simp_all add: fs_inv_def require_pending_view\<close>)
qed

end

text \<open>Each operation keeps the invariant.\<close>

lemma keeps_swept:
  assumes "\<And>fs p p'. step fs p = Inr p' \<Longrightarrow> refs_inv (p_refs p) \<Longrightarrow> window_cap fs = HISTORY_WINDOW \<Longrightarrow>
    staging_entry_cap fs \<le> MAX_STAGING_ENTRIES \<Longrightarrow> refs_inv (p_refs p')"
  shows "keeps_inv (swept height step)"
  unfolding keeps_inv_def
proof (intro allI impI)
  fix g g' :: "'a fs" and r
  assume a: "swept height step g = (r, g')" "pending g \<noteq> None" "fs_inv g"
  then obtain p where p: "pending g = Some p" by auto
  have inv: "refs_inv (sweep_expired height (p_refs p))"
    using a(3) p inv_sweep by (simp add: fs_inv_def pending_refs_def)
  show "refs_inv (pending_refs g')"
    using a(1) p
  proof (cases rule: swept_cases)
    case (refused e)
    then show ?thesis using inv by (simp add: pending_refs_def)
  next
    case (accepted p')
    have "refs_inv (p_refs p')"
      by (rule assms [OF accepted(3)]) (use inv a(3) in \<open>simp_all add: fs_inv_def\<close>)
    then show ?thesis using accepted(2) by (simp add: pending_refs_def)
  qed
qed

lemma putblob_keeps:
  assumes "\<forall>b. length (H b) = 32" "actor_ok (authority_actor a)"
  shows "keeps_inv (swept height (putblob_step H a height bs))"
proof (rule keeps_swept)
  fix fs :: "'a fs" and p p'
  assume s: "putblob_step H a height bs fs p = Inr p'" and inv: "refs_inv (p_refs p)"
    and w: "window_cap fs = HISTORY_WINDOW" and c: "staging_entry_cap fs \<le> MAX_STAGING_ENTRIES"
  let ?d = "object_id H KChunk bs"
  show "refs_inv (p_refs p')"
  proof (cases "bt_has (p_object_ids p) ?d \<or> bt_has (staging (p_refs p)) ?d")
    case True
    then show ?thesis using s inv by (auto simp: putblob_step_def Let_def split: if_splits)
  next
    case False
    then have new: "bt_get (staging (p_refs p)) ?d = None" by (simp add: bt_has_def)
    from s False w obtain e where p': "p_refs p' = (p_refs p)\<lparr>staging := bt_insert ?d e (staging (p_refs p))\<rparr>"
      and e: "st_owner e = authority_actor a" and cap: "length (staging (p_refs p)) < staging_entry_cap fs"
      and g: "refuse_refs_growth (p_refs p) (staged_entry_len (authority_actor a)) HISTORY_WINDOW = Inr ()"
      by (auto simp: putblob_step_def Let_def push_object_def split: if_splits prod.splits)
    show ?thesis
      unfolding p'
      using inv new cap c e refuse_growth_ok [OF g] assms
      by (intro inv_stage) (auto simp: staged_ok_def object_id_def)
  qed
qed

lemma pin_keeps:
  assumes "actor_ok (authority_actor a)" "str_ok name"
  shows "keeps_inv (swept height (pin_step H ops a snapshot name))"
proof (rule keeps_swept)
  fix fs p p'
  assume s: "pin_step H ops a snapshot name fs p = Inr p'" and inv: "refs_inv (p_refs p)"
    and w: "window_cap fs = HISTORY_WINDOW"
  from s w obtain i where i: "from_hex_32 snapshot = Some i"
    and p': "p_refs p' = (p_refs p)\<lparr>pins := bt_insert name \<lparr>pin_snapshot = i, pin_owner = authority_actor a\<rparr> (pins (p_refs p))\<rparr>"
    and new: "\<not> bt_has (pins (p_refs p)) name" "length (pins (p_refs p)) < MAX_PINS"
    and g: "refuse_refs_growth (p_refs p) (pin_entry_len name (authority_actor a)) HISTORY_WINDOW = Inr ()"
    by (auto simp: pin_step_def Let_def split: if_splits)
  show "refs_inv (p_refs p')"
    unfolding p'
    using inv new refuse_growth_ok [OF g] assms i
    by (intro inv_pin) (auto simp: pin_ok_def bt_has_def from_hex_32_iff)
qed

lemma unpin_keeps: "keeps_inv (swept height (unpin_step name))"
  by (rule keeps_swept) (auto simp: unpin_step_def inv_unpin split: if_splits)

lemma canonical_prefix_str:
  "canonical_watch_prefix nfc q = Inr p \<Longrightarrow> str_ok q \<Longrightarrow> str_ok p"
  by (auto simp: canonical_watch_prefix_def canonical_iff)

lemma watch_keeps:
  assumes "str_ok q" "str_ok module_id"
  shows "keeps_inv (swept height (watch_step nfc a q module_id))"
proof (rule keeps_swept)
  fix fs :: "'a fs" and p p'
  assume s: "watch_step nfc a q module_id fs p = Inr p'" and inv: "refs_inv (p_refs p)"
    and w: "window_cap fs = HISTORY_WINDOW"
  from s w obtain q' where q': "canonical_watch_prefix nfc q = Inr q'"
    and p': "p_refs p' = (p_refs p)\<lparr>watches := bt_insert (q', module_id) () (watches (p_refs p))\<rparr>"
    and new: "\<not> bt_has (watches (p_refs p)) (q', module_id)" "length (watches (p_refs p)) < MAX_WATCHES"
    and g: "refuse_refs_growth (p_refs p) (watch_entry_len q' module_id) HISTORY_WINDOW = Inr ()"
    by (auto simp: watch_step_def Let_def split: if_splits)
  have "bt_get (watches (p_refs p)) (q', module_id) = None"
    using new(1) by (cases "bt_get (watches (p_refs p)) (q', module_id)") (simp_all add: bt_has_def)
  then show "refs_inv (p_refs p')"
    unfolding p'
    using inv new(2) refuse_growth_ok [OF g] assms canonical_prefix_str [OF q']
    by (intro inv_watch) (simp_all add: watch_ok_def)
qed

lemma unwatch_keeps: "keeps_inv (swept height (unwatch_step nfc a q module_id))"
  by (rule keeps_swept) (auto simp: unwatch_step_def Let_def inv_unwatch split: if_splits)

text \<open>The refs of an accepted commit.\<close>

lemma commit_apply_refs:
  assumes "commit_apply H nfc b64_decode v pending_ids refs0 a height time base message changes cap rs = Inr (built, rs')"
    and "\<forall>b. length (H b) = 32"
  shows "\<exists>snap ids. id_ok snap \<and>
    cb_refs built = (let r' = push_window cap snap ((sweep_expired height refs0)\<lparr>head := Some snap\<rparr>)
      in r'\<lparr>staging := fold bt_remove ids (staging r')\<rparr>)"
  using assms(1)
proof (rule commit_applyE)
  fix ps root objects
  let ?s = "commit_snapshot (sweep_expired height refs0) a height time message root"
  let ?snap = "object_id H KSnapshot (snapshot_encode ?s)"
  assume "built = seal_commit H (sweep_expired height refs0) ?s cap ps objects"
  then have "cb_refs built = (let r' = push_window cap ?snap ((sweep_expired height refs0)\<lparr>head := Some ?snap\<rparr>)
      in r'\<lparr>staging := fold bt_remove (ps_chunk_refs ps) (staging r')\<rparr>)"
    by (simp add: seal_commit_def Let_def)
  moreover have "id_ok ?snap" using assms(2) by (simp add: id_ok_def object_id_def)
  ultimately show ?thesis by blast
qed

lemma commit_keeps:
  assumes "\<forall>b. length (H b) = 32"
  shows "keeps_inv (commit_op H nfc b64_decode ops a height time base message changes)"
  unfolding keeps_inv_def
proof (intro allI impI)
  fix g g' :: "'a fs" and r
  assume o1: "commit_op H nfc b64_decode ops a height time base message changes g = (r, g')"
    and pd: "pending g \<noteq> None" and inv: "fs_inv g"
  obtain p where p: "pending g = Some p" using pd by auto
  have rp: "require_pending height g = g" using p by (simp add: require_pending_def)
  have pinv: "refs_inv (p_refs p)" using inv p by (simp add: fs_inv_def pending_refs_def)
  show "refs_inv (pending_refs g')"
  proof (cases "commit_apply H nfc b64_decode (fs_view ops g p) (p_object_ids p) (p_refs p) a height time
      base message changes (window_cap g) no_reads")
    case (Inl e)
    then show ?thesis using o1 rp p pinv by (auto simp: commit_op_def pending_refs_def)
  next
    case (Inr x)
    obtain built rs where x: "x = (built, rs)" by (cases x)
    have g': "pending_refs g' = cb_refs built"
      using o1 rp p Inr x by (auto simp: commit_op_def pending_refs_def push_objects_append)
    have w: "window_cap g = HISTORY_WINDOW" using inv by (simp add: fs_inv_def)
    from commit_apply_refs [OF Inr [unfolded x w] assms] obtain snap ids where "id_ok snap"
      and r: "cb_refs built = (let r' = push_window HISTORY_WINDOW snap ((sweep_expired height (p_refs p))\<lparr>head := Some snap\<rparr>)
        in r'\<lparr>staging := fold bt_remove ids (staging r')\<rparr>)"
      by auto
    then show ?thesis
      unfolding g' r Let_def
      using inv_unstage_all inv_push_window inv_head inv_sweep [OF pinv] by metis
  qed
qed

lemma project_keeps:
  assumes "\<forall>b. length (H b) = 32"
  shows "keeps_inv (project_op H nfc ops a height time snapshot path)"
  unfolding keeps_inv_def
proof (intro allI impI)
  fix g g' :: "'a fs" and r
  assume o1: "project_op H nfc ops a height time snapshot path g = (r, g')"
    and pd: "pending g \<noteq> None" and inv: "fs_inv g"
  obtain p where p: "pending g = Some p" using pd by auto
  have pinv: "refs_inv (p_refs p)" using inv p by (simp add: fs_inv_def pending_refs_def)
  have w: "window_cap g = HISTORY_WINDOW" using inv by (simp add: fs_inv_def)
  show "refs_inv (pending_refs g')"
  proof (cases "project_built H nfc (fs_view ops g p) (p_refs p) a height time snapshot path no_reads")
    case (Inl e)
    then show ?thesis using o1 p pinv by (auto simp: project_op_def pending_refs_def)
  next
    case (Inr x)
    obtain projected objects rs where x: "x = ((projected, objects), rs)" by (cases x) auto
    have "id_ok projected"
      using Inr x assms by (auto simp: project_built_def Let_def id_ok_def object_id_def split: if_splits)
    moreover have "pending_refs g' = push_window HISTORY_WINDOW projected (sweep_expired height (p_refs p))"
      using o1 p Inr x w by (auto simp: project_op_def pending_refs_def push_objects_append Let_def)
    ultimately show ?thesis using inv_push_window inv_sweep [OF pinv] by metis
  qed
qed

lemma retention_keeps:
  assumes "\<forall>b. length (H b) = 32"
  shows "keeps_inv (retention_op H ops a height key expected replacement)"
  unfolding keeps_inv_def
proof (intro allI impI)
  fix g g' :: "'a fs" and r
  assume o1: "retention_op H ops a height key expected replacement g = (r, g')"
    and pd: "pending g \<noteq> None" and inv: "fs_inv g"
  obtain p where p: "pending g = Some p" using pd by auto
  have pinv: "refs_inv (p_refs p)" using inv p by (simp add: fs_inv_def pending_refs_def)
  show "refs_inv (pending_refs g')"
  proof (cases "\<exists>module. a = AuthModule module")
    case False
    then show ?thesis
      using o1 p pinv by (auto simp: retention_op_def pending_refs_def split: authority.splits)
  next
    case True
    then obtain module where a: "a = AuthModule module" by auto
    show ?thesis
    proof (cases "retention_built H (fs_view ops g p) (p_refs p) module key expected replacement no_reads")
      case (Inl e)
      then show ?thesis using o1 p pinv a by (auto simp: retention_op_def pending_refs_def)
    next
      case (Inr x)
      obtain root objects rs where x: "x = ((root, objects), rs)" by (cases x) auto
      from Inr x obtain r1 where ce: "compare_exchange H (fs_view ops g p) (retention_root (p_refs p))
          module key expected replacement r1 = Inr ((root, objects), rs)"
        unfolding retention_built_def by (auto split: option.splits if_splits)
      have old: "pred_option (\<lambda>i. length i = 32) (retention_root (p_refs p))"
        using pinv by (simp add: refs_inv_def refs_typed_def id_ok_def [abs_def])
      have "pred_option id_ok root"
        using compare_exchange_root [OF ce assms old] by (simp add: id_ok_def [abs_def])
      moreover have "pending_refs g' = (sweep_expired height (p_refs p))\<lparr>retention_root := root\<rparr>"
        using o1 p Inr x a by (auto simp: retention_op_def pending_refs_def push_objects_append Let_def)
      ultimately show ?thesis using inv_retention_root inv_sweep [OF pinv] by metis
    qed
  qed
qed

end
