(* ===== verification/Fs_Steps.thy ===== *)
theory Fs_Steps
  imports Fs_Verbs
begin

text \<open>
  The reachable states of \<open>Fs\<close>: any verb with any arguments, accepted or refused, the block
  boundary in the order \<open>commit_block\<close> documents (flush the objects, then adopt the refs; or lose
  the block), installs of images an honest node produced, sync ingest and collection. Strings are
  the UTF-8 strings Rust's types guarantee.
\<close>

inductive fs_step :: "(bytes \<Rightarrow> object_id) \<Rightarrow> (rstring \<Rightarrow> rstring) \<Rightarrow> (rstring \<Rightarrow> bytes option) \<Rightarrow>
    's store_ops \<Rightarrow> 's fs \<Rightarrow> 's fs \<Rightarrow> bool"
  for H nfc b64_decode ops
where
  step_putblob: "putblob H a height bs fs = (r, fs') \<Longrightarrow> authority_typed a \<Longrightarrow>
    fs_step H nfc b64_decode ops fs fs'"
| step_commit: "commit H nfc b64_decode ops a height time base message changes fs = (n, fs') \<Longrightarrow>
    authority_typed a \<Longrightarrow> fs_step H nfc b64_decode ops fs fs'"
| step_project: "project_snapshot H nfc ops a height time snapshot path fs = (p, fs') \<Longrightarrow>
    authority_typed a \<Longrightarrow> fs_step H nfc b64_decode ops fs fs'"
| step_retention: "compare_exchange_retention H ops a height key expected replacement fs = (r, fs') \<Longrightarrow>
    authority_typed a \<Longrightarrow> fs_step H nfc b64_decode ops fs fs'"
| step_pin: "pin H ops a height snapshot name fs = (r, fs') \<Longrightarrow> authority_typed a \<Longrightarrow> str_ok name \<Longrightarrow>
    fs_step H nfc b64_decode ops fs fs'"
| step_unpin: "unpin a height name fs = (r, fs') \<Longrightarrow> authority_typed a \<Longrightarrow>
    fs_step H nfc b64_decode ops fs fs'"
| step_watch: "watch nfc a height q module_id fs = (r, fs') \<Longrightarrow> authority_typed a \<Longrightarrow> str_ok q \<Longrightarrow>
    str_ok module_id \<Longrightarrow> fs_step H nfc b64_decode ops fs fs'"
| step_unwatch: "unwatch nfc a height q module_id fs = (r, fs') \<Longrightarrow> authority_typed a \<Longrightarrow>
    fs_step H nfc b64_decode ops fs fs'"
| step_block: "commit_block fs = (Some (refs, height, objects), fs1) \<Longrightarrow>
    put_all ops objects (store fs1) = (Inr u, s) \<Longrightarrow>
    fs_step H nfc b64_decode ops fs (adopt_refs refs (fs1\<lparr>store := s\<rparr>))"
| step_block_failed: "commit_block fs = (Some (refs, height, objects), fs1) \<Longrightarrow>
    put_all ops objects (store fs1) = (Inl e, s) \<Longrightarrow>
    fs_step H nfc b64_decode ops fs (fs1\<lparr>store := s\<rparr>)"
| step_abort: "fs_step H nfc b64_decode ops fs (abort_block fs)"
| step_install: "install_refs H (encode_refs refs) root fs = (r, fs') \<Longrightarrow> refs_inv refs \<Longrightarrow>
    fs_step H nfc b64_decode ops fs fs'"
| step_ingest: "ingest_object H ops i tag body fs = (r, fs') \<Longrightarrow> fs_step H nfc b64_decode ops fs fs'"
| step_gc: "fs_gc m n ops fs = (c, fs') \<Longrightarrow> fs_step H nfc b64_decode ops fs fs'"

inductive_cases fs_stepE: "fs_step H nfc b64_decode ops fs fs'"

inductive_simps fs_step_simps: "fs_step H nfc b64_decode ops fs fs'"

text \<open>Steps that leave the refs of both views alone.\<close>

lemma fs_inv_store: "fs_inv (fs\<lparr>store := s\<rparr>) \<longleftrightarrow> fs_inv fs"
  by (simp add: fs_inv_def pending_refs_def split: option.splits)

lemma fs_inv_block:
  assumes "fs_inv fs" "commit_block fs = (Some (refs, height, objects), fs1)"
  shows "fs_inv fs1" "refs_inv refs"
proof -
  from assms(2) obtain p where p: "pending fs = Some p" and r: "refs = p_refs p"
    and fs1: "fs1 = fs\<lparr>pending := None\<rparr>"
    by (auto simp: commit_block_def)
  show "refs_inv refs" using assms(1) p r by (simp add: fs_inv_def pending_refs_def)
  show "fs_inv fs1" using assms(1) fs1 by (simp add: fs_inv_def pending_refs_def)
qed

lemma fs_inv_install:
  assumes "install_refs H (encode_refs refs) root fs = (r, fs')" "refs_inv refs" "fs_inv fs"
  shows "fs_inv fs'"
proof -
  have "decode_refs (encode_refs refs) = Inr refs"
    using refs_inv_ok [OF assms(2)] by (rule decode_encode_refs)
  then show ?thesis
    using assms by (auto simp: install_refs_def fs_inv_def pending_refs_def split: if_splits)
qed

lemma fs_step_inv:
  assumes "fs_step H nfc b64_decode ops fs fs'" and "\<forall>b. length (H b) = 32" and "fs_inv fs"
  shows "fs_inv fs'"
  using assms(1)
proof (cases rule: fs_step.cases)
  case step_putblob
  show ?thesis
    using swept_verb.transact_inv [OF step_putblob(1) [unfolded putblob_def] assms(3) step_putblob(2)]
      putblob_keeps [OF assms(2)] by blast
next
  case step_commit
  show ?thesis
    using commit_verb.transact_inv [OF step_commit(1) [unfolded commit_def] assms(3) step_commit(2)]
      commit_keeps [OF assms(2)] by blast
next
  case step_project
  show ?thesis
    using project_verb.transact_inv [OF step_project(1) [unfolded project_snapshot_def] assms(3) step_project(2)]
      project_keeps [OF assms(2)] by blast
next
  case step_retention
  show ?thesis
    using retention_verb.transact_inv [OF step_retention(1) [unfolded compare_exchange_retention_def] assms(3) step_retention(2)]
      retention_keeps [OF assms(2)] by blast
next
  case step_pin
  show ?thesis
    using swept_verb.transact_inv [OF step_pin(1) [unfolded pin_def] assms(3) step_pin(2)] pin_keeps step_pin(3) by blast
next
  case step_unpin
  show ?thesis
    using swept_verb.transact_inv [OF step_unpin(1) [unfolded unpin_def] assms(3) step_unpin(2)] unpin_keeps by blast
next
  case step_watch
  show ?thesis
    using swept_verb.transact_inv [OF step_watch(1) [unfolded watch_def] assms(3) step_watch(2)] watch_keeps step_watch(3,4) by blast
next
  case step_unwatch
  show ?thesis
    using swept_verb.transact_inv [OF step_unwatch(1) [unfolded unwatch_def] assms(3) step_unwatch(2)] unwatch_keeps by blast
next
  case step_block
  show ?thesis
    using fs_inv_block [OF assms(3) step_block(2)] step_block(2)
    by (auto simp: step_block(1) adopt_refs_def fs_inv_def pending_refs_def commit_block_def)
next
  case step_block_failed
  show ?thesis using fs_inv_block [OF assms(3) step_block_failed(2)] by (simp add: step_block_failed(1) fs_inv_store)
next
  case step_abort
  then show ?thesis using assms(3) by (simp add: abort_block_def fs_inv_def pending_refs_def)
next
  case step_install
  show ?thesis using fs_inv_install [OF step_install(1,2) assms(3)] .
next
  case step_ingest
  then show ?thesis using assms(3)
    by (auto simp: ingest_object_def fs_inv_store split: sum.splits prod.splits)
next
  case step_gc
  then show ?thesis using assms(3)
    by (auto simp: fs_gc_def fs_inv_store split: sum.splits prod.splits)
qed

lemma fs_reachable_inv:
  assumes "(fs_step H nfc b64_decode ops)\<^sup>*\<^sup>* fs fs'" and "\<forall>b. length (H b) = 32" and "fs_inv fs"
  shows "fs_inv fs'"
  using assms by (induction rule: rtranclp_induct) (auto intro: fs_step_inv)

end
