(* ===== verification/Gc_Spec.thy ===== *)
theory Gc_Spec
  imports Gc
begin

text \<open>
  The abstract specification of gc.rs: the objects reachable from the roots along the edges that the
  bodies name. \<open>mark\<close>, when it succeeds, returns exactly the reachable ids, and on a complete store
  it succeeds once the fuel exceeds the number of stored objects.
\<close>

subsection \<open>The object graph\<close>

definition entry_edge :: "tree_entry \<Rightarrow> object_id \<times> kind" where
  "entry_edge e = (e_id e, if e_kind e = EDir then KTree else KFile)"

fun edges :: "kind \<Rightarrow> bytes \<Rightarrow> (object_id \<times> kind) list" where
  "edges KChunk body = []"
| "edges KFile body = (case file_decode body of Inr f \<Rightarrow> map (\<lambda>c. (c, KChunk)) (f_chunks f) | Inl _ \<Rightarrow> [])"
| "edges KTree body = (case tree_decode body of Inr t \<Rightarrow> map (\<lambda>(_, e). entry_edge e) (t_entries t) | Inl _ \<Rightarrow> [])"
| "edges KSnapshot body = (case snapshot_decode body of Inr s \<Rightarrow> [(s_root s, KTree)] | Inl _ \<Rightarrow> [])"

inductive_set reach :: "contents \<Rightarrow> (object_id \<times> kind) set \<Rightarrow> (object_id \<times> kind) set"
  for F R
where
  reach_root: "x \<in> R \<Longrightarrow> x \<in> reach F R"
| reach_edge: "(i, k) \<in> reach F R \<Longrightarrow> F i = Some (k, body) \<Longrightarrow> y \<in> set (edges k body) \<Longrightarrow> y \<in> reach F R"

definition succs :: "contents \<Rightarrow> object_id \<Rightarrow> object_id set" where
  "succs F i = (case F i of Some (k, body) \<Rightarrow> fst ` set (edges k body) | None \<Rightarrow> {})"

text \<open>An id that a file names as a chunk, or that staging holds, is stored as a chunk if at all.\<close>

definition chunk_id :: "contents \<Rightarrow> object_id \<Rightarrow> bool" where
  "chunk_id F i \<longleftrightarrow> (\<forall>k body. F i = Some (k, body) \<longrightarrow> k = KChunk)"

definition chunks_typed :: "contents \<Rightarrow> bool" where
  "chunks_typed F \<longleftrightarrow> (\<forall>i body. F i = Some (KFile, body) \<longrightarrow> (\<forall>c \<in> fst ` set (edges KFile body). chunk_id F c))"

definition edge_closed :: "contents \<Rightarrow> (object_id \<times> kind) set \<Rightarrow> bool" where
  "edge_closed F R \<longleftrightarrow> (\<forall>i k body. (i, k) \<in> R \<longrightarrow> F i = Some (k, body) \<longrightarrow> set (edges k body) \<subseteq> R)"

lemma reach_closed: "edge_closed F (reach F R)"
  by (auto simp: edge_closed_def intro: reach_edge)

text \<open>What a walk adds to the marked set: only reachable ids, each with everything below it.\<close>

definition grows :: "contents \<Rightarrow> (object_id \<times> kind) set \<Rightarrow> object_id set \<Rightarrow> object_id set \<Rightarrow> bool" where
  "grows F R L L' \<longleftrightarrow> L \<subseteq> L' \<and> (\<forall>i \<in> L' - L. succs F i \<subseteq> L') \<and> L' \<subseteq> L \<union> fst ` R"

lemma grows_refl [simp]: "grows F R L L"
  by (simp add: grows_def)

lemma grows_trans: "grows F R L L' \<Longrightarrow> grows F R L' L'' \<Longrightarrow> grows F R L L''"
  unfolding grows_def by (intro conjI; (blast | fast))

lemma grows_insert:
  "grows F R (insert i L) L' \<Longrightarrow> succs F i \<subseteq> L' \<Longrightarrow> i \<in> fst ` R \<Longrightarrow> grows F R L L'"
  unfolding grows_def by (intro conjI; blast)

lemma rfold_grows:
  assumes "rfold f L xs = Inr L'"
    and "\<And>x M M'. x \<in> set xs \<Longrightarrow> f M x = Inr M' \<Longrightarrow> grows F R M M' \<and> key x \<in> M'"
  shows "grows F R L L' \<and> key ` set xs \<subseteq> L'"
  using assms
proof (induction xs arbitrary: L)
  case (Cons x xs)
  from Cons.prems(1) obtain M where m: "f L x = Inr M" and rest: "rfold f M xs = Inr L'" by auto
  have one: "grows F R L M \<and> key x \<in> M" using Cons.prems(2) [of x L M] m by simp
  have all: "grows F R M L' \<and> key ` set xs \<subseteq> L'" 
  proof (rule Cons.IH [OF rest])
    show "grows F R M M' \<and> key y \<in> M'" if "y \<in> set xs" "f M y = Inr M'" for y M M'
      using that Cons.prems(2) [of y] by simp
  qed
  then have "key x \<in> L'" using one by (auto simp: grows_def)
  then show ?case using one all grows_trans by auto
qed simp

subsection \<open>Marking\<close>

definition walk_contents :: "walk \<Rightarrow> contents" where
  "walk_contents w i = (case w_get w i of Inr x \<Rightarrow> x | Inl _ \<Rightarrow> None)"

lemma gc_fetch_contents: "gc_fetch w i k = Inr body \<Longrightarrow> walk_contents w i = Some (k, body)"
  by (cases "w_get w i") (auto simp: gc_fetch_def walk_contents_def split: option.splits if_splits)

lemma mark_chunk_grows:
  assumes "mark_chunk w i L = Inr L'" "(i, KChunk) \<in> R" "chunk_id (walk_contents w) i"
  shows "grows (walk_contents w) R L L' \<and> i \<in> L'"
proof -
  have "succs (walk_contents w) i = {}"
    using assms(3) by (auto simp: succs_def chunk_id_def split: option.splits)
  moreover have "i \<in> fst ` R" using assms(2) by force
  moreover have "L' = insert i L" using assms(1) by (auto simp: mark_chunk_def split: if_splits)
  ultimately show ?thesis unfolding grows_def by auto
qed

lemma mark_file_grows:
  assumes "mark_file w i L = Inr L'" "(i, KFile) \<in> R" "edge_closed (walk_contents w) R"
    "chunks_typed (walk_contents w)"
  shows "grows (walk_contents w) R L L' \<and> i \<in> L'"
proof (cases "i \<in> L")
  case True
  then show ?thesis using assms(1) by (simp add: mark_file_def)
next
  case False
  with assms(1) obtain body f where b: "gc_fetch w i KFile = Inr body" and f: "file_decode body = Inr f"
    and r: "rfold (\<lambda>l c. mark_chunk w c l) (insert i L) (f_chunks f) = Inr L'"
    by (auto simp: mark_file_def)
  let ?F = "walk_contents w"
  have c: "?F i = Some (KFile, body)" using b by (rule gc_fetch_contents)
  have R: "(x, KChunk) \<in> R" if "x \<in> set (f_chunks f)" for x
    using assms(2,3) c f that unfolding edge_closed_def by force
  have T: "chunk_id ?F x" if "x \<in> set (f_chunks f)" for x
    using assms(4) c f that unfolding chunks_typed_def by force
  have "grows ?F R (insert i L) L' \<and> (\<lambda>x. x) ` set (f_chunks f) \<subseteq> L'"
  proof (rule rfold_grows [OF r])
    show "grows ?F R M M' \<and> x \<in> M'" if "x \<in> set (f_chunks f)" "mark_chunk w x M = Inr M'" for x M M'
      using mark_chunk_grows [OF that(2) R T] that(1) by blast
  qed
  then have g: "grows ?F R (insert i L) L'" and k: "succs ?F i \<subseteq> L'"
    using c f by (auto simp: succs_def)
  have "i \<in> fst ` R" using assms(2) by force
  from grows_insert [OF g k this] show ?thesis using g by (simp add: grows_def)
qed

lemma mark_tree_grows:
  "mark_tree n w i L = Inr L' \<Longrightarrow> (i, KTree) \<in> R \<Longrightarrow> edge_closed (walk_contents w) R \<Longrightarrow>
   chunks_typed (walk_contents w) \<Longrightarrow> grows (walk_contents w) R L L' \<and> i \<in> L'"
proof (induction n arbitrary: i L L')
  case (Suc n)
  let ?F = "walk_contents w"
  show ?case
  proof (cases "i \<in> L")
    case True
    then show ?thesis using Suc.prems(1) by simp
  next
    case False
    with Suc.prems(1) obtain body t where b: "gc_fetch w i KTree = Inr body" and t: "tree_decode body = Inr t"
      and r: "rfold (\<lambda>l (_, e). case e_kind e of
            EDir \<Rightarrow> mark_tree n w (e_id e) l
          | EFile \<Rightarrow> mark_file w (e_id e) l
          | ESymlink \<Rightarrow> mark_file w (e_id e) l) (insert i L) (t_entries t) = Inr L'"
      by (auto simp: mark_tree.simps)
    have c: "?F i = Some (KTree, body)" using b by (rule gc_fetch_contents)
    have R: "entry_edge e \<in> R" if "(nm, e) \<in> set (t_entries t)" for nm e
      using Suc.prems(2,3) c t that unfolding edge_closed_def by force
    have "grows ?F R (insert i L) L' \<and> (\<lambda>(_, e). e_id e) ` set (t_entries t) \<subseteq> L'"
    proof (rule rfold_grows [OF r])
      fix x M M'
      assume x: "x \<in> set (t_entries t)" and m: "(case x of (_, e) \<Rightarrow> (case e_kind e of
            EDir \<Rightarrow> mark_tree n w (e_id e) M
          | EFile \<Rightarrow> mark_file w (e_id e) M
          | ESymlink \<Rightarrow> mark_file w (e_id e) M)) = Inr M'"
      obtain nm e where xe: "x = (nm, e)" by (cases x)
      have "grows ?F R M M' \<and> e_id e \<in> M'"
        using m xe R [of nm e] x Suc.IH [of "e_id e" M M'] mark_file_grows [of w "e_id e" M M' R] Suc.prems(3,4)
        by (cases "e_kind e") (simp_all add: entry_edge_def)
      then show "grows ?F R M M' \<and> (case x of (_, e) \<Rightarrow> e_id e) \<in> M'" using xe by simp
    qed
    then have g: "grows ?F R (insert i L) L'" and k: "succs ?F i \<subseteq> L'"
      using c t by (auto simp: succs_def entry_edge_def)
    have "i \<in> fst ` R" using Suc.prems(2) by force
    from grows_insert [OF g k this] show ?thesis using g by (simp add: grows_def)
  qed
qed simp

lemma mark_snapshot_grows:
  assumes "mark_snapshot n w i L = Inr L'" "(i, KSnapshot) \<in> R" "edge_closed (walk_contents w) R"
    "chunks_typed (walk_contents w)"
  shows "grows (walk_contents w) R L L' \<and> i \<in> L'"
proof (cases "i \<in> L")
  case True
  then show ?thesis using assms(1) by (simp add: mark_snapshot_def)
next
  case False
  with assms(1) obtain body s where b: "gc_fetch w i KSnapshot = Inr body" and s: "snapshot_decode body = Inr s"
    and r: "mark_tree n w (s_root s) (insert i L) = Inr L'"
    by (auto simp: mark_snapshot_def)
  let ?F = "walk_contents w"
  have c: "?F i = Some (KSnapshot, body)" using b by (rule gc_fetch_contents)
  have "(s_root s, KTree) \<in> R"
    using assms(2,3) c s unfolding edge_closed_def by force
  from mark_tree_grows [OF r this assms(3,4)]
  have g: "grows ?F R (insert i L) L'" and k: "succs ?F i \<subseteq> L'"
    using c s by (auto simp: succs_def)
  have "i \<in> fst ` R" using assms(2) by force
  from grows_insert [OF g k this] show ?thesis using g by (simp add: grows_def)
qed

subsection \<open>Collecting\<close>

text \<open>A collection that ends with nothing missing visited what a mark would have marked.\<close>

lemma bt_insert_nonempty [simp]: "bt_insert k v m \<noteq> []"
  by (cases m) (auto split: if_splits)

definition visits :: "contents \<Rightarrow> (object_id \<times> kind) set \<Rightarrow> collected \<Rightarrow> collected \<Rightarrow> bool" where
  "visits F R st st' \<longleftrightarrow> snd st' = [] \<longrightarrow> snd st = [] \<and> grows F R (fst st) (fst st')"

lemma visits_trans: "visits F R a b \<Longrightarrow> visits F R b c \<Longrightarrow> visits F R a c"
  unfolding visits_def using grows_trans by blast

lemma rfold_visits:
  assumes "rfold f st xs = Inr st'"
    and "\<And>x u u'. x \<in> set xs \<Longrightarrow> f u x = Inr u' \<Longrightarrow> visits F R u u' \<and> (snd u' = [] \<longrightarrow> key x \<in> fst u')"
  shows "visits F R st st' \<and> (snd st' = [] \<longrightarrow> key ` set xs \<subseteq> fst st')"
  using assms
proof (induction xs arbitrary: st)
  case Nil
  then show ?case by (simp add: visits_def)
next
  case (Cons x xs)
  from Cons.prems(1) obtain u where m: "f st x = Inr u" and rest: "rfold f u xs = Inr st'" by auto
  have one: "visits F R st u \<and> (snd u = [] \<longrightarrow> key x \<in> fst u)" using Cons.prems(2) [of x st u] m by simp
  have all: "visits F R u st' \<and> (snd st' = [] \<longrightarrow> key ` set xs \<subseteq> fst st')"
  proof (rule Cons.IH [OF rest])
    show "visits F R a b \<and> (snd b = [] \<longrightarrow> key y \<in> fst b)" if "y \<in> set xs" "f a y = Inr b" for y a b
      using that Cons.prems(2) [of y] by simp
  qed
  have "key x \<in> fst st'" if "snd st' = []"
    using one all that by (auto simp: visits_def grows_def)
  moreover have "visits F R st st'" using visits_trans one all by blast
  ultimately show ?case using all by auto
qed

lemma visits_insert:
  assumes "visits F R (insert i v, m) st'" "snd st' = [] \<longrightarrow> succs F i \<subseteq> fst st'" "i \<in> fst ` R"
  shows "visits F R (v, m) st' \<and> (snd st' = [] \<longrightarrow> i \<in> fst st')"
  using assms grows_insert [of F R i v "fst st'"] by (auto simp: visits_def) (auto simp: grows_def)

lemma collect_chunk_visits:
  assumes "collect_chunk w i st = Inr st'" "(i, KChunk) \<in> R" "chunk_id (walk_contents w) i"
  shows "visits (walk_contents w) R st st' \<and> (snd st' = [] \<longrightarrow> i \<in> fst st')"
proof -
  obtain v m where st: "st = (v, m)" by (cases st)
  have "succs (walk_contents w) i = {}"
    using assms(3) by (auto simp: succs_def chunk_id_def split: option.splits)
  moreover have "i \<in> fst ` R" using assms(2) by force
  moreover have "(i \<in> v \<and> st' = st) \<or> st' = (insert i v, m) \<or> st' = (insert i v, bt_insert i () m)"
    using assms(1) st by (auto simp: collect_chunk_def split: if_splits)
  ultimately show ?thesis using st by (auto simp: visits_def grows_def intro: rev_image_eqI)
qed

lemma missing_visits:
  "st' = (insert i v, bt_insert i () m) \<Longrightarrow> visits F R st st' \<and> (snd st' = [] \<longrightarrow> i \<in> fst st')"
  by (simp add: visits_def)

lemma collect_file_visits:
  assumes "collect_file w i st = Inr st'" "(i, KFile) \<in> R" "edge_closed (walk_contents w) R"
    "chunks_typed (walk_contents w)"
  shows "visits (walk_contents w) R st st' \<and> (snd st' = [] \<longrightarrow> i \<in> fst st')"
proof -
  obtain v m where st: "st = (v, m)" by (cases st)
  let ?F = "walk_contents w"
  from assms(1) st consider (seen) "i \<in> v" "st' = st" | (missing) "st' = (insert i v, bt_insert i () m)"
    | (walk) body f where "gc_fetch w i KFile = Inr body" "file_decode body = Inr f"
      "rfold (\<lambda>l c. collect_chunk w c l) (insert i v, m) (f_chunks f) = Inr st'"
    by (auto simp: collect_file_def split: if_splits)
  then show ?thesis
  proof cases
    case seen
    then show ?thesis using st by (simp add: visits_def)
  next
    case missing
    then show ?thesis by (rule missing_visits)
  next
    case walk
    have c: "?F i = Some (KFile, body)" using walk(1) by (rule gc_fetch_contents)
    have R: "(x, KChunk) \<in> R" if "x \<in> set (f_chunks f)" for x
      using assms(2,3) c walk(2) that unfolding edge_closed_def by force
    have T: "chunk_id ?F x" if "x \<in> set (f_chunks f)" for x
      using assms(4) c walk(2) that unfolding chunks_typed_def by force
    have "visits ?F R (insert i v, m) st' \<and> (snd st' = [] \<longrightarrow> (\<lambda>x. x) ` set (f_chunks f) \<subseteq> fst st')"
    proof (rule rfold_visits [OF walk(3)])
      show "visits ?F R u u' \<and> (snd u' = [] \<longrightarrow> x \<in> fst u')"
        if "x \<in> set (f_chunks f)" "collect_chunk w x u = Inr u'" for x u u'
        using collect_chunk_visits [OF that(2) R T] that(1) by blast
    qed
    then have g: "visits ?F R (insert i v, m) st'" and k: "snd st' = [] \<longrightarrow> succs ?F i \<subseteq> fst st'"
      using c walk(2) by (auto simp: succs_def)
    have "i \<in> fst ` R" using assms(2) by force
    from visits_insert [OF g k this] show ?thesis using st by simp
  qed
qed

lemma collect_tree_visits:
  "collect_tree n w i st = Inr st' \<Longrightarrow> (i, KTree) \<in> R \<Longrightarrow> edge_closed (walk_contents w) R \<Longrightarrow>
   chunks_typed (walk_contents w) \<Longrightarrow>
   visits (walk_contents w) R st st' \<and> (snd st' = [] \<longrightarrow> i \<in> fst st')"
proof (induction n arbitrary: i st st')
  case (Suc n)
  obtain v m where st: "st = (v, m)" by (cases st)
  let ?F = "walk_contents w"
  let ?f = "\<lambda>l (_, e). case e_kind e of
            EDir \<Rightarrow> collect_tree n w (e_id e) l
          | EFile \<Rightarrow> collect_file w (e_id e) l
          | ESymlink \<Rightarrow> collect_file w (e_id e) l"
  from Suc.prems(1) st consider (seen) "i \<in> v" "st' = st" | (missing) "st' = (insert i v, bt_insert i () m)"
    | (walk) body t where "gc_fetch w i KTree = Inr body" "tree_decode body = Inr t"
      "rfold ?f (insert i v, m) (t_entries t) = Inr st'"
    by (auto split: if_splits)
  then show ?case
  proof cases
    case seen
    then show ?thesis using st by (simp add: visits_def)
  next
    case missing
    then show ?thesis by (rule missing_visits)
  next
    case walk
    have c: "?F i = Some (KTree, body)" using walk(1) by (rule gc_fetch_contents)
    have R: "entry_edge e \<in> R" if "(nm, e) \<in> set (t_entries t)" for nm e
      using Suc.prems(2,3) c walk(2) that unfolding edge_closed_def by force
    have "visits ?F R (insert i v, m) st' \<and>
        (snd st' = [] \<longrightarrow> (\<lambda>(_, e). e_id e) ` set (t_entries t) \<subseteq> fst st')"
    proof (rule rfold_visits [OF walk(3)])
      fix x u u'
      assume x: "x \<in> set (t_entries t)" and m: "?f u x = Inr u'"
      obtain nm e where xe: "x = (nm, e)" by (cases x)
      have "visits ?F R u u' \<and> (snd u' = [] \<longrightarrow> e_id e \<in> fst u')"
        using m xe R [of nm e] x Suc.IH [of "e_id e" u u'] collect_file_visits [of w "e_id e" u u' R] Suc.prems(3,4)
        by (cases "e_kind e") (simp_all add: entry_edge_def)
      then show "visits ?F R u u' \<and> (snd u' = [] \<longrightarrow> (case x of (_, e) \<Rightarrow> e_id e) \<in> fst u')" using xe by simp
    qed
    then have g: "visits ?F R (insert i v, m) st'" and k: "snd st' = [] \<longrightarrow> succs ?F i \<subseteq> fst st'"
      using c walk(2) by (auto simp: succs_def entry_edge_def)
    have "i \<in> fst ` R" using Suc.prems(2) by force
    from visits_insert [OF g k this] show ?thesis using st by simp
  qed
qed simp

lemma collect_snapshot_visits:
  assumes "collect_snapshot n w i st = Inr st'" "(i, KSnapshot) \<in> R" "edge_closed (walk_contents w) R"
    "chunks_typed (walk_contents w)"
  shows "visits (walk_contents w) R st st' \<and> (snd st' = [] \<longrightarrow> i \<in> fst st')"
proof -
  obtain v m where st: "st = (v, m)" by (cases st)
  let ?F = "walk_contents w"
  from assms(1) st consider (seen) "i \<in> v" "st' = st" | (missing) "st' = (insert i v, bt_insert i () m)"
    | (walk) body s where "gc_fetch w i KSnapshot = Inr body" "snapshot_decode body = Inr s"
      "collect_tree n w (s_root s) (insert i v, m) = Inr st'"
    by (auto simp: collect_snapshot_def split: if_splits)
  then show ?thesis
  proof cases
    case seen
    then show ?thesis using st by (simp add: visits_def)
  next
    case missing
    then show ?thesis by (rule missing_visits)
  next
    case walk
    have c: "?F i = Some (KSnapshot, body)" using walk(1) by (rule gc_fetch_contents)
    have R: "(s_root s, KTree) \<in> R"
      using assms(2,3) c walk(2) unfolding edge_closed_def by force
    from collect_tree_visits [OF walk(3) R assms(3,4)]
    have g: "visits ?F R (insert i v, m) st'" and k: "snd st' = [] \<longrightarrow> succs ?F i \<subseteq> fst st'"
      using c walk(2) by (auto simp: succs_def)
    have "i \<in> fst ` R" using assms(2) by force
    from visits_insert [OF g k this] show ?thesis using st by simp
  qed
qed

subsection \<open>The retention catalog\<close>

text \<open>The nodes of the catalog, and the snapshots its records name.\<close>

definition catalog_nodes :: "contents \<Rightarrow> object_id \<Rightarrow> (object_id \<times> kind) set" where
  "catalog_nodes F root = reach F {(root, KTree)}"

definition catalog_snapshots :: "contents \<Rightarrow> object_id \<Rightarrow> (object_id \<times> kind) set" where
  "catalog_snapshots F root =
     {(record_snapshot r, KSnapshot) | r i body.
        (i, KFile) \<in> catalog_nodes F root \<and> F i = Some (KFile, body) \<and> decode_record body = Inr r}"

text \<open>A catalog node that the loop is done with: its entries are done or on the stack, its record's
  snapshot is visited.\<close>

definition catalog_done :: "contents \<Rightarrow> object_id set \<Rightarrow> object_id set \<Rightarrow> object_id \<Rightarrow> bool" where
  "catalog_done F K V i \<longleftrightarrow>
     (\<exists>body. F i = Some (KTree, body) \<and> fst ` set (edges KTree body) \<subseteq> K) \<or>
     (\<exists>body r. F i = Some (KFile, body) \<and> decode_record body = Inr r \<and> record_snapshot r \<in> V)"

lemma catalog_done_mono: "catalog_done F K V i \<Longrightarrow> K \<subseteq> K' \<Longrightarrow> V \<subseteq> V' \<Longrightarrow> catalog_done F K' V' i"
  unfolding catalog_done_def by (elim disjE exE conjE) (simp add: subset_iff, metis subsetD)

definition stack_ids :: "(object_id \<times> kind \<times> nat) list \<Rightarrow> object_id set" where
  "stack_ids stack = fst ` set stack"

definition catalog_inv :: "contents \<Rightarrow> (object_id \<times> kind) set \<Rightarrow> object_id \<Rightarrow> object_id set \<Rightarrow>
    (object_id \<times> kind \<times> nat) list \<Rightarrow> object_id set \<Rightarrow> object_id set \<Rightarrow> bool" where
  "catalog_inv F R root V0 stack K V \<longleftrightarrow>
     V0 \<subseteq> V \<and> V \<subseteq> V0 \<union> fst ` R \<and> K \<subseteq> V \<and> root \<in> K \<union> stack_ids stack \<and>
     (\<forall>i \<in> V - V0. succs F i \<subseteq> V \<union> stack_ids stack) \<and>
     (\<forall>i \<in> K. catalog_done F (K \<union> stack_ids stack) V i) \<and>
     (\<forall>(i, k, d) \<in> set stack. (i, k) \<in> catalog_nodes F root)"

lemma record_no_chunks:
  assumes "decode_record body = Inr r"
  shows "edges KFile body = []"
proof -
  from assms obtain f where f: "file_decode body = Inr f"
    and k: "(if \<not> (f_size f = 0 \<and> f_chunks f = [] \<and> length (f_meta f) = 2) then Inl (RetentionE RecordShape)
     else rbind (ok_or (bt_get (f_meta f) (str ''snapshot'')) (RetentionE RecordNoSnapshot)) (\<lambda>snapshot.
     rbind (snapshot_id snapshot) (\<lambda>i.
     case bt_get (f_meta f) (str ''revision'') of
       Some revision \<Rightarrow> rbind (positive_number revision) (\<lambda>n. Inr (Reference (reference_of snapshot n)))
     | None \<Rightarrow>
         rbind (ok_or (bt_get (f_meta f) (str ''count'')) (RetentionE RecordNoCount)) (\<lambda>count.
         rbind (positive_number count) (\<lambda>n. Inr (Membership i n)))))) = Inr r"
    unfolding decode_record_def by (rule rbind_InrE)
  have "f_chunks f = []"
  proof (rule ccontr)
    assume "f_chunks f \<noteq> []"
    then show False using k by simp
  qed
  with f show ?thesis by simp
qed

lemma catalog_kids:
  assumes "rmap (catalog_child d) es = Inr kids"
  shows "stack_ids kids = (\<lambda>(_, e). e_id e) ` set es"
    and "\<forall>(i, k, d') \<in> set kids. (i, k) \<in> (\<lambda>(_, e). entry_edge e) ` set es"
proof -
  have one: "catalog_child d (nm, e) = Inr y \<Longrightarrow> fst y = e_id e \<and> (fst y, fst (snd y)) = entry_edge e" for nm e y
    by (auto simp: catalog_child_def entry_edge_def split: entry_kind.splits)
  have rel: "list_all2 (\<lambda>x y. catalog_child d x = Inr y) es kids" using assms by (simp add: rmap_eq_Inr)
  then show "stack_ids kids = (\<lambda>(_, e). e_id e) ` set es"
    unfolding stack_ids_def
    by (induction rule: list_all2_induct) (auto dest!: one)
  from rel show "\<forall>(i, k, d') \<in> set kids. (i, k) \<in> (\<lambda>(_, e). entry_edge e) ` set es"
    by (induction rule: list_all2_induct) (auto dest!: one)
qed

lemma stack_ids_simps [simp]:
  "stack_ids [] = {}" "stack_ids ((i, k, d) # stack) = insert i (stack_ids stack)"
  "stack_ids (rev xs @ ys) = stack_ids xs \<union> stack_ids ys"
  by (simp_all add: stack_ids_def image_Un)

lemma catalog_inv_skip:
  assumes "catalog_inv F R root V0 ((i, k, d) # stack) K V" "i \<in> K"
  shows "catalog_inv F R root V0 stack K V"
proof -
  have "K \<subseteq> V" using assms(1) by (simp add: catalog_inv_def)
  then have "V \<union> stack_ids ((i, k, d) # stack) = V \<union> stack_ids stack"
    "K \<union> stack_ids ((i, k, d) # stack) = K \<union> stack_ids stack"
    using assms(2) by auto
  then show ?thesis using assms(1) unfolding catalog_inv_def by simp
qed

lemma catalog_inv_tree:
  assumes "catalog_inv F R root V0 ((i, KTree, d) # stack) K V" and "catalog_nodes F root \<subseteq> R"
    and "F i = Some (KTree, body)" and "tree_decode body = Inr t"
    and "rmap (catalog_child d) (t_entries t) = Inr kids"
  shows "catalog_inv F R root V0 (rev kids @ stack) (insert i K) (insert i V)"
proof -
  note inv = assms(1) [unfolded catalog_inv_def]
  have i: "(i, KTree) \<in> catalog_nodes F root" using inv by simp
  have ids: "stack_ids kids = fst ` set (edges KTree body)"
    using catalog_kids(1) [OF assms(5)] assms(4) by (simp add: image_image case_prod_unfold entry_edge_def)
  have kids: "(j, k) \<in> catalog_nodes F root" if "(j, k, d') \<in> set kids" for j k d'
  proof -
    have "(j, k) \<in> set (edges KTree body)" using catalog_kids(2) [OF assms(5)] assms(4) that by fastforce
    then show ?thesis using i reach_edge [where F = F and k = KTree and body = body, OF _ assms(3)] unfolding catalog_nodes_def by blast
  qed
  let ?K = "insert i K" and ?V = "insert i V" and ?S = "stack_ids kids \<union> stack_ids stack"
  have "i \<in> fst ` R" using i assms(2) by force
  moreover have "succs F j \<subseteq> ?V \<union> ?S" if "j \<in> ?V - V0" for j
  proof (cases "j = i")
    case True
    then show ?thesis using assms(3) ids by (auto simp: succs_def simp del: edges.simps)
  next
    case False
    then show ?thesis using inv that by auto
  qed
  moreover have "catalog_done F (?K \<union> ?S) ?V j" if "j \<in> ?K" for j
  proof (cases "j = i")
    case True
    then show ?thesis using assms(3) ids by (auto simp: catalog_done_def simp del: edges.simps)
  next
    case False
    then have "catalog_done F (K \<union> stack_ids ((i, KTree, d) # stack)) V j" using inv that by blast
    then show ?thesis by (rule catalog_done_mono) auto
  qed
  moreover have "\<forall>(j, k, d') \<in> set (rev kids @ stack). (j, k) \<in> catalog_nodes F root"
    using inv kids by auto
  ultimately show ?thesis using inv unfolding catalog_inv_def stack_ids_simps by auto
qed

lemma catalog_inv_record:
  assumes "catalog_inv F R root V0 ((i, KFile, d) # stack) K V" and "catalog_nodes F root \<subseteq> R"
    and "F i = Some (KFile, body)" and "decode_record body = Inr r"
    and "grows F R (insert i V) V'" and "record_snapshot r \<in> V'"
  shows "catalog_inv F R root V0 stack (insert i K) V'"
proof -
  note inv = assms(1) [unfolded catalog_inv_def]
  have i: "(i, KFile) \<in> catalog_nodes F root" using inv by simp
  then have iR: "i \<in> fst ` R" using assms(2) by force
  have sub: "insert i V \<subseteq> V'" "V' \<subseteq> insert i V \<union> fst ` R" "\<forall>j \<in> V' - insert i V. succs F j \<subseteq> V'"
    using assms(5) by (auto simp: grows_def)
  have si: "succs F i = {}" using assms(3) record_no_chunks [OF assms(4)] by (simp add: succs_def del: edges.simps)
  let ?K = "insert i K"
  have "succs F j \<subseteq> V' \<union> stack_ids stack" if "j \<in> V' - V0" for j
  proof (cases "j \<in> insert i V")
    case True
    show ?thesis
    proof (cases "j = i")
      case True
      then show ?thesis using si by simp
    next
      case False
      then have "succs F j \<subseteq> V \<union> stack_ids ((i, KFile, d) # stack)" using inv that True by blast
      then show ?thesis using sub(1) by auto
    qed
  next
    case False
    then show ?thesis using sub(3) that by auto
  qed
  moreover have "catalog_done F (?K \<union> stack_ids stack) V' j" if "j \<in> ?K" for j
  proof (cases "j = i")
    case True
    then show ?thesis using assms(3,4,6) by (auto simp: catalog_done_def)
  next
    case False
    then have "catalog_done F (K \<union> stack_ids ((i, KFile, d) # stack)) V j" using inv that by blast
    then show ?thesis by (rule catalog_done_mono) (use sub(1) in auto)
  qed
  ultimately show ?thesis using inv sub(1,2) iR unfolding catalog_inv_def by auto
qed

text \<open>The loop ends with the whole catalog done.\<close>

lemma catalog_loop_visits:
  "catalog_loop m n w stack K (V, M) = Inr st' \<Longrightarrow> snd st' = [] \<Longrightarrow>
   edge_closed (walk_contents w) R \<Longrightarrow> chunks_typed (walk_contents w) \<Longrightarrow>
   catalog_nodes (walk_contents w) root \<subseteq> R \<Longrightarrow> catalog_snapshots (walk_contents w) root \<subseteq> R \<Longrightarrow>
   M = [] \<and> (catalog_inv (walk_contents w) R root V0 stack K V \<longrightarrow>
     (\<exists>K'. catalog_inv (walk_contents w) R root V0 [] K' (fst st')))"
proof (induction m arbitrary: stack K V M)
  case (Suc m)
  let ?F = "walk_contents w"
  show ?case
  proof (cases stack)
    case Nil
    then show ?thesis using Suc.prems(1,2) by auto
  next
    case (Cons top rest)
    obtain i k d where top: "top = (i, k, d)" by (cases top)
    note prems = Suc.prems(1) [unfolded Cons top]
    from prems consider (skip) "i \<in> K" "catalog_loop m n w rest K (V, M) = Inr st'"
      | (missing) "catalog_loop m n w rest (insert i K) (insert i V, bt_insert i () M) = Inr st'"
      | (walk) body where "gc_fetch w i k = Inr body" "(case k of
          KTree \<Rightarrow> rbind (tree_decode body) (\<lambda>t.
            rbind (rmap (catalog_child d) (t_entries t)) (\<lambda>kids.
            catalog_loop m n w (rev kids @ rest) (insert i K) (insert i V, M)))
        | KFile \<Rightarrow> rbind (decode_record body) (\<lambda>r.
            rbind (collect_snapshot n w (record_snapshot r) (insert i V, M)) (\<lambda>st'.
            catalog_loop m n w rest (insert i K) st'))
        | _ \<Rightarrow> Inl (GcE CatalogEdge)) = Inr st'"
      by (auto split: if_splits)
    then show ?thesis
    proof cases
      case skip
      show ?thesis
        using Suc.IH [OF skip(2) Suc.prems(2-6)] catalog_inv_skip skip(1) unfolding Cons top by blast
    next
      case missing
      have "bt_insert i () M = []" using Suc.IH [OF missing Suc.prems(2-6)] by blast
      then show ?thesis by simp
    next
      case walk
      have c: "?F i = Some (k, body)" using walk(1) by (rule gc_fetch_contents)
      show ?thesis
      proof (cases k)
        case KTree
        then obtain t kids where t: "tree_decode body = Inr t"
          and kids: "rmap (catalog_child d) (t_entries t) = Inr kids"
          and loop: "catalog_loop m n w (rev kids @ rest) (insert i K) (insert i V, M) = Inr st'"
          using walk(2) by auto
        show ?thesis
          using Suc.IH [OF loop Suc.prems(2-6)] catalog_inv_tree [OF _ Suc.prems(5) _ t kids] c KTree
          unfolding Cons top by blast
      next
        case KFile
        then obtain r V1 M1 where r: "decode_record body = Inr r"
          and cs: "collect_snapshot n w (record_snapshot r) (insert i V, M) = Inr (V1, M1)"
          and loop: "catalog_loop m n w rest (insert i K) (V1, M1) = Inr st'"
          using walk(2) by auto
        note ih = Suc.IH [OF loop Suc.prems(2-6)]
        show ?thesis
        proof (cases "(i, k) \<in> catalog_nodes ?F root")
          case True
          then have "(record_snapshot r, KSnapshot) \<in> R"
            using Suc.prems(6) c KFile r unfolding catalog_snapshots_def by blast
          from collect_snapshot_visits [OF cs this Suc.prems(3,4)] ih
          have M: "M = []" and g: "grows ?F R (insert i V) V1" and m: "record_snapshot r \<in> V1"
            by (auto simp: visits_def)
          show ?thesis
            using M ih catalog_inv_record [OF _ Suc.prems(5) _ r g m] c KFile unfolding Cons top by blast
        next
          case False
          moreover have "M = []"
            using ih collect_snapshot_visits [OF cs _ _ Suc.prems(4), of UNIV]
            by (simp add: visits_def edge_closed_def)
          ultimately show ?thesis using KFile unfolding Cons top by (auto simp: catalog_inv_def)
        qed
      qed (use walk(2) in simp_all)
    qed
  qed
qed simp

subsection \<open>The roots\<close>

definition snapshot_roots :: "refs \<Rightarrow> object_id set" where
  "snapshot_roots r = set (list_of_option (head r)) \<union> set (window r) \<union> (\<lambda>(_, p). pin_snapshot p) ` set (pins r)"

definition gc_roots :: "contents \<Rightarrow> refs \<Rightarrow> (object_id \<times> kind) set" where
  "gc_roots F r =
     (\<lambda>i. (i, KSnapshot)) ` snapshot_roots r \<union> (\<lambda>(d, _). (d, KChunk)) ` set (staging r) \<union>
     (case retention_root r of None \<Rightarrow> {} | Some root \<Rightarrow> insert (root, KTree) (catalog_snapshots F root))"

definition live_objects :: "contents \<Rightarrow> refs \<Rightarrow> object_id set" where
  "live_objects F r = fst ` reach F (gc_roots F r)"

definition staged_chunks_typed :: "contents \<Rightarrow> refs \<Rightarrow> bool" where
  "staged_chunks_typed F r \<longleftrightarrow> (\<forall>(d, _) \<in> set (staging r). chunk_id F d)"

lemma grows_all:
  assumes "grows F (reach F R) {} L" "fst ` R \<subseteq> L"
  shows "L = fst ` reach F R"
proof
  show "L \<subseteq> fst ` reach F R" using assms(1) by (simp add: grows_def)
  have "fst x \<in> L" if "x \<in> reach F R" for x
    using that
  proof (induction rule: reach.induct)
    case (reach_edge i k body y)
    then have "fst y \<in> succs F i" by (auto simp: succs_def)
    then show ?case using reach_edge.IH assms(1) by (auto simp: grows_def)
  qed (use assms(2) in auto)
  then show "fst ` reach F R \<subseteq> L" by auto
qed

lemma list_of_option_set: "set (list_of_option x) = set_option x"
  by (cases x) (simp_all add: list_of_option_def)

lemma reach_mono: "R \<subseteq> S \<Longrightarrow> reach F R \<subseteq> reach F S"
proof
  fix x assume "R \<subseteq> S" "x \<in> reach F R"
  from this(2) show "x \<in> reach F S"
    by (induction rule: reach.induct) (use \<open>R \<subseteq> S\<close> in \<open>auto intro: reach.intros\<close>)
qed

lemma catalog_complete:
  assumes "catalog_inv F R root V0 [] K V"
  shows "fst ` catalog_nodes F root \<subseteq> V" and "fst ` catalog_snapshots F root \<subseteq> V"
    and "grows F R V0 V"
proof -
  note inv = assms [unfolded catalog_inv_def stack_ids_simps]
  have K: "fst x \<in> K" if "x \<in> catalog_nodes F root" for x
    using that unfolding catalog_nodes_def
  proof (induction rule: reach.induct)
    case (reach_edge i k body y)
    then have "catalog_done F K V i" using inv by simp
    then show ?case
      using reach_edge(2,3) record_no_chunks by (auto simp: catalog_done_def simp del: edges.simps)
  qed (use inv in auto)
  then show "fst ` catalog_nodes F root \<subseteq> V" using inv by auto
  have "record_snapshot r \<in> V"
    if "(i, KFile) \<in> catalog_nodes F root" "F i = Some (KFile, body)" "decode_record body = Inr r" for i body r
    using K [OF that(1)] that(2,3) inv by (auto simp: catalog_done_def)
  then show "fst ` catalog_snapshots F root \<subseteq> V" by (auto simp: catalog_snapshots_def)
  show "grows F R V0 V" using inv by (auto simp: grows_def)
qed

lemma mark_roots:
  assumes "rfold (\<lambda>l x. mark_snapshot n w (key x) l) L xs = Inr L'"
    and "\<forall>x \<in> set xs. (key x, KSnapshot) \<in> R"
    and "edge_closed (walk_contents w) R" "chunks_typed (walk_contents w)"
  shows "grows (walk_contents w) R L L' \<and> key ` set xs \<subseteq> L'"
proof (rule rfold_grows [OF assms(1)])
  show "grows (walk_contents w) R M M' \<and> key x \<in> M'"
    if "x \<in> set xs" "mark_snapshot n w (key x) M = Inr M'" for x M M'
    using mark_snapshot_grows [OF that(2) _ assms(3,4)] assms(2) that(1) by blast
qed

text \<open>A successful mark is exactly the set of reachable ids.\<close>

lemma mark_walk:
  assumes "rfold (\<lambda>l i. mark_snapshot n w i l) {} (list_of_option (head r)) = Inr l1"
    and "rfold (\<lambda>l i. mark_snapshot n w i l) l1 (window r) = Inr l2"
    and "rfold (\<lambda>l (_, p). mark_snapshot n w (pin_snapshot p) l) l2 (pins r) = Inr l3"
    and "rfold (\<lambda>l (d, _). mark_chunk w d l) l3 (staging r) = Inr l4"
    and "(case retention_root r of
        None \<Rightarrow> Inr l4
      | Some root \<Rightarrow>
          rbind (collect_retention m n w root (l4, [])) (\<lambda>(visited, missing). case missing of
            [] \<Rightarrow> Inr visited
          | (i, _) # _ \<Rightarrow> Inl (GcE (RootObjectMissing i)))) = Inr live"
    and ty: "chunks_typed (walk_contents w)" "staged_chunks_typed (walk_contents w) r"
  shows "live = live_objects (walk_contents w) r"
proof -
  let ?F = "walk_contents w" and ?R = "reach (walk_contents w) (gc_roots (walk_contents w) r)"
  note cl = reach_closed [of ?F "gc_roots ?F r"]
  have sn: "(i, KSnapshot) \<in> ?R" if "i \<in> snapshot_roots r" for i
    using that by (intro reach_root) (simp add: gc_roots_def)
  have st: "(d, KChunk) \<in> ?R" if "(d, s) \<in> set (staging r)" for d s
    using that by (intro reach_root) (force simp: gc_roots_def)
  have "\<forall>i \<in> set (list_of_option (head r)). (i, KSnapshot) \<in> ?R" "\<forall>i \<in> set (window r). (i, KSnapshot) \<in> ?R"
    "\<forall>x \<in> set (pins r). ((\<lambda>(_, p). pin_snapshot p) x, KSnapshot) \<in> ?R"
    using sn by (auto simp: snapshot_roots_def)
  note mem = this
  have g1: "grows ?F ?R {} l1 \<and> (\<lambda>i. i) ` set (list_of_option (head r)) \<subseteq> l1"
    by (rule mark_roots [OF assms(1) mem(1) cl ty(1)])
  have g2: "grows ?F ?R l1 l2 \<and> (\<lambda>i. i) ` set (window r) \<subseteq> l2"
    by (rule mark_roots [OF assms(2) mem(2) cl ty(1)])
  have g3: "grows ?F ?R l2 l3 \<and> (\<lambda>(_, p). pin_snapshot p) ` set (pins r) \<subseteq> l3"
    by (rule mark_roots [OF _ mem(3) cl ty(1)]) (use assms(3) in \<open>simp add: case_prod_unfold\<close>)
  have g4: "grows ?F ?R l3 l4 \<and> (\<lambda>(d, _). d) ` set (staging r) \<subseteq> l4"
  proof (rule rfold_grows [OF assms(4)])
    fix x M M' assume x: "x \<in> set (staging r)" "(case x of (d, _) \<Rightarrow> mark_chunk w d M) = Inr M'"
    obtain d s where d: "x = (d, s)" by (cases x)
    have "chunk_id ?F d" using ty(2) x(1) d unfolding staged_chunks_typed_def by blast
    from mark_chunk_grows [OF _ st this] show "grows ?F ?R M M' \<and> (case x of (d, _) \<Rightarrow> d) \<in> M'"
      using x d by simp
  qed
  note g = grows_trans [OF grows_trans [OF grows_trans [OF conjunct1 [OF g1] conjunct1 [OF g2]]
    conjunct1 [OF g3]] conjunct1 [OF g4]]
  have "l1 \<subseteq> l2" "l2 \<subseteq> l3" "l3 \<subseteq> l4" using g2 g3 g4 by (simp_all add: grows_def)
  then have sub: "l1 \<subseteq> l4" "l2 \<subseteq> l4" "l3 \<subseteq> l4" by simp_all
  have "set (list_of_option (head r)) \<subseteq> l4" "set (window r) \<subseteq> l4" "(\<lambda>(_, p). pin_snapshot p) ` set (pins r) \<subseteq> l4"
    using subset_trans [OF conjunct2 [OF g1] sub(1)] subset_trans [OF conjunct2 [OF g2] sub(2)]
      subset_trans [OF conjunct2 [OF g3] sub(3)] by simp_all
  then have roots: "snapshot_roots r \<subseteq> l4" by (simp add: snapshot_roots_def)
  note staged = conjunct2 [OF g4]
  show ?thesis
  proof (cases "retention_root r")
    case None
    then have "live = l4" using assms(5) by simp
    moreover have "fst ` gc_roots ?F r \<subseteq> l4"
      using None roots staged by (simp add: gc_roots_def image_Un image_image case_prod_unfold)
    ultimately show ?thesis using grows_all [OF g] by (simp add: live_objects_def)
  next
    case (Some root)
    then obtain visited missing where loop: "catalog_loop m n w [(root, KTree, 0)] {} (l4, []) = Inr (visited, missing)"
      and done1: "missing = []" "live = visited"
      using assms(5) by (auto simp: collect_retention_def split: list.splits)
    have rt: "(root, KTree) \<in> catalog_nodes ?F root" unfolding catalog_nodes_def by (rule reach_root) simp
    have R: "catalog_nodes ?F root \<subseteq> ?R" "catalog_snapshots ?F root \<subseteq> ?R"
    proof -
      have "{(root, KTree)} \<subseteq> gc_roots ?F r" "catalog_snapshots ?F root \<subseteq> gc_roots ?F r"
        using Some by (auto simp: gc_roots_def)
      then show "catalog_nodes ?F root \<subseteq> ?R" "catalog_snapshots ?F root \<subseteq> ?R"
        unfolding catalog_nodes_def by (simp only: reach_mono, blast intro: reach_root)
    qed
    have "catalog_inv ?F ?R root l4 [(root, KTree, 0)] {} l4"
      using rt by (simp add: catalog_inv_def)
    then obtain K where inv: "catalog_inv ?F ?R root l4 [] K live"
      using catalog_loop_visits [OF loop _ cl ty(1) R, of l4] done1 by auto
    note final = grows_trans [OF g catalog_complete(3) [OF inv]]
    have "l4 \<subseteq> live" using catalog_complete(3) [OF inv] by (simp add: grows_def)
    then have l4: "snapshot_roots r \<subseteq> live" "(\<lambda>(d, _). d) ` set (staging r) \<subseteq> live"
      using roots staged by simp_all
    have "root \<in> live" using catalog_complete(1) [OF inv] rt by force
    then have "fst ` gc_roots ?F r \<subseteq> live"
      using catalog_complete(2) [OF inv] l4 Some by (simp add: gc_roots_def image_Un image_image case_prod_unfold)
    then show ?thesis using grows_all [OF final] by (simp add: live_objects_def)
  qed
qed

lemma walk_contents_store: "walk_contents (walk_of ops s verify_chunks) = store_contents ops s"
  by (simp add: fun_eq_iff walk_contents_def walk_of_def store_contents_def)

lemma mark_live:
  assumes "mark m n ops r s = Inr live"
    and "chunks_typed (store_contents ops s)" "staged_chunks_typed (store_contents ops s) r"
  shows "live = live_objects (store_contents ops s) r"
proof -
  let ?w = "walk_of ops s False"
  from assms(1) obtain l1 l2 l3 l4 where
    l: "rfold (\<lambda>l i. mark_snapshot n ?w i l) {} (list_of_option (head r)) = Inr l1"
    "rfold (\<lambda>l i. mark_snapshot n ?w i l) l1 (window r) = Inr l2"
    "rfold (\<lambda>l (_, p). mark_snapshot n ?w (pin_snapshot p) l) l2 (pins r) = Inr l3"
    "rfold (\<lambda>l (d, _). mark_chunk ?w d l) l3 (staging r) = Inr l4"
    "(case retention_root r of
        None \<Rightarrow> Inr l4
      | Some root \<Rightarrow>
          rbind (collect_retention m n ?w root (l4, [])) (\<lambda>(visited, missing). case missing of
            [] \<Rightarrow> Inr visited
          | (i, _) # _ \<Rightarrow> Inl (GcE (RootObjectMissing i)))) = Inr live"
    unfolding mark_def Let_def by (elim rbind_InrE)
  from mark_walk [OF l] assms(2,3) show ?thesis by (simp add: walk_contents_store)
qed

subsection \<open>Enough fuel\<close>

text \<open>A node of the graph that the store holds, of the kind its edge says and decodable.\<close>

fun held_node :: "walk \<Rightarrow> object_id \<times> kind \<Rightarrow> bool" where
  "held_node w (i, KChunk) \<longleftrightarrow> w_has w i"
| "held_node w (i, KFile) \<longleftrightarrow> (\<exists>body f. w_get w i = Inr (Some (KFile, body)) \<and> file_decode body = Inr f)"
| "held_node w (i, KTree) \<longleftrightarrow> (\<exists>body t. w_get w i = Inr (Some (KTree, body)) \<and> tree_decode body = Inr t)"
| "held_node w (i, KSnapshot) \<longleftrightarrow>
     (\<exists>body s. w_get w i = Inr (Some (KSnapshot, body)) \<and> snapshot_decode body = Inr s)"

lemma rfold_total:
  assumes "\<And>x M. x \<in> set xs \<Longrightarrow> L \<subseteq> M \<Longrightarrow> \<exists>M'. f M x = Inr M' \<and> M \<subseteq> M'"
  shows "\<exists>L'. rfold f L xs = Inr L' \<and> L \<subseteq> L'"
  using assms
proof (induction xs arbitrary: L)
  case (Cons x xs)
  from Cons.prems [of x L] obtain M where m: "f L x = Inr M" "L \<subseteq> M" by auto
  have "\<exists>L'. rfold f M xs = Inr L' \<and> M \<subseteq> L'"
  proof (rule Cons.IH)
    show "\<exists>N'. f N y = Inr N' \<and> N \<subseteq> N'" if "y \<in> set xs" "M \<subseteq> N" for y N
      using Cons.prems [of y N] that m(2) by simp
  qed
  then show ?case using m by auto
qed simp

lemma mark_chunk_total: "held_node w (i, KChunk) \<Longrightarrow> \<exists>L'. mark_chunk w i L = Inr L' \<and> L \<subseteq> L'"
  by (auto simp: mark_chunk_def)

lemma gc_fetch_held: "w_get w i = Inr (Some (k, body)) \<Longrightarrow> gc_fetch w i k = Inr body"
  by (simp add: gc_fetch_def)

lemma mark_file_total:
  assumes "(i, KFile) \<in> R" "edge_closed (walk_contents w) R" "\<forall>x \<in> R. held_node w x"
  shows "\<exists>L'. mark_file w i L = Inr L' \<and> L \<subseteq> L'"
proof (cases "i \<in> L")
  case False
  obtain body f where b: "w_get w i = Inr (Some (KFile, body))" and f: "file_decode body = Inr f"
    using assms(1,3) by force
  have "set (edges KFile body) \<subseteq> R"
    using assms(1,2) b unfolding edge_closed_def walk_contents_def by fastforce
  then have "held_node w (c, KChunk)" if "c \<in> set (f_chunks f)" for c
    using that assms(3) f by force
  then have "\<exists>L'. rfold (\<lambda>l c. mark_chunk w c l) (insert i L) (f_chunks f) = Inr L' \<and> insert i L \<subseteq> L'"
    by (intro rfold_total mark_chunk_total)
  then show ?thesis using False b f by (auto simp: mark_file_def gc_fetch_held)
qed (simp add: mark_file_def)

lemma mark_tree_total:
  "(i, KTree) \<in> R \<Longrightarrow> edge_closed (walk_contents w) R \<Longrightarrow> \<forall>x \<in> R. held_node w x \<Longrightarrow>
   finite (dom (walk_contents w)) \<Longrightarrow> card (dom (walk_contents w) - L) < n \<Longrightarrow>
   \<exists>L'. mark_tree n w i L = Inr L' \<and> L \<subseteq> L'"
proof (induction n arbitrary: i L)
  case (Suc n)
  let ?F = "walk_contents w"
  show ?case
  proof (cases "i \<in> L")
    case False
    obtain body t where b: "w_get w i = Inr (Some (KTree, body))" and t: "tree_decode body = Inr t"
      using Suc.prems(1,3) by force
    have iF: "i \<in> dom ?F" using b by (simp add: walk_contents_def dom_def)
    have "set (edges KTree body) \<subseteq> R"
      using Suc.prems(1,2) b unfolding edge_closed_def walk_contents_def by fastforce
    then have edge: "entry_edge e \<in> R" if "(nm, e) \<in> set (t_entries t)" for nm e
      using that t by force
    let ?f = "\<lambda>l (_, e). case e_kind e of
            EDir \<Rightarrow> mark_tree n w (e_id e) l
          | EFile \<Rightarrow> mark_file w (e_id e) l
          | ESymlink \<Rightarrow> mark_file w (e_id e) l"
    have "\<exists>L'. rfold ?f (insert i L) (t_entries t) = Inr L' \<and> insert i L \<subseteq> L'"
    proof (rule rfold_total)
      fix x M assume x: "x \<in> set (t_entries t)" and M: "insert i L \<subseteq> M"
      obtain nm e where xe: "x = (nm, e)" by (cases x)
      have e: "entry_edge e \<in> R" using edge x xe by simp
      have "card (dom ?F - M) < card (dom ?F - L)"
        using iF False M Suc.prems(4) by (intro psubset_card_mono) auto
      then have fuel: "card (dom ?F - M) < n" using Suc.prems(5) by simp
      show "\<exists>M'. ?f M x = Inr M' \<and> M \<subseteq> M'"
        using e xe Suc.IH [OF _ Suc.prems(2-4) fuel, of "e_id e"] mark_file_total [OF _ Suc.prems(2,3), of "e_id e" M]
        by (cases "e_kind e") (simp_all add: entry_edge_def)
    qed
    then show ?thesis using False b t by (auto simp: gc_fetch_held)
  qed simp
qed simp

lemma mark_snapshot_total:
  assumes "(i, KSnapshot) \<in> R" "edge_closed (walk_contents w) R" "\<forall>x \<in> R. held_node w x"
    "finite (dom (walk_contents w))" "card (dom (walk_contents w)) < n"
  shows "\<exists>L'. mark_snapshot n w i L = Inr L' \<and> L \<subseteq> L'"
proof (cases "i \<in> L")
  case False
  obtain body s where b: "w_get w i = Inr (Some (KSnapshot, body))" and s: "snapshot_decode body = Inr s"
    using assms(1,3) by force
  have "set (edges KSnapshot body) \<subseteq> R"
    using assms(1,2) b unfolding edge_closed_def walk_contents_def by fastforce
  then have R: "(s_root s, KTree) \<in> R" using s by simp
  have "card (dom (walk_contents w) - insert i L) < n"
    using card_mono [OF assms(4), of "dom (walk_contents w) - insert i L"] assms(5) by auto
  from mark_tree_total [OF R assms(2-4) this] show ?thesis
    using False b s by (auto simp: mark_snapshot_def gc_fetch_held)
qed (simp add: mark_snapshot_def)

text \<open>Refs without a retention catalog, on a store that holds everything they reach.\<close>

lemma mark_total:
  assumes "retention_root r = None"
    and "\<forall>x \<in> reach (store_contents ops s) (gc_roots (store_contents ops s) r). held_node (walk_of ops s False) x"
    and "finite (dom (store_contents ops s))" "card (dom (store_contents ops s)) < n"
  shows "\<exists>live. mark m n ops r s = Inr live"
proof -
  let ?w = "walk_of ops s False" and ?F = "store_contents ops s"
  let ?R = "reach ?F (gc_roots ?F r)"
  note W = walk_contents_store [of ops s False]
  have cl: "edge_closed (walk_contents ?w) ?R" unfolding W by (rule reach_closed)
  have sn: "\<exists>L'. mark_snapshot n ?w i L = Inr L' \<and> L \<subseteq> L'" if "i \<in> snapshot_roots r" for i L
  proof (rule mark_snapshot_total [OF _ cl assms(2)])
    show "(i, KSnapshot) \<in> ?R" using that by (intro reach_root) (simp add: gc_roots_def)
  qed (use assms(3,4) in \<open>simp_all add: W\<close>)
  have ch: "\<exists>L'. mark_chunk ?w d L = Inr L' \<and> L \<subseteq> L'" if "(d, st) \<in> set (staging r)" for d st L
  proof (rule mark_chunk_total)
    have "(d, KChunk) \<in> ?R" using that by (intro reach_root) (force simp: gc_roots_def)
    then show "held_node ?w (d, KChunk)" using assms(2) by blast
  qed
  have "\<exists>l1. rfold (\<lambda>l i. mark_snapshot n ?w i l) {} (list_of_option (head r)) = Inr l1 \<and> {} \<subseteq> l1"
    by (rule rfold_total) (simp add: sn snapshot_roots_def)
  then obtain l1 where l1: "rfold (\<lambda>l i. mark_snapshot n ?w i l) {} (list_of_option (head r)) = Inr l1" by blast
  have "\<exists>l2. rfold (\<lambda>l i. mark_snapshot n ?w i l) l1 (window r) = Inr l2 \<and> l1 \<subseteq> l2"
    by (rule rfold_total) (simp add: sn snapshot_roots_def)
  then obtain l2 where l2: "rfold (\<lambda>l i. mark_snapshot n ?w i l) l1 (window r) = Inr l2" by blast
  have "\<exists>l3. rfold (\<lambda>l (_, p). mark_snapshot n ?w (pin_snapshot p) l) l2 (pins r) = Inr l3 \<and> l2 \<subseteq> l3"
  proof (rule rfold_total)
    fix x M assume "x \<in> set (pins r)"
    then have "(\<lambda>(_, p). pin_snapshot p) x \<in> snapshot_roots r" by (simp add: snapshot_roots_def)
    then show "\<exists>M'. (case x of (_, p) \<Rightarrow> mark_snapshot n ?w (pin_snapshot p) M) = Inr M' \<and> M \<subseteq> M'"
      using sn by (cases x) simp
  qed
  then obtain l3 where l3: "rfold (\<lambda>l (_, p). mark_snapshot n ?w (pin_snapshot p) l) l2 (pins r) = Inr l3" by blast
  have "\<exists>l4. rfold (\<lambda>l (d, _). mark_chunk ?w d l) l3 (staging r) = Inr l4 \<and> l3 \<subseteq> l4"
    by (rule rfold_total) (use ch in fast)
  then obtain l4 where "rfold (\<lambda>l (d, _). mark_chunk ?w d l) l3 (staging r) = Inr l4" by blast
  then show ?thesis using l1 l2 l3 assms(1) by (simp add: mark_def Let_def)
qed

end
