(* ===== verification/Fs_Sync.thy ===== *)
theory Fs_Sync
  imports Fs_Steps Gc_Spec
begin

text \<open>
  The sync lane and the collection of \<open>Fs\<close>: what a served reply holds and how large it is, what an
  install and an ingest adopt, and what a collection keeps. The object store is any that keeps the
  contract \<open>object_store\<close>.
\<close>

subsection \<open>Serving\<close>

text \<open>What an object costs in the reply: 64 hex digits, its base64 text, and the framing.\<close>

definition sync_cost :: "sync_object \<Rightarrow> nat" where
  "sync_cost o1 = (if so_present o1 then 64 + length (so_b64 o1) + 48 else 0)"

definition served_as :: "(bytes \<Rightarrow> rstring) \<Rightarrow> 's store_ops \<Rightarrow> 's \<Rightarrow> rstring \<Rightarrow> sync_object \<Rightarrow> bool" where
  "served_as b64_encode ops s hex o1 \<longleftrightarrow>
     so_id o1 = hex \<and> (so_present o1 \<longrightarrow>
       (\<exists>i kind body. from_hex_32 hex = Some i \<and> so_get ops s i = Inr (Some (kind, body)) \<and>
          so_kind o1 = kind_tag kind \<and> so_b64 o1 = b64_encode body))"

definition present_object :: "(bytes \<Rightarrow> rstring) \<Rightarrow> object_id \<Rightarrow> kind \<Rightarrow> bytes \<Rightarrow> sync_object" where
  "present_object b64_encode i kind body =
     \<lparr>so_id = to_hex i, so_present = True, so_kind = kind_tag kind, so_b64 = b64_encode body\<rparr>"

lemma sync_cost_simps [simp]:
  "sync_cost (absent_object i) = 0"
  "sync_cost (present_object b64_encode i kind body) = 64 + length (b64_encode body) + 48"
  "\<not> so_present (absent_object i)" "so_present (present_object b64_encode i kind body)"
  by (simp_all add: sync_cost_def absent_object_def present_object_def)

lemma serve_objects_ConsE:
  assumes "serve_objects b64_encode ops s spent served (hex # ids) = Inr out"
  obtains (absent) i rest where "from_hex_32 hex = Some i" "so_get ops s i = Inr None"
      "serve_objects b64_encode ops s spent served ids = Inr rest" "out = absent_object i # rest"
  | (skipped) i kind body rest where "from_hex_32 hex = Some i" "so_get ops s i = Inr (Some (kind, body))"
      "served > 0" "spent + (64 + length (b64_encode body) + 48) > MAX_SYNC_REPLY_BYTES"
      "serve_objects b64_encode ops s spent served ids = Inr rest" "out = absent_object i # rest"
  | (present) i kind body rest where "from_hex_32 hex = Some i" "so_get ops s i = Inr (Some (kind, body))"
      "served = 0 \<or> spent + (64 + length (b64_encode body) + 48) \<le> MAX_SYNC_REPLY_BYTES"
      "serve_objects b64_encode ops s (spent + (64 + length (b64_encode body) + 48)) (served + 1) ids = Inr rest"
      "out = present_object b64_encode i kind body # rest"
proof -
  from assms obtain i where i: "from_hex_32 hex = Some i" by (cases "from_hex_32 hex") auto
  with assms obtain x where x: "so_get ops s i = Inr x" by (cases "so_get ops s i") auto
  show thesis
  proof (cases x)
    case None
    then show thesis using assms i x absent by auto
  next
    case (Some kb)
    obtain kind body where kb: "kb = (kind, body)" by (cases kb)
    show thesis
    proof (cases "served > 0 \<and> spent + (64 + length (b64_encode body) + 48) > MAX_SYNC_REPLY_BYTES")
      case True
      then show thesis using assms i x Some kb skipped by (auto simp: Let_def)
    next
      case False
      then show thesis
        using assms i x Some kb present [of i kind body]
        by (auto simp: Let_def present_object_def)
    qed
  qed
qed

lemma serve_objects_answers:
  "serve_objects b64_encode ops s spent served ids = Inr out \<Longrightarrow>
   list_all2 (served_as b64_encode ops s) ids out"
proof (induction ids arbitrary: spent served out)
  case (Cons hex ids)
  have a: "from_hex_32 hex = Some i \<Longrightarrow> served_as b64_encode ops s hex (absent_object i)" for i
    by (simp add: served_as_def absent_object_def from_hex_32_iff)
  have p: "from_hex_32 hex = Some i \<Longrightarrow> so_get ops s i = Inr (Some (kind, body)) \<Longrightarrow>
      served_as b64_encode ops s hex (present_object b64_encode i kind body)" for i kind body
    by (auto simp: served_as_def present_object_def from_hex_32_iff)
  from Cons.prems show ?case
    by (cases rule: serve_objects_ConsE) (simp_all add: Cons.IH a p)
qed simp

text \<open>The budget: only a lone object may exceed it.\<close>

lemma serve_objects_budget:
  "serve_objects b64_encode ops s spent served ids = Inr out \<Longrightarrow>
   (served = 0 \<longrightarrow> spent = 0) \<Longrightarrow>
   spent + (\<Sum>o1\<leftarrow>out. sync_cost o1) \<le> max spent MAX_SYNC_REPLY_BYTES \<or>
   (served = 0 \<and> length (filter so_present out) = 1)"
proof (induction ids arbitrary: spent served out)
  case (Cons hex ids)
  from Cons.prems(1) show ?case
  proof (cases rule: serve_objects_ConsE)
    case (present i kind body rest)
    let ?c = "64 + length (b64_encode body) + 48"
    have ih: "spent + ?c + (\<Sum>o1\<leftarrow>rest. sync_cost o1) \<le> max (spent + ?c) MAX_SYNC_REPLY_BYTES"
      using Cons.IH [OF present(4)] by simp
    show ?thesis
    proof (cases "spent + ?c \<le> MAX_SYNC_REPLY_BYTES")
      case True
      then show ?thesis using ih present(5) by simp
    next
      case False
      then have "served = 0" using present(3) by simp
      have "(\<Sum>o1\<leftarrow>rest. sync_cost o1) = 0" using ih False by simp
      then have "sync_cost o1 = 0" if "o1 \<in> set rest" for o1
        using that by simp
      then have "\<forall>o1 \<in> set rest. \<not> so_present o1" by (fastforce simp: sync_cost_def)
      then have "filter so_present rest = []" by simp
      then show ?thesis using \<open>served = 0\<close> present(5) by simp
    qed
  next
    case (skipped i kind body rest)
    then show ?thesis using Cons.IH [OF skipped(5) Cons.prems(2)] by simp
  next
    case (absent i rest)
    then show ?thesis using Cons.IH [OF absent(3) Cons.prems(2)] by simp
  qed
qed simp

text \<open>A held object in the request makes the reply carry one, so a joiner that asks again advances.\<close>

lemma serve_objects_progress:
  "serve_objects b64_encode ops s 0 0 ids = Inr out \<Longrightarrow>
   hex \<in> set ids \<Longrightarrow> from_hex_32 hex = Some i \<Longrightarrow> so_get ops s i = Inr (Some kb) \<Longrightarrow>
   \<exists>o1 \<in> set out. so_present o1"
proof (induction ids arbitrary: out)
  case (Cons h ids)
  from Cons.prems(1) show ?case
  proof (cases rule: serve_objects_ConsE)
    case (absent j rest)
    then have "hex \<in> set ids" using Cons.prems(2-4) by auto
    then show ?thesis using Cons.IH [OF absent(3) _ Cons.prems(3,4)] absent(4) by auto
  qed auto
qed simp

subsection \<open>Adopting\<close>

text \<open>An install is all or nothing; it adopts the refs its bytes decode to, under the expected root.\<close>

lemma install_cases:
  assumes "install_refs H bs root fs = (q, fs')"
  obtains (refused) e where "q = Inl e" "fs' = fs"
  | (adopted) r where "q = Inr ()" "decode_refs bs = Inr r" "H (encode_refs r) = root"
      "fs' = fs\<lparr>fs_refs := r, pending := None\<rparr>"
  using assms by (auto simp: install_refs_def root_bytes_def split: sum.splits if_splits)

lemma install_adopts:
  assumes "install_refs H bs root fs = (Inr u, fs')"
  shows "snapshot_refs fs' = bs" and "fs_root_bytes H fs' = root" and "root = H bs" and "refs_ok (fs_refs fs')"
    and "pending_refs fs' = fs_refs fs'" and "store fs' = store fs"
  using assms
  by (cases rule: install_cases; auto simp: snapshot_refs_def fs_root_bytes_def root_bytes_def decode_refs_iff
      pending_refs_def)+

lemma install_served:
  assumes "refs_ok (fs_refs peer)"
  shows "\<exists>fs'. install_refs H (snapshot_refs peer) (fs_root_bytes H peer) fs = (Inr (), fs') \<and> fs_refs fs' = fs_refs peer"
  using decode_encode_refs [OF assms]
  by (simp add: install_refs_def snapshot_refs_def fs_root_bytes_def)

context object_store
begin

text \<open>An ingest stores the body under its id, and nothing under any other.\<close>

lemma ingest_ok:
  assumes "ingest_object H ops i tag body fs = (Inr u, fs')" "valid (store fs)"
  shows "\<exists>kind. kind_from_u8 tag = Some kind \<and> i = object_id H kind body \<and>
    (contents (store fs') = (contents (store fs))(i \<mapsto> (kind, body)) \<or>
      contents (store fs') = contents (store fs) \<and> contents (store fs) i \<noteq> None) \<and> valid (store fs') \<and>
    fs_refs fs' = fs_refs fs \<and> pending fs' = pending fs"
  using assms put_ok [OF assms(2)]
  by (fastforce simp: ingest_object_def split: sum.splits if_splits prod.splits)

text \<open>A collection keeps the reachable objects and no other.\<close>

lemma gc_keeps:
  assumes "fs_gc m n ops fs = (Inr c, fs')" "valid (store fs)"
    "chunks_typed (store_contents ops (store fs))" "staged_chunks_typed (store_contents ops (store fs)) (fs_refs fs)"
  shows "contents (store fs') = contents (store fs) |` live_objects (store_contents ops (store fs)) (fs_refs fs)"
    and "fs_refs fs' = fs_refs fs" "pending fs' = pending fs" "valid (store fs')"
proof -
  from assms(1) obtain live ids where m: "mark m n ops (fs_refs fs) (store fs) = Inr live"
    and l: "so_list ops (store fs) = Inr ids"
    and r: "remove_dead ops (\<lambda>i. i \<in> live) ids 0 (store fs) = (Inr c, store fs')"
    and fs': "fs' = fs\<lparr>store := store fs'\<rparr>"
    by (auto simp: fs_gc_def split: sum.splits prod.splits)
  have live: "live = live_objects (store_contents ops (store fs)) (fs_refs fs)"
    using m assms(3,4) by (rule mark_live)
  have ids: "set ids = dom (contents (store fs))" using list_sound [OF l assms(2)] .
  have "contents (store fs') i = (contents (store fs) |` live) i" for i
    using remove_dead_done [OF assms(2) r] ids
    by (cases "contents (store fs) i") (auto simp: restrict_map_def dom_def)
  then show "contents (store fs') = contents (store fs) |` live_objects (store_contents ops (store fs)) (fs_refs fs)"
    using live by auto
  show "fs_refs fs' = fs_refs fs" "pending fs' = pending fs" by (subst fs', simp)+
  show "valid (store fs')" using remove_dead_live [OF assms(2) r] by simp
qed

end

end
