(* ===== verification/Fs_Quota.thy ===== *)
theory Fs_Quota
  imports Fs_Verbs
begin

text \<open>
  The staging quotas of \<open>putblob\<close>: what an authority's entries sum to, and that an accepted putblob
  keeps the sums within the caps.
\<close>

definition owner_bytes :: "authority \<Rightarrow> (object_id, staged) btree \<Rightarrow> nat" where
  "owner_bytes a st = (\<Sum>(_, s)\<leftarrow>st. if controls a (st_owner s) then unat (st_len s) else 0)"

definition owner_entries :: "authority \<Rightarrow> (object_id, staged) btree \<Rightarrow> nat" where
  "owner_entries a st = (\<Sum>(_, s)\<leftarrow>st. if controls a (st_owner s) then 1 else 0)"

lemma owner_usage_fold:
  "fold (\<lambda>(_, s) (used, n). (saturating_add64 used (st_len s), n + 1))
     (filter (\<lambda>(_, s). controls a (st_owner s)) st) (u, k) = (x, n) \<Longrightarrow>
   unat x = min (2 ^ 64 - 1) (unat u + owner_bytes a st) \<and> n = k + owner_entries a st"
proof (induction st arbitrary: u k)
  case Nil
  then show ?case using unat_lt_64 [of u] by (simp add: owner_bytes_def owner_entries_def min_def)
next
  case (Cons e st)
  obtain i s where e: "e = (i, s)" by (cases e)
  show ?case
  proof (cases "controls a (st_owner s)")
    case True
    then show ?thesis
      using Cons.IH [of "saturating_add64 u (st_len s)" "k + 1"] Cons.prems e
      by (simp add: owner_bytes_def owner_entries_def unat_saturating_add64)
  next
    case False
    then show ?thesis using Cons e by (simp add: owner_bytes_def owner_entries_def)
  qed
qed

lemma owner_usage_exact:
  assumes "owner_usage a st = (x, n)"
  shows "unat x = min (2 ^ 64 - 1) (owner_bytes a st)" and "n = owner_entries a st"
  using owner_usage_fold [OF assms [unfolded owner_usage_def]] by simp_all

lemma owner_sweep:
  "owner_bytes a (staging (sweep_expired height r)) \<le> owner_bytes a (staging r)"
  "owner_entries a (staging (sweep_expired height r)) \<le> owner_entries a (staging r)"
  "length (staging (sweep_expired height r)) \<le> length (staging r)"
  by (simp_all add: owner_bytes_def owner_entries_def sweep_expired_def sum_filter_le)

definition within_quota :: "'s fs \<Rightarrow> authority \<Rightarrow> (object_id, staged) btree \<Rightarrow> bool" where
  "within_quota fs a st \<longleftrightarrow> owner_bytes a st \<le> unat (quota fs) \<and>
     owner_entries a st \<le> staging_entry_cap_per_owner fs \<and> length st \<le> staging_entry_cap fs"

lemma within_quota_sweep: "within_quota fs a (staging r) \<Longrightarrow> within_quota fs a (staging (sweep_expired height r))"
  using owner_sweep(1) [of a height r] owner_sweep(2) [of a height r] owner_sweep(3) [of height r]
  unfolding within_quota_def by linarith

lemma putblob_step_quota:
  assumes "putblob_step H a height bs fs p = Inr p'" and "within_quota fs a (staging (p_refs p))"
    and "bt_wf (staging (p_refs p))" and "unat (quota fs) < 2 ^ 64 - 1"
  shows "within_quota fs a (staging (p_refs p'))"
proof (cases "bt_has (p_object_ids p) (object_id H KChunk bs) \<or> bt_has (staging (p_refs p)) (object_id H KChunk bs)")
  case True
  then show ?thesis using assms(1,2) by (auto simp: putblob_step_def Let_def split: if_splits)
next
  case False
  let ?d = "object_id H KChunk bs" and ?st = "staging (p_refs p)" and ?len = "of_nat (length bs) :: u64"
  obtain used n where u: "owner_usage a ?st = (used, n)" by (cases "owner_usage a ?st")
  from assms(1) False u obtain e where p': "staging (p_refs p') = bt_insert ?d e ?st"
    and e: "st_owner e = authority_actor a" "st_len e = ?len"
    and caps: "length ?st < staging_entry_cap fs" "n < staging_entry_cap_per_owner fs"
      "\<not> quota fs < saturating_add64 used ?len"
    by (auto simp: putblob_step_def Let_def push_object_def split: if_splits)
  have new: "bt_get ?st ?d = None" using False by (simp add: bt_has_def)
  have own: "controls a (st_owner e)" using e(1) by (simp add: controls_own_actor)
  have "unat (saturating_add64 used ?len) \<le> unat (quota fs)"
    using caps(3) by (simp add: word_less_nat_alt)
  then have "owner_bytes a ?st + unat ?len \<le> unat (quota fs)"
    using owner_usage_exact(1) [OF u] assms(4) by (simp add: unat_saturating_add64 min_def split: if_splits)
  moreover have "owner_bytes a (bt_insert ?d e ?st) = owner_bytes a ?st + unat ?len"
    using sum_bt_insert_new [where f = "\<lambda>(_, s). if controls a (st_owner s) then unat (st_len s) else 0", OF new]
      own e(2) by (simp add: owner_bytes_def)
  moreover have "owner_entries a (bt_insert ?d e ?st) = owner_entries a ?st + 1"
    using sum_bt_insert_new [where f = "\<lambda>(_, s). if controls a (st_owner s) then 1 else 0", OF new] own
    by (simp add: owner_entries_def)
  moreover have "length (bt_insert ?d e ?st) = length ?st + 1"
    using assms(3) new by (simp add: length_bt_insert_new)
  ultimately show ?thesis
    using owner_usage_exact(2) [OF u] caps(1,2) by (simp add: within_quota_def p')
qed

lemma putblob_quota:
  assumes "putblob H a height bs fs = (Inr u, fs')" and "within_quota fs a (staging (pending_refs fs))"
    and "bt_wf (staging (pending_refs fs))" and "unat (quota fs) < 2 ^ 64 - 1"
  shows "within_quota fs a (staging (pending_refs fs'))"
  using assms(1) [unfolded putblob_def]
proof (cases rule: swept_verb.transact_cases)
  case (accepted x fs2)
  let ?g = "require_pending height fs"
  obtain p where p: "pending ?g = Some p" using require_pending_view(1) by blast
  have r: "p_refs p = pending_refs fs" using require_pending_view(2) [of height fs] p by (simp add: pending_refs_def)
  let ?p = "p\<lparr>p_refs := sweep_expired height (p_refs p)\<rparr>"
  from accepted(1,2) obtain p' where s: "putblob_step H a height bs (?g\<lparr>pending := Some ?p\<rparr>) ?p = Inr p'"
    and fs2: "pending_refs fs2 = p_refs p'" "pending fs2 \<noteq> None"
    using p by (auto simp: pending_refs_def elim!: swept_cases)
  let ?g' = "?g\<lparr>pending := Some ?p\<rparr>"
  have sb: "same_base fs ?g'" using same_base_trans [OF require_pending_view(5) same_base_pending] .
  have same: "within_quota ?g' a st \<longleftrightarrow> within_quota fs a st" for st
    by (simp add: within_quota_def same_base_fields [OF sb])
  have "within_quota ?g' a (staging (p_refs ?p))"
    using within_quota_sweep [OF assms(2), of height] same r by simp
  moreover have "bt_wf (staging (p_refs ?p))"
    using assms(3) r by (simp add: sweep_expired_def bt_wf_filter)
  moreover have "unat (quota ?g') < 2 ^ 64 - 1"
    using assms(4) unfolding same_base_fields(5) [OF sb] .
  ultimately have "within_quota fs a (staging (p_refs p'))"
    using putblob_step_quota [OF s] same by blast
  then show ?thesis
    using accepted(5) fs2 by (auto simp: set_pending_refs_view)
qed simp_all

end
