(* ===== verification/Retention_Exchange.thy ===== *)
theory Retention_Exchange
  imports Retention_Spec
begin

text \<open>
  What a compare-and-exchange writes: the reference's record is the replacement and the counts of the
  two snapshots moved, and a read over the new root returns the replacement.
\<close>

definition record_entry :: "(bytes \<Rightarrow> object_id) \<Rightarrow> retention_record \<Rightarrow> tree_entry" where
  "record_entry H r =
     \<lparr>e_kind = EFile, e_id = object_id H KFile (file_encode (record_file r)), e_exec = False, e_size = 0\<rparr>"

lemma retention_put_den:
  assumes "retention_put H v path r st rs = Inr (st', rs')" "node_ok (fst st)" "list_all name_ok path"
    "\<forall>b. length (H b) = 32" "lookup H v \<subseteq>\<^sub>m F"
  shows "den F (fst st') = pm_graft (den F (fst st)) path (pm_leaf (record_entry H r))"
    and "snd st' = snd st @ [(KFile, file_encode (record_file r))]"
proof -
  from assms(1) obtain n where n: "edit_put H v path (record_entry H r) (fst st) rs = Inr (n, rs')"
    and st': "st' = (n, snd st @ [(KFile, file_encode (record_file r))])"
    by (auto simp: retention_put_def Let_def record_entry_def)
  have "length (e_id (record_entry H r)) = 32" using assms(4) by (simp add: record_entry_def object_id_def)
  from edit_put_spec(1) [OF n assms(2,3) this assms(5)]
  show "den F (fst st') = pm_graft (den F (fst st)) path (pm_leaf (record_entry H r))"
    "snd st' = snd st @ [(KFile, file_encode (record_file r))]"
    by (simp_all add: st' den_leaf record_entry_def)
qed

text \<open>A removal with its spine only takes away paths below the first segment.\<close>

lemma remove_spine_den:
  "remove_spine H v path d n rs = Inr (n', rs') \<Longrightarrow> node_ok n \<Longrightarrow> list_all name_ok path \<Longrightarrow>
   lookup H v \<subseteq>\<^sub>m F \<Longrightarrow> path \<noteq> [] \<Longrightarrow>
   (\<forall>q. den F n' q = den F n q \<or> (den F n' q = None \<and> prefix [hd path] q))"
proof (induction d arbitrary: n rs)
  case (Suc d)
  from Suc.prems(1) obtain x rs1 where x: "edit_get H v (take (Suc d) path) n rs = Inr (x, rs1)"
    and k: "(case x of None \<Rightarrow> slift (Inl (RetentionE AncestorMissing))
     | Some e \<Rightarrow>
         if \<not> (e_kind e = EDir \<and> e_size e = 0) then sret n
         else sbind (edit_rm H v (take (Suc d) path) n) (\<lambda>n'. remove_spine H v path d n')) rs1 = Inr (n', rs')"
    unfolding remove_spine.simps by (rule sbind_InrE)
  then obtain e where e: "x = Some e" by (cases x) auto
  show ?case
  proof (cases "e_kind e = EDir \<and> e_size e = 0")
    case False
    then show ?thesis using k e by auto
  next
    case True
    then obtain n1 rs2 where n1: "edit_rm H v (take (Suc d) path) n rs1 = Inr (n1, rs2)"
      and rec: "remove_spine H v path d n1 rs2 = Inr (n', rs')"
      using k e by auto
    have names: "list_all name_ok (take (Suc d) path)" using Suc.prems(3) by (rule list_all_take)
    note rm = edit_rm_spec [OF n1 Suc.prems(2) names Suc.prems(4)]
    have "prefix [hd path] q" if "prefix (take (Suc d) path) q" for q
      using that Suc.prems(5) by (cases path) (auto simp: prefix_def)
    then have one: "den F n1 q = den F n q \<or> (den F n1 q = None \<and> prefix [hd path] q)" for q
      using rm(1) by (auto simp: pm_remove_def)
    show ?thesis using one Suc.IH [OF rec rm(2) Suc.prems(3-5)] by metis
  qed
qed simp

lemma retention_remove_den:
  assumes "retention_remove H v path st rs = Inr (st', rs')" "node_ok (fst st)" "list_all name_ok path"
    "lookup H v \<subseteq>\<^sub>m F" "path \<noteq> []"
  shows "den F (fst st') path = None" and "\<not> prefix [hd path] q \<Longrightarrow> den F (fst st') q = den F (fst st) q"
    and "snd st' = snd st"
proof -
  from assms(1) obtain n r1 n' where n: "edit_rm H v path (fst st) rs = Inr (n, r1)"
    and n': "remove_spine H v path (length path - 1) n r1 = Inr (n', rs')" and st': "st' = (n', snd st)"
    unfolding retention_remove_def by auto
  note rm = edit_rm_spec [OF n assms(2-4)]
  note sp = remove_spine_den [OF n' rm(2) assms(3-5)]
  have "den F n path = None" by (simp add: rm(1) pm_remove_def)
  then show "den F (fst st') path = None" using sp st' by (metis fst_conv)
  have "prefix path q \<Longrightarrow> prefix [hd path] q" using assms(5) by (cases path) (auto simp: prefix_def)
  then show "\<not> prefix [hd path] q \<Longrightarrow> den F (fst st') q = den F (fst st) q"
    using spec [OF sp, of q] rm(1) by (auto simp: pm_remove_def st')
  show "snd st' = snd st" by (simp add: st')
qed

lemma membership_path_parts:
  "membership_path i \<noteq> []" "hd (membership_path i) = str ''snapshots''" "length (membership_path i) = Suc (length i)"
  by (simp_all add: membership_path_def shards_def)

lemma sections_differ: "str ''snapshots'' \<noteq> str ''references''"
proof
  assume "str ''snapshots'' = str ''references''"
  then have "length (str ''snapshots'') = length (str ''references'')" by (rule arg_cong)
  then show False unfolding length_str by simp
qed

lemma prefix_section: "prefix [a] (b # xs) \<longleftrightarrow> a = b"
  by simp

lemma reference_path_parts: "\<not> prefix [str ''snapshots''] (reference_path H module key)"
  "reference_path H module key \<noteq> []"
  unfolding reference_path_def shards_def prefix_section using sections_differ by blast+

lemma hex_byte_inj: "hex_byte a = hex_byte b \<Longrightarrow> a = b"
  using to_hex_inj [of "[a]" "[b]"] by (simp add: to_hex_def)

lemma membership_path_inj: "membership_path i = membership_path j \<Longrightarrow> i = j"
proof -
  assume "membership_path i = membership_path j"
  then have "map hex_byte i = map hex_byte j" by (simp add: membership_path_def shards_def)
  moreover have "inj hex_byte" by (rule injI) (rule hex_byte_inj)
  ultimately show "i = j" by (simp add: inj_map_eq_map)
qed

text \<open>A graft at one catalog path leaves the paths it is not comparable with.\<close>

lemma graft_apart: "\<not> prefix p q \<Longrightarrow> \<not> prefix q p \<Longrightarrow> pm_graft D p S q = D q"
  by (simp add: pm_graft_def)

lemma graft_leaf_at: "pm_graft D p (pm_leaf e) p = Some (ILeaf e)"
  by (simp add: pm_graft_def pm_leaf_def)

text \<open>The counts an exchange moves, as the entries it leaves at the two membership paths.\<close>

lemma release_den:
  assumes "release_membership H v root previous st rs = Inr (st', rs')" "node_ok (fst st)"
    "\<forall>b. length (H b) = 32" "lookup H v \<subseteq>\<^sub>m F"
  shows "\<not> prefix [str ''snapshots''] q \<Longrightarrow> prefix q (reference_path H module key) \<Longrightarrow> q \<noteq> [] \<Longrightarrow>
      den F (fst st') q = den F (fst st) q"
    and "set (snd st) \<subseteq> set (snd st')"
proof -
  show "den F (fst st') q = den F (fst st) q"
    if q: "\<not> prefix [str ''snapshots''] q" "prefix q (reference_path H module key)" "q \<noteq> []"
  proof (cases previous)
    case None
    then show ?thesis using assms(1) by (simp add: release_membership_def)
  next
    case (Some i)
    have apart: "\<not> prefix (membership_path i) q" "\<not> prefix q (membership_path i)"
      using q sections_differ by (cases q; auto simp: membership_path_def shards_def simp del: str_simps)+
    from assms(1) Some consider (rm) r1 where "retention_remove H v (membership_path i) st r1 = Inr (st', rs')"
      | (put) r1 n where "retention_put H v (membership_path i) (Membership i n) st r1 = Inr (st', rs')"
      by (auto simp: release_membership_def split: if_splits)
    then show ?thesis
    proof cases
      case rm
      show ?thesis
        using retention_remove_den(2) [OF rm assms(2) catalog_paths_ok(2) assms(4)] membership_path_parts q(1) by metis
    next
      case put
      show ?thesis
        using retention_put_den(1) [OF put assms(2) catalog_paths_ok(2) assms(3,4)] apart by (simp add: graft_apart)
    qed
  qed
  show "set (snd st) \<subseteq> set (snd st')"
    using assms(1)
    by (auto simp: release_membership_def retention_put_def retention_remove_def Let_def split: option.splits if_splits)
qed

lemma acquire_den:
  assumes "acquire_membership H v root next1 st rs = Inr (st', rs')" "node_ok (fst st)"
    "\<forall>b. length (H b) = 32" "lookup H v \<subseteq>\<^sub>m F"
  shows "\<not> prefix [str ''snapshots''] q \<Longrightarrow> prefix q (reference_path H module key) \<Longrightarrow> q \<noteq> [] \<Longrightarrow>
      den F (fst st') q = den F (fst st) q"
    and "set (snd st) \<subseteq> set (snd st')"
proof -
  show "den F (fst st') q = den F (fst st) q"
    if q: "\<not> prefix [str ''snapshots''] q" "prefix q (reference_path H module key)" "q \<noteq> []"
  proof (cases next1)
    case None
    then show ?thesis using assms(1) by (simp add: acquire_membership_def)
  next
    case (Some i)
    have apart: "\<not> prefix (membership_path i) q" "\<not> prefix q (membership_path i)"
      using q sections_differ by (cases q; auto simp: membership_path_def shards_def simp del: str_simps)+
    from assms(1) Some obtain r1 n where
      put: "retention_put H v (membership_path i) (Membership i n) st r1 = Inr (st', rs')"
      by (auto simp: acquire_membership_def)
    show ?thesis
      using retention_put_den(1) [OF put assms(2) catalog_paths_ok(2) assms(3,4)] apart by (simp add: graft_apart)
  qed
  show "set (snd st) \<subseteq> set (snd st')"
    using assms(1)
    by (auto simp: acquire_membership_def retention_put_def Let_def split: option.splits if_splits)
qed

lemma exchange_reference_den:
  assumes "exchange_edits H v root (reference_path H module key) expected replacement rs = Inr (st', rs')"
    and "\<forall>b. length (H b) = 32" and "pred_option (\<lambda>i. length i = 32) root" and "lookup H v \<subseteq>\<^sub>m F"
  shows "den F (fst st') (reference_path H module key) =
      map_option (\<lambda>r. ILeaf (record_entry H (Reference r))) replacement"
    and "replacement = Some r \<Longrightarrow> (KFile, file_encode (record_file (Reference r))) \<in> set (snd st')"
proof -
  let ?p = "reference_path H module key"
  have root: "node_ok (fst (edit_load root, []))" using edit_load_ok [OF assms(3)] by simp
  from assms(1) obtain st r1 where st: "(case replacement of
         Some reference \<Rightarrow> retention_put H v ?p (Reference reference) (edit_load root, [])
       | None \<Rightarrow> retention_remove H v ?p (edit_load root, [])) rs = Inr (st, r1)"
    and k: "sbind (slift (optional_id expected)) (\<lambda>previous.
     sbind (slift (optional_id replacement)) (\<lambda>next1.
     if previous \<noteq> next1
     then sbind (release_membership H v root previous st) (acquire_membership H v root next1)
     else sret st)) r1 = Inr (st', rs')"
    unfolding exchange_edits_def by (rule sbind_InrE)
  have ok: "node_ok (fst st)"
    using st retention_put_ok [OF _ root catalog_paths_ok(1) assms(2)] retention_remove_ok [OF _ root catalog_paths_ok(1)]
    by (cases replacement) auto
  have first: "den F (fst st) ?p = map_option (\<lambda>r. ILeaf (record_entry H (Reference r))) replacement"
  proof (cases replacement)
    case None
    then show ?thesis
      using st retention_remove_den(1) [OF _ root catalog_paths_ok(1) assms(4) reference_path_parts(2)] by auto
  next
    case (Some r)
    then show ?thesis
      using st retention_put_den(1) [OF _ root catalog_paths_ok(1) assms(2,4)] by (auto simp: graft_leaf_at)
  qed
  have body: "(KFile, file_encode (record_file (Reference r))) \<in> set (snd st)" if "replacement = Some r"
    using st retention_put_den(2) [OF _ root catalog_paths_ok(1) assms(2,4)] that by auto
  have "den F (fst st') ?p = den F (fst st) ?p \<and> set (snd st) \<subseteq> set (snd st')"
  proof -
    from k consider "st' = st" | previous next1 st1 r2 r3 where
        "release_membership H v root previous st r2 = Inr (st1, r3)"
        "acquire_membership H v root next1 st1 r3 = Inr (st', rs')"
      by (auto split: if_splits)
    then show ?thesis
    proof cases
      case 2
      have ok1: "node_ok (fst st1)" using release_ok [OF 2(1) ok assms(2)] .
      note ref = reference_path_parts(1) prefix_order.order_refl reference_path_parts(2)
      show ?thesis
        using release_den(1) [OF 2(1) ok assms(2,4) ref] acquire_den(1) [OF 2(2) ok1 assms(2,4) ref]
          subset_trans [OF release_den(2) [OF 2(1) ok assms(2,4)] acquire_den(2) [OF 2(2) ok1 assms(2,4)]]
        by simp
    qed simp
  qed
  then show "den F (fst st') ?p = map_option (\<lambda>r. ILeaf (record_entry H (Reference r))) replacement"
    "replacement = Some r \<Longrightarrow> (KFile, file_encode (record_file (Reference r))) \<in> set (snd st')"
    using first body by auto
qed

lemma exchange_root_node:
  assumes "exchange_edits H v root (reference_path H module key) expected replacement rs = Inr (st', rs')"
    and "\<forall>b. length (H b) = 32" and "pred_option (\<lambda>i. length i = 32) root" and "lookup H v \<subseteq>\<^sub>m F"
  shows "item_of (fst st') = IDir"
proof -
  have dir: "item_of n' = IDir" if "edit_put H v path e n r = Inr (n', r')" for path e n r n' r'
    using that unfolding edit_put_def
    by (cases "butlast path") (auto split: if_splits)
  have rm: "item_of n' = IDir" if "edit_rm H v path n r = Inr (n', r')" for path n r n' r'
    using that unfolding edit_rm_def
    by (cases "butlast path") (auto split: if_splits)
  have spine: "item_of n = IDir \<Longrightarrow> remove_spine H v path d n r = Inr (n', r') \<Longrightarrow> item_of n' = IDir" for path d n r n' r'
  proof (induction d arbitrary: n r)
    case (Suc d)
    from Suc.prems show ?case by (auto split: option.splits if_splits intro: Suc.IH [OF rm])
  qed simp
  have put: "item_of (fst st2) = IDir" if "retention_put H v path r st r1 = Inr (st2, r2)" for path r st r1 st2 r2
    using that dir by (auto simp: retention_put_def Let_def)
  have remove: "item_of (fst st2) = IDir" if "retention_remove H v path st r1 = Inr (st2, r2)" for path st r1 st2 r2
    using that spine [OF rm] by (auto simp: retention_remove_def)
  have rel: "item_of (fst st2) = IDir" if "release_membership H v root p st r1 = Inr (st2, r2)" "item_of (fst st) = IDir" for p st r1 st2 r2
    using that by (auto simp: release_membership_def split: option.splits if_splits dest: put remove)
  have acq: "item_of (fst st2) = IDir" if "acquire_membership H v root p st r1 = Inr (st2, r2)" "item_of (fst st) = IDir" for p st r1 st2 r2
    using that by (auto simp: acquire_membership_def split: option.splits dest: put)
  from assms(1) obtain st r1 where st: "(case replacement of
         Some reference \<Rightarrow> retention_put H v (reference_path H module key) (Reference reference) (edit_load root, [])
       | None \<Rightarrow> retention_remove H v (reference_path H module key) (edit_load root, [])) rs = Inr (st, r1)"
    and k: "sbind (slift (optional_id expected)) (\<lambda>previous.
     sbind (slift (optional_id replacement)) (\<lambda>next1.
     if previous \<noteq> next1
     then sbind (release_membership H v root previous st) (acquire_membership H v root next1)
     else sret st)) r1 = Inr (st', rs')"
    unfolding exchange_edits_def by (rule sbind_InrE)
  have d: "item_of (fst st) = IDir"
  proof (cases replacement)
    case None
    with st have "retention_remove H v (reference_path H module key) (edit_load root, []) rs = Inr (st, r1)" by simp
    then show ?thesis by (rule remove)
  next
    case (Some r)
    with st have "retention_put H v (reference_path H module key) (Reference r) (edit_load root, []) rs = Inr (st, r1)" by simp
    then show ?thesis by (rule put)
  qed
  from k consider "st' = st" | previous next1 st1 r2 r3 where
      "release_membership H v root previous st r2 = Inr (st1, r3)"
      "acquire_membership H v root next1 st1 r3 = Inr (st', rs')"
    by (auto split: if_splits)
  then show ?thesis
  proof cases
    case 2
    show ?thesis using acq [OF 2(2) rel [OF 2(1) d]] .
  qed (simp add: d)
qed

lemma compare_exchange_written:
  assumes "compare_exchange H v root module key expected replacement rs = Inr ((root', out), rs')"
    and "expected \<noteq> replacement"
    and "\<forall>b. length (H b) = 32" and "pred_option (\<lambda>i. length i = 32) root" and "lookup H v \<subseteq>\<^sub>m F" and "holds H F out"
  shows "den F (edit_load root') (reference_path H module key) =
      map_option (\<lambda>r. ILeaf (record_entry H (Reference r))) replacement"
    and "replacement = Some r \<Longrightarrow> F (e_id (record_entry H (Reference r))) =
      Some (KFile, file_encode (record_file (Reference r)))"
proof -
  from assms(1,2) obtain st r1 r2 out2 where
    st: "exchange_edits H v root (reference_path H module key) expected replacement r1 = Inr (st, r2)" and
    b: "edit_build H (fst st) = Inr (root', out2)" and out: "out = snd st @ out2"
    unfolding compare_exchange_def by (auto split: if_splits)
  note ex = exchange_reference_den [OF st assms(3-5)]
  have ok: "node_ok (fst st)" using exchange_edits_ok [OF st assms(3,4) catalog_paths_ok(1)] .
  have h: "holds H F (snd st)" "holds H F out2" using assms(6) out by simp_all
  show "den F (edit_load root') (reference_path H module key) =
      map_option (\<lambda>r. ILeaf (record_entry H (Reference r))) replacement"
    using edit_build_spec [OF assms(3) b ok exchange_root_node [OF st assms(3-5)] h(2)] ex(1) by simp
  show "replacement = Some r \<Longrightarrow> F (e_id (record_entry H (Reference r))) =
      Some (KFile, file_encode (record_file (Reference r)))"
    using ex(2) [of r] h(1) unfolding holds_def by (force simp: record_entry_def)
qed

text \<open>The references an exchange takes are admissible records.\<close>

lemma check_references_ok:
  "check_references rs = Inr () \<Longrightarrow> r \<in> set rs \<Longrightarrow> record_ok (Reference r)"
  by (induction rs) (auto simp: record_ok_def snapshot_id_iff from_hex_to_hex split: if_splits)

lemma compare_exchange_replacement_ok:
  "compare_exchange H v root module key expected (Some r) rs = Inr (built, rs') \<Longrightarrow> record_ok (Reference r)"
  by (auto simp: compare_exchange_def list_of_option_def intro: check_references_ok)

lemma get_record_den:
  assumes "get_record H v root path rs = Inr (x, rs')" and "path \<noteq> []" and le: "lookup H v \<subseteq>\<^sub>m F"
  shows "(x = None \<and> den F (edit_load root) path = None) \<or>
    (\<exists>e body r. x = Some r \<and> den F (edit_load root) path = Some (ILeaf e) \<and> e_kind e = EFile \<and>
       F (e_id e) = Some (KFile, body) \<and> decode_record body = Inr r)"
proof -
  from assms(1,2) obtain y r1 where y: "walk_get H v (edit_load root) path rs = Inr (y, r1)"
    and k: "(case y of
       None \<Rightarrow> sret None
     | Some e \<Rightarrow>
         if e_kind e \<noteq> EFile then slift (Inl (RetentionE RecordNotFile))
         else sbind (store_get H v (e_id e)) (\<lambda>o1. case o1 of
           None \<Rightarrow> slift (Inl (RetentionE RecordMissing))
         | Some (kind, body) \<Rightarrow>
             if kind \<noteq> KFile then slift (Inl (RetentionE RecordKindMismatch))
             else slift (rbind (decode_record body) (\<lambda>r. Inr (Some r))))) r1 = Inr (x, rs')"
    by (auto simp: get_record_def edit_get_def)
  note d = walk_get_den [OF y assms(2,3)]
  show ?thesis
  proof (cases y)
    case None
    then show ?thesis using d k by simp
  next
    case (Some e)
    then obtain body r where "e_kind e = EFile" "lookup H v (e_id e) = Some (KFile, body)" "decode_record body = Inr r" "x = Some r"
      using k by (auto split: if_splits option.splits dest!: store_get_lookup)
    moreover from this have "F (e_id e) = Some (KFile, body)" using le by (auto simp: map_le_def dom_def)
    ultimately show ?thesis using d Some by (simp add: item_of_def)
  qed
qed

text \<open>A read over the new root returns what the exchange wrote.\<close>

lemma get_after_exchange:
  assumes "compare_exchange H v root module key expected replacement rs = Inr ((root', out), rs')"
    and "\<forall>b. length (H b) = 32" and "pred_option (\<lambda>i. length i = 32) root"
    and "lookup H v \<subseteq>\<^sub>m lookup H v'" and "holds H (lookup H v') out"
    and "retention_get H v' root' module key rs2 = Inr (x, rs3)"
  shows "x = replacement"
proof -
  let ?F = "lookup H v'"
  have read: "(x = None \<and> den ?F (edit_load r) (reference_path H module key) = None) \<or>
      (\<exists>e body x'. x = Some x' \<and> den ?F (edit_load r) (reference_path H module key) = Some (ILeaf e) \<and>
        ?F (e_id e) = Some (KFile, body) \<and> decode_record body = Inr (Reference x'))"
    if g: "retention_get H w r module key q = Inr (x, q')" and le: "lookup H w \<subseteq>\<^sub>m ?F" for w r q q' x
  proof -
    from g obtain y r1 r2 where y: "get_record H w r (reference_path H module key) r1 = Inr (y, r2)"
      and x: "(case y of None \<Rightarrow> sret None
       | Some (Reference reference) \<Rightarrow> sret (Some reference)
       | Some (Membership _ _) \<Rightarrow> slift (Inl (RetentionE ReferenceEdge))) r2 = Inr (x, q')"
      by (auto simp: retention_get_def)
    show ?thesis
      using get_record_den [OF y reference_path_parts(2) le] x by (auto split: retention_record.splits)
  qed
  note after = read [OF assms(6) map_le_refl]
  show ?thesis
  proof (cases "expected = replacement")
    case True
    obtain r where r: "retention_get H v root module key rs = Inr (expected, r)"
      using compare_exchange_guards(1) [OF assms(1)] by blast
    have "root' = root" using assms(1) True by (auto simp: compare_exchange_def split: if_splits)
    then show ?thesis using read [OF r assms(4)] after True by auto
  next
    case False
    note w = compare_exchange_written [OF assms(1) False assms(2-5)]
    show ?thesis
    proof (cases replacement)
      case None
      then show ?thesis using after w(1) by auto
    next
      case (Some r)
      have "decode_record (file_encode (record_file (Reference r))) = Inr (Reference r)"
        using compare_exchange_replacement_ok assms(1) Some by (intro decode_record_file) blast
      then show ?thesis using after w Some by auto
    qed
  qed
qed

end
