(* ===== verification/Commit_Spec.thy ===== *)
theory Commit_Spec
  imports Commit Tree_Spec
begin

text \<open>
  What a commit means: each change is an update of the path map of Tree_Spec (\<open>change_map\<close>), and an
  accepted commit records a snapshot whose tree is the effective tree under its changes in order.
  The planning loop is shown to translate the changes one to one (\<open>planned\<close>), whatever it stages.
\<close>

subsection \<open>The meaning of a change\<close>

fun change_paths :: "change \<Rightarrow> rstring list" where
  "change_paths (Put path exec meta content) = [path]"
| "change_paths (Mkdir path) = [path]"
| "change_paths (Rm path) = [path]"
| "change_paths (Mv from to) = [from, to]"
| "change_paths (Symlink path target) = [path]"

definition segs_of :: "(rstring \<Rightarrow> rstring) \<Rightarrow> rstring \<Rightarrow> rstring list" where
  "segs_of nfc path = (case canonical nfc path of Inr segs \<Rightarrow> segs | Inl _ \<Rightarrow> [])"

text \<open>The file object of inline bytes, and of declared chunks.\<close>

definition inline_file :: "(bytes \<Rightarrow> object_id) \<Rightarrow> (rstring, rstring) btree \<Rightarrow> bytes \<Rightarrow> file_obj" where
  "inline_file H meta bs =
     \<lparr>f_size = of_nat (length bs), f_chunks = map (object_id H KChunk) (chunk_pieces bs), f_meta = meta\<rparr>"

fun content_file :: "(bytes \<Rightarrow> object_id) \<Rightarrow> (rstring \<Rightarrow> bytes option) \<Rightarrow> (rstring, rstring) btree \<Rightarrow>
    content \<Rightarrow> file_obj" where
  "content_file H b64_decode meta (Inline b64) =
     inline_file H meta (case b64_decode b64 of Some bs \<Rightarrow> bs | None \<Rightarrow> [])"
| "content_file H b64_decode meta (Chunks sz hexes) =
     \<lparr>f_size = sz, f_chunks = map (\<lambda>h. case from_hex_32 h of Some i \<Rightarrow> i | None \<Rightarrow> []) hexes,
      f_meta = meta\<rparr>"

definition link_file :: "(bytes \<Rightarrow> object_id) \<Rightarrow> rstring \<Rightarrow> file_obj" where
  "link_file H target =
     \<lparr>f_size = of_nat (length target), f_chunks = [object_id H KChunk target], f_meta = []\<rparr>"

definition file_leaf :: "(bytes \<Rightarrow> object_id) \<Rightarrow> entry_kind \<Rightarrow> bool \<Rightarrow> file_obj \<Rightarrow> tree_entry" where
  "file_leaf H kind exec f =
     \<lparr>e_kind = kind, e_id = object_id H KFile (file_encode f), e_exec = exec, e_size = f_size f\<rparr>"

fun planned :: "(bytes \<Rightarrow> object_id) \<Rightarrow> (rstring \<Rightarrow> rstring) \<Rightarrow> (rstring \<Rightarrow> bytes option) \<Rightarrow> change \<Rightarrow> edit_op" where
  "planned H nfc b64_decode (Put path exec meta content) =
     PlanPut (segs_of nfc path) (file_leaf H EFile exec (content_file H b64_decode meta content))"
| "planned H nfc b64_decode (Mkdir path) = PlanMkdir (segs_of nfc path)"
| "planned H nfc b64_decode (Rm path) = PlanRm (segs_of nfc path)"
| "planned H nfc b64_decode (Mv from to) = PlanMv (segs_of nfc from) (segs_of nfc to)"
| "planned H nfc b64_decode (Symlink path target) =
     PlanPut (segs_of nfc path) (file_leaf H ESymlink False (link_file H target))"

fun op_map :: "edit_op \<Rightarrow> path_map \<Rightarrow> path_map" where
  "op_map (PlanPut segs e) D = pm_graft D segs (pm_leaf e)"
| "op_map (PlanMkdir segs) D = pm_graft D segs pm_empty"
| "op_map (PlanRm segs) D = pm_remove D segs"
| "op_map (PlanMv from to) D = pm_move D from to"

definition change_map :: "(bytes \<Rightarrow> object_id) \<Rightarrow> (rstring \<Rightarrow> rstring) \<Rightarrow> (rstring \<Rightarrow> bytes option) \<Rightarrow>
    change \<Rightarrow> path_map \<Rightarrow> path_map" where
  "change_map H nfc b64_decode ch = op_map (planned H nfc b64_decode ch)"

subsection \<open>Splitting content into chunks\<close>

lemma concat_chunk_pieces: "concat (chunk_pieces bs) = bs"
proof (induction bs rule: chunk_pieces.induct)
  case (1 bs)
  then show ?case by (subst chunk_pieces.simps) simp
qed

lemma chunk_pieces_size:
  "c \<in> set (chunk_pieces bs) \<Longrightarrow> c \<noteq> [] \<and> length c \<le> unat CHUNK_SIZE"
proof (induction bs rule: chunk_pieces.induct)
  case (1 bs)
  from 1(2) show ?case
    using 1(1) by (subst (asm) chunk_pieces.simps) (auto split: if_splits)
qed

lemma length_chunk_pieces:
  "length (chunk_pieces bs) = (length bs + unat CHUNK_SIZE - 1) div unat CHUNK_SIZE"
proof (induction bs rule: chunk_pieces.induct)
  case (1 bs)
  show ?case
  proof (cases "bs = []")
    case True
    then show ?thesis by (subst chunk_pieces.simps) simp
  next
    case False
    have "(length bs + 1048576 - 1) div 1048576 = Suc ((length bs - 1048576 + 1048576 - 1) div 1048576)"
    proof (cases "1048576 \<le> length bs")
      case True
      then show ?thesis using div_add_self2 [of 1048576 "length bs - 1"] by simp
    next
      case False
      then show ?thesis using \<open>bs \<noteq> []\<close> div_add_self2 [of 1048576 "length bs - 1"] by (cases bs) simp_all
    qed
    then show ?thesis using 1 False by (subst chunk_pieces.simps) simp
  qed
qed

lemma chunk_pieces_len:
  "i < length (chunk_pieces bs) \<Longrightarrow>
   length (chunk_pieces bs ! i) = min (unat CHUNK_SIZE) (length bs - i * unat CHUNK_SIZE)"
proof (induction bs arbitrary: i rule: chunk_pieces.induct)
  case (1 bs)
  show ?case
  proof (cases "bs = []")
    case True
    then show ?thesis using 1(2) by (simp add: chunk_pieces.simps [of "[]"])
  next
    case False
    then have p: "chunk_pieces bs = take 1048576 bs # chunk_pieces (drop 1048576 bs)"
      by (subst chunk_pieces.simps) simp
    show ?thesis
    proof (cases i)
      case 0
      then show ?thesis by (simp add: p)
    next
      case (Suc j)
      then show ?thesis using 1(1) [of j] 1(2) False by (simp add: p)
    qed
  qed
qed

lemma inline_file_checks:
  assumes "length bs < 2 ^ 60" and "f = inline_file H meta bs"
  shows "concat (chunk_pieces bs) = bs \<and> f_chunks f = map (object_id H KChunk) (chunk_pieces bs) \<and>
    verify_file_shape (f_size f) (length (f_chunks f)) = Inr () \<and>
    (\<forall>i < length (chunk_pieces bs).
       verify_chunk_len f i (of_nat (length (chunk_pieces bs ! i))) = Inr ())"
proof -
  let ?n = "length (chunk_pieces bs)" and ?sz = "of_nat (length bs) :: u64"
  have sz: "unat ?sz = length bs" using assms(1) by (simp add: unat_of_nat)
  have n: "?n = (length bs + 1048576 - 1) div 1048576" by (simp add: length_chunk_pieces)
  have n44: "?n < 2 ^ 44" using assms(1) unfolding n by (simp add: div_less_iff_less_mult)
  have shape: "verify_file_shape ?sz ?n = Inr ()"
    using verify_file_shape_count [OF n44, of ?sz] by (simp add: sz n)
  have "verify_chunk_len_at ?sz ?n i (of_nat (length (chunk_pieces bs ! i))) = Inr ()" if i: "i < ?n" for i
  proof (cases "i + 1 < ?n")
    case True
    then have "(i + 1) * 1048576 \<le> length bs"
    proof -
      have "i + 2 \<le> (length bs + 1048576 - 1) div 1048576" using True unfolding n by simp
      then have "(i + 2) * 1048576 \<le> length bs + 1048576 - 1"
        by (simp only: less_eq_div_iff_mult_less_eq zero_less_numeral)
      then show ?thesis by simp
    qed
    then have "length (chunk_pieces bs ! i) = 1048576" using chunk_pieces_len [OF i] by simp
    then show ?thesis using verify_inner_chunk [OF True] by (simp add: CHUNK_SIZE_def)
  next
    case False
    then have i': "i = ?n - 1" using i by simp
    have pos: "0 < ?n" using i by linarith
    have "bs \<noteq> []" using pos n by (cases bs) auto
    then have "0 < length bs" by simp
    then have b: "(?n - 1) * 1048576 < length bs \<and> length bs \<le> ?n * 1048576"
      using ceil_div_iff [of 1048576 "length bs" ?n] n by simp
    have l: "length (chunk_pieces bs ! i) = length bs - (?n - 1) * 1048576"
      using chunk_pieces_len [OF i] b i' by (auto simp: min_def algebra_simps diff_mult_distrib)
    have le: "length bs - (?n - 1) * 1048576 \<le> 1048576"
      using b pos by (cases ?n) auto
    have "unat (of_nat (length (chunk_pieces bs ! i)) :: u64) = length bs - (?n - 1) * 1048576"
      using assms(1) by (simp add: l unat_of_nat)
    then show ?thesis
      unfolding i' using verify_last_chunk [OF pos, of ?sz] n44 b l i' le by (simp add: sz)
  qed
  then show ?thesis
    using shape assms(2) concat_chunk_pieces by (simp add: inline_file_def verify_chunk_len_def)
qed

subsection \<open>Planning translates the changes\<close>

lemma stage_object_id: "stage_object H v pending_ids k b st rs = Inr ((i, st'), rs') \<Longrightarrow> i = object_id H k b"
  by (cases st) (auto simp: stage_object_def Let_def split: if_splits)

lemma stage_pieces_ids:
  "stage_pieces H v pending_ids cs st rs = Inr ((ids, st'), rs') \<Longrightarrow> ids = map (object_id H KChunk) cs"
  by (induction cs arbitrary: st rs ids st' rs') (auto dest: stage_object_id)

lemma chunk_bytes_ids:
  "chunk_bytes H v pending_ids bs st rs = Inr ((ids, st'), rs') \<Longrightarrow>
   ids = map (object_id H KChunk) (chunk_pieces bs)"
  by (auto simp: chunk_bytes_def chunk_pieces.simps [of "[]"] split: if_splits dest: stage_pieces_ids)

lemma rmap_ok_or: "rmap (\<lambda>x. ok_or (f x) e) xs = Inr ys \<Longrightarrow> ys = map (\<lambda>x. case f x of Some y \<Rightarrow> y | None \<Rightarrow> d) xs"
  by (induction xs arbitrary: ys) (auto simp: rbind_eq_Inr ok_or_eq_Inr)

lemma plan_content_file:
  assumes "plan_content H b64_decode v pending_ids meta content ps rs = Inr ((i, ids, sz, ps'), rs')"
  shows "i = object_id H KFile (file_encode (content_file H b64_decode meta content))"
    and "sz = f_size (content_file H b64_decode meta content)"
    and "ids = f_chunks (content_file H b64_decode meta content)"
    and "ps_plan ps' = ps_plan ps" "ps_touched ps' = ps_touched ps" "ps_seen ps' = ps_seen ps"
  using assms
  by (auto simp: plan_content_def stage_fileobj_def inline_file_def validate_chunks_def Let_def rbind_eq_Inr
      ok_or_eq_Inr split: content.splits if_splits dest!: stage_object_id chunk_bytes_ids rmap_ok_or [where d = "[]"])

text \<open>The locals of the loop after the changes \<open>done\<close>.\<close>

definition planned_all :: "(bytes \<Rightarrow> object_id) \<Rightarrow> (rstring \<Rightarrow> rstring) \<Rightarrow> (rstring \<Rightarrow> bytes option) \<Rightarrow>
    authority \<Rightarrow> change list \<Rightarrow> plan_state \<Rightarrow> bool" where
  "planned_all H nfc b64_decode a done_changes ps \<longleftrightarrow>
     ps_plan ps = map (planned H nfc b64_decode) done_changes \<and>
     ps_touched ps = map (\<lambda>p. (p, segs_of nfc p)) (concat (map change_paths done_changes)) \<and>
     ps_seen ps = set (concat (map change_paths done_changes)) \<and>
     distinct (concat (map change_paths done_changes)) \<and>
     (\<forall>p \<in> set (concat (map change_paths done_changes)).
        canonical nfc p = Inr (segs_of nfc p) \<and> check_authority a (segs_of nfc p) = Inr ())"

text \<open>A path admitted by a change: authorized, canonical, and not seen before.\<close>

lemma admit_path:
  assumes "canon_authorized nfc a p = Inr segs" and "dedup (join_segs segs) seen = Inr seen'"
  shows "segs = segs_of nfc p \<and> join_segs (segs_of nfc p) = p \<and> canonical nfc p = Inr (segs_of nfc p) \<and>
    check_authority a (segs_of nfc p) = Inr () \<and> p \<notin> seen \<and> seen' = insert p seen"
proof -
  have c: "canonical nfc p = Inr segs" "check_authority a segs = Inr ()"
    using assms(1) by (auto simp: canon_authorized_def rbind_eq_Inr)
  have "segs_of nfc p = segs" using c(1) by (simp add: segs_of_def)
  moreover have "join_segs segs = p" using c(1) by (simp add: canonical_iff)
  ultimately show ?thesis using c assms(2) by (auto simp: dedup_def split: if_splits)
qed

lemma plan_change_all:
  assumes "plan_change H nfc b64_decode v pending_ids a ps ch rs = Inr (ps', rs')"
    and "planned_all H nfc b64_decode a done_changes ps"
  shows "planned_all H nfc b64_decode a (done_changes @ [ch]) ps'"
proof (cases ch)
  case (Put path exec meta content)
  from assms(1) Put obtain segs seen i ids sz ps1 r1 r2 where
    c: "canon_authorized nfc a path = Inr segs" and d: "dedup (join_segs segs) (ps_seen ps) = Inr seen" and
    p: "plan_content H b64_decode v pending_ids meta content ps r1 = Inr ((i, ids, sz, ps1), r2)" and
    ps': "ps' = plan_op (PlanPut segs \<lparr>e_kind = EFile, e_id = i, e_exec = exec, e_size = sz\<rparr>) [segs] seen
              (ps1\<lparr>ps_chunk_refs := ps_chunk_refs ps1 @ ids\<rparr>)"
    by (auto simp: plan_change_def)
  show ?thesis
    using assms(2) admit_path [OF c d] plan_content_file [OF p] Put unfolding ps'
    by (auto simp: planned_all_def plan_op_def file_leaf_def)
next
  case (Symlink path target)
  from assms(1) Symlink obtain segs seen chunk st1 i st2 r1 r2 r3 where
    c: "canon_authorized nfc a path = Inr segs" and d: "dedup (join_segs segs) (ps_seen ps) = Inr seen" and
    s1: "stage_object H v pending_ids KChunk target (ps_stage ps) r1 = Inr ((chunk, st1), r2)" and
    s2: "stage_object H v pending_ids KFile
             (file_encode \<lparr>f_size = of_nat (length target), f_chunks = [chunk], f_meta = []\<rparr>) st1 r2
           = Inr ((i, st2), r3)" and
    ps': "ps' = plan_op (PlanPut segs \<lparr>e_kind = ESymlink, e_id = i, e_exec = False,
                                     e_size = of_nat (length target)\<rparr>) [segs] seen
                (ps\<lparr>ps_stage := st2, ps_chunk_refs := ps_chunk_refs ps @ [chunk]\<rparr>)"
    by (auto simp: plan_change_def split: if_splits)
  show ?thesis
    using assms(2) admit_path [OF c d] stage_object_id [OF s1] stage_object_id [OF s2] Symlink unfolding ps'
    by (auto simp: planned_all_def plan_op_def file_leaf_def link_file_def)
next
  case (Mv p q)
  from assms(1) Mv obtain r1 r2 seen1 seen2 where
    c: "canon_authorized nfc a p = Inr r1" "canon_authorized nfc a q = Inr r2" and
    d: "dedup (join_segs r1) (ps_seen ps) = Inr seen1" "dedup (join_segs r2) seen1 = Inr seen2" and
    ps': "ps' = plan_op (PlanMv r1 r2) [r1, r2] seen2 ps"
    by (auto simp: plan_change_def)
  show ?thesis
    using assms(2) admit_path [OF c(1) d(1)] admit_path [OF c(2) d(2)] Mv unfolding ps'
    by (auto simp: planned_all_def plan_op_def)
qed (use assms in \<open>auto simp: plan_change_def planned_all_def plan_op_def dest!: admit_path\<close>)

lemma sfold_planned:
  "sfold (plan_change H nfc b64_decode v pending_ids a) ps chs rs = Inr (ps', rs') \<Longrightarrow>
   planned_all H nfc b64_decode a done_changes ps \<Longrightarrow> planned_all H nfc b64_decode a (done_changes @ chs) ps'"
proof (induction chs arbitrary: ps done_changes rs)
  case (Cons ch chs)
  from Cons.prems(1) obtain ps1 r where "plan_change H nfc b64_decode v pending_ids a ps ch rs = Inr (ps1, r)"
    and rest: "sfold (plan_change H nfc b64_decode v pending_ids a) ps1 chs r = Inr (ps', rs')"
    by auto
  then have "planned_all H nfc b64_decode a (done_changes @ [ch]) ps1"
    using plan_change_all Cons.prems(2) by blast
  from Cons.IH [OF rest this] show ?case by simp
qed simp

lemma plan_all:
  assumes "sfold (plan_change H nfc b64_decode v pending_ids a) plan_start changes rs = Inr (ps, rs')"
  shows "planned_all H nfc b64_decode a changes ps"
  using sfold_planned [OF assms, of "[]"] by (simp add: planned_all_def plan_start_def)

subsection \<open>The edit applies the plan\<close>

fun op_ok :: "edit_op \<Rightarrow> bool" where
  "op_ok (PlanPut segs e) = (list_all name_ok segs \<and> length (e_id e) = 32 \<and> e_kind e \<noteq> EDir)"
| "op_ok (PlanMkdir segs) = list_all name_ok segs"
| "op_ok (PlanRm segs) = list_all name_ok segs"
| "op_ok (PlanMv from to) = (list_all name_ok from \<and> list_all name_ok to)"

lemma item_of_root: "den F n' = D \<Longrightarrow> D [] = Some IDir \<Longrightarrow> item_of n' = IDir"
  by (metis den_Nil option.inject)

lemma apply_op_map:
  assumes "apply_op H v n op rs = Inr (n', rs')" and "op_ok op" and "node_ok n" and "item_of n = IDir"
    and le: "lookup H v \<subseteq>\<^sub>m F"
  shows "den F n' = op_map op (den F n) \<and> node_ok n' \<and> item_of n' = IDir"
proof (cases op)
  case (PlanPut segs e)
  then have e: "edit_put H v segs e n rs = Inr (n', rs')" "list_all name_ok segs" "length (e_id e) = 32" "e_kind e \<noteq> EDir"
    using assms(1,2) by (simp_all add: apply_op_def)
  note s = edit_put_spec [OF e(1) assms(3) e(2,3) le]
  show ?thesis
    using s PlanPut e(4) by (auto intro!: item_of_root [OF s(1)] simp: den_leaf pm_graft_def)
next
  case (PlanMkdir segs)
  then have e: "edit_mkdir H v segs n rs = Inr (n', rs')" "list_all name_ok segs"
    using assms(1,2) by (simp_all add: apply_op_def)
  note s = edit_mkdir_spec [OF e(1) assms(3) e(2) le]
  show ?thesis
    using s PlanMkdir by (auto intro!: item_of_root [OF s(1)] simp: pm_graft_def)
next
  case (PlanRm segs)
  then have e: "edit_rm H v segs n rs = Inr (n', rs')" "list_all name_ok segs"
    using assms(1,2) by (simp_all add: apply_op_def)
  note s = edit_rm_spec [OF e(1) assms(3) e(2) le]
  show ?thesis
    using s PlanRm assms(4) by (auto intro!: item_of_root [OF s(1)] simp: pm_remove_def)
next
  case (PlanMv p q)
  then have e: "edit_mv H v p q n rs = Inr (n', rs')" "list_all name_ok p" "list_all name_ok q"
    using assms(1,2) by (simp_all add: apply_op_def)
  note s = edit_mv_spec [OF e(1) assms(3) e(2,3) le]
  show ?thesis
    using s PlanMv by (auto intro!: item_of_root [OF s(1)] simp: pm_move_def pm_graft_def)
qed

lemma apply_ops_map:
  assumes "sfold (apply_op H v) n plan rs = Inr (n', rs')" and "list_all op_ok plan" and "node_ok n"
    and "item_of n = IDir" and le: "lookup H v \<subseteq>\<^sub>m F"
  shows "den F n' = fold op_map plan (den F n) \<and> node_ok n' \<and> item_of n' = IDir"
  using assms(1-4)
proof (induction plan arbitrary: n rs)
  case (Cons op plan)
  from Cons.prems(1) obtain n1 r where n1: "apply_op H v n op rs = Inr (n1, r)"
    and rest: "sfold (apply_op H v) n1 plan r = Inr (n', rs')"
    by auto
  have "den F n1 = op_map op (den F n) \<and> node_ok n1 \<and> item_of n1 = IDir"
    using apply_op_map [OF n1 _ Cons.prems(3,4) le] Cons.prems(2) by simp
  then show ?case using Cons.IH [OF rest] Cons.prems(2) by simp
qed simp

lemma segs_names: "canonical nfc p = Inr segs \<Longrightarrow> utf8 p \<Longrightarrow> list_all name_ok segs"
  using canonical_names by (auto simp: list_all_iff name_ok_def)

lemma planned_op_ok:
  assumes "\<forall>p \<in> set (change_paths ch). canonical nfc p = Inr (segs_of nfc p) \<and> utf8 p" and "\<forall>b. length (H b) = 32"
  shows "op_ok (planned H nfc b64_decode ch)"
  using assms by (cases ch) (auto simp: file_leaf_def object_id_def intro: segs_names)

subsection \<open>The tree of an accepted commit\<close>

text \<open>
  \<open>F\<close> is an assignment of contents to ids that agrees with what the view holds and with the objects
  the commit adds, the canonical empty tree included: it exists when no two of them collide under
  the hash.
\<close>

abbreviation empty_tree_object :: "kind \<times> bytes" where
  "empty_tree_object \<equiv> (KTree, tree_encode \<lparr>t_entries = []\<rparr>)"

lemma stage_root_den:
  assumes "stage_root H v pending_ids root objects staged_ids rs = Inr ((i, objects'), rs')"
    and "F (object_id H KTree (tree_encode \<lparr>t_entries = []\<rparr>)) = Some empty_tree_object"
  shows "den F (edit_load (Some i)) = den F (edit_load root)"
    and "set objects \<subseteq> set objects'"
proof -
  let ?i = "object_id H KTree (tree_encode \<lparr>t_entries = []\<rparr>)"
  show "set objects \<subseteq> set objects'"
    using assms(1) by (auto simp: stage_root_def Let_def split: option.splits if_splits)
  show "den F (edit_load (Some i)) = den F (edit_load root)"
  proof (cases root)
    case None
    have "tree_ok \<lparr>t_entries = []\<rparr>" by (simp add: tree_ok_def)
    then have "tree_at F ?i = Some []"
      using assms(2) by (simp add: tree_at_def tree_decode_encode)
    then have "den F (edit_load (Some ?i)) p = pm_empty p" for p
      by (cases p) (simp_all add: edit_load_def pm_empty_def den_Cons children_def item_of_def)
    moreover have "i = ?i"
      using assms(1) None by (auto simp: stage_root_def Let_def split: if_splits)
    ultimately show ?thesis using None by (auto simp: edit_load_def den_NDir_Nil)
  next
    case (Some j)
    then show ?thesis using assms(1) by (simp add: stage_root_def)
  qed
qed

text \<open>The root and the path map of a snapshot, if any.\<close>

definition root_of :: "contents \<Rightarrow> object_id option \<Rightarrow> object_id option" where
  "root_of F snap = Option.bind snap (\<lambda>h. map_option s_root (snapshot_at F h))"

definition tree_of :: "contents \<Rightarrow> object_id option \<Rightarrow> path_map" where
  "tree_of F snap = den F (edit_load (root_of F snap))"

lemma snapshot_at_mono: "snapshot_at F i = Some s \<Longrightarrow> F \<subseteq>\<^sub>m F' \<Longrightarrow> snapshot_at F' i = Some s"
  by (auto simp: snapshot_at_def map_le_def dom_def split: option.splits)

lemma snapshot_at_ok: "snapshot_at F i = Some s \<Longrightarrow> snapshot_ok s"
  by (auto simp: snapshot_at_def snapshot_decode_iff split: option.splits kind.splits sum.splits)

lemma effective_root_ok:
  assumes "effective_root_of H v snap rs = Inr (root, rs')" and "lookup H v \<subseteq>\<^sub>m F"
  shows "root = root_of F snap" and "pred_option (\<lambda>i. length i = 32) root"
proof -
  show "root = root_of F snap" "pred_option (\<lambda>i. length i = 32) root"
    using assms(1) snapshot_at_mono [OF _ assms(2)] snapshot_at_ok [of "lookup H v"]
    by (cases snap; auto simp: effective_root_of_def root_of_def snapshot_ok_def dest!: snapshot_root_tree_at)+
qed

lemma snapshot_at_holds:
  "snapshot_ok s \<Longrightarrow> F (object_id H KSnapshot (snapshot_encode s)) = Some (KSnapshot, snapshot_encode s) \<Longrightarrow>
   snapshot_at F (object_id H KSnapshot (snapshot_encode s)) = Some s"
  by (simp add: snapshot_at_def snapshot_decode_encode)

lemma commit_apply_message: "commit_apply H nfc b64_decode v pending_ids refs0 a height time base message changes cap rs = Inr (built, rs') \<Longrightarrow>
    length message \<le> MAX_MESSAGE_BYTES"
  by (auto simp: commit_apply_def Let_def split: if_splits)

lemma holds_subset: "holds H F ys \<Longrightarrow> set xs \<subseteq> set ys \<Longrightarrow> holds H F xs"
  by (auto simp: holds_def)

lemma sweep_head [simp]: "head (sweep_expired height r) = head r"
  by (simp add: sweep_expired_def)

text \<open>The edit of an accepted commit: the changes applied in order to the head's tree.\<close>

lemma commit_edit:
  assumes "effective_root_of H v (head refs0) r1 = Inr (effective_root, r2)"
    and "sfold (plan_change H nfc b64_decode v pending_ids a) plan_start changes r2 = Inr (ps, r3)"
    and "sfold (apply_op H v) (edit_load effective_root) (ps_plan ps) r4 = Inr (edit, r5)"
    and "\<forall>b. length (H b) = 32" and "\<forall>ch \<in> set changes. \<forall>p \<in> set (change_paths ch). utf8 p"
    and le: "lookup H v \<subseteq>\<^sub>m F"
  shows "den F edit = fold (change_map H nfc b64_decode) changes (tree_of F (head refs0))"
    and "node_ok edit" and "item_of edit = IDir"
proof -
  note r = effective_root_ok [OF assms(1) le]
  have pl: "planned_all H nfc b64_decode a changes ps" using assms(2) by (rule plan_all)
  then have ops: "list_all op_ok (ps_plan ps)"
    using planned_op_ok [OF _ assms(4)] assms(5) unfolding planned_all_def list_all_iff by auto
  have "item_of (edit_load effective_root) = IDir"
    by (cases effective_root) (simp_all add: edit_load_def item_of_def)
  from apply_ops_map [OF assms(3) ops edit_load_ok [OF r(2)] this le]
  show "den F edit = fold (change_map H nfc b64_decode) changes (tree_of F (head refs0))"
    "node_ok edit" "item_of edit = IDir"
    using r(1) pl by (simp_all add: planned_all_def fold_map o_def change_map_def [abs_def] tree_of_def)
qed

lemma commit_apply_tree:
  assumes "commit_apply H nfc b64_decode v pending_ids refs0 a height time base message changes cap rs = Inr (built, rs')"
    and H: "\<forall>b. length (H b) = 32" and paths: "\<forall>ch \<in> set changes. \<forall>p \<in> set (change_paths ch). utf8 p"
    and ty: "utf8 message" "actor_ok (authority_actor a)" "pred_option (\<lambda>i. length i = 32) (head refs0)"
    and le: "lookup H v \<subseteq>\<^sub>m F" and hold: "holds H F (empty_tree_object # cb_objects built)"
  shows "\<exists>snap root. head (cb_refs built) = Some snap \<and>
      snapshot_at F snap = Some (commit_snapshot refs0 a height time message root) \<and>
      tree_of F (Some snap) = fold (change_map H nfc b64_decode) changes (tree_of F (head refs0))"
  using assms(1)
proof (rule commit_applyE)
  fix base_root r1 effective_root r2 ps r3 r4 edit r5 root1 out root objects
  let ?s = "commit_snapshot (sweep_expired height refs0) a height time message root"
  let ?snap = "object_id H KSnapshot (snapshot_encode ?s)"
  assume e: "effective_root_of H v (head (sweep_expired height refs0)) r1 = Inr (effective_root, r2)"
    and p: "sfold (plan_change H nfc b64_decode v pending_ids a) plan_start changes r2 = Inr (ps, r3)"
    and ap: "sfold (apply_op H v) (edit_load effective_root) (ps_plan ps) r4 = Inr (edit, r5)"
    and b: "edit_build H edit = Inr (root1, out)"
    and sr: "stage_root H v pending_ids root1 (fst (ps_stage ps) @ out) (snd (ps_stage ps)) r5 = Inr ((root, objects), rs')"
    and built: "built = seal_commit H (sweep_expired height refs0) ?s cap ps objects"
  note ed = commit_edit [OF e [simplified] p ap H paths le]
  have hd: "head (cb_refs built) = Some ?snap" and objs: "cb_objects built = objects @ [(KSnapshot, snapshot_encode ?s)]"
    by (simp_all add: built seal_commit_def push_window_def Let_def)
  have F0: "F (object_id H KTree (tree_encode \<lparr>t_entries = []\<rparr>)) = Some empty_tree_object"
    and Fo: "holds H F objects" and Fs: "F ?snap = Some (KSnapshot, snapshot_encode ?s)"
    using hold objs by simp_all
  note root = stage_root_den [where F = F, OF sr F0]
  have "holds H F out" using holds_subset [OF Fo] root(2) by simp
  then have tree: "den F (edit_load (Some root)) = den F edit"
    using edit_build_spec [OF H b ed(2,3)] root(1) by simp
  have "length root = 32"
    using sr edit_build_root_len [OF H _ ed(2)] b H
    by (auto simp: stage_root_def Let_def object_id_def split: option.splits if_splits)
  then have "snapshot_ok ?s"
    using ty commit_apply_message [OF assms(1)] by (simp add: snapshot_ok_def commit_snapshot_def)
  then have snap: "snapshot_at F ?snap = Some ?s" using Fs by (rule snapshot_at_holds)
  have same: "?s = commit_snapshot refs0 a height time message root" by (simp add: commit_snapshot_def)
  have "tree_of F (Some ?snap) = fold (change_map H nfc b64_decode) changes (tree_of F (head refs0))"
    using snap tree ed(1) by (simp add: tree_of_def root_of_def commit_snapshot_def)
  then show ?thesis using hd snap same by metis
qed

text \<open>The gate of an accepted commit: every touched path authorized, touched once, and unchanged
  between the base and the head.\<close>

lemma check_conflicts_all:
  "check_conflicts H v base_root effective_root ts rs = Inr ((), rs') \<Longrightarrow> (p, segs) \<in> set ts \<Longrightarrow> segs \<noteq> [] \<Longrightarrow>
   node_at (lookup H v) (edit_load base_root) segs = node_at (lookup H v) (edit_load effective_root) segs"
proof (induction ts arbitrary: rs)
  case (Cons t ts)
  obtain q qs where t: "t = (q, qs)" by (cases t)
  with Cons.prems(1) obtain x y r1 r2 where x: "entry_at H v base_root qs rs = Inr (x, r1)"
    and y: "entry_at H v effective_root qs r1 = Inr (y, r2)" and "x = y"
    and rest: "check_conflicts H v base_root effective_root ts r2 = Inr ((), rs')"
    by (auto split: if_splits)
  then show ?case
    using entry_at_node_at [OF x] entry_at_node_at [OF y] Cons.IH [OF rest] Cons.prems(2,3) t by auto
qed simp

lemma commit_apply_gate:
  assumes "commit_apply H nfc b64_decode v pending_ids refs0 a height time base message changes cap rs = Inr (built, rs')"
  shows "\<exists>base_root r r'. resolve_base H v (sweep_expired height refs0) base r = Inr (base_root, r') \<and>
    (\<forall>ch \<in> set changes. \<forall>p \<in> set (change_paths ch).
       canonical nfc p = Inr (segs_of nfc p) \<and> check_authority a (segs_of nfc p) = Inr () \<and>
       (segs_of nfc p \<noteq> [] \<longrightarrow>
         node_at (lookup H v) (edit_load base_root) (segs_of nfc p) =
         node_at (lookup H v) (edit_load (root_of (lookup H v) (head refs0))) (segs_of nfc p))) \<and>
    distinct (concat (map change_paths changes))"
  using assms
proof (rule commit_applyE)
  fix base_root r1 effective_root r2 ps r3 r4
  assume b: "resolve_base H v (sweep_expired height refs0) base rs = Inr (base_root, r1)"
    and e: "effective_root_of H v (head (sweep_expired height refs0)) r1 = Inr (effective_root, r2)"
    and p: "sfold (plan_change H nfc b64_decode v pending_ids a) plan_start changes r2 = Inr (ps, r3)"
    and c: "check_conflicts H v base_root effective_root (ps_touched ps) r3 = Inr ((), r4)"
  have pl: "planned_all H nfc b64_decode a changes ps" using p by (rule plan_all)
  have root: "effective_root = root_of (lookup H v) (head refs0)"
    using effective_root_ok(1) [OF e map_le_refl] by simp
  have "\<forall>ch \<in> set changes. \<forall>p \<in> set (change_paths ch).
       canonical nfc p = Inr (segs_of nfc p) \<and> check_authority a (segs_of nfc p) = Inr () \<and>
       (segs_of nfc p \<noteq> [] \<longrightarrow>
         node_at (lookup H v) (edit_load base_root) (segs_of nfc p) =
         node_at (lookup H v) (edit_load effective_root) (segs_of nfc p))"
  proof (intro ballI)
    fix ch p assume "ch \<in> set changes" "p \<in> set (change_paths ch)"
    then have "p \<in> set (concat (map change_paths changes))" by auto
    moreover from this have "(p, segs_of nfc p) \<in> set (ps_touched ps)"
      using pl unfolding planned_all_def by force
    ultimately show "canonical nfc p = Inr (segs_of nfc p) \<and> check_authority a (segs_of nfc p) = Inr () \<and>
       (segs_of nfc p \<noteq> [] \<longrightarrow>
         node_at (lookup H v) (edit_load base_root) (segs_of nfc p) =
         node_at (lookup H v) (edit_load effective_root) (segs_of nfc p))"
      using pl check_conflicts_all [OF c] unfolding planned_all_def by blast
  qed
  then show ?thesis using b root pl unfolding planned_all_def by blast
qed

end
