(* ===== verification/Fs_Commit.thy ===== *)
theory Fs_Commit
  imports Fs_Verbs Commit_Spec
begin

text \<open>
  The commit verb at the level of the state machine: what an accepted \<open>commit\<close> did to the pending
  view, in terms of the engine \<open>commit_apply\<close> that Commit_Spec specifies.
\<close>

text \<open>The objects a block can read: those it buffered, then the store's.\<close>

definition block_contents :: "(bytes \<Rightarrow> object_id) \<Rightarrow> 's store_ops \<Rightarrow> 's fs \<Rightarrow> contents" where
  "block_contents H ops fs = lookup H
     \<lparr>v_get = so_get ops (store fs), v_has = so_has ops (store fs), v_pending = staged_of fs, v_budget = None\<rparr>"

lemma lookup_fs_view:
  "pending fs = Some p \<Longrightarrow> lookup H (fs_view ops fs p) = block_contents H ops fs"
  by (simp add: fun_eq_iff block_contents_def lookup_def fs_view_def staged_of_def split: option.split)

lemma block_contents_fork: "block_contents H ops (require_pending height fs) = block_contents H ops fs"
  using require_pending_view(3) [of height fs] same_base_fields(2) [OF require_pending_view(5) [of fs height]]
  by (simp add: block_contents_def)

text \<open>The view a verb's engine reads after the fork.\<close>

definition forked_view :: "'s store_ops \<Rightarrow> u64 \<Rightarrow> 's fs \<Rightarrow> view" where
  "forked_view ops height fs = (let fs1 = require_pending height fs in fs_view ops fs1 (the (pending fs1)))"

lemma lookup_forked_view: "lookup H (forked_view ops height fs) = block_contents H ops fs"
proof -
  obtain p where p: "pending (require_pending height fs) = Some p" using require_pending_view(1) by blast
  show ?thesis using lookup_fs_view [OF p] block_contents_fork by (simp add: forked_view_def p)
qed

lemma commit_accepted:
  assumes "commit H nfc b64_decode ops a height time base message changes fs = (Inr notes, fs')"
  shows "\<exists>built rs. commit_apply H nfc b64_decode (forked_view ops height fs) (block_objects fs) (pending_refs fs)
      a height time base message changes (window_cap fs) no_reads = Inr (built, rs) \<and>
    notes = cb_notifications built \<and> authority_validate a = Inr () \<and>
    staged_of fs' = staged_of fs @ cb_objects built \<and>
    (\<exists>n. pending_refs fs' = (cb_refs built)\<lparr>source_revision := n\<rparr>)"
  using assms [unfolded commit_def]
proof (cases rule: commit_verb.transact_cases)
  case (accepted x fs2)
  let ?g = "require_pending height fs"
  obtain p where p: "pending ?g = Some p" using require_pending_view(1) by blast
  have rp: "require_pending height ?g = ?g" using p by (simp add: require_pending_def)
  have view: "p_refs p = pending_refs fs" "p_object_ids p = block_objects fs" "p_objects p = staged_of fs"
    using p require_pending_view(2,3,4) [of height fs] by (simp_all add: pending_refs_def block_objects_def staged_of_def)
  have w: "window_cap ?g = window_cap fs" using same_base_fields(3) [OF require_pending_view(5)] .
  from accepted(1,2) obtain built rs where
    c: "commit_apply H nfc b64_decode (fs_view ops ?g p) (p_object_ids p) (p_refs p) a height time base message
          changes (window_cap ?g) no_reads = Inr (built, rs)" and
    n: "notes = cb_notifications built" and
    fs2: "fs2 = ?g\<lparr>pending := Some (push_objects H (cb_objects built) (p\<lparr>p_refs := cb_refs built\<rparr>))\<rparr>"
    by (auto simp: commit_op_def rp p Let_def split: sum.splits)
  have "staged_of fs2 = staged_of fs @ cb_objects built" "pending_refs fs2 = cb_refs built" "pending fs2 \<noteq> None"
    using view by (simp_all add: fs2 staged_of_def pending_refs_def push_objects_append)
  then have "staged_of fs' = staged_of fs @ cb_objects built \<and> (\<exists>n. pending_refs fs' = (cb_refs built)\<lparr>source_revision := n\<rparr>)"
    using accepted(5) by (auto simp: set_pending_refs_view intro: exI [of _ "source_revision (cb_refs built)"])
  then show ?thesis
    using c n accepted(4) view w p by (auto simp: forked_view_def)
qed simp_all

text \<open>The refinement of the verb: the recorded snapshot's tree is the head's tree under the changes.\<close>

lemma commit_verb_tree:
  assumes "commit H nfc b64_decode ops a height time base message changes fs = (Inr notes, fs')"
    and "\<forall>b. length (H b) = 32" and "\<forall>ch \<in> set changes. \<forall>p \<in> set (change_paths ch). utf8 p"
    and "utf8 message" and "authority_typed a" and "refs_inv (pending_refs fs)"
    and "block_contents H ops fs \<subseteq>\<^sub>m F" and "holds H F (empty_tree_object # staged_of fs')"
  shows "\<exists>snap root. head (pending_refs fs') = Some snap \<and>
      snapshot_at F snap = Some (commit_snapshot (pending_refs fs) a height time message root) \<and>
      tree_of F (Some snap) = fold (change_map H nfc b64_decode) changes (tree_of F (head (pending_refs fs)))"
proof -
  from commit_accepted [OF assms(1)] obtain built rs n where
    c: "commit_apply H nfc b64_decode (forked_view ops height fs) (block_objects fs) (pending_refs fs)
      a height time base message changes (window_cap fs) no_reads = Inr (built, rs)" and
    v: "authority_validate a = Inr ()" and s: "staged_of fs' = staged_of fs @ cb_objects built" and
    r: "pending_refs fs' = (cb_refs built)\<lparr>source_revision := n\<rparr>"
    by blast
  have "pred_option (\<lambda>i. length i = 32) (head (pending_refs fs))"
    using assms(6) by (simp add: refs_inv_def refs_typed_def id_ok_def [abs_def])
  moreover have "lookup H (forked_view ops height fs) \<subseteq>\<^sub>m F" using assms(7) by (simp add: lookup_forked_view)
  moreover have "holds H F (empty_tree_object # cb_objects built)" using assms(8) s by simp
  ultimately show ?thesis
    using commit_apply_tree [OF c assms(2-4) authority_actor_ok [OF v assms(5)]] r by simp
qed

lemma commit_verb_gate:
  assumes "commit H nfc b64_decode ops a height time base message changes fs = (Inr notes, fs')"
  shows "\<exists>base_root r r'. resolve_base H (forked_view ops height fs) (sweep_expired height (pending_refs fs)) base r
      = Inr (base_root, r') \<and>
    (\<forall>ch \<in> set changes. \<forall>p \<in> set (change_paths ch).
       canonical nfc p = Inr (segs_of nfc p) \<and> check_authority a (segs_of nfc p) = Inr () \<and>
       (segs_of nfc p \<noteq> [] \<longrightarrow>
         node_at (block_contents H ops fs) (edit_load base_root) (segs_of nfc p) =
         node_at (block_contents H ops fs)
           (edit_load (root_of (block_contents H ops fs) (head (pending_refs fs)))) (segs_of nfc p))) \<and>
    distinct (concat (map change_paths changes))"
proof -
  from commit_accepted [OF assms] obtain built rs where
    c: "commit_apply H nfc b64_decode (forked_view ops height fs) (block_objects fs) (pending_refs fs)
      a height time base message changes (window_cap fs) no_reads = Inr (built, rs)"
    by blast
  show ?thesis using commit_apply_gate [OF c] by (simp add: lookup_forked_view)
qed

subsection \<open>Watches\<close>

text \<open>A watch matches a path at a segment boundary: its prefix is the path or an ancestor of it.\<close>

lemma split_slash_append: "split_slash (xs @ SLASH # ys) = split_slash xs @ split_slash ys"
proof (induction xs)
  case (Cons x xs)
  then show ?case by (cases "split_slash xs") auto
qed simp

lemma join_segs_split: "segs_ok ss \<Longrightarrow> ss \<noteq> [] \<Longrightarrow> split_slash (tl (join_segs ss)) = ss"
  using split_slash_concat [of ss] by (auto simp: join_segs_def segs_ok_def seg_ok_def list_all_iff)

lemma join_segs_append:
  "ss \<noteq> [] \<Longrightarrow> ts \<noteq> [] \<Longrightarrow> join_segs (ss @ ts) = join_segs ss @ join_segs ts"
  by (simp add: join_segs_def)

lemma join_segs_hd: "\<exists>t. join_segs ss = SLASH # t"
  by (cases ss) (simp_all add: join_segs_def)

lemma watch_matches_prefix:
  assumes "segs_ok ss" "segs_ok ts"
  shows "watch_matches (join_segs ss) (join_segs ts) \<longleftrightarrow> prefix ss ts"
proof (cases "ss = []")
  case True
  then show ?thesis by (simp add: watch_matches_def join_segs_def)
next
  case False
  have root: "join_segs ss \<noteq> [SLASH]"
    using join_segs_inj [OF assms(1), of "[]"] False by (auto simp: segs_ok_def join_segs_def [of "[]"])
  show ?thesis
  proof
    assume "watch_matches (join_segs ss) (join_segs ts)"
    then consider "join_segs ts = join_segs ss"
      | "take (length (join_segs ss)) (join_segs ts) = join_segs ss" "length (join_segs ss) < length (join_segs ts)"
        "join_segs ts ! length (join_segs ss) = SLASH"
      using root by (auto simp: watch_matches_def split: if_splits)
    then show "prefix ss ts"
    proof cases
      case 1
      then show ?thesis using join_segs_inj [OF assms(2,1)] by simp
    next
      case 2
      then obtain rest where r: "join_segs ts = join_segs ss @ SLASH # rest"
        by (metis append_take_drop_id Cons_nth_drop_Suc)
      obtain t where t: "join_segs ss = SLASH # t" using join_segs_hd by blast
      have "ts \<noteq> []" using 2(2) t by (auto simp: join_segs_def split: if_splits)
      then have "ts = split_slash (t @ SLASH # rest)" using join_segs_split [OF assms(2)] r t by simp
      moreover have "ss = split_slash t" using join_segs_split [OF assms(1) False] t by simp
      ultimately show ?thesis by (simp add: split_slash_append)
    qed
  next
    assume "prefix ss ts"
    then obtain us where us: "ts = ss @ us" by (auto simp: prefix_def)
    show "watch_matches (join_segs ss) (join_segs ts)"
    proof (cases "us = []")
      case True
      then show ?thesis using us by (simp add: watch_matches_def)
    next
      case F2: False
      obtain t where "join_segs us = SLASH # t" using join_segs_hd by blast
      then show ?thesis using us False F2 by (simp add: watch_matches_def join_segs_append)
    qed
  qed
qed

lemma set_notify:
  "x \<in> set (notify ws snap paths) \<longleftrightarrow>
   (\<exists>p m u j. ((p, m), u) \<in> set ws \<and> j \<in> set paths \<and> watch_matches p j \<and>
     x = \<lparr>n_module = m, n_prefix = p, n_path = j, n_snapshot = snap\<rparr>)"
  by (force simp: notify_def image_iff)

lemma commit_verb_notifies:
  assumes "commit H nfc b64_decode ops a height time base message changes fs = (Inr notes, fs')"
  shows "\<exists>snap. head (pending_refs fs') = Some snap \<and>
    (\<forall>x. x \<in> set notes \<longleftrightarrow>
      (\<exists>p m u ch j. ((p, m), u) \<in> set (watches (pending_refs fs)) \<and> ch \<in> set changes \<and> j \<in> set (change_paths ch) \<and>
         watch_matches p j \<and> x = \<lparr>n_module = m, n_prefix = p, n_path = j, n_snapshot = to_hex snap\<rparr>))"
proof -
  from commit_accepted [OF assms] obtain built rs n where
    c: "commit_apply H nfc b64_decode (forked_view ops height fs) (block_objects fs) (pending_refs fs)
      a height time base message changes (window_cap fs) no_reads = Inr (built, rs)" and
    nt: "notes = cb_notifications built" and
    r: "pending_refs fs' = (cb_refs built)\<lparr>source_revision := n\<rparr>"
    by blast
  from c show ?thesis
  proof (rule commit_applyE)
    fix r1 r2 r3 ps root objects
    let ?s = "commit_snapshot (sweep_expired height (pending_refs fs)) a height time message root"
    assume "sfold (plan_change H nfc b64_decode (forked_view ops height fs) (block_objects fs) a) plan_start
        changes r2 = Inr (ps, r3)"
      and b: "built = seal_commit H (sweep_expired height (pending_refs fs)) ?s (window_cap fs) ps objects"
    then have pl: "map fst (ps_touched ps) = concat (map change_paths changes)"
      using plan_all unfolding planned_all_def by (fastforce simp: o_def)
    have "head (cb_refs built) = Some (object_id H KSnapshot (snapshot_encode ?s))"
      "cb_notifications built = notify (watches (pending_refs fs))
        (to_hex (object_id H KSnapshot (snapshot_encode ?s))) (concat (map change_paths changes))"
      by (simp_all add: b seal_commit_def push_window_def sweep_expired_def Let_def pl)
    then show ?thesis using nt r by (auto simp: set_notify)
  qed
qed
end
