(* ===== verification/Scenario.thy ===== *)
theory Scenario
  imports Fs_Commit Fs_Sync
begin

text \<open>
  A concrete run the witnesses use: the first commit of an empty filesystem, \<open>mkdir /a\<close> by the
  kernel at height 1, evaluated step by step. The hash keeps a prefix of its input, which is enough
  for the objects of the run not to collide.
\<close>

definition short_hash :: "bytes \<Rightarrow> object_id" where
  "short_hash b = take 32 (b @ replicate 32 0)"

abbreviation genesis :: "mem_store fs" where
  "genesis \<equiv> fs_new ([] :: mem_store) refs_default"

abbreviation forked :: pending where
  "forked \<equiv> \<lparr>p_refs = refs_default, p_objects = [], p_object_ids = [], p_height = 1\<rparr>"

abbreviation first_commit :: "notification list res \<times> mem_store fs" where
  "first_commit \<equiv> commit short_hash id Some (mem_ops short_hash) AuthSystem 1 2 None [] [Mkdir [47, 97]] genesis"

lemma short_hash_32: "\<forall>b. length (short_hash b) = 32"
  by (simp add: short_hash_def min_def)

lemma genesis_forked: "require_pending 1 genesis = genesis\<lparr>pending := Some forked\<rparr>"
  by (simp add: require_pending_def fs_new_def)

lemma path_a: "canonical id [47, 97] = Inr [[97]]" "segs_of id [47, 97] = [[97]]" "utf8 [47, 97]"
  by (simp_all add: segs_of_def canonical_def SLASH_def check_segment_def caps str_def utf8_lead_def utf8_width_def)

definition empty_body :: bytes where
  "empty_body = tree_encode \<lparr>t_entries = []\<rparr>"

definition dir_body :: bytes where
  "dir_body = tree_encode \<lparr>t_entries =
     [([97], \<lparr>e_kind = EDir, e_id = object_id short_hash KTree empty_body, e_exec = False, e_size = 0\<rparr>)]\<rparr>"

definition first_snapshot :: snapshot_obj where
  "first_snapshot = commit_snapshot refs_default AuthSystem 1 2 [] (object_id short_hash KTree dir_body)"

definition snap_body :: bytes where
  "snap_body = snapshot_encode first_snapshot"

definition first_plan :: plan_state where
  "first_plan = plan_op (PlanMkdir [[97]]) [[[97]]] {[47, 97]} plan_start"

definition first_built :: commit_built where
  "first_built = seal_commit short_hash refs_default first_snapshot HISTORY_WINDOW first_plan
     [(KTree, empty_body), (KTree, dir_body)]"

lemma first_plan_run:
  "sfold (plan_change short_hash id Some v [] AuthSystem) plan_start [Mkdir [47, 97]] rs = Inr (first_plan, rs)"
  by (simp add: plan_change_def canon_authorized_def path_a check_authority_def dedup_def plan_start_def
      join_segs_def SLASH_def sbind_def slift_def sret_def plan_op_def first_plan_def)

lemma first_edit:
  "sfold (apply_op short_hash v) (NDir []) [PlanMkdir [[97]]] rs = Inr (NDir [([97], NDir [])], rs)"
  by (simp add: apply_op_def edit_mkdir_def materialize_def sbind_def slift_def sret_def bt_has_def)

lemma first_build:
  "edit_build short_hash (NDir [([97], NDir [])]) =
     Inr (Some (object_id short_hash KTree dir_body), [(KTree, empty_body), (KTree, dir_body)])"
  by (simp add: edit_build_def empty_body_def dir_body_def caps Let_def)

lemma first_apply:
  "commit_apply short_hash id Some v [] refs_default AuthSystem 1 2 None [] [Mkdir [47, 97]] HISTORY_WINDOW rs =
     Inr (first_built, rs)"
  using first_plan_run first_edit [of v] first_build
  by (simp add: commit_apply_def Let_def resolve_base_def effective_root_of_def sweep_expired_def
      refs_default_def caps sbind_def slift_def sret_def plan_op_def plan_start_def entry_at_def edit_load_def
      stage_root_def first_plan_def first_built_def first_snapshot_def del: sfold.simps)

lemma first_built_parts:
  "cb_refs first_built = refs_default\<lparr>head := Some (object_id short_hash KSnapshot snap_body),
     window := [object_id short_hash KSnapshot snap_body]\<rparr>"
  "cb_objects first_built = [(KTree, empty_body), (KTree, dir_body), (KSnapshot, snap_body)]"
  "cb_notifications first_built = []"
  by (simp_all add: first_built_def first_plan_def seal_commit_def Let_def plan_op_def plan_start_def
      push_window_def caps refs_default_def snap_body_def notify_def)

lemma first_op:
  "commit_op short_hash id Some (mem_ops short_hash) AuthSystem 1 2 None [] [Mkdir [47, 97]]
     (genesis\<lparr>pending := Some forked\<rparr>) =
   (Inr [], genesis\<lparr>pending := Some (push_objects short_hash (cb_objects first_built)
      (forked\<lparr>p_refs := cb_refs first_built\<rparr>))\<rparr>)"
proof -
  let ?g = "genesis\<lparr>pending := Some forked\<rparr>"
  have "require_pending 1 ?g = ?g" "window_cap ?g = HISTORY_WINDOW"
    by (simp_all add: require_pending_def fs_new_def)
  then show ?thesis by (simp add: commit_op_def Let_def first_apply first_built_parts(3))
qed

lemma first_commit_result:
  "first_commit = (Inr [], genesis\<lparr>pending := Some ((push_objects short_hash (cb_objects first_built) forked)
     \<lparr>p_refs := (cb_refs first_built)\<lparr>source_revision := 1\<rparr>\<rparr>)\<rparr>)"
proof -
  have "cb_refs first_built \<noteq> refs_default" by (simp add: first_built_parts refs_default_def)
  moreover have "checked_add64 (source_revision refs_default) 1 = Some 1"
    by (simp add: checked_add64_def refs_default_def)
  ultimately show ?thesis
    by (simp add: commit_def transact_def authority_validate_def genesis_forked Let_def first_op
        pending_refs_def push_objects_append set_pending_refs_def)
      (simp add: push_objects_def push_object_def first_built_parts(2))
qed

lemma first_staged: "staged_of (snd first_commit) = [(KTree, empty_body), (KTree, dir_body), (KSnapshot, snap_body)]"
  by (simp add: first_commit_result staged_of_def push_objects_append first_built_parts(2))

lemma first_head: "head (pending_refs (snd first_commit)) = Some (object_id short_hash KSnapshot snap_body)"
  by (simp add: first_commit_result pending_refs_def first_built_parts(1))

subsection \<open>The contents after the run\<close>

lemma le_bytes_4: "le_bytes 4 0 = [0, 0, 0, 0]" "le_bytes 4 (Suc 0) = [1, 0, 0, 0]"
  by code_simp+

lemma short_hash_tag: "hd (object_id short_hash k b) = kind_tag k"
  by (simp add: object_id_def short_hash_def)

lemma short_hash_next: "object_id short_hash k (x # b) ! 1 = x"
  by (simp add: object_id_def short_hash_def)

lemma first_bodies: "empty_body = 0 # [0, 0, 0]" "\<exists>r. dir_body = 1 # r"
  by (simp_all add: empty_body_def dir_body_def tree_encode_def to_le32_def le_bytes_4)

lemma first_ids:
  "object_id short_hash KTree empty_body \<noteq> object_id short_hash KTree dir_body"
  "object_id short_hash KTree b \<noteq> object_id short_hash KSnapshot c"
proof -
  show "object_id short_hash KTree empty_body \<noteq> object_id short_hash KTree dir_body"
    using first_bodies short_hash_next [of KTree] by (metis zero_neq_one)
  show "object_id short_hash KTree b \<noteq> object_id short_hash KSnapshot c"
    using short_hash_tag [of KTree b] short_hash_tag [of KSnapshot c] by auto
qed

definition first_contents :: contents where
  "first_contents = map_of (map (\<lambda>(k, b). (object_id short_hash k b, (k, b)))
     [(KTree, empty_body), (KTree, dir_body), (KSnapshot, snap_body)])"

lemma first_holds: "holds short_hash first_contents (empty_tree_object # staged_of (snd first_commit))"
  using first_ids
  by (simp add: first_staged first_contents_def holds_def empty_body_def [symmetric] eq_commute)

lemma genesis_contents: "block_contents short_hash (mem_ops short_hash) genesis = Map.empty"
  by (rule ext) (simp add: block_contents_def lookup_def staged_of_def fs_new_def mem_ops_def mem_get_def)

lemma genesis_refs: "pending_refs genesis = refs_default" "refs_inv (pending_refs genesis)" "head refs_default = None"
proof -
  show r: "pending_refs genesis = refs_default" by (simp add: pending_refs_def fs_new_def)
  show "refs_inv (pending_refs genesis)" unfolding r by (rule refs_inv_default)
  show "head refs_default = None" by (simp add: refs_default_def)
qed

subsection \<open>A store with one staged chunk\<close>

abbreviation chunk_digest :: object_id where
  "chunk_digest \<equiv> object_id short_hash KChunk [1]"

abbreviation chunk_store :: mem_store where
  "chunk_store \<equiv> [(chunk_digest, (KChunk, [1]))]"

abbreviation chunk_refs :: refs where
  "chunk_refs \<equiv> refs_default\<lparr>staging := [(chunk_digest, \<lparr>st_owner = authority_actor AuthSystem, st_len = 1, st_expires_at = 9\<rparr>)]\<rparr>"

lemma chunk_contents: "store_contents (mem_ops short_hash) chunk_store = [chunk_digest \<mapsto> (KChunk, [1])]"
  by (rule ext) (simp add: store_contents_def mem_ops_def mem_get_def bt_get_Cons)

lemma chunk_typed:
  "chunks_typed (store_contents (mem_ops short_hash) chunk_store)"
  "staged_chunks_typed (store_contents (mem_ops short_hash) chunk_store) chunk_refs"
  unfolding chunk_contents
  by (simp_all add: chunks_typed_def staged_chunks_typed_def chunk_id_def)

lemma chunk_mark: "mark m n (mem_ops short_hash) chunk_refs chunk_store = Inr {chunk_digest}"
  by (simp add: mark_def Let_def refs_default_def mark_chunk_def list_of_option_def walk_of_def
      mem_ops_def mem_has_def bt_has_def bt_get_Cons)

lemma chunk_roots: "gc_roots F chunk_refs = {(chunk_digest, KChunk)}"
  by (simp add: gc_roots_def snapshot_roots_def refs_default_def list_of_option_def)

lemma chunk_reach: "x \<in> reach F {(i, KChunk)} \<Longrightarrow> x = (i, KChunk)"
  by (induction rule: reach.induct) auto

lemma chunk_store_valid: "mem_valid short_hash chunk_store"
  by (simp add: mem_valid_def)

subsection \<open>A first blob\<close>

lemma genesis_blob_room:
  "refuse_refs_growth refs_default (staged_entry_len System) HISTORY_WINDOW = Inr ()"
  by (simp add: refuse_refs_growth_def ensure_def encoded_refs_len_def refs_commit_headroom_def refs_default_def
      staged_entry_len_def opt_len_def caps)

lemma genesis_blob_step:
  "\<exists>p'. putblob_step short_hash AuthSystem 1 [1] (genesis\<lparr>pending := Some forked\<rparr>) forked = Inr p'"
proof -
  have s: "staging refs_default = []" by (simp add: refs_default_def)
  have "window_cap (genesis\<lparr>pending := Some forked\<rparr>) = HISTORY_WINDOW" by (simp add: fs_new_def)
  moreover have "staging_entry_cap (genesis\<lparr>pending := Some forked\<rparr>) > 0"
    "staging_entry_cap_per_owner (genesis\<lparr>pending := Some forked\<rparr>) > 0" by (simp_all add: fs_new_def caps)
  moreover have "\<not> quota (genesis\<lparr>pending := Some forked\<rparr>) < saturating_add64 0 1"
    by (simp add: fs_new_def STAGING_QUOTA_BYTES_def saturating_add64_def)
  moreover have "\<not> CHUNK_SIZE < 1" by (simp add: CHUNK_SIZE_def)
  ultimately show ?thesis
    using genesis_blob_room by (simp add: putblob_step_def Let_def owner_usage_def s bt_has_def)
qed

lemma first_blob: "\<exists>fs'. putblob short_hash AuthSystem 1 [1] genesis = (Inr (), fs')"
proof -
  let ?g = "genesis\<lparr>pending := Some forked\<rparr>"
  have g: "require_pending 1 ?g = ?g" by (simp add: require_pending_def fs_new_def)
  obtain p' where "putblob_step short_hash AuthSystem 1 [1] ?g forked = Inr p'" using genesis_blob_step by blast
  moreover have "sweep_expired 1 refs_default = refs_default" by (simp add: sweep_expired_def refs_default_def)
  ultimately have s: "swept 1 (putblob_step short_hash AuthSystem 1 [1]) ?g = (Inr (), ?g\<lparr>pending := Some p'\<rparr>)"
    unfolding swept_def g by simp
  have c: "checked_add64 (source_revision refs_default) 1 = Some 1"
    by (simp add: checked_add64_def refs_default_def)
  have r: "pending_refs ?g = refs_default" by (simp add: pending_refs_def)
  show ?thesis
    unfolding putblob_def transact_def genesis_forked Let_def r by (simp add: s c authority_validate_def)
qed

end
