(* ===== verification/Divergence.thy ===== *)
theory Divergence
  imports Scenario
begin

text \<open>
  A node's local objects reach the outcome of a commit. The presence probe of \<open>stage_object\<close> skips an
  inline chunk that the store happens to hold, and the chunk then is in none of the sources that
  \<open>chunk_stat\<close> consults, so a reference to it in the same commit is refused; on a node without the
  chunk the same commit is accepted.
\<close>

definition orphan_changes :: "change list" where
  "orphan_changes =
     [Put [47, 97] False [] (Inline [1]), Put [47, 98] False [] (Chunks 1 [to_hex chunk_digest])]"

abbreviation chunk_file :: bytes where
  "chunk_file \<equiv> file_encode \<lparr>f_size = 1, f_chunks = [chunk_digest], f_meta = []\<rparr>"

abbreviation file_id :: object_id where
  "file_id \<equiv> object_id short_hash KFile chunk_file"

lemma chunk_not_file: "chunk_digest \<noteq> object_id short_hash KFile b"
  using short_hash_tag [of KChunk "[1]"] short_hash_tag [of KFile b] by auto

lemma path_b: "canonical id [47, 98] = Inr [[98]]"
  by (simp add: canonical_def SLASH_def check_segment_def caps str_def)

lemma admit_a: "canon_authorized id AuthSystem [47, 97] = Inr [[97]]"
  by (simp add: canon_authorized_def path_a check_authority_def)

lemma admit_b: "canon_authorized id AuthSystem [47, 98] = Inr [[98]]"
  by (simp add: canon_authorized_def path_b check_authority_def)

lemma one_piece: "chunk_pieces [1] = [[1]]"
  by (subst chunk_pieces.simps) (simp add: chunk_pieces.simps [of "[]"])

definition node_view :: "mem_store \<Rightarrow> view" where
  "node_view s = fs_view (mem_ops short_hash) ((fs_new s refs_default)\<lparr>pending := Some forked\<rparr>) forked"

lemma probe:
  assumes "length (rs_gets rs) + length (rs_stats rs) < 256"
  shows "\<exists>rs'. has_committed (node_view s) i rs = Inr (bt_has s i, rs') \<and> rs_gets rs' = rs_gets rs \<and>
    length (rs_stats rs') \<le> length (rs_stats rs) + 1"
  using assms
  by (auto simp: has_committed_def node_view_def fs_view_def charge_stat_def budget_check_def fs_new_def caps
      mem_ops_def mem_has_def sbind_def sret_def Let_def bt_has_def ensure_def List.insert_def)

abbreviation few :: "reads \<Rightarrow> nat \<Rightarrow> bool" where
  "few rs n \<equiv> length (rs_gets rs) + length (rs_stats rs) \<le> n"

lemma stage_step:
  assumes "few rs n" "n < 256" "\<not> bt_has ids (object_id short_hash k b)"
  shows "\<exists>rs'. few rs' (n + 1) \<and> stage_object short_hash (node_view s) [] k b (objs, ids) rs =
    Inr ((object_id short_hash k b,
      if bt_has s (object_id short_hash k b) then (objs, ids)
      else (objs @ [(k, b)], bt_insert (object_id short_hash k b) (k, of_nat (length b)) ids)), rs')"
proof -
  obtain rs' where "has_committed (node_view s) (object_id short_hash k b) rs =
      Inr (bt_has s (object_id short_hash k b), rs')" "rs_gets rs' = rs_gets rs"
      "length (rs_stats rs') \<le> length (rs_stats rs) + 1"
    using probe [of rs s "object_id short_hash k b"] assms(1,2) by auto
  then show ?thesis
    using assms(1,3) by (intro exI [of _ rs']) (auto simp: stage_object_def Let_def sbind_def sret_def bt_has_def)
qed

lemma stage_again:
  "bt_has ids (object_id short_hash k b) \<Longrightarrow>
   stage_object short_hash v [] k b (objs, ids) rs = Inr ((object_id short_hash k b, (objs, ids)), rs)"
  by (simp add: stage_object_def Let_def sret_def)

definition leaf_entry :: tree_entry where
  "leaf_entry = \<lparr>e_kind = EFile, e_id = file_id, e_exec = False, e_size = 1\<rparr>"

definition orphan_plan :: "stage_state \<Rightarrow> plan_state" where
  "orphan_plan st = \<lparr>ps_stage = st, ps_plan = [PlanPut [[97]] leaf_entry, PlanPut [[98]] leaf_entry],
     ps_touched = [([47, 97], [[97]]), ([47, 98], [[98]])], ps_seen = {[47, 98], [47, 97]},
     ps_chunk_refs = [chunk_digest, chunk_digest], ps_checks = [(1, [chunk_digest])], ps_inline = 1\<rparr>"

lemma joins: "join_segs [[97]] = [47, 97]" "join_segs [[98]] = [47, 98]"
  by (simp_all add: join_segs_def SLASH_def)

lemma chunks_valid: "validate_chunks 1 [to_hex chunk_digest] = Inr [chunk_digest]"
proof -
  have "verify_file_shape 1 1 = Inr ()" by (subst verify_file_shape_count) simp_all
  moreover have "from_hex_32 (to_hex chunk_digest) = Some chunk_digest"
    using short_hash_32 by (simp add: from_hex_32_iff object_id_def)
  ultimately show ?thesis by (simp add: validate_chunks_def caps)
qed

text \<open>Planning stages the chunk only where it is not held.\<close>

lemma orphan_plan_run:
  assumes "\<not> bt_has s file_id"
  shows "\<exists>rs' st. few rs' 2 \<and>
    sfold (plan_change short_hash id Some (node_view s) [] AuthSystem) plan_start orphan_changes no_reads
      = Inr (orphan_plan st, rs') \<and>
    bt_get (snd st) chunk_digest = (if bt_has s chunk_digest then None else Some (KChunk, 1)) \<and>
    bt_get (snd st) file_id \<noteq> None"
proof -
  have f0: "few no_reads 0" by (simp add: no_reads_def)
  define st1 where "st1 = (if bt_has s chunk_digest then ([], []) else
    ([(KChunk, [1 :: byte])], bt_insert chunk_digest (KChunk, 1 :: u64) []))"
  obtain r1 where r1: "few r1 1" "stage_object short_hash (node_view s) [] KChunk [1] ([], []) no_reads = Inr ((chunk_digest, st1), r1)"
    using stage_step [OF f0, of "[]" KChunk "[1]" s "[]"] by (auto simp: st1_def bt_has_def)
  have nf: "\<not> bt_has (snd st1) file_id"
    using chunk_not_file [of chunk_file] by (auto simp: st1_def bt_has_def bt_get_insert bt_get_Cons)
  define st2 where "st2 = (fst st1 @ [(KFile, chunk_file)], bt_insert file_id (KFile, of_nat (length chunk_file) :: u64) (snd st1))"
  obtain r2 where r2: "few r2 2" "stage_object short_hash (node_view s) [] KFile chunk_file st1 r1 = Inr ((file_id, st2), r2)"
    using stage_step [OF r1(1), of "snd st1" KFile chunk_file s "fst st1"] nf assms by (auto simp: st2_def numeral_2_eq_2)
  have wf: "bt_wf (snd st1)" by (simp add: st1_def bt_wf_insert)
  have has: "bt_has (snd st2) file_id" using wf by (simp add: st2_def bt_has_def bt_get_insert)
  have again: "stage_object short_hash (node_view s) [] KFile chunk_file st2 r2 = Inr ((file_id, st2), r2)"
    using stage_again [OF has, of "node_view s" "fst st2" r2] by simp
  have "chunk_bytes short_hash (node_view s) [] [1] ([], []) no_reads = Inr (([chunk_digest], st1), r1)"
    using r1(2) by (simp add: chunk_bytes_def one_piece sbind_def sret_def)
  then have c1: "plan_content short_hash Some (node_view s) [] [] (Inline [1]) plan_start no_reads =
      Inr ((file_id, [chunk_digest], 1, plan_start\<lparr>ps_stage := st2, ps_inline := 1\<rparr>), r2)"
    using r2(2) by (simp add: plan_content_def plan_start_def stage_fileobj_def sbind_def slift_def sret_def caps Let_def)
  have c2: "plan_content short_hash Some (node_view s) [] [] (Chunks 1 [to_hex chunk_digest]) ps r2 =
      Inr ((file_id, [chunk_digest], 1, ps\<lparr>ps_stage := st2, ps_checks := ps_checks ps @ [(1, [chunk_digest])]\<rparr>), r2)"
    if "ps_stage ps = st2" for ps
    using again that by (simp add: plan_content_def chunks_valid stage_fileobj_def sbind_def slift_def sret_def)
  have m: "validate_meta [] = Inr ()" by (simp add: validate_meta_def)
  have p1: "plan_change short_hash id Some (node_view s) [] AuthSystem plan_start (Put [47, 97] False [] (Inline [1])) no_reads =
      Inr (\<lparr>ps_stage = st2, ps_plan = [PlanPut [[97]] leaf_entry], ps_touched = [([47, 97], [[97]])], ps_seen = {[47, 97]},
        ps_chunk_refs = [chunk_digest], ps_checks = [], ps_inline = 1\<rparr>, r2)"
    by (simp add: plan_change_def admit_a joins dedup_def m c1 sbind_def slift_def sret_def plan_op_def leaf_entry_def)
      (simp add: plan_start_def)
  have p2: "plan_change short_hash id Some (node_view s) [] AuthSystem
      \<lparr>ps_stage = st2, ps_plan = [PlanPut [[97]] leaf_entry], ps_touched = [([47, 97], [[97]])], ps_seen = {[47, 97]},
        ps_chunk_refs = [chunk_digest], ps_checks = [], ps_inline = 1\<rparr>
      (Put [47, 98] False [] (Chunks 1 [to_hex chunk_digest])) r2 = Inr (orphan_plan st2, r2)"
    by (simp add: plan_change_def admit_b joins dedup_def m c2 sbind_def slift_def sret_def plan_op_def leaf_entry_def
        orphan_plan_def)
  have "bt_get (snd st2) chunk_digest = (if bt_has s chunk_digest then None else Some (KChunk, 1))"
    using wf chunk_not_file [of chunk_file] by (auto simp: st2_def st1_def bt_get_insert bt_get_Cons)
  moreover have "bt_get (snd st2) file_id \<noteq> None" using has by (simp add: bt_has_def)
  moreover have "sfold (plan_change short_hash id Some (node_view s) [] AuthSystem) plan_start orphan_changes no_reads
      = Inr (orphan_plan st2, r2)"
    by (simp add: orphan_changes_def sbind_def p1 p2 sret_def del: One_nat_def)
  ultimately show ?thesis using r2(1) by blast
qed

text \<open>The node that holds the chunk refuses the reference.\<close>

lemma orphan_unavailable:
  assumes "bt_get (snd st) chunk_digest = None"
  shows "check_availability refs_default [] (snd st) [(1, [chunk_digest])] = Inl (CommitE ChunkNotAvailable)"
  using assms by (simp add: chunk_stat_def refs_default_def)

lemma orphan_available:
  assumes "bt_get (snd st) chunk_digest = Some (KChunk, 1)"
  shows "check_availability refs_default [] (snd st) [(1, [chunk_digest])] = Inr ()"
proof -
  have "verify_chunk_len_at 1 1 0 1 = Inr ()" using verify_last_chunk [of 1 1 1] by simp
  then show ?thesis using assms by (simp add: chunk_stat_def refs_default_def)
qed

lemma sweep_default: "sweep_expired h refs_default = refs_default"
  by (simp add: sweep_expired_def refs_default_def)

lemma orphan_refused:
  assumes "\<not> bt_has s file_id" "bt_has s chunk_digest"
  shows "commit_apply short_hash id Some (node_view s) [] refs_default AuthSystem 1 2 None [] orphan_changes cap no_reads
    = Inl (CommitE ChunkNotAvailable)"
proof -
  obtain rs st where p: "sfold (plan_change short_hash id Some (node_view s) [] AuthSystem) plan_start orphan_changes no_reads
      = Inr (orphan_plan st, rs)" and "bt_get (snd st) chunk_digest = None"
    using orphan_plan_run [OF assms(1)] assms(2) by auto
  then have "check_availability refs_default [] (snd (ps_stage (orphan_plan st))) (ps_checks (orphan_plan st)) =
      Inl (CommitE ChunkNotAvailable)"
    using orphan_unavailable by (simp add: orphan_plan_def)
  moreover have "length orphan_changes = 2" "orphan_changes \<noteq> []" by (simp_all add: orphan_changes_def)
  ultimately show ?thesis
    using p unfolding commit_apply_def Let_def sweep_default
    by (simp add: resolve_base_def effective_root_of_def genesis_refs(3) sbind_def slift_def sret_def caps)
qed

lemma orphan_edit:
  "sfold (apply_op short_hash v) (NDir []) [PlanPut [[97]] leaf_entry, PlanPut [[98]] leaf_entry] rs =
     Inr (NDir [([97], NRef leaf_entry), ([98], NRef leaf_entry)], rs)"
  by (simp add: apply_op_def edit_put_def materialize_def sbind_def slift_def sret_def)

lemma orphan_accepted:
  assumes "\<not> bt_has s file_id" "\<not> bt_has s chunk_digest"
  shows "\<exists>built rs. commit_apply short_hash id Some (node_view s) [] refs_default AuthSystem 1 2 None [] orphan_changes cap no_reads
    = Inr (built, rs)"
proof -
  obtain rs st where p: "sfold (plan_change short_hash id Some (node_view s) [] AuthSystem) plan_start orphan_changes no_reads
      = Inr (orphan_plan st, rs)" and "bt_get (snd st) chunk_digest = Some (KChunk, 1)"
    using orphan_plan_run [OF assms(1)] assms(2) by auto
  then have "check_availability refs_default [] (snd (ps_stage (orphan_plan st))) (ps_checks (orphan_plan st)) = Inr ()"
    using orphan_available by (simp add: orphan_plan_def)
  moreover have "length orphan_changes = 2" "orphan_changes \<noteq> []" by (simp_all add: orphan_changes_def)
  moreover obtain e out where "edit_build short_hash (NDir [([97], NRef leaf_entry), ([98], NRef leaf_entry)]) = Inr (Some e, out)"
    by (simp add: edit_build_def caps Let_def)
  ultimately show ?thesis
    using p orphan_edit [of "node_view s"] unfolding commit_apply_def Let_def sweep_default
    by (simp add: resolve_base_def effective_root_of_def genesis_refs(3) sbind_def slift_def sret_def caps
        orphan_plan_def entry_at_def edit_load_def stage_root_def del: sfold.simps)
qed

text \<open>The verb on two nodes that agree on the refs and differ in one stored object.\<close>

lemma commit_genesis:
  "fst (commit short_hash id Some (mem_ops short_hash) AuthSystem 1 2 None [] orphan_changes (fs_new s refs_default)) =
    (case commit_apply short_hash id Some (node_view s) [] refs_default AuthSystem 1 2 None [] orphan_changes HISTORY_WINDOW no_reads of
       Inl e \<Rightarrow> Inl e | Inr (built, _) \<Rightarrow> Inr (cb_notifications built))"
proof -
  let ?g = "(fs_new s refs_default)\<lparr>pending := Some forked\<rparr>"
  have g: "require_pending 1 (fs_new s refs_default) = ?g" "require_pending 1 ?g = ?g" "window_cap ?g = HISTORY_WINDOW"
    by (simp_all add: require_pending_def fs_new_def)
  have "checked_add64 (source_revision refs_default) 1 \<noteq> None" by (simp add: checked_add64_def refs_default_def)
  then show ?thesis
    by (auto simp: commit_def transact_def authority_validate_def g Let_def pending_refs_def commit_op_def
        node_view_def split: option.splits sum.splits)
qed

lemma orphan_decides:
  "fst (commit short_hash id Some (mem_ops short_hash) AuthSystem 1 2 None [] orphan_changes (fs_new chunk_store refs_default))
     = Inl (CommitE ChunkNotAvailable) \<and>
   (\<exists>n. fst (commit short_hash id Some (mem_ops short_hash) AuthSystem 1 2 None [] orphan_changes genesis) = Inr n)"
proof
  have "bt_has chunk_store chunk_digest" "\<not> bt_has chunk_store file_id"
    using chunk_not_file [of chunk_file] by (simp_all add: bt_has_def bt_get_Cons)
  then show "fst (commit short_hash id Some (mem_ops short_hash) AuthSystem 1 2 None [] orphan_changes
      (fs_new chunk_store refs_default)) = Inl (CommitE ChunkNotAvailable)"
    unfolding commit_genesis by (simp add: orphan_refused)
  have "\<not> bt_has [] file_id" "\<not> bt_has [] chunk_digest" by (simp_all add: bt_has_def)
  from orphan_accepted [OF this, of HISTORY_WINDOW]
  show "\<exists>n. fst (commit short_hash id Some (mem_ops short_hash) AuthSystem 1 2 None [] orphan_changes genesis) = Inr n"
    unfolding commit_genesis by auto
qed

subsection \<open>The empty symbolic link\<close>

text \<open>
  A symbolic link with an empty target is committed as a file object of size 0 with one chunk, a
  shape that \<open>verify_file_shape\<close> rules out, so no node can ingest the object over sync.
\<close>

abbreviation link_body :: bytes where
  "link_body \<equiv> file_encode (link_file short_hash [])"

abbreviation link_entry :: tree_entry where
  "link_entry \<equiv> file_leaf short_hash ESymlink False (link_file short_hash [])"

abbreviation link_commit :: "notification list res \<times> mem_store fs" where
  "link_commit \<equiv> commit short_hash id Some (mem_ops short_hash) AuthSystem 1 2 None [] [Symlink [47, 97] []] genesis"

lemma link_shape: "verify_file_shape (f_size (link_file H [])) (length (f_chunks (link_file H []))) \<noteq> Inr ()"
  by (simp add: link_file_def verify_file_shape_def)

lemma link_file_ok: "\<forall>b. length (H b) = 32 \<Longrightarrow> file_ok (link_file H [])"
  by (simp add: file_ok_def link_file_def meta_ok_def object_id_def caps)

lemma link_never_ingested:
  assumes "\<forall>b. length (H b) = 32"
  shows "ingest_object H ops (object_id H KFile (file_encode (link_file H []))) (kind_tag KFile)
    (file_encode (link_file H [])) fs = (Inl (SyncE IngestFileShape), fs)"
proof -
  have d: "file_decode (file_encode (link_file H [])) = Inr (link_file H [])"
    using link_file_ok [OF assms] by (rule file_decode_encode)
  obtain e where "verify_file_shape (f_size (link_file H [])) (length (f_chunks (link_file H []))) = Inl e"
    using link_shape [of H] by (cases "verify_file_shape (f_size (link_file H [])) (length (f_chunks (link_file H [])))") auto
  then show ?thesis using d by (simp add: ingest_object_def kind_from_u8_tag del: kind_tag.simps)
qed

lemma link_plan_run:
  "\<exists>rs st. sfold (plan_change short_hash id Some (node_view []) [] AuthSystem) plan_start [Symlink [47, 97] []] no_reads
      = Inr (plan_op (PlanPut [[97]] link_entry) [[[97]]] {[47, 97]}
          (plan_start\<lparr>ps_stage := st, ps_chunk_refs := [object_id short_hash KChunk []]\<rparr>), rs) \<and>
    (KFile, link_body) \<in> set (fst st)"
proof -
  let ?c = "object_id short_hash KChunk []" and ?l = "object_id short_hash KFile link_body"
  have f0: "few no_reads 0" by (simp add: no_reads_def)
  have e: "\<not> bt_has ([] :: mem_store) i" "\<not> bt_has ([] :: block_index) i" for i by (simp_all add: bt_has_def)
  obtain r1 where r1: "few r1 1" "stage_object short_hash (node_view []) [] KChunk [] ([], []) no_reads =
      Inr ((?c, ([(KChunk, [])], bt_insert ?c (KChunk, 0) [])), r1)"
    using stage_step [OF f0, of "[]" KChunk "[]" "[]" "[]"] e by auto
  have "?c \<noteq> ?l" using short_hash_tag [of KChunk "[]"] short_hash_tag [of KFile link_body] by auto
  then have "\<not> bt_has (bt_insert ?c (KChunk, 0 :: u64) []) ?l" by (simp add: bt_has_def bt_get_Cons)
  then obtain r2 where r2: "stage_object short_hash (node_view []) [] KFile link_body
      ([(KChunk, [])], bt_insert ?c (KChunk, 0) []) r1 =
      Inr ((?l, ([(KChunk, []), (KFile, link_body)], bt_insert ?l (KFile, of_nat (length link_body)) (bt_insert ?c (KChunk, 0) []))), r2)"
    using stage_step [OF r1(1), of "bt_insert ?c (KChunk, 0) []" KFile link_body "[]" "[(KChunk, [])]"] e by auto
  show ?thesis
    using r1(2) r2
    by (intro exI [of _ r2] exI [of _ "([(KChunk, []), (KFile, link_body)], bt_insert ?l (KFile, of_nat (length link_body)) (bt_insert ?c (KChunk, 0) []))"])
      (simp add: plan_change_def admit_a joins dedup_def plan_start_def sbind_def slift_def sret_def caps file_leaf_def
        link_file_def plan_op_def)
qed

lemma link_apply:
  "\<exists>built rs. commit_apply short_hash id Some (node_view []) [] refs_default AuthSystem 1 2 None [] [Symlink [47, 97] []] cap no_reads
    = Inr (built, rs) \<and> (KFile, link_body) \<in> set (cb_objects built)"
proof -
  obtain rs st where p: "sfold (plan_change short_hash id Some (node_view []) [] AuthSystem) plan_start [Symlink [47, 97] []] no_reads
      = Inr (plan_op (PlanPut [[97]] link_entry) [[[97]]] {[47, 97]}
          (plan_start\<lparr>ps_stage := st, ps_chunk_refs := [object_id short_hash KChunk []]\<rparr>), rs)"
    and b: "(KFile, link_body) \<in> set (fst st)"
    using link_plan_run by blast
  have ed: "sfold (apply_op short_hash (node_view [])) (NDir []) [PlanPut [[97]] link_entry] rs = Inr (NDir [([97], NRef link_entry)], rs)"
    by (simp add: apply_op_def edit_put_def materialize_def sbind_def slift_def sret_def)
  obtain e out where bu: "edit_build short_hash (NDir [([97], NRef link_entry)]) = Inr (Some e, out)"
    by (simp add: edit_build_def caps Let_def)
  show ?thesis
    using p ed bu b unfolding commit_apply_def Let_def sweep_default
    by (simp add: resolve_base_def effective_root_of_def genesis_refs(3) sbind_def slift_def sret_def caps
        plan_op_def plan_start_def entry_at_def edit_load_def stage_root_def seal_commit_def Let_def del: sfold.simps)
qed

lemma link_committed:
  "\<exists>n. fst link_commit = Inr n \<and> (KFile, link_body) \<in> set (staged_of (snd link_commit))"
proof -
  let ?g = "genesis\<lparr>pending := Some forked\<rparr>"
  obtain built rs where c: "commit_apply short_hash id Some (node_view []) [] refs_default AuthSystem 1 2 None []
      [Symlink [47, 97] []] HISTORY_WINDOW no_reads = Inr (built, rs)" and b: "(KFile, link_body) \<in> set (cb_objects built)"
    using link_apply by blast
  have g: "require_pending 1 genesis = ?g" "require_pending 1 ?g = ?g" "window_cap ?g = HISTORY_WINDOW"
    by (simp_all add: require_pending_def fs_new_def)
  obtain k where "checked_add64 (source_revision refs_default) 1 = Some k" by (simp add: checked_add64_def refs_default_def)
  then obtain n where "link_commit = (Inr n, snd link_commit)" "pending ?g \<noteq> None"
    using c by (auto simp: commit_def transact_def authority_validate_def g Let_def pending_refs_def commit_op_def node_view_def)
  from commit_accepted [OF this(1)] obtain built2 rs2 where
    "commit_apply short_hash id Some (forked_view (mem_ops short_hash) 1 genesis) (block_objects genesis) (pending_refs genesis)
      AuthSystem 1 2 None [] [Symlink [47, 97] []] (window_cap genesis) no_reads = Inr (built2, rs2)"
    "staged_of (snd link_commit) = staged_of genesis @ cb_objects built2"
    by blast
  moreover have "forked_view (mem_ops short_hash) 1 genesis = node_view []" "block_objects genesis = []"
    "pending_refs genesis = refs_default" "window_cap genesis = HISTORY_WINDOW"
    by (simp_all add: forked_view_def g node_view_def block_objects_def genesis_refs(1)) (simp_all add: fs_new_def)
  ultimately have "staged_of (snd link_commit) = staged_of genesis @ cb_objects built" using c by simp
  then show ?thesis using b \<open>link_commit = (Inr n, snd link_commit)\<close> by (metis Un_iff fst_conv set_append)
qed

end
