(* ===== verification/Queries.thy ===== *)
theory Queries
  imports Fs_Core
begin

text \<open>
  crates/duckfs/core/src/queries.rs with the read types of wire.rs: the committed reads. A query
  opens the committed store with no pending overlay and no budget, so it runs in the reading monad
  without ever charging it. The recursive walks over stored trees carry fuel. \<open>nfc\<close> and
  \<open>b64_encode\<close> are the crates unicode-normalization and base64, parameters.
\<close>

subsection \<open>The read wire\<close>

datatype files_query =
    QStat rstring "rstring option"
  | QLs rstring "rstring option" "rstring option" u64
  | QRead rstring "rstring option" u64 u64
  | QFind rstring "rstring option" "rstring option" u64
  | QGrep rstring rstring "rstring option" "rstring option" u64
  | QHistory u64
  | QDiff rstring rstring rstring
  | QRefs
  | QRetention rstring rstring
  | QHasChunks "rstring list"

datatype entry_kind_wire = WFile | WDir | WSymlink

record wire_entry =
  ei_path :: rstring
  ei_kind :: entry_kind_wire
  ei_size :: u64
  ei_exec :: bool
  ei_object :: rstring
  ei_meta :: "(rstring, rstring) btree"

record snapshot_info =
  si_id :: rstring
  si_parent :: "rstring option"
  si_root_tree :: rstring
  si_author :: actor
  si_height :: u64
  si_time :: u64
  si_message :: rstring

datatype diff_kind = Added | Removed | Modified

record diff_entry =
  de_path :: rstring
  de_kind :: diff_kind

record grep_hit =
  gh_path :: rstring
  gh_line :: u64
  gh_text :: rstring
  gh_locator :: rstring

record refs_info =
  ri_head :: "rstring option"
  ri_pins :: "(rstring, rstring) btree"
  ri_window_len :: u64

datatype files_reply =
    RStat "wire_entry option"
  | RLs "wire_entry list" "rstring option"
  | RRead rstring bool
  | RFind "wire_entry list" "rstring option"
  | RGrep "grep_hit list" "rstring option"
  | RHistory "snapshot_info list"
  | RDiff "diff_entry list"
  | RRefs refs_info
  | RRetention "retention_reference option"
  | RHasChunks "bool list"

definition MAX_DIFF_ENTRIES :: nat where "MAX_DIFF_ENTRIES = unat MAX_PAGE * 16"

subsection \<open>Helpers\<close>

text \<open>\<open>u64::clamp(1, MAX_PAGE) as usize\<close>.\<close>

definition page_limit :: "u64 \<Rightarrow> nat" where
  "page_limit limit = unat (if limit < 1 then 1 else if limit > MAX_PAGE then MAX_PAGE else limit)"

definition subtree_may_match :: "rstring \<Rightarrow> rstring \<Rightarrow> bool" where
  "subtree_may_match child pre \<longleftrightarrow> prefix pre child \<or> prefix child pre"

definition path_after :: "rstring \<Rightarrow> rstring option \<Rightarrow> bool" where
  "path_after path cursor = (case cursor of
     None \<Rightarrow> True
   | Some c \<Rightarrow> split_slash c < split_slash path)"

fun zip_after :: "(rstring \<times> rstring) list \<Rightarrow> bool" where
  "zip_after [] = True"
| "zip_after ((c, a) # rest) = (if c < a then False else if a < c then True else zip_after rest)"

definition subtree_after :: "rstring \<Rightarrow> rstring option \<Rightarrow> bool" where
  "subtree_after child cursor = (case cursor of
     None \<Rightarrow> True
   | Some c \<Rightarrow> zip_after (zip (split_slash child) (split_slash c)))"

text \<open>\<open>str::is_char_boundary\<close> and the search for one, downwards.\<close>

definition is_char_boundary :: "rstring \<Rightarrow> nat \<Rightarrow> bool" where
  "is_char_boundary s i \<longleftrightarrow> i = 0 \<or> i = length s \<or> (i < length s \<and> \<not> cont (s ! i))"

fun char_floor :: "rstring \<Rightarrow> nat \<Rightarrow> nat" where
  "char_floor s 0 = 0"
| "char_floor s (Suc k) = (if is_char_boundary s (Suc k) then Suc k else char_floor s k)"

definition truncate_str :: "rstring \<Rightarrow> nat \<Rightarrow> rstring" where
  "truncate_str s max_bytes =
     (if length s \<le> max_bytes then s else take (char_floor s max_bytes) s)"

text \<open>
  \<open>String::from_utf8_lossy\<close>: a well-formed sequence is copied, and each maximal part of an ill-formed
  one becomes U+FFFD.
\<close>

definition bad_len :: "byte \<Rightarrow> bytes \<Rightarrow> nat" where
  "bad_len a bs =
     (if utf8_width a \<le> 2 \<or> bs = [] \<or> \<not> cont (hd bs) \<or> \<not> utf8_second a (hd bs) then 1
      else if utf8_width a = 3 \<or> length bs < 2 \<or> \<not> cont (bs ! 1) then 2
      else 3)"

function utf8_lossy :: "bytes \<Rightarrow> rstring" where
  "utf8_lossy [] = []"
| "utf8_lossy (a # bs) =
     (if utf8_lead a bs
      then a # take (utf8_width a - 1) bs @ utf8_lossy (drop (utf8_width a - 1) bs)
      else [0xEF, 0xBF, 0xBD] @ utf8_lossy (drop (bad_len a bs - 1) bs))"
  by pat_completeness auto
termination by (relation "measure length") auto

text \<open>\<open>bytes.split(|&b| b == c)\<close>.\<close>

fun split_byte :: "byte \<Rightarrow> bytes \<Rightarrow> bytes list" where
  "split_byte c [] = [[]]"
| "split_byte c (b # bs) =
     (if b = c then [] # split_byte c bs
      else (case split_byte c bs of [] \<Rightarrow> [[b]] | s # ss \<Rightarrow> (b # s) # ss))"

definition wire_kind :: "entry_kind \<Rightarrow> entry_kind_wire" where
  "wire_kind k = (case k of EFile \<Rightarrow> WFile | EDir \<Rightarrow> WDir | ESymlink \<Rightarrow> WSymlink)"

definition dir_entries :: "(bytes \<Rightarrow> object_id) \<Rightarrow> view \<Rightarrow> object_id option \<Rightarrow>
    (rstring, tree_entry) btree reading" where
  "dir_entries H v dir_tree = (case dir_tree of
     None \<Rightarrow> sret []
   | Some i \<Rightarrow>
       sbind (store_get H v i) (\<lambda>o1. sbind (slift (ok_or o1 (TreeE TreeMissing))) (\<lambda>(kind, body).
         if kind \<noteq> KTree then slift (Inl (TreeE ExpectedTree))
         else slift (rbind (tree_decode body) (\<lambda>t. Inr (t_entries t))))))"

definition load_fileobj :: "(bytes \<Rightarrow> object_id) \<Rightarrow> view \<Rightarrow> object_id \<Rightarrow> file_obj reading" where
  "load_fileobj H v i =
     sbind (store_get H v i) (\<lambda>o1. sbind (slift (ok_or o1 (QueryE FileMissing))) (\<lambda>(kind, body).
       if kind \<noteq> KFile then slift (Inl (QueryE ExpectedFile)) else slift (file_decode body)))"

definition entry_info :: "(bytes \<Rightarrow> object_id) \<Rightarrow> view \<Rightarrow> rstring \<Rightarrow> tree_entry \<Rightarrow> wire_entry reading" where
  "entry_info H v path entry =
     sbind (if e_kind entry = EDir then sret []
            else sbind (load_fileobj H v (e_id entry)) (\<lambda>f. sret (f_meta f))) (\<lambda>meta.
       sret \<lparr>ei_path = path, ei_kind = wire_kind (e_kind entry), ei_size = e_size entry,
             ei_exec = e_exec entry, ei_object = to_hex (e_id entry), ei_meta = meta\<rparr>)"

text \<open>One step of the loop of \<open>read_range\<close>, and the loop.\<close>

definition read_chunk :: "(bytes \<Rightarrow> object_id) \<Rightarrow> view \<Rightarrow> file_obj \<Rightarrow> u64 \<Rightarrow> u64 \<Rightarrow> bytes \<Rightarrow> nat \<Rightarrow> bytes reading" where
  "read_chunk H v file offset stop out index =
     sbind (slift (ok_or (if index < length (f_chunks file) then Some (f_chunks file ! index) else None)
         (QueryE FewerChunksThanSize))) (\<lambda>chunk_id.
     sbind (store_get H v chunk_id) (\<lambda>o1. sbind (slift (ok_or o1 (QueryE (ChunkMissing chunk_id)))) (\<lambda>(kind, body).
       if kind \<noteq> KChunk then slift (Inl (QueryE ExpectedChunk))
       else case verify_chunk_len file index (of_nat (length body)) of
         Inl _ \<Rightarrow> slift (Inl (QueryE (ChunkLengthInconsistent chunk_id)))
       | Inr _ \<Rightarrow>
           let chunk_start = of_nat index * CHUNK_SIZE;
               chunk_end = chunk_start + of_nat (length body);
               lo = max offset chunk_start;
               hi = min stop chunk_end
           in sret (if lo < hi
                    then out @ drop (unat (lo - chunk_start)) (take (unat (hi - chunk_start)) body)
                    else out))))"

definition read_range :: "(bytes \<Rightarrow> object_id) \<Rightarrow> view \<Rightarrow> file_obj \<Rightarrow> u64 \<Rightarrow> u64 \<Rightarrow> bytes reading" where
  "read_range H v file offset len =
     (let sz = f_size file in
      if offset \<ge> sz \<or> len = 0 then sret []
      else let stop = min (saturating_add64 offset len) sz;
               first = unat (offset div CHUNK_SIZE);
               last = unat ((stop - 1) div CHUNK_SIZE)
           in sfold (read_chunk H v file offset stop) [] [first..<last + 1])"

subsection \<open>Snapshots\<close>

definition committed_store :: "'s store_ops \<Rightarrow> 's fs \<Rightarrow> view" where
  "committed_store ops fs =
     \<lparr>v_get = so_get ops (store fs), v_has = so_has ops (store fs), v_pending = [], v_budget = None\<rparr>"

definition resolve_head :: "(bytes \<Rightarrow> object_id) \<Rightarrow> 's store_ops \<Rightarrow> 's fs \<Rightarrow> rstring option \<Rightarrow>
    object_id option reading" where
  "resolve_head H ops fs snapshot = (case snapshot of
     None \<Rightarrow> sret (head (fs_refs fs))
   | Some hex \<Rightarrow>
       sbind (slift (ok_or (from_hex_32 hex) (FsE SnapshotNotResolvable))) (\<lambda>i.
       sbind (refs_contains_snapshot H (committed_store ops fs) (fs_refs fs) i) (\<lambda>known.
         if \<not> known then slift (Inl (FsE SnapshotNotResolvable)) else sret (Some i))))"

definition committed_view :: "(bytes \<Rightarrow> object_id) \<Rightarrow> 's store_ops \<Rightarrow> 's fs \<Rightarrow> rstring option \<Rightarrow>
    object_id option reading" where
  "committed_view H ops fs snapshot =
     sbind (resolve_head H ops fs snapshot) (\<lambda>hd. case hd of
       None \<Rightarrow> sret None
     | Some snap \<Rightarrow> sbind (snapshot_root_tree H (committed_store ops fs) snap) (\<lambda>root. sret (Some root)))"

subsection \<open>Stat, ls, read and the refs summary\<close>

definition stat :: "(bytes \<Rightarrow> object_id) \<Rightarrow> (rstring \<Rightarrow> rstring) \<Rightarrow> 's store_ops \<Rightarrow> 's fs \<Rightarrow> rstring \<Rightarrow>
    rstring option \<Rightarrow> files_reply reading" where
  "stat H nfc ops fs path snapshot =
     (let v = committed_store ops fs in
      sbind (committed_view H ops fs snapshot) (\<lambda>root_tree.
      sbind (slift (canonical nfc path)) (\<lambda>segs.
      if segs = [] then sret (RStat None)
      else sbind (entry_at H v root_tree segs) (\<lambda>x. case x of
        None \<Rightarrow> sret (RStat None)
      | Some entry \<Rightarrow> sbind (entry_info H v (join_segs segs) entry) (\<lambda>info. sret (RStat (Some info)))))))"

text \<open>The directory a listing names, with the path its children are built under.\<close>

definition ls_dir :: "(bytes \<Rightarrow> object_id) \<Rightarrow> view \<Rightarrow> object_id option \<Rightarrow> rstring list \<Rightarrow>
    (object_id option \<times> rstring) reading" where
  "ls_dir H v root_tree segs =
     (if segs = [] then sret (root_tree, [])
      else sbind (entry_at H v root_tree segs) (\<lambda>x. case x of
        None \<Rightarrow> if is_namespace_root segs then sret (None, join_segs segs)
                else slift (Inl (QueryE PathNotFound))
      | Some entry \<Rightarrow> if e_kind entry = EDir then sret (Some (e_id entry), join_segs segs)
                      else slift (Inl (QueryE NotADirectory))))"

fun info_all :: "(bytes \<Rightarrow> object_id) \<Rightarrow> view \<Rightarrow> rstring \<Rightarrow> (rstring \<times> tree_entry) list \<Rightarrow> wire_entry list reading" where
  "info_all H v base [] = sret []"
| "info_all H v base ((name, entry) # es) =
     sbind (entry_info H v (base @ SLASH # name) entry) (\<lambda>info.
     sbind (info_all H v base es) (\<lambda>infos. sret (info # infos)))"

definition ls :: "(bytes \<Rightarrow> object_id) \<Rightarrow> (rstring \<Rightarrow> rstring) \<Rightarrow> 's store_ops \<Rightarrow> 's fs \<Rightarrow> rstring \<Rightarrow>
    rstring option \<Rightarrow> rstring option \<Rightarrow> u64 \<Rightarrow> files_reply reading" where
  "ls H nfc ops fs path snapshot after limit =
     (let v = committed_store ops fs in
      sbind (committed_view H ops fs snapshot) (\<lambda>root_tree.
      sbind (slift (canonical nfc path)) (\<lambda>segs.
      sbind (ls_dir H v root_tree segs) (\<lambda>(dir_tree, base).
      sbind (dir_entries H v dir_tree) (\<lambda>entries_map.
      let n = page_limit limit;
          rest = filter (\<lambda>(name, _). case after of Some a \<Rightarrow> a < name | None \<Rightarrow> True) entries_map
      in sbind (info_all H v base (take n rest)) (\<lambda>entries.
         sret (RLs entries (if drop n rest \<noteq> [] then Some (fst (last (take n rest))) else None))))))))"

definition read_query :: "(bytes \<Rightarrow> object_id) \<Rightarrow> (rstring \<Rightarrow> rstring) \<Rightarrow> (bytes \<Rightarrow> rstring) \<Rightarrow> 's store_ops \<Rightarrow>
    's fs \<Rightarrow> rstring \<Rightarrow> rstring option \<Rightarrow> u64 \<Rightarrow> u64 \<Rightarrow> files_reply reading" where
  "read_query H nfc b64_encode ops fs path snapshot offset len =
     (let v = committed_store ops fs in
      sbind (committed_view H ops fs snapshot) (\<lambda>root_tree.
      sbind (slift (canonical nfc path)) (\<lambda>segs.
      if segs = [] then slift (Inl (QueryE NotAFile))
      else sbind (entry_at H v root_tree segs) (\<lambda>x. case x of
        None \<Rightarrow> slift (Inl (QueryE PathNotFound))
      | Some entry \<Rightarrow>
          if e_kind entry = EDir then slift (Inl (QueryE NotAFile))
          else sbind (load_fileobj H v (e_id entry)) (\<lambda>file.
            sbind (read_range H v file offset (min len MAX_READ_BYTES)) (\<lambda>bs.
            sret (RRead (b64_encode bs)
              (saturating_add64 offset (of_nat (length bs)) \<ge> f_size file))))))))"

definition refs_query :: "'s fs \<Rightarrow> files_reply" where
  "refs_query fs = (let r = fs_refs fs in
     RRefs \<lparr>ri_head = map_option to_hex (head r),
       ri_pins = map (\<lambda>(name, p). (name, to_hex (pin_snapshot p))) (pins r),
       ri_window_len = of_nat (length (window r))\<rparr>)"

subsection \<open>Find\<close>

record find_acc =
  fa_out :: "wire_entry list"
  fa_next :: "rstring option"
  fa_done :: bool

fun find_walk :: "(bytes \<Rightarrow> object_id) \<Rightarrow> view \<Rightarrow> rstring \<Rightarrow> rstring option \<Rightarrow> nat \<Rightarrow> nat \<Rightarrow>
    object_id option \<Rightarrow> rstring \<Rightarrow> find_acc \<Rightarrow> find_acc reading" where
  "find_walk H v pre after limit 0 dir_tree base acc = slift (Inl OutOfFuel)"
| "find_walk H v pre after limit (Suc n) dir_tree base acc =
     (if fa_done acc then sret acc
      else sbind (dir_entries H v dir_tree) (\<lambda>entries.
        sfold (\<lambda>acc (name, entry).
          if fa_done acc then sret acc
          else let child = base @ SLASH # name in
            sbind (if prefix pre child \<and> path_after child after then
                     if length (fa_out acc) = limit then
                       sret (acc\<lparr>fa_next := if fa_out acc = [] then None else Some (ei_path (last (fa_out acc))),
                                 fa_done := True\<rparr>)
                     else sbind (entry_info H v child entry) (\<lambda>info. sret (acc\<lparr>fa_out := fa_out acc @ [info]\<rparr>))
                   else sret acc) (\<lambda>acc.
            if \<not> fa_done acc \<and> e_kind entry = EDir \<and> subtree_may_match child pre \<and> subtree_after child after
            then find_walk H v pre after limit n (Some (e_id entry)) child acc
            else sret acc)) acc entries))"

definition find_query :: "nat \<Rightarrow> (bytes \<Rightarrow> object_id) \<Rightarrow> 's store_ops \<Rightarrow> 's fs \<Rightarrow> rstring \<Rightarrow>
    rstring option \<Rightarrow> rstring option \<Rightarrow> u64 \<Rightarrow> files_reply reading" where
  "find_query n H ops fs pre snapshot after limit =
     sbind (committed_view H ops fs snapshot) (\<lambda>root_tree.
     sbind (find_walk H (committed_store ops fs) pre after (page_limit limit) n root_tree []
         \<lparr>fa_out = [], fa_next = None, fa_done = False\<rparr>) (\<lambda>acc.
     sret (RFind (fa_out acc) (fa_next acc))))"

subsection \<open>Grep\<close>

record grep_scan =
  gs_pattern :: rstring
  gs_prefix :: rstring
  gs_cursor :: "rstring option"
  gs_snapshot :: rstring
  gs_limit :: nat
  gs_budget :: u64

record grep_acc =
  ga_remaining :: u64
  ga_hits :: "grep_hit list"
  ga_last :: "rstring option"
  ga_next :: "rstring option"
  ga_done :: bool

text \<open>The loop over the lines of a file, numbered from \<open>i\<close>; it ends at the reply ceiling.\<close>

fun grep_lines :: "grep_scan \<Rightarrow> rstring \<Rightarrow> nat \<Rightarrow> bytes list \<Rightarrow> grep_hit list \<Rightarrow> grep_hit list" where
  "grep_lines g path i [] hits = hits"
| "grep_lines g path i (line # lines) hits =
     (let text = utf8_lossy line in
      if sublist (gs_pattern g) text then
        if length hits \<ge> MAX_GREP_HITS_PER_CALL then hits
        else let line_no = of_nat i + 1 in
          grep_lines g path (i + 1) lines
            (hits @ [\<lparr>gh_path = path, gh_line = line_no, gh_text = truncate_str text MAX_GREP_LINE_BYTES,
                      gh_locator = evidence_locator path (gs_snapshot g) line_no\<rparr>])
      else grep_lines g path (i + 1) lines hits)"

definition grep_file :: "(bytes \<Rightarrow> object_id) \<Rightarrow> view \<Rightarrow> grep_scan \<Rightarrow> rstring \<Rightarrow> tree_entry \<Rightarrow> grep_acc \<Rightarrow>
    grep_acc reading" where
  "grep_file H v g path entry acc =
     (if length (ga_hits acc) \<ge> gs_limit g then sret (acc\<lparr>ga_next := ga_last acc, ga_done := True\<rparr>)
      else let sz = e_size entry in
      if sz > gs_budget g then sret (acc\<lparr>ga_last := Some path\<rparr>)
      else if sz > ga_remaining acc then sret (acc\<lparr>ga_next := ga_last acc, ga_done := True\<rparr>)
      else sbind (load_fileobj H v (e_id entry)) (\<lambda>file.
        sbind (read_range H v file 0 (f_size file)) (\<lambda>bs.
        sret (acc\<lparr>ga_remaining := ga_remaining acc - sz,
          ga_hits := grep_lines g path 0 (split_byte 10 bs) (ga_hits acc),
          ga_last := Some path\<rparr>))))"

fun grep_walk :: "(bytes \<Rightarrow> object_id) \<Rightarrow> view \<Rightarrow> grep_scan \<Rightarrow> nat \<Rightarrow> object_id option \<Rightarrow> rstring \<Rightarrow>
    grep_acc \<Rightarrow> grep_acc reading" where
  "grep_walk H v g 0 dir_tree base acc = slift (Inl OutOfFuel)"
| "grep_walk H v g (Suc n) dir_tree base acc =
     (if ga_done acc then sret acc
      else sbind (dir_entries H v dir_tree) (\<lambda>entries.
        sfold (\<lambda>acc (name, entry).
          if ga_done acc then sret acc
          else let child = base @ SLASH # name in
            case e_kind entry of
              EFile \<Rightarrow> if prefix (gs_prefix g) child \<and> path_after child (gs_cursor g)
                       then grep_file H v g child entry acc else sret acc
            | ESymlink \<Rightarrow> sret acc
            | EDir \<Rightarrow> if subtree_may_match child (gs_prefix g) \<and> subtree_after child (gs_cursor g)
                      then grep_walk H v g n (Some (e_id entry)) child acc else sret acc) acc entries))"

definition grep :: "nat \<Rightarrow> (bytes \<Rightarrow> object_id) \<Rightarrow> 's store_ops \<Rightarrow> 's fs \<Rightarrow> rstring \<Rightarrow> rstring \<Rightarrow>
    rstring option \<Rightarrow> rstring option \<Rightarrow> u64 \<Rightarrow> files_reply reading" where
  "grep n H ops fs pattern pre snapshot cursor limit =
     (if pattern = [] then slift (Inl (QueryE GrepPatternEmpty))
      else if length pattern > MAX_GREP_LINE_BYTES then slift (Inl (QueryE GrepPatternTooLong))
      else sbind (resolve_head H ops fs snapshot) (\<lambda>snapshot_id. case snapshot_id of
        None \<Rightarrow> sret (RGrep [] None)
      | Some snap \<Rightarrow>
          sbind (snapshot_root_tree H (committed_store ops fs) snap) (\<lambda>root_tree.
          sbind (grep_walk H (committed_store ops fs)
              \<lparr>gs_pattern = pattern, gs_prefix = pre, gs_cursor = cursor, gs_snapshot = to_hex snap,
               gs_limit = page_limit limit, gs_budget = grep_budget fs\<rparr> n (Some root_tree) []
              \<lparr>ga_remaining = grep_budget fs, ga_hits = [], ga_last = None, ga_next = None, ga_done = False\<rparr>)
            (\<lambda>acc. sret (RGrep (ga_hits acc) (ga_next acc))))))"

subsection \<open>History\<close>

definition history_entry :: "(bytes \<Rightarrow> object_id) \<Rightarrow> view \<Rightarrow> object_id \<Rightarrow> snapshot_info reading" where
  "history_entry H v i =
     sbind (store_get H v i) (\<lambda>o1. sbind (slift (ok_or o1 (TreeE SnapshotMissing))) (\<lambda>(kind, body).
       if kind \<noteq> KSnapshot then slift (Inl (TreeE ExpectedSnapshot))
       else sbind (slift (snapshot_decode body)) (\<lambda>s.
         sret \<lparr>si_id = to_hex i, si_parent = map_option to_hex (s_parent s), si_root_tree = to_hex (s_root s),
               si_author = s_author s, si_height = s_height s, si_time = s_time s,
               si_message = s_message s\<rparr>)))"

definition history :: "(bytes \<Rightarrow> object_id) \<Rightarrow> 's store_ops \<Rightarrow> 's fs \<Rightarrow> u64 \<Rightarrow> files_reply reading" where
  "history H ops fs limit =
     sbind (sfold (\<lambda>out i. sbind (history_entry H (committed_store ops fs) i) (\<lambda>info. sret (out @ [info])))
       [] (take (page_limit limit) (rev (window (fs_refs fs))))) (\<lambda>out. sret (RHistory out))"

subsection \<open>Diff\<close>

definition push_diff :: "rstring \<Rightarrow> diff_kind \<Rightarrow> rstring \<Rightarrow> diff_entry list \<Rightarrow> diff_entry list reading" where
  "push_diff path kind pre out =
     (if \<not> prefix pre path then sret out
      else let out' = out @ [\<lparr>de_path = path, de_kind = kind\<rparr>] in
        if length out' > MAX_DIFF_ENTRIES then slift (Inl (QueryE DiffTooLarge)) else sret out')"

text \<open>\<open>emit_side\<close> calls \<open>emit_children\<close> for a directory, which calls it for each child.\<close>

fun emit_side :: "(bytes \<Rightarrow> object_id) \<Rightarrow> view \<Rightarrow> diff_kind \<Rightarrow> rstring \<Rightarrow> nat \<Rightarrow> rstring \<Rightarrow> tree_entry \<Rightarrow>
    diff_entry list \<Rightarrow> diff_entry list reading"
  and emit_children :: "(bytes \<Rightarrow> object_id) \<Rightarrow> view \<Rightarrow> diff_kind \<Rightarrow> rstring \<Rightarrow> nat \<Rightarrow> rstring \<Rightarrow> object_id \<Rightarrow>
    diff_entry list \<Rightarrow> diff_entry list reading"
where
  "emit_side H v kind pre n path entry out =
     sbind (push_diff path kind pre out) (\<lambda>out.
       if e_kind entry = EDir then emit_children H v kind pre n path (e_id entry) out else sret out)"
| "emit_children H v kind pre 0 base dir_id out = slift (Inl OutOfFuel)"
| "emit_children H v kind pre (Suc n) base dir_id out =
     sbind (dir_entries H v (Some dir_id)) (\<lambda>entries.
       sfold (\<lambda>out (name, entry).
         let child = base @ SLASH # name in
         if \<not> subtree_may_match child pre then sret out
         else emit_side H v kind pre n child entry out) out entries)"

fun diff_walk :: "(bytes \<Rightarrow> object_id) \<Rightarrow> view \<Rightarrow> rstring \<Rightarrow> nat \<Rightarrow> object_id \<Rightarrow> object_id \<Rightarrow> rstring \<Rightarrow>
    diff_entry list \<Rightarrow> diff_entry list reading" where
  "diff_walk H v pre 0 from_id to_id base out = slift (Inl OutOfFuel)"
| "diff_walk H v pre (Suc n) from_id to_id base out =
     (if from_id = to_id then sret out
      else sbind (dir_entries H v (Some from_id)) (\<lambda>from_m.
        sbind (dir_entries H v (Some to_id)) (\<lambda>to_m.
        sfold (\<lambda>out name.
          let child = base @ SLASH # name in
          if \<not> subtree_may_match child pre then sret out
          else case (bt_get from_m name, bt_get to_m name) of
            (Some f, None) \<Rightarrow> emit_side H v Removed pre n child f out
          | (None, Some t) \<Rightarrow> emit_side H v Added pre n child t out
          | (Some f, Some t) \<Rightarrow>
              if f = t then sret out
              else if e_kind f = EDir \<and> e_kind t = EDir
              then diff_walk H v pre n (e_id f) (e_id t) child out
              else sbind (push_diff child Modified pre out) (\<lambda>out.
                sbind (if e_kind f = EDir then emit_children H v Removed pre n child (e_id f) out
                       else sret out) (\<lambda>out.
                if e_kind t = EDir then emit_children H v Added pre n child (e_id t) out else sret out))
          | (None, None) \<Rightarrow> sret out)
          out (remdups_adj (sort (map fst from_m @ map fst to_m))))))"

definition diff :: "nat \<Rightarrow> (bytes \<Rightarrow> object_id) \<Rightarrow> 's store_ops \<Rightarrow> 's fs \<Rightarrow> rstring \<Rightarrow> rstring \<Rightarrow> rstring \<Rightarrow>
    files_reply reading" where
  "diff n H ops fs from_s to_s pre =
     (let v = committed_store ops fs in
      sbind (resolve_head H ops fs (Some from_s)) (\<lambda>x. sbind (slift (ok_or x (FsE SnapshotNotResolvable))) (\<lambda>from_id.
      sbind (resolve_head H ops fs (Some to_s)) (\<lambda>y. sbind (slift (ok_or y (FsE SnapshotNotResolvable))) (\<lambda>to_id.
      sbind (snapshot_root_tree H v from_id) (\<lambda>from_root.
      sbind (snapshot_root_tree H v to_id) (\<lambda>to_root.
      sbind (diff_walk H v pre n from_root to_root [] []) (\<lambda>out. sret (RDiff out)))))))))"

subsection \<open>The dispatch\<close>

definition has_chunks :: "'s fs \<Rightarrow> rstring list \<Rightarrow> files_reply res" where
  "has_chunks fs ids =
     (if length ids > MAX_SYNC_IDS then Inl (SyncE TooManyIds)
      else rbind (rmap (\<lambda>hex. rbind (ok_or (from_hex_32 hex) (QueryE IdNotHex)) (\<lambda>i.
             Inr (bt_has (staging (fs_refs fs)) i))) ids) (\<lambda>present. Inr (RHasChunks present)))"

definition retention_query :: "(bytes \<Rightarrow> object_id) \<Rightarrow> 's store_ops \<Rightarrow> 's fs \<Rightarrow> rstring \<Rightarrow> rstring \<Rightarrow>
    files_reply reading" where
  "retention_query H ops fs module_id key =
     sbind (retention_get H (committed_store ops fs) (retention_root (fs_refs fs)) module_id key)
       (\<lambda>x. sret (RRetention x))"

definition query :: "nat \<Rightarrow> (bytes \<Rightarrow> object_id) \<Rightarrow> (rstring \<Rightarrow> rstring) \<Rightarrow> (bytes \<Rightarrow> rstring) \<Rightarrow>
    's store_ops \<Rightarrow> 's fs \<Rightarrow> files_query \<Rightarrow> files_reply reading" where
  "query n H nfc b64_encode ops fs q = (case q of
     QStat path snapshot \<Rightarrow> stat H nfc ops fs path snapshot
   | QLs path snapshot after limit \<Rightarrow> ls H nfc ops fs path snapshot after limit
   | QRead path snapshot offset len \<Rightarrow> read_query H nfc b64_encode ops fs path snapshot offset len
   | QFind pre snapshot after limit \<Rightarrow> find_query n H ops fs pre snapshot after limit
   | QGrep pattern pre snapshot cursor limit \<Rightarrow> grep n H ops fs pattern pre snapshot cursor limit
   | QHistory limit \<Rightarrow> history H ops fs limit
   | QDiff from_s to_s pre \<Rightarrow> diff n H ops fs from_s to_s pre
   | QRefs \<Rightarrow> sret (refs_query fs)
   | QHasChunks ids \<Rightarrow> slift (has_chunks fs ids)
   | QRetention module_id key \<Rightarrow> retention_query H ops fs module_id key)"

end
