(* ===== verification/Query_Spec.thy ===== *)
theory Query_Spec
  imports Queries Commit_Spec
begin

text \<open>
  What the walks of queries.rs compute: the enumeration \<open>listing\<close> of a tree in path order is the
  reference, and \<open>find_walk\<close>, with its pruning, its page limit and its early exit, is a page of it.
\<close>

subsection \<open>Path strings\<close>

definition path_str :: "rstring list \<Rightarrow> rstring" where
  "path_str p = concat (map (\<lambda>s. SLASH # s) p)"

lemma path_str_simps [simp]:
  "path_str [] = []"
  "path_str (s # p) = SLASH # s @ path_str p"
  "path_str (p @ q) = path_str p @ path_str q"
  by (simp_all add: path_str_def)

lemma split_path_str: "\<forall>s \<in> set p. SLASH \<notin> set s \<Longrightarrow> split_slash (path_str p) = [] # p"
proof (induction p)
  case (Cons s p)
  show ?case
  proof (cases p)
    case Nil
    with Cons.prems show ?thesis by (simp add: split_slash_piece)
  next
    case (Cons t r)
    have "split_slash (path_str p) = [] # p" using Cons.IH Cons.prems by simp
    then have "split_slash (s @ path_str p) = s # p"
      using Cons Cons.prems by (simp add: split_slash_cons)
    then show ?thesis by simp
  qed
qed simp

text \<open>A cursor may name any string; only its segments count.\<close>

definition after_cursor :: "rstring option \<Rightarrow> rstring list \<Rightarrow> bool" where
  "after_cursor cursor p = (case cursor of None \<Rightarrow> True | Some c \<Rightarrow> split_slash c < [] # p)"

definition matching :: "rstring \<Rightarrow> rstring option \<Rightarrow> rstring list \<Rightarrow> bool" where
  "matching pre cursor p \<longleftrightarrow> prefix pre (path_str p) \<and> after_cursor cursor p"

lemma path_after_segs: "\<forall>s \<in> set p. SLASH \<notin> set s \<Longrightarrow> path_after (path_str p) cursor = after_cursor cursor p"
  by (simp add: path_after_def after_cursor_def split_path_str split: option.split)

lemma zip_after_less: "\<not> zip_after (zip xs ys) \<Longrightarrow> xs @ zs < ys"
  by (induction xs ys rule: list_induct2') (auto split: if_splits)

lemma prune_sound:
  assumes "\<not> (subtree_may_match (path_str p) pre \<and> subtree_after (path_str p) cursor)"
    and "\<forall>s \<in> set p. SLASH \<notin> set s"
  shows "\<not> matching pre cursor (p @ q)"
proof (cases "subtree_may_match (path_str p) pre")
  case True
  then have "\<not> subtree_after (path_str p) cursor" using assms(1) by simp
  then obtain c where c: "cursor = Some c" "\<not> zip_after (zip ([] # p) (split_slash c))"
    using assms(2) by (auto simp: subtree_after_def split_path_str split: option.splits)
  from zip_after_less [OF c(2), of q] show ?thesis
    using c(1) by (auto simp: matching_def after_cursor_def)
next
  case False
  then show ?thesis
    by (auto simp: matching_def subtree_may_match_def dest: prefix_same_cases [of _ _ "path_str p"])
qed

subsection \<open>The enumeration of a tree\<close>

definition named :: "contents \<Rightarrow> bool" where
  "named F \<longleftrightarrow> (\<forall>i es. tree_at F i = Some es \<longrightarrow> (\<forall>(s, e) \<in> set es. SLASH \<notin> set s))"

definition subentries :: "contents \<Rightarrow> object_id \<Rightarrow> (rstring, tree_entry) btree" where
  "subentries F d = (case tree_at F d of None \<Rightarrow> [] | Some es \<Rightarrow> es)"

fun listing :: "contents \<Rightarrow> nat \<Rightarrow> rstring list \<Rightarrow> object_id \<Rightarrow> (rstring list \<times> tree_entry) list" where
  "listing F 0 p d = []"
| "listing F (Suc n) p d =
     concat (map (\<lambda>(s, e). (p @ [s], e) #
       (if e_kind e = EDir then listing F n (p @ [s]) (e_id e) else [])) (subentries F d))"

lemma listing_below: "(q, e) \<in> set (listing F n p d) \<Longrightarrow> \<exists>r. q = p @ r \<and> r \<noteq> []"
proof (induction n arbitrary: p d)
  case (Suc n)
  then show ?case by (fastforce split: if_splits)
qed simp

lemma listing_head:
  assumes "(q, w) \<in> set ((p @ [s], e) # (if e_kind e = EDir then listing F n (p @ [s]) (e_id e) else []))"
  shows "\<exists>r. q = p @ s # r"
proof -
  have "q = p @ [s] \<or> (q, w) \<in> set (listing F n (p @ [s]) (e_id e))"
    using assms by (auto split: if_splits)
  then show ?thesis using listing_below [of q w F n "p @ [s]" "e_id e"] by auto
qed

lemma append_less_iff [simp]: "(p @ xs < p @ ys) = (xs < (ys :: rstring list))"
  by (induction p) auto

lemma less_append_iff [simp]: "(p < p @ q) = (q \<noteq> ([] :: rstring list))"
  using append_less_iff [of p "[]" q] by (cases q) auto

lemma bt_wf_subentries: "bt_wf (subentries F d)"
  using tree_at_ok by (auto simp: subentries_def tree_ok_def split: option.split)

lemma listing_sorted: "sorted_wrt (<) (map fst (listing F n p d))"
proof (induction n arbitrary: p d)
  case (Suc n)
  let ?f = "\<lambda>(s, e). (p @ [s], e) # (if e_kind e = EDir then listing F n (p @ [s]) (e_id e) else [])"
  have "sorted_wrt (<) (map fst (concat (map ?f es)))" if "bt_wf es" for es
    using that
  proof (induction es)
    case (Cons x es)
    obtain s e where x: "x = (s, e)" by (cases x)
    have "p @ [s] < a" if "(a, u) \<in> set (listing F n (p @ [s]) (e_id e))" for a u
    proof -
      from listing_below [OF that] obtain r where "a = (p @ [s]) @ r" "r \<noteq> []" by blast
      then show ?thesis by (cases r) simp_all
    qed
    then have one: "sorted_wrt (<) (map fst (?f (s, e)))"
      using Suc.IH [of "p @ [s]" "e_id e"] by auto
    have "a < b" if au: "(a, u) \<in> set (?f (s, e))" and bw: "(b, w) \<in> set (concat (map ?f es))" for a b u w
    proof -
      obtain r where "a = p @ s # r" using listing_head [of a u p s e F n] au by auto
      moreover obtain t z q where t: "(t, z) \<in> set es" "b = p @ t # q"
      proof -
        from bw obtain t z where "(t, z) \<in> set es" "(b, w) \<in> set (?f (t, z))" by auto
        then show thesis using listing_head [of b w p t z F n] that by auto
      qed
      have "s < t" using Cons.prems x t(1) by force
      ultimately show ?thesis using t(2) by simp
    qed
    then have "\<forall>a \<in> set (map fst (?f (s, e))). \<forall>b \<in> set (map fst (concat (map ?f es))). a < b"
      unfolding set_map by (metis (no_types, lifting) imageE prod.collapse)
    moreover have "sorted_wrt (<) (map fst (concat (map ?f es)))"
      by (rule Cons.IH) (use Cons.prems x in simp)
    ultimately have "sorted_wrt (<) (map fst (?f (s, e)) @ map fst (concat (map ?f es)))"
      using one unfolding sorted_wrt_append by blast
    then show ?case using x by simp
  qed simp
  then show ?case using bt_wf_subentries by simp
qed simp

text \<open>The enumeration is the tree, down to the depth given.\<close>

lemma node_at_entry:
  "e_kind e = EDir \<Longrightarrow> q \<noteq> [] \<Longrightarrow> node_at F (NRef e) q = node_at F (edit_load (Some (e_id e))) q"
  by (cases q) (simp_all add: edit_load_def children_def)

lemma children_dir: "children F (edit_load (Some d)) = map_option (map (\<lambda>(s, e). (s, NRef e))) (tree_at F d)"
  by (simp add: edit_load_def children_def)

lemma node_at_dir_Cons:
  "node_at F (edit_load (Some d)) (s # q) =
     (case bt_get (subentries F d) s of None \<Rightarrow> None | Some e \<Rightarrow> node_at F (NRef e) q)"
  using bt_get_map_value [of "\<lambda>_ e. NRef e" "subentries F d" s]
  by (auto simp: children_dir subentries_def split: option.splits)

lemma listing_mem:
  "(p @ s # r, e) \<in> set (listing F (Suc n) p d) \<longleftrightarrow>
     (\<exists>f. (s, f) \<in> set (subentries F d) \<and>
       (r = [] \<and> e = f \<or> e_kind f = EDir \<and> (p @ s # r, e) \<in> set (listing F n (p @ [s]) (e_id f))))"
proof -
  have "(p @ s # r, e) \<in> set (listing F n (p @ [t]) d') \<Longrightarrow> t = s" for t d'
    by (auto dest: listing_below)
  then have "(\<exists>(t, f) \<in> set (subentries F d). (p @ s # r = p @ [t] \<and> e = f) \<or>
        e_kind f = EDir \<and> (p @ s # r, e) \<in> set (listing F n (p @ [t]) (e_id f))) \<longleftrightarrow>
      (\<exists>f. (s, f) \<in> set (subentries F d) \<and>
        (r = [] \<and> e = f \<or> e_kind f = EDir \<and> (p @ s # r, e) \<in> set (listing F n (p @ [s]) (e_id f))))"
    by fastforce
  moreover have "(p @ s # r, e) \<in> set (listing F (Suc n) p d) \<longleftrightarrow>
      (\<exists>(t, f) \<in> set (subentries F d). (p @ s # r = p @ [t] \<and> e = f) \<or>
        e_kind f = EDir \<and> (p @ s # r, e) \<in> set (listing F n (p @ [t]) (e_id f)))"
    by (simp add: Bex_def case_prod_beta split: if_splits)
  ultimately show ?thesis by simp
qed

lemma listing_iff:
  "(p @ q, e) \<in> set (listing F n p d) \<longleftrightarrow>
     q \<noteq> [] \<and> length q \<le> n \<and> node_at F (edit_load (Some d)) q = Some (NRef e)"
proof (induction n arbitrary: p q d)
  case (Suc n)
  show ?case
  proof (cases q)
    case Nil
    then show ?thesis using listing_below [of p e F "Suc n" p d] by auto
  next
    case (Cons s r)
    have get: "(s, f) \<in> set (subentries F d) \<longleftrightarrow> bt_get (subentries F d) s = Some f" for f
      using bt_get_iff_mem [OF bt_wf_subentries] by blast
    have "(p @ q, e) \<in> set (listing F (Suc n) p d) \<longleftrightarrow>
        (\<exists>f. bt_get (subentries F d) s = Some f \<and>
          (r = [] \<and> e = f \<or> e_kind f = EDir \<and> (p @ s # r, e) \<in> set (listing F n (p @ [s]) (e_id f))))"
      unfolding Cons listing_mem get ..
    also have "\<dots> \<longleftrightarrow> (\<exists>f. bt_get (subentries F d) s = Some f \<and> length r \<le> n \<and> node_at F (NRef f) r = Some (NRef e))"
    proof -
      have "(r = [] \<and> e = f \<or> e_kind f = EDir \<and> (p @ s # r, e) \<in> set (listing F n (p @ [s]) (e_id f))) \<longleftrightarrow>
          length r \<le> n \<and> node_at F (NRef f) r = Some (NRef e)" for f
      proof (cases "r = []")
        case True
        then show ?thesis using listing_below [of "p @ [s]" e F n "p @ [s]"] by auto
      next
        case False
        have "e_kind f \<noteq> EDir \<Longrightarrow> node_at F (NRef f) r = None" using False by (cases r) (simp_all add: children_def)
        then show ?thesis
          using Suc.IH [of "p @ [s]" r "e_id f"] False node_at_entry [of f r F]
          by (cases "e_kind f = EDir") auto
      qed
      then show ?thesis by simp
    qed
    finally have "(p @ q, e) \<in> set (listing F (Suc n) p d) \<longleftrightarrow>
        (\<exists>f. bt_get (subentries F d) s = Some f \<and> length r \<le> n \<and> node_at F (NRef f) r = Some (NRef e))" .
    then show ?thesis
      unfolding Cons node_at_dir_Cons by (auto simp del: listing.simps split: option.split)
  qed
qed (auto)


subsection \<open>Find is a page of the enumeration\<close>

definition file_at :: "contents \<Rightarrow> object_id \<Rightarrow> file_obj option" where
  "file_at F i = (case F i of
     Some (KFile, body) \<Rightarrow> (case file_decode body of Inr f \<Rightarrow> Some f | Inl _ \<Rightarrow> None)
   | _ \<Rightarrow> None)"

definition info_of :: "contents \<Rightarrow> rstring \<Rightarrow> tree_entry \<Rightarrow> wire_entry" where
  "info_of F path e =
     \<lparr>ei_path = path, ei_kind = wire_kind (e_kind e), ei_size = e_size e, ei_exec = e_exec e,
      ei_object = to_hex (e_id e),
      ei_meta = (if e_kind e = EDir then [] else case file_at F (e_id e) of None \<Rightarrow> [] | Some f \<Rightarrow> f_meta f)\<rparr>"

lemma ei_path_info [simp]: "ei_path (info_of F path e) = path"
  by (simp add: info_of_def)

lemma load_fileobj_at: "load_fileobj H v i rs = Inr (f, rs') \<Longrightarrow> file_at (lookup H v) i = Some f"
  by (auto simp: load_fileobj_def file_at_def split: if_splits kind.splits dest!: store_get_lookup)

lemma entry_info_of: "entry_info H v path e rs = Inr (x, rs') \<Longrightarrow> x = info_of (lookup H v) path e"
  by (auto simp: entry_info_def info_of_def split: if_splits dest!: load_fileobj_at)

lemma dir_entries_at: "dir_entries H v (Some i) rs = Inr (es, rs') \<Longrightarrow> tree_at (lookup H v) i = Some es"
  by (auto simp: dir_entries_def tree_at_def split: if_splits kind.splits dest!: store_get_lookup)

definition find_step :: "contents \<Rightarrow> nat \<Rightarrow> rstring list \<times> tree_entry \<Rightarrow> find_acc \<Rightarrow> find_acc" where
  "find_step F limit pe acc =
     (if fa_done acc then acc
      else if length (fa_out acc) = limit
      then acc\<lparr>fa_next := if fa_out acc = [] then None else Some (ei_path (last (fa_out acc))), fa_done := True\<rparr>
      else acc\<lparr>fa_out := fa_out acc @ [info_of F (path_str (fst pe)) (snd pe)]\<rparr>)"

lemma find_step_done: "fa_done acc \<Longrightarrow> fold (find_step F limit) xs acc = acc"
  by (induction xs) (simp_all add: find_step_def)

lemma find_steps:
  assumes "\<not> fa_done acc" "length (fa_out acc) \<le> limit" "0 < limit"
  shows "fold (find_step F limit) xs acc =
    (let out = fa_out acc @ map (\<lambda>(p, e). info_of F (path_str p) e) (take (limit - length (fa_out acc)) xs);
         more = length xs > limit - length (fa_out acc)
     in acc\<lparr>fa_out := out, fa_next := if more then Some (ei_path (last out)) else fa_next acc, fa_done := more\<rparr>)"
  using assms
proof (induction xs arbitrary: acc)
  case (Cons x xs)
  obtain p e where x: "x = (p, e)" by (cases x)
  show ?case
  proof (cases "length (fa_out acc) = limit")
    case True
    then have "fa_out acc \<noteq> []" using Cons.prems(3) by auto
    then have "find_step F limit x acc = acc\<lparr>fa_next := Some (ei_path (last (fa_out acc))), fa_done := True\<rparr>"
      using True Cons.prems(1) by (simp add: find_step_def)
    then show ?thesis using True by (simp add: find_step_done)
  next
    case False
    then obtain k where k: "limit - length (fa_out acc) = Suc k" using Cons.prems(2) by (metis le_less_Suc_eq less_Suc_eq_le Suc_diff_Suc le_neq_implies_less)
    then have "limit - Suc (length (fa_out acc)) = k" by simp
    have step: "find_step F limit (p, e) acc = acc\<lparr>fa_out := fa_out acc @ [info_of F (path_str p) e]\<rparr>"
      using Cons.prems(1) False x by (simp add: find_step_def)
    have "Suc (length (fa_out acc)) \<le> limit" using k by simp
    then show ?thesis
      using Cons.IH [of "find_step F limit (p, e) acc", unfolded step] Cons.prems k
        \<open>limit - Suc (length (fa_out acc)) = k\<close>
      unfolding x fold.simps(2) o_apply step by (cases acc) (auto simp: Let_def)
  qed
qed simp

lemma find_walk_fold:
  assumes "find_walk H v pre cursor limit n (Some d) (path_str p) acc rs = Inr (acc', rs')"
    and "named (lookup H v)" and "\<forall>s \<in> set p. SLASH \<notin> set s"
  shows "acc' = fold (find_step (lookup H v) limit)
    (filter (\<lambda>(q, e). matching pre cursor q) (listing (lookup H v) n p d)) acc"
  using assms(1,3)
proof (induction n arbitrary: p d acc acc' rs rs')
  case (Suc n)
  let ?F = "lookup H v"
  let ?f = "\<lambda>(s, e). (p @ [s], e) # (if e_kind e = EDir then listing ?F n (p @ [s]) (e_id e) else [])"
  let ?m = "\<lambda>(q, e). matching pre cursor q"
  let ?body = "\<lambda>acc (name, entry).
          if fa_done acc then sret acc
          else let child = path_str p @ SLASH # name in
            sbind (if prefix pre child \<and> path_after child cursor then
                     if length (fa_out acc) = limit then
                       sret (acc\<lparr>fa_next := if fa_out acc = [] then None else Some (ei_path (last (fa_out acc))),
                                 fa_done := True\<rparr>)
                     else sbind (entry_info H v child entry) (\<lambda>info. sret (acc\<lparr>fa_out := fa_out acc @ [info]\<rparr>))
                   else sret acc) (\<lambda>acc.
            if \<not> fa_done acc \<and> e_kind entry = EDir \<and> subtree_may_match child pre \<and> subtree_after child cursor
            then find_walk H v pre cursor limit n (Some (e_id entry)) child acc
            else sret acc)"
  have one: "b = fold (find_step ?F limit) (filter ?m (?f (s, e))) a"
    if "?body a (s, e) r = Inr (b, r')" "SLASH \<notin> set s" for a b s e r r'
  proof (cases "fa_done a")
    case True
    then show ?thesis using that(1) by (simp add: find_step_done)
  next
    case False
    let ?q = "p @ [s]"
    have child: "path_str p @ SLASH # s = path_str ?q" by simp
    have sl: "\<forall>t \<in> set ?q. SLASH \<notin> set t" using that(2) Suc.prems(2) by simp
    from that(1) False obtain c r1 where
      c: "c = fold (find_step ?F limit) (filter ?m [(?q, e)]) a"
      and w: "(if \<not> fa_done c \<and> e_kind e = EDir \<and> subtree_may_match (path_str ?q) pre \<and> subtree_after (path_str ?q) cursor
            then find_walk H v pre cursor limit n (Some (e_id e)) (path_str ?q) c
            else sret c) r1 = Inr (b, r')"
      by (auto simp: Let_def find_step_def matching_def path_after_segs [OF sl, simplified] simp del: find_walk.simps
          split: if_splits dest: entry_info_of)
    have "b = fold (find_step ?F limit) (filter ?m (if e_kind e = EDir then listing ?F n ?q (e_id e) else [])) c"
    proof (cases "\<not> fa_done c \<and> e_kind e = EDir \<and> subtree_may_match (path_str ?q) pre \<and> subtree_after (path_str ?q) cursor")
      case True
      then show ?thesis using w Suc.IH [OF _ sl] by simp
    next
      case no: False
      have "filter ?m (listing ?F n ?q (e_id e)) = []"
        if "\<not> (subtree_may_match (path_str ?q) pre \<and> subtree_after (path_str ?q) cursor)"
        using prune_sound [OF that sl] by (auto simp: filter_empty_conv dest!: listing_below)
      then show ?thesis using no w find_step_done by (auto simp del: find_walk.simps)
    qed
    then show ?thesis using c by simp
  qed
  show ?case
  proof (cases "fa_done acc")
    case True
    then show ?thesis using Suc.prems(1) by (simp add: find_step_done)
  next
    case False
    from Suc.prems(1) False obtain es r1 where es: "tree_at ?F d = Some es" and f: "sfold ?body acc es r1 = Inr (acc', rs')"
      by (auto dest: dir_entries_at)
    have "\<forall>(s, e) \<in> set es. SLASH \<notin> set s" using assms(2) es by (auto simp: named_def)
    with f have "acc' = fold (find_step ?F limit) (filter ?m (concat (map ?f es))) acc"
    proof (induction es arbitrary: acc r1)
      case (Cons x es)
      obtain s e where x: "x = (s, e)" by (cases x)
      from Cons.prems(1) obtain a r2 where a: "?body acc (s, e) r1 = Inr (a, r2)" "sfold ?body a es r2 = Inr (acc', rs')"
        unfolding x by auto
      have "SLASH \<notin> set s" using Cons.prems(2) x by simp
      from one [OF a(1) this] Cons.IH [OF a(2)] Cons.prems(2) x show ?case by simp
    qed simp
    then show ?thesis using es by (simp add: subentries_def)
  qed
qed simp



end
