(* ===== verification/Diff_Spec.thy ===== *)
theory Diff_Spec
  imports Query_Spec
begin

text \<open>
  What the diff of queries.rs computes: over the pruned walk of two trees, the pointwise comparison
  of their entries, in path order.
\<close>

subsection \<open>Diff is the pointwise comparison of two trees\<close>

definition entry_in :: "contents \<Rightarrow> object_id \<Rightarrow> rstring list \<Rightarrow> node option" where
  "entry_in F d q = node_at F (edit_load (Some d)) q"

definition change_of :: "node option \<Rightarrow> node option \<Rightarrow> diff_kind option" where
  "change_of x y = (case (x, y) of
     (None, None) \<Rightarrow> None
   | (Some _, None) \<Rightarrow> Some Removed
   | (None, Some _) \<Rightarrow> Some Added
   | (Some f, Some t) \<Rightarrow> if f = t \<or> (item_of f = IDir \<and> item_of t = IDir) then None else Some Modified)"

lemma change_of_same [simp]: "change_of x x = None"
  by (simp add: change_of_def split: option.split)

lemma change_of_None [simp]:
  "change_of x None = (if x = None then None else Some Removed)"
  "change_of None y = (if y = None then None else Some Added)"
  by (simp_all add: change_of_def split: option.split)

definition diff_entry_of :: "rstring list \<times> diff_kind \<Rightarrow> diff_entry" where
  "diff_entry_of pk = \<lparr>de_path = path_str (fst pk), de_kind = snd pk\<rparr>"

text \<open>The output has grown by the changes of \<open>S\<close>, in path order.\<close>

definition emitted :: "diff_entry list \<Rightarrow> diff_entry list \<Rightarrow> (rstring list \<times> diff_kind) set \<Rightarrow> bool" where
  "emitted out out' S \<longleftrightarrow>
     (\<exists>L. out' = out @ map diff_entry_of L \<and> sorted_wrt (<) (map fst L) \<and> set L = S)"

lemma emitted_none: "emitted out out {}"
  unfolding emitted_def by (rule exI [of _ "[]"]) simp

lemma emitted_trans:
  assumes "emitted a b S" "emitted b c T" and "\<And>x y. x \<in> S \<Longrightarrow> y \<in> T \<Longrightarrow> fst x < fst y"
  shows "emitted a c (S \<union> T)"
proof -
  obtain L M where "b = a @ map diff_entry_of L" "sorted_wrt (<) (map fst L)" "set L = S"
    "c = b @ map diff_entry_of M" "sorted_wrt (<) (map fst M)" "set M = T"
    using assms(1,2) by (auto simp: emitted_def)
  then show ?thesis
    unfolding emitted_def using assms(3) by (intro exI [of _ "L @ M"]) (auto simp: sorted_wrt_append)
qed

lemma sfold_emitted:
  assumes "sfold body out xs rs = Inr (out', rs')" and "sorted_wrt (<) (map key xs)"
    and "\<And>x a b r r'. x \<in> set xs \<Longrightarrow> body a x r = Inr (b, r') \<Longrightarrow> emitted a b (S (key x))"
    and "\<And>s y. y \<in> S s \<Longrightarrow> \<exists>r. fst y = p @ s # r"
  shows "emitted out out' (\<Union>x \<in> set xs. S (key x))"
  using assms(1-3)
proof (induction xs arbitrary: out rs)
  case Nil
  then show ?case by (simp add: emitted_none)
next
  case (Cons x xs)
  from Cons.prems(1) obtain a r where a: "body out x rs = Inr (a, r)" "sfold body a xs r = Inr (out', rs')"
    by auto
  have "emitted out a (S (key x))" using Cons.prems(3) [OF _ a(1)] by simp
  moreover have "emitted a out' (\<Union>x \<in> set xs. S (key x))"
    using Cons.prems(2,3) by (intro Cons.IH [OF a(2)]) auto
  moreover have "fst y < fst z" if y: "y \<in> S (key x)" and z: "z \<in> (\<Union>x \<in> set xs. S (key x))" for y z
  proof -
    obtain w where w: "w \<in> set xs" "z \<in> S (key w)" using z by blast
    obtain q r where "fst y = p @ key x # q" "fst z = p @ key w # r"
      using assms(4) [OF y] assms(4) [OF w(2)] by blast
    moreover have "key x < key w" using Cons.prems(2) w(1) by simp
    ultimately show ?thesis by simp
  qed
  ultimately have "emitted out out' (S (key x) \<union> (\<Union>x \<in> set xs. S (key x)))"
    by (rule emitted_trans)
  then show ?case by simp
qed

lemma push_diff_emitted:
  "push_diff (path_str p) k pre out rs = Inr (out', rs') \<Longrightarrow>
   emitted out out' {y. y = (p, k) \<and> prefix pre (path_str p)}"
  by (auto simp: push_diff_def emitted_def Let_def diff_entry_of_def split: if_splits
      intro: exI [of _ "[]"] exI [of _ "[(p, k)]"])

lemma no_prefix_below: "\<not> subtree_may_match (path_str p) pre \<Longrightarrow> \<not> prefix pre (path_str (p @ q))"
  by (auto simp: subtree_may_match_def dest: prefix_same_cases [of _ _ "path_str p"])

abbreviation side_set :: "contents \<Rightarrow> diff_kind \<Rightarrow> rstring \<Rightarrow> rstring list \<Rightarrow> node \<Rightarrow>
    (rstring list \<times> diff_kind) set" where
  "side_set F k pre p n \<equiv> {(p @ q, k) |q. node_at F n q \<noteq> None \<and> prefix pre (path_str (p @ q))}"

abbreviation below_set :: "contents \<Rightarrow> diff_kind \<Rightarrow> rstring \<Rightarrow> rstring list \<Rightarrow> object_id \<Rightarrow>
    (rstring list \<times> diff_kind) set" where
  "below_set F k pre p d \<equiv>
     {(p @ q, k) |q. q \<noteq> [] \<and> entry_in F d q \<noteq> None \<and> prefix pre (path_str (p @ q))}"

lemma side_set_dir:
  "side_set F k pre p (NRef e) = {y. y = (p, k) \<and> prefix pre (path_str p)} \<union>
     (if e_kind e = EDir then below_set F k pre p (e_id e) else {})"
proof -
  have "node_at F (NRef e) q \<noteq> None \<longleftrightarrow> q = [] \<or> e_kind e = EDir \<and> q \<noteq> [] \<and> entry_in F (e_id e) q \<noteq> None" for q
    using node_at_entry [of e q F] by (cases "e_kind e = EDir"; cases q) (auto simp: entry_in_def children_def)
  then show ?thesis by (auto split: if_splits) 
qed

lemma union_below:
  "{(p @ q, k) |q. (\<exists>x \<in> A. \<exists>r. q = f x # r \<and> B x r) \<and> Q q} = (\<Union>x \<in> A. {(p @ f x # r, k) |r. B x r \<and> Q (f x # r)})"
  by blast

lemma below_set_children:
  assumes "tree_at F d = Some es"
  shows "below_set F k pre p d = (\<Union>x \<in> set es. {(p @ fst x # r, k) |r.
    (\<exists>e. bt_get es (fst x) = Some e \<and> node_at F (NRef e) r \<noteq> None) \<and> prefix pre (path_str (p @ fst x # r))})"
proof -
  have mem: "(q \<noteq> [] \<and> entry_in F d q \<noteq> None) \<longleftrightarrow>
      (\<exists>x \<in> set es. \<exists>r. q = fst x # r \<and> (\<exists>e. bt_get es (fst x) = Some e \<and> node_at F (NRef e) r \<noteq> None))" for q
  proof (cases q)
    case (Cons s r)
    have key: "(\<exists>x \<in> set es. \<exists>r'. q = fst x # r' \<and> (\<exists>e. bt_get es (fst x) = Some e \<and> node_at F (NRef e) r' \<noteq> None)) \<longleftrightarrow>
        (\<exists>e. bt_get es s = Some e \<and> node_at F (NRef e) r \<noteq> None)"
      (is "?L \<longleftrightarrow> ?R")
    proof
      assume ?R
      then obtain e where e: "bt_get es s = Some e" "node_at F (NRef e) r \<noteq> None" by blast
      show ?L by (rule bexI [OF _ bt_get_Some_mem [OF e(1)]]) (use Cons e in auto)
    qed (use Cons in auto)
    have "entry_in F d q = (case bt_get es s of None \<Rightarrow> None | Some e \<Rightarrow> node_at F (NRef e) r)"
      using assms unfolding Cons entry_in_def node_at_dir_Cons by (simp add: subentries_def)
    then show ?thesis unfolding key using Cons by (simp split: option.split)
  qed simp
  have "below_set F k pre p d = {(p @ q, k) |q. (q \<noteq> [] \<and> entry_in F d q \<noteq> None) \<and> prefix pre (path_str (p @ q))}"
    by simp
  then show ?thesis
    unfolding mem using union_below [where Q = "\<lambda>q. prefix pre (path_str (p @ q))" and f = fst] by simp
qed

lemma emit_emitted:
  "emit_side H v k pre n (path_str p) e out rs = Inr (out', rs') \<Longrightarrow>
     emitted out out' (side_set (lookup H v) k pre p (NRef e))"
  "emit_children H v k pre n (path_str p) d out rs = Inr (out', rs') \<Longrightarrow>
     emitted out out' (below_set (lookup H v) k pre p d)"
proof (induction n arbitrary: p e d out out' rs rs')
  case 0
  {
    case 1
    then show ?case
      unfolding side_set_dir by (cases "e_kind e = EDir") (auto dest: push_diff_emitted)
  next
    case 2
    then show ?case by simp
  }
next
  case (Suc n)
  let ?F = "lookup H v"
  have children: "emitted out out' (below_set ?F k pre p d)"
    if "emit_children H v k pre (Suc n) (path_str p) d out rs = Inr (out', rs')" for p d out rs out' rs'
  proof -
    let ?S = "\<lambda>s. {(p @ s # r, k) |r. (\<exists>e. bt_get (subentries ?F d) s = Some e \<and> node_at ?F (NRef e) r \<noteq> None) \<and>
      prefix pre (path_str (p @ s # r))}"
    from that obtain es r1 where es: "tree_at ?F d = Some es"
      and f: "sfold (\<lambda>out (name, entry). let child = path_str p @ SLASH # name in
         if \<not> subtree_may_match child pre then sret out
         else emit_side H v k pre n child entry out) out es r1 = Inr (out', rs')"
      by (auto dest: dir_entries_at)
    have sub: "subentries ?F d = es" using es by (simp add: subentries_def)
    have wf: "bt_wf es" using bt_wf_subentries [of ?F d] sub by simp
    have "emitted out out' (\<Union>x \<in> set es. ?S (fst x))"
    proof (rule sfold_emitted [OF f])
      show "sorted_wrt (<) (map fst es)" using wf by (simp add: bt_wf_def)
      show "\<exists>r. fst y = p @ s # r" if "y \<in> ?S s" for s y using that by auto
      show "emitted a b (?S (fst x))" if x: "x \<in> set es" and b: "(case x of (name, entry) \<Rightarrow> let child = path_str p @ SLASH # name in
         if \<not> subtree_may_match child pre then sret a
         else emit_side H v k pre n child entry a) r = Inr (b, r')" for x a b r r'
      proof -
        obtain s e where xe: "x = (s, e)" by (cases x)
        have get: "bt_get es s = Some e" using x xe bt_get_iff_mem [OF wf] by blast
        have "?S s = side_set ?F k pre (p @ [s]) (NRef e)" using get sub by auto
        moreover have "emitted a b (side_set ?F k pre (p @ [s]) (NRef e))"
        proof (cases "subtree_may_match (path_str (p @ [s])) pre")
          case True
          then show ?thesis using b xe Suc.IH(1) [of "p @ [s]" e a r b r'] by (simp add: Let_def)
        next
          case False
          then have none: "b = a" "side_set ?F k pre (p @ [s]) (NRef e) = {}"
            using b xe False no_prefix_below [OF False] by (simp_all add: Let_def)
          show ?thesis unfolding none by (rule emitted_none)
        qed
        ultimately show ?thesis using xe by simp
      qed
    qed
    then show ?thesis using below_set_children [OF es, where k = k and pre = pre and p = p] sub by simp
  qed
  {
    case 1
    then obtain c r1 where c: "emitted out c {y. y = (p, k) \<and> prefix pre (path_str p)}"
      and w: "(if e_kind e = EDir then emit_children H v k pre (Suc n) (path_str p) (e_id e) c else sret c) r1 = Inr (out', rs')"
      by (auto dest!: push_diff_emitted simp del: emit_children.simps)
    have "emitted c out' (if e_kind e = EDir then below_set ?F k pre p (e_id e) else {})"
      using w children by (auto simp: emitted_none simp del: emit_children.simps split: if_splits)
    then show ?case
      unfolding side_set_dir using c by (rule_tac emitted_trans) (auto split: if_splits simp: neq_Nil_conv)
  next
    case 2
    then show ?case by (rule children)
  }
qed


lemma emitted_eq: "emitted a b S \<Longrightarrow> S = T \<Longrightarrow> emitted a b T"
  by simp

abbreviation diff_set :: "contents \<Rightarrow> rstring \<Rightarrow> rstring list \<Rightarrow> object_id \<Rightarrow> object_id \<Rightarrow>
    (rstring list \<times> diff_kind) set" where
  "diff_set F pre p d1 d2 \<equiv> {(p @ q, k) |q k. q \<noteq> [] \<and>
     change_of (entry_in F d1 q) (entry_in F d2 q) = Some k \<and> prefix pre (path_str (p @ q))}"

lemma sorted_names: "sorted_wrt (<) (remdups_adj (sort (xs :: 'a::linorder list)))"
proof -
  have "sorted (remdups_adj (sort xs))" by simp
  moreover have "distinct (remdups_adj (sort xs))"
  proof -
    have "sorted ys \<Longrightarrow> distinct_adj ys \<Longrightarrow> distinct ys" for ys :: "'a list"
      by (induction ys rule: induct_list012) (auto simp: less_le)
    then show ?thesis by simp
  qed
  ultimately show ?thesis by (simp add: strict_sorted_iff)
qed

text \<open>One name: the three ways the two directories can hold it.\<close>

lemma change_both:
  "e_kind f = EDir \<Longrightarrow> e_kind t = EDir \<Longrightarrow>
   change_of (node_at F (NRef f) r) (node_at F (NRef t) r) = Some k \<longleftrightarrow>
     r \<noteq> [] \<and> change_of (entry_in F (e_id f) r) (entry_in F (e_id t) r) = Some k"
  using node_at_entry [of f r F] node_at_entry [of t r F]
  by (cases "r = []") (auto simp: entry_in_def change_of_def item_of_def)

lemma change_flip:
  assumes "f \<noteq> t" "\<not> (e_kind f = EDir \<and> e_kind t = EDir)"
  shows "change_of (node_at F (NRef f) r) (node_at F (NRef t) r) = Some k \<longleftrightarrow>
     (r = [] \<and> k = Modified) \<or>
     (r \<noteq> [] \<and> e_kind f = EDir \<and> entry_in F (e_id f) r \<noteq> None \<and> k = Removed) \<or>
     (r \<noteq> [] \<and> e_kind t = EDir \<and> entry_in F (e_id t) r \<noteq> None \<and> k = Added)"
proof (cases r)
  case Nil
  then show ?thesis using assms by (auto simp: change_of_def item_of_def split: if_splits)
next
  case (Cons s q)
  have leaf: "e_kind e \<noteq> EDir \<Longrightarrow> node_at F (NRef e) r = None" for e using Cons by (simp add: children_def)
  have dir: "e_kind e = EDir \<Longrightarrow> node_at F (NRef e) r = entry_in F (e_id e) r" for e
    using Cons by (simp add: entry_in_def node_at_entry del: node_at.simps)
  show ?thesis
    using assms(2) leaf [of f] leaf [of t] dir [of f] dir [of t] Cons
    by (cases "e_kind f = EDir"; cases "e_kind t = EDir") auto
qed


lemma diff_set_name:
  assumes "tree_at F d1 = Some m1" "tree_at F d2 = Some m2"
  shows "diff_set F pre p d1 d2 = (\<Union>s \<in> fst ` set m1 \<union> fst ` set m2. {(p @ s # r, k) |r k.
    change_of (Option.bind (bt_get m1 s) (\<lambda>e. node_at F (NRef e) r))
      (Option.bind (bt_get m2 s) (\<lambda>e. node_at F (NRef e) r)) = Some k \<and> prefix pre (path_str (p @ s # r))})"
  (is "_ = (\<Union>s \<in> _. ?B s)")
proof -
  have e1: "entry_in F d1 (s # r) = Option.bind (bt_get m1 s) (\<lambda>e. node_at F (NRef e) r)" for s r
    unfolding entry_in_def node_at_dir_Cons using assms(1) by (simp add: subentries_def split: option.split)
  have e2: "entry_in F d2 (s # r) = Option.bind (bt_get m2 s) (\<lambda>e. node_at F (NRef e) r)" for s r
    unfolding entry_in_def node_at_dir_Cons using assms(2) by (simp add: subentries_def split: option.split)
  have "(p @ q, k) \<in> (\<Union>s \<in> fst ` set m1 \<union> fst ` set m2. ?B s) \<longleftrightarrow>
      q \<noteq> [] \<and> change_of (entry_in F d1 q) (entry_in F d2 q) = Some k \<and> prefix pre (path_str (p @ q))" for q k
  proof (cases q)
    case (Cons s r)
    have "s \<notin> fst ` set m1 \<union> fst ` set m2 \<Longrightarrow> bt_get m1 s = None \<and> bt_get m2 s = None"
      by (simp add: bt_get_None_iff)
    then have "change_of (entry_in F d1 q) (entry_in F d2 q) = Some k \<Longrightarrow> s \<in> fst ` set m1 \<union> fst ` set m2"
      using Cons e1 e2 by fastforce
    then show ?thesis using Cons e1 e2 by fastforce
  qed auto
  moreover have "\<exists>q. fst y = p @ q" if "y \<in> (\<Union>s \<in> fst ` set m1 \<union> fst ` set m2. ?B s)" for y
    using that by auto
  ultimately show ?thesis by (fastforce simp: set_eq_iff)
qed

lemma flip_emitted:
  assumes ft: "f \<noteq> t" "\<not> (e_kind f = EDir \<and> e_kind t = EDir)"
    and w: "sbind (push_diff (path_str p) Modified pre a) (\<lambda>out.
      sbind (if e_kind f = EDir then emit_children H v Removed pre n (path_str p) (e_id f) out else sret out) (\<lambda>out.
      if e_kind t = EDir then emit_children H v Added pre n (path_str p) (e_id t) out else sret out)) r = Inr (b, r')"
  shows "emitted a b {(p @ q, k) |q k. change_of (node_at (lookup H v) (NRef f) q) (node_at (lookup H v) (NRef t) q) = Some k \<and>
    prefix pre (path_str (p @ q))}"
proof -
  let ?F = "lookup H v"
  let ?M = "{y. y = (p, Modified) \<and> prefix pre (path_str p)}"
  let ?R = "if e_kind f = EDir then below_set ?F Removed pre p (e_id f) else {}"
  let ?A = "if e_kind t = EDir then below_set ?F Added pre p (e_id t) else {}"
  from w obtain c r1 d r2 where c: "emitted a c ?M"
    and d: "(if e_kind f = EDir then emit_children H v Removed pre n (path_str p) (e_id f) c else sret c) r1 = Inr (d, r2)"
    and b: "(if e_kind t = EDir then emit_children H v Added pre n (path_str p) (e_id t) d else sret d) r2 = Inr (b, r')"
    by (auto dest!: push_diff_emitted simp del: emit_children.simps)
  have "emitted c d ?R" using d emit_emitted(2) by (auto simp: emitted_none simp del: emit_children.simps split: if_splits)
  moreover have "emitted d b ?A" using b emit_emitted(2) by (auto simp: emitted_none simp del: emit_children.simps split: if_splits)
  ultimately have "emitted c b (?R \<union> ?A)" by (rule emitted_trans) (use ft in \<open>auto split: if_splits\<close>)
  with c have "emitted a b (?M \<union> (?R \<union> ?A))" by (rule emitted_trans) (auto split: if_splits)
  moreover have "?M \<union> (?R \<union> ?A) = {(p @ q, k) |q k.
      change_of (node_at ?F (NRef f) q) (node_at ?F (NRef t) q) = Some k \<and> prefix pre (path_str (p @ q))}"
    unfolding change_flip [OF ft] by (auto split: if_splits)
  ultimately show ?thesis by simp
qed

lemma diff_walk_emitted:
  "diff_walk H v pre n d1 d2 (path_str p) out rs = Inr (out', rs') \<Longrightarrow>
   emitted out out' (diff_set (lookup H v) pre p d1 d2)"
proof (induction n arbitrary: p d1 d2 out out' rs rs')
  case (Suc n)
  let ?F = "lookup H v"
  show ?case
  proof (cases "d1 = d2")
    case True
    then show ?thesis using Suc.prems emitted_none [of out] by simp
  next
    case False
    from Suc.prems False obtain m1 m2 r1 where m: "tree_at ?F d1 = Some m1" "tree_at ?F d2 = Some m2"
      and f: "sfold (\<lambda>out name.
          let child = path_str p @ SLASH # name in
          if \<not> subtree_may_match child pre then sret out
          else case (bt_get m1 name, bt_get m2 name) of
            (Some f, None) \<Rightarrow> emit_side H v Removed pre n child f out
          | (None, Some t) \<Rightarrow> emit_side H v Added pre n child t out
          | (Some f, Some t) \<Rightarrow>
              if f = t then sret out
              else if e_kind f = EDir \<and> e_kind t = EDir
              then diff_walk H v pre n (e_id f) (e_id t) child out
              else sbind (push_diff child Modified pre out) (\<lambda>out.
                sbind (if e_kind f = EDir then emit_children H v Removed pre n child (e_id f) out
                       else sret out) (\<lambda>out.
                if e_kind t = EDir then emit_children H v Added pre n child (e_id t) out else sret out))
          | (None, None) \<Rightarrow> sret out)
          out (remdups_adj (sort (map fst m1 @ map fst m2))) r1 = Inr (out', rs')"
      by (auto dest!: dir_entries_at)
    let ?C = "\<lambda>s r. change_of (Option.bind (bt_get m1 s) (\<lambda>e. node_at ?F (NRef e) r))
      (Option.bind (bt_get m2 s) (\<lambda>e. node_at ?F (NRef e) r))"
    let ?B = "\<lambda>s. {(p @ s # r, k) |r k. ?C s r = Some k \<and> prefix pre (path_str (p @ s # r))}"
    have "emitted out out' (\<Union>s \<in> set (remdups_adj (sort (map fst m1 @ map fst m2))). ?B (id s))"
    proof (rule sfold_emitted [OF f])
      show "sorted_wrt (<) (map id (remdups_adj (sort (map fst m1 @ map fst m2))))"
        using sorted_names [of "map fst m1 @ map fst m2"] by simp
      show "\<exists>r. fst y = p @ s # r" if "y \<in> ?B s" for s y using that by auto
      fix s a b r r'
      let ?p = "p @ [s]"
      have child: "path_str p @ SLASH # s = path_str ?p" by simp
      assume "(let child = path_str p @ SLASH # s in
          if \<not> subtree_may_match child pre then sret a
          else case (bt_get m1 s, bt_get m2 s) of
            (Some f, None) \<Rightarrow> emit_side H v Removed pre n child f a
          | (None, Some t) \<Rightarrow> emit_side H v Added pre n child t a
          | (Some f, Some t) \<Rightarrow>
              if f = t then sret a
              else if e_kind f = EDir \<and> e_kind t = EDir
              then diff_walk H v pre n (e_id f) (e_id t) child a
              else sbind (push_diff child Modified pre a) (\<lambda>out.
                sbind (if e_kind f = EDir then emit_children H v Removed pre n child (e_id f) out
                       else sret out) (\<lambda>out.
                if e_kind t = EDir then emit_children H v Added pre n child (e_id t) out else sret out))
          | (None, None) \<Rightarrow> sret a) r = Inr (b, r')"
      then have w: "(if \<not> subtree_may_match (path_str ?p) pre then sret a
          else case (bt_get m1 s, bt_get m2 s) of
            (Some f, None) \<Rightarrow> emit_side H v Removed pre n (path_str ?p) f a
          | (None, Some t) \<Rightarrow> emit_side H v Added pre n (path_str ?p) t a
          | (Some f, Some t) \<Rightarrow>
              if f = t then sret a
              else if e_kind f = EDir \<and> e_kind t = EDir
              then diff_walk H v pre n (e_id f) (e_id t) (path_str ?p) a
              else sbind (push_diff (path_str ?p) Modified pre a) (\<lambda>out.
                sbind (if e_kind f = EDir then emit_children H v Removed pre n (path_str ?p) (e_id f) out
                       else sret out) (\<lambda>out.
                if e_kind t = EDir then emit_children H v Added pre n (path_str ?p) (e_id t) out else sret out))
          | (None, None) \<Rightarrow> sret a) r = Inr (b, r')"
        unfolding Let_def child .
      have "emitted a b (?B s)"
      proof (cases "subtree_may_match (path_str ?p) pre")
        case no: False
        then have "?B s = {}" using no_prefix_below [OF no] by simp
        moreover have "b = a" using w no by simp
        ultimately show ?thesis by (simp only: emitted_none)
      next
        case may: True
        show ?thesis
        proof (cases "bt_get m1 s"; cases "bt_get m2 s")
          assume n: "bt_get m1 s = None" "bt_get m2 s = None"
          then have "?B s = {}" by simp
          moreover have "b = a" using w may n by simp
          ultimately show ?thesis by (simp only: emitted_none)
        next
          fix t assume n: "bt_get m1 s = None" "bt_get m2 s = Some t"
          then have "emit_side H v Added pre n (path_str ?p) t a r = Inr (b, r')" using w may by simp
          then show ?thesis by (rule emitted_eq [OF emit_emitted(1)]) (use n in \<open>auto split: if_splits\<close>)
        next
          fix f assume n: "bt_get m1 s = Some f" "bt_get m2 s = None"
          then have "emit_side H v Removed pre n (path_str ?p) f a r = Inr (b, r')" using w may by simp
          then show ?thesis by (rule emitted_eq [OF emit_emitted(1)]) (use n in \<open>auto split: if_splits\<close>)
        next
          fix f t assume n: "bt_get m1 s = Some f" "bt_get m2 s = Some t"
          have C: "?C s q = change_of (node_at ?F (NRef f) q) (node_at ?F (NRef t) q)" for q using n by simp
          consider (same) "f = t" | (both) "f \<noteq> t" "e_kind f = EDir" "e_kind t = EDir"
            | (flip) "f \<noteq> t" "\<not> (e_kind f = EDir \<and> e_kind t = EDir)" by blast
          then show ?thesis
          proof cases
            case same
            then have "?B s = {}" using n by simp
            moreover have "b = a" using w may n same by simp
            ultimately show ?thesis by (simp only: emitted_none)
          next
            case both
            then have "diff_walk H v pre n (e_id f) (e_id t) (path_str ?p) a r = Inr (b, r')" using w may n by simp
            then show ?thesis
              by (rule emitted_eq [OF Suc.IH]) (use change_both [OF both(2,3), of ?F] C in \<open>auto\<close>)
          next
            case flip
            from w have "sbind (push_diff (path_str ?p) Modified pre a) (\<lambda>out.
                sbind (if e_kind f = EDir then emit_children H v Removed pre n (path_str ?p) (e_id f) out
                       else sret out) (\<lambda>out.
                if e_kind t = EDir then emit_children H v Added pre n (path_str ?p) (e_id t) out else sret out)) r
              = Inr (b, r')"
              by (simp only: may n flip not_True_eq_False if_False prod.case option.case)
            then show ?thesis by (rule emitted_eq [OF flip_emitted [OF flip]]) (simp only: C append.assoc append_Cons append_Nil)
          qed
        qed
      qed
      then show "emitted a b (?B (id s))" by simp
    qed
    then show ?thesis using diff_set_name [OF m, where pre = pre and p = p] by simp
  qed
qed simp

end
