(* ===== verification/Read_Spec.thy ===== *)
theory Read_Spec
  imports Query_Spec
begin

text \<open>
  What a ranged read of queries.rs returns: the slice of the file's content, for any range, when the
  file's chunks are held and have the lengths its size dictates.
\<close>

subsection \<open>Slices of a concatenation of equal pieces\<close>

abbreviation slice :: "nat \<Rightarrow> nat \<Rightarrow> 'a list \<Rightarrow> 'a list" where
  "slice a b xs \<equiv> drop a (take b xs)"

lemma slice_append:
  assumes "a \<le> b" "b \<le> c"
  shows "slice a b xs @ slice b c xs = slice a c xs"
proof -
  have "take c xs = take b xs @ slice b c xs"
    using assms(2) append_take_drop_id [of b "take c xs"] by (simp add: min_def)
  then have "slice a c xs = slice a b xs @ drop (a - length (take b xs)) (slice b c xs)"
    by (metis drop_append)
  moreover have "drop (a - length (take b xs)) (slice b c xs) = slice b c xs"
    using assms(1) by (cases "b \<le> length xs") simp_all
  ultimately show ?thesis by simp
qed

lemma slice_slice:
  assumes "b \<le> d - c"
  shows "slice a b (slice c d xs) = slice (c + a) (c + b) xs"
proof (cases "c \<le> d")
  case True
  then have "min (b + c) d = c + b" using assms by linarith
  then show ?thesis by (simp add: take_drop add.commute)
next
  case False
  then show ?thesis using assms by simp
qed

text \<open>The pieces of a file: all but the last have the length \<open>c\<close>.\<close>

definition pieces :: "nat \<Rightarrow> 'a list list \<Rightarrow> bool" where
  "pieces c bs \<longleftrightarrow> (\<forall>i < length bs. i + 1 < length bs \<longrightarrow> length (bs ! i) = c)"

lemma pieces_Cons: "pieces c (b # bs) \<Longrightarrow> pieces c bs \<and> (bs \<noteq> [] \<longrightarrow> length b = c)"
  by (force simp: pieces_def)

lemma piece_slice:
  "pieces c bs \<Longrightarrow> k < length bs \<Longrightarrow> bs ! k = slice (k * c) (k * c + length (bs ! k)) (concat bs)"
proof (induction bs arbitrary: k)
  case (Cons b bs)
  show ?case
  proof (cases k)
    case (Suc j)
    then have "length b = c" "bs ! j = slice (j * c) (j * c + length (bs ! j)) (concat bs)"
      using Cons pieces_Cons [of c b bs] by auto
    then show ?thesis using Suc by simp
  qed simp
qed simp

lemma pieces_length:
  "pieces c bs \<Longrightarrow> bs \<noteq> [] \<Longrightarrow> length (concat bs) = (length bs - 1) * c + length (last bs)"
proof (induction bs)
  case (Cons b bs)
  then show ?case using pieces_Cons [of c b bs] by (cases bs) auto
qed simp

text \<open>What one chunk adds to the range \<open>[o, e)\<close> of the content.\<close>

lemma range_step:
  fixes k c s e m :: nat
  assumes "s < Suc k * c" and "k * c < e" and "m = c \<or> k * c + m = length xs" and "m \<le> c" and "s < e"
    and "e \<le> length xs" and "b = slice (k * c) (k * c + m) xs"
  shows "slice s (min e (k * c)) xs @
      (if max s (k * c) < min e (k * c + m)
       then slice (max s (k * c) - k * c) (min e (k * c + m) - k * c) b else []) =
    slice s (min e (Suc k * c)) xs"
proof -
  let ?lo = "max s (k * c)" and ?hi = "min e (k * c + m)"
  have hi: "take ?hi xs = take (min e (Suc k * c)) xs"
    using assms(3,4,6) by (auto simp: min_def add.commute)
  have sub: "?hi - k * c \<le> (k * c + m) - k * c" by simp
  have add: "k * c + (?lo - k * c) = ?lo" "?lo < ?hi \<Longrightarrow> k * c + (?hi - k * c) = ?hi" by simp_all
  have piece: "?lo < ?hi \<Longrightarrow> slice (?lo - k * c) (?hi - k * c) b = slice ?lo ?hi xs"
    unfolding assms(7) slice_slice [OF sub] using add by simp
  have ke: "min e (k * c) = k * c" using assms(2) by simp
  show ?thesis
  proof (cases "?lo < ?hi")
    case True
    have "slice s (k * c) xs @ slice ?lo ?hi xs = slice s ?hi xs"
    proof (cases "s \<le> k * c")
      case le: True
      then show ?thesis using True slice_append [of s "k * c" ?hi xs] by (simp add: max_def)
    qed (simp add: max_def)
    then show ?thesis using True piece hi ke by simp
  next
    case False
    then have "?hi \<le> s \<or> ?hi = k * c" using assms(2) by linarith
    then have "slice s (k * c) xs = slice s ?hi xs" using assms(2) by (auto simp: min_def split: if_splits)
    moreover have "slice s ?hi xs = slice s (min e (Suc k * c)) xs" unfolding hi ..
    ultimately show ?thesis unfolding ke if_not_P [OF False] append_Nil2 by (rule trans)
  qed
qed


subsection \<open>Files that are held\<close>

definition file_pieces :: "contents \<Rightarrow> file_obj \<Rightarrow> bytes list \<Rightarrow> bool" where
  "file_pieces F f bs \<longleftrightarrow>
     list_all2 (\<lambda>i b. F i = Some (KChunk, b)) (f_chunks f) bs \<and>
     verify_file_shape (f_size f) (length (f_chunks f)) = Inr () \<and>
     (\<forall>i < length bs. verify_chunk_len f i (of_nat (length (bs ! i))) = Inr () \<and> length (bs ! i) < 2 ^ 64)"

lemma file_pieces_shape:
  assumes "file_pieces F f bs" "length (f_chunks f) < 2 ^ 64"
  shows "length (concat bs) = unat (f_size f)" and "pieces 1048576 bs"
    and "k < length bs \<Longrightarrow> length (bs ! k) = 1048576 \<or> k * 1048576 + length (bs ! k) = unat (f_size f)"
    and "k < length bs \<Longrightarrow> length (bs ! k) \<le> 1048576"
    and "unat (f_size f) \<le> length bs * 1048576" and "length bs * 1048576 < 2 ^ 64"
proof -
  let ?n = "length (f_chunks f)" and ?s = "unat (f_size f)"
  have n: "length bs = ?n" using assms(1) by (auto simp: file_pieces_def dest: list_all2_lengthD)
  have shape: "if f_size f = 0 then ?n = 0 else 0 < ?n \<and> ?n * 1048576 < 2 ^ 64 \<and> (?n - 1) * 1048576 < ?s \<and> ?s \<le> ?n * 1048576"
    using verify_file_shape_iff [OF assms(2), of "f_size f"] assms(1) unfolding unat_CHUNK_SIZE file_pieces_def by blast
  then show "?s \<le> length bs * 1048576" "length bs * 1048576 < 2 ^ 64" using n by (auto split: if_splits)
  have len: "verify_chunk_len_at (f_size f) ?n i (of_nat (length (bs ! i))) = Inr () \<and>
      unat (of_nat (length (bs ! i)) :: u64) = length (bs ! i)" if "i < ?n" for i
    using assms(1) that n by (auto simp: file_pieces_def verify_chunk_len_def unat_of_nat)
  have inner: "length (bs ! i) = 1048576" if "i + 1 < ?n" for i
    using len [of i] verify_inner_chunk [OF that, of "f_size f"] that by (metis Suc_eq_plus1 Suc_lessD unat_CHUNK_SIZE)
  then show p: "pieces 1048576 bs" by (simp add: pieces_def n)
  have last: "length (bs ! (?n - 1)) = ?s - (?n - 1) * 1048576 \<and> (?n - 1) * 1048576 < ?s \<and> ?s - (?n - 1) * 1048576 \<le> 1048576"
    if "0 < ?n"
    using len [of "?n - 1"] verify_last_chunk [OF that assms(2), of "f_size f"] that by simp
  show "length (bs ! k) = 1048576 \<or> k * 1048576 + length (bs ! k) = ?s" "length (bs ! k) \<le> 1048576"
    if "k < length bs"
  proof -
    have "k + 1 < ?n \<or> k = ?n - 1 \<and> 0 < ?n" using that n by linarith
    then show "length (bs ! k) = 1048576 \<or> k * 1048576 + length (bs ! k) = ?s" "length (bs ! k) \<le> 1048576"
      using inner [of k] last by auto
  qed
  show "length (concat bs) = ?s"
  proof (cases "bs = []")
    case True
    then show ?thesis using shape n by (auto split: if_splits)
  next
    case False
    then have "0 < ?n" using n by (metis length_greater_0_conv)
    then show ?thesis using pieces_length [OF p False] last False n by (simp add: last_conv_nth)
  qed
qed

definition plain :: "view \<Rightarrow> bool" where
  "plain v \<longleftrightarrow> v_pending v = [] \<and> v_budget v = None"

lemma plain_committed [simp]: "plain (committed_store ops fs)"
  by (simp add: plain_def committed_store_def)

lemma plain_get: "plain v \<Longrightarrow> lookup H v i = Some kb \<Longrightarrow> store_get H v i rs = Inr (Some kb, rs)"
  by (auto simp: plain_def lookup_def store_get_def sbind_def sret_def slift_def split: sum.splits option.splits)

lemma read_chunk_step:
  fixes s e :: u64
  assumes "plain v" and fp: "file_pieces (lookup H v) f bs" "length (f_chunks f) < 2 ^ 64"
    and k: "k < length bs" "k * 1048576 < unat e" "unat s < Suc k * 1048576" and e: "e \<le> f_size f" "s < e"
  shows "read_chunk H v f s e (slice (unat s) (min (unat e) (k * 1048576)) (concat bs)) k rs =
    Inr (slice (unat s) (min (unat e) (Suc k * 1048576)) (concat bs), rs)"
proof -
  let ?i = "f_chunks f ! k" and ?m = "length (bs ! k)" and ?cs = "of_nat k * CHUNK_SIZE :: u64"
  note sh = file_pieces_shape [OF fp]
  have n: "k < length (f_chunks f)" and get: "lookup H v ?i = Some (KChunk, bs ! k)"
    and ok: "verify_chunk_len f k (of_nat ?m) = Inr ()"
    using fp(1) k(1) by (auto simp: file_pieces_def list_all2_conv_all_nth)
  have ck: "Suc k * 1048576 < 2 ^ 64" using k(1) sh(6) by (metis Suc_leI le_less_trans mult_le_mono1)
  have kn: "unat (of_nat k :: u64) = k" using ck by (simp add: unat_of_nat)
  have cs: "unat ?cs = k * 1048576" using kn ck by (simp add: unat_word_ariths)
  have m: "?m \<le> 1048576" using sh(4) k(1) by blast
  have mu: "unat (of_nat ?m :: u64) = ?m" using m by (simp add: unat_of_nat)
  have ce: "unat (?cs + of_nat ?m) = k * 1048576 + ?m" using cs mu m ck by (simp add: unat_word_ariths)
  have mx: "unat (max s ?cs) = max (unat s) (k * 1048576)"
    using cs by (simp add: max_def word_le_nat_alt)
  have mn: "unat (min e (?cs + of_nat ?m)) = min (unat e) (k * 1048576 + ?m)"
    using ce by (simp add: min_def word_le_nat_alt)
  have sub: "unat (x - ?cs) = unat x - k * 1048576" if "?cs \<le> x" for x :: u64
    using that cs by (simp add: unat_sub)
  have lt: "max s ?cs < min e (?cs + of_nat ?m) \<longleftrightarrow>
      max (unat s) (k * 1048576) < min (unat e) (k * 1048576 + ?m)"
    by (simp only: word_less_nat_alt mx mn)
  have "?cs \<le> e" using cs k(2) by (simp add: word_le_nat_alt)
  moreover have "?cs \<le> ?cs + of_nat ?m" using cs ce by (simp add: word_le_nat_alt)
  ultimately have lo: "unat (max s ?cs - ?cs) = max (unat s) (k * 1048576) - k * 1048576"
    and hi: "unat (min e (?cs + of_nat ?m) - ?cs) = min (unat e) (k * 1048576 + ?m) - k * 1048576"
    using sub [of "max s ?cs"] sub [of "min e (?cs + of_nat ?m)"] mx mn by simp_all
  have "read_chunk H v f s e out k rs = Inr (out @
      (if max s ?cs < min e (?cs + of_nat ?m)
       then slice (unat (max s ?cs - ?cs)) (unat (min e (?cs + of_nat ?m) - ?cs)) (bs ! k) else []), rs)" for out
    using n plain_get [OF assms(1) get] ok
    by (simp add: read_chunk_def sbind_def sret_def slift_def Let_def
        del: max_less_iff_conj min_less_iff_conj less_max_iff_disj min_less_iff_disj)
  note this [unfolded lt lo hi]
  moreover have "slice (unat s) (min (unat e) (k * 1048576)) (concat bs) @
      (if max (unat s) (k * 1048576) < min (unat e) (k * 1048576 + ?m)
       then slice (max (unat s) (k * 1048576) - k * 1048576) (min (unat e) (k * 1048576 + ?m) - k * 1048576) (bs ! k)
       else []) = slice (unat s) (min (unat e) (Suc k * 1048576)) (concat bs)"
    using k(2,3) sh(3) [OF k(1)] m e piece_slice [OF sh(2) k(1)] sh(1)
    by (intro range_step) (simp_all add: word_le_nat_alt word_less_nat_alt)
  ultimately show ?thesis by simp
qed

lemma read_chunks:
  fixes s e :: u64
  assumes "plain v" "file_pieces (lookup H v) f bs" "length (f_chunks f) < 2 ^ 64" "e \<le> f_size f" "s < e"
    and "unat s div 1048576 \<le> j" "j \<le> length bs" "j \<le> (unat e - 1) div 1048576 + 1"
  shows "sfold (read_chunk H v f s e) [] [unat s div 1048576..<j] rs =
    Inr (slice (unat s) (min (unat e) (j * 1048576)) (concat bs), rs)"
  using assms(6-8)
proof (induction j rule: dec_induct)
  case base
  have "unat s div 1048576 * 1048576 \<le> unat s" by simp
  then have "min (unat e) (unat s div 1048576 * 1048576) \<le> unat s" by (rule min.coboundedI2)
  then show ?case by (simp add: sret_def del: min.bounded_iff)
next
  case (step j)
  have "j * 1048576 \<le> unat e - 1" using step.prems(2) by (metis Suc_eq_plus1 Suc_le_mono div_le_mono2 less_eq_div_iff_mult_less_eq zero_less_numeral)
  moreover have "0 < unat e" using assms(5) by (simp add: word_less_nat_alt)
  ultimately have "j * 1048576 < unat e" by linarith
  moreover have "unat s < Suc j * 1048576" using step.hyps(1) by (simp add: div_less_iff_less_mult [symmetric] le_imp_less_Suc)
  ultimately show ?case
    using step read_chunk_step [OF assms(1-3) _ _ _ assms(4,5), of j rs]
    by (simp add: sfold_append sbind_def sret_def)
qed


lemma read_range_exact:
  assumes "plain v" "file_pieces (lookup H v) f bs" "length (f_chunks f) < 2 ^ 64"
  shows "read_range H v f offset len rs = Inr (take (unat len) (drop (unat offset) (concat bs)), rs)"
proof (cases "f_size f \<le> offset \<or> len = 0")
  case True
  then show ?thesis
    using file_pieces_shape(1) [OF assms(2,3)]
    by (auto simp: read_range_def Let_def sret_def word_le_nat_alt)
next
  case False
  let ?e = "min (saturating_add64 offset len) (f_size f)" and ?C = "1048576 :: nat"
  note sh = file_pieces_shape [OF assms(2,3)]
  have s: "unat offset < unat (f_size f)" and l: "0 < unat len"
    using False by (auto simp: not_le word_less_nat_alt unat_gt_0)
  have e: "unat ?e = min (unat offset + unat len) (unat (f_size f))"
    using unat_lt_64 [of "f_size f"]
    by (auto simp: min_def word_le_nat_alt unat_saturating_add64 split: if_splits)
  then have lt: "offset < ?e" using s l by (simp add: word_less_nat_alt)
  have pred: "unat (?e - 1) = unat ?e - 1"
    using e s l by (intro unat_minus_one) (auto simp flip: unat_eq_0)
  let ?j = "unat ((?e - 1) div CHUNK_SIZE) + 1"
  have j: "?j = (unat ?e - 1) div ?C + 1" by (simp add: unat_div pred)
  have jn: "?j \<le> length bs"
  proof -
    have "unat ?e - 1 < length bs * ?C" using e s sh(5) by linarith
    then show ?thesis unfolding j by (simp add: Suc_le_eq less_mult_imp_div_less)
  qed
  have first: "unat (offset div CHUNK_SIZE) = unat offset div ?C" by (simp add: unat_div)
  have "unat offset div ?C \<le> ?j"
    using lt unfolding j word_less_nat_alt by (metis div_le_mono le_SucI less_Suc_eq_le Suc_eq_plus1 Suc_pred' gr_implies_not0 not_gr0)
  then have "sfold (read_chunk H v f offset ?e) [] [unat offset div ?C..<?j] rs =
      Inr (slice (unat offset) (min (unat ?e) (?j * ?C)) (concat bs), rs)"
    using jn j by (intro read_chunks [OF assms _ lt]) simp_all
  moreover have "unat ?e \<le> ?j * ?C"
  proof -
    have "x \<le> ((x - 1) div ?C + 1) * ?C" for x
      using dividend_less_div_times [of ?C "x - 1"] by (simp add: add.commute)
    then show ?thesis unfolding j .
  qed
  moreover have "slice (unat offset) (unat ?e) (concat bs) = take (unat len) (drop (unat offset) (concat bs))"
    using e sh(1) by (auto simp: take_drop min_def add.commute)
  ultimately show ?thesis
    using False by (simp add: read_range_def Let_def first min.absorb1 del: One_nat_def)
qed

end
