(* ===== verification/Query_Results.thy ===== *)
theory Query_Results
  imports Diff_Spec Read_Spec Commit_Spec
begin

text \<open>
  The queries of queries.rs against the committed tree: find and its paging, diff, and the ranged
  read, each over what the object store holds.
\<close>

subsection \<open>The committed tree a query reads\<close>

definition named_head :: "'s fs \<Rightarrow> rstring option \<Rightarrow> object_id option" where
  "named_head fs snapshot = (case snapshot of None \<Rightarrow> head (fs_refs fs) | Some hex \<Rightarrow> from_hex_32 hex)"

definition committed_node :: "'s store_ops \<Rightarrow> 's fs \<Rightarrow> rstring option \<Rightarrow> node" where
  "committed_node ops fs snapshot =
     edit_load (root_of (store_contents ops (store fs)) (named_head fs snapshot))"

lemma lookup_committed: "lookup H (committed_store ops fs) = store_contents ops (store fs)"
  by (auto simp: lookup_def committed_store_def store_contents_def split: sum.splits)

lemma resolve_head_named: "resolve_head H ops fs snapshot rs = Inr (x, rs') \<Longrightarrow> x = named_head fs snapshot"
  by (auto simp: resolve_head_def named_head_def split: option.splits if_splits)

lemma committed_view_root:
  assumes "committed_view H ops fs snapshot rs = Inr (root, rs')"
  shows "root = root_of (store_contents ops (store fs)) (named_head fs snapshot)"
  using assms unfolding lookup_committed [of H, symmetric]
  by (auto simp: committed_view_def root_of_def split: option.splits
      dest!: resolve_head_named snapshot_root_tree_at)

lemma find_query_page:
  assumes "find_query n H ops fs pre snapshot cursor limit rs = Inr (RFind entries next, rs')"
    and "named (store_contents ops (store fs))"
    and "\<forall>p. node_at (store_contents ops (store fs)) (committed_node ops fs snapshot) p \<noteq> None \<longrightarrow> length p \<le> n"
  shows "\<exists>M. sorted_wrt (<) (map fst M) \<and>
    set M = {(p, e). p \<noteq> [] \<and> matching pre cursor p \<and>
      node_at (store_contents ops (store fs)) (committed_node ops fs snapshot) p = Some (NRef e)} \<and>
    entries = map (\<lambda>(p, e). info_of (store_contents ops (store fs)) (path_str p) e) (take (page_limit limit) M) \<and>
    next = (if page_limit limit < length M then Some (path_str (fst (M ! (page_limit limit - 1)))) else None)"
proof -
  let ?F = "store_contents ops (store fs)" and ?v = "committed_store ops fs"
  let ?acc = "\<lparr>fa_out = [], fa_next = None, fa_done = False\<rparr>" and ?lim = "page_limit limit"
  let ?m = "\<lambda>(q, e). matching pre cursor q"
  have lim: "0 < ?lim" by (auto simp: page_limit_def MAX_PAGE_def unat_gt_0 not_less dest: word_le_0_iff [THEN iffD1])
  from assms(1) obtain root r1 acc where root: "root = root_of ?F (named_head fs snapshot)"
    and w: "find_walk H ?v pre cursor ?lim n root [] ?acc r1 = Inr (acc, rs')"
    and out: "entries = fa_out acc" "next = fa_next acc"
    by (auto simp: find_query_def simp del: find_walk.simps dest!: committed_view_root)
  define L where "L = (case root of None \<Rightarrow> [] | Some d \<Rightarrow> listing ?F n [] d)"
  have acc: "acc = fold (find_step ?F ?lim) (filter ?m L) ?acc"
  proof (cases root)
    case None
    then show ?thesis using w by (cases n) (auto simp: L_def dir_entries_def)
  next
    case (Some d)
    have "find_walk H ?v pre cursor ?lim n (Some d) (path_str []) ?acc r1 = Inr (acc, rs')" using w Some by simp
    from find_walk_fold [OF this, unfolded lookup_committed, OF assms(2)] show ?thesis
      using Some by (simp add: L_def)
  qed
  have mem: "(p, e) \<in> set L \<longleftrightarrow> p \<noteq> [] \<and> node_at ?F (committed_node ops fs snapshot) p = Some (NRef e)" for p e
  proof (cases root)
    case None
    then show ?thesis by (cases p) (simp_all add: L_def committed_node_def root [symmetric] edit_load_def children_def)
  next
    case (Some d)
    then have "committed_node ops fs snapshot = edit_load (Some d)" by (simp add: committed_node_def root [symmetric])
    then show ?thesis using listing_iff [of "[]" p e ?F n d] assms(3) Some by (auto simp: L_def)
  qed
  have "sorted_wrt (<) (map fst L)" using listing_sorted by (simp add: L_def split: option.split)
  then have srt: "sorted_wrt (<) (map fst (filter ?m L))"
    by (simp add: sorted_wrt_map sorted_wrt_filter)
  have res: "entries = map (\<lambda>(p, e). info_of ?F (path_str p) e) (take ?lim (filter ?m L))"
    "next = (if ?lim < length (filter ?m L) then Some (ei_path (last entries)) else None)"
    using acc out find_steps [of ?acc ?lim ?F "filter ?m L"] lim by (simp_all add: Let_def)
  have "ei_path (last entries) = path_str (fst (filter ?m L ! (?lim - 1)))" if "?lim < length (filter ?m L)"
  proof -
    let ?M = "filter ?m L"
    have ne: "take ?lim ?M \<noteq> []" and len: "length (take ?lim ?M) = ?lim"
      using that lim by (auto simp: min_def)
    have "last (take ?lim ?M) = ?M ! (?lim - 1)" using last_conv_nth [OF ne] len lim by simp
    then show ?thesis unfolding res(1) last_map [OF ne] by (simp add: case_prod_beta)
  qed
  then show ?thesis
    using srt mem res by (intro exI [of _ "filter ?m L"]) auto
qed


text \<open>The names on a path of a tree without slashes in its names.\<close>

lemma node_at_names:
  "node_at F (NRef e) p \<noteq> None \<Longrightarrow> named F \<Longrightarrow> \<forall>s \<in> set p. SLASH \<notin> set s"
proof (induction p arbitrary: e)
  case (Cons s p)
  from Cons.prems(1) obtain es e' where es: "tree_at F (e_id e) = Some es"
    and e': "bt_get es s = Some e'" "node_at F (NRef e') p \<noteq> None"
    using bt_get_map_value [of "\<lambda>_ e. NRef e" _ s]
    by (auto simp: children_def split: option.splits if_splits)
  have "SLASH \<notin> set s" using Cons.prems(2) es bt_get_Some_mem [OF e'(1)] by (fastforce simp: named_def)
  then show ?case using Cons.IH [OF e'(2) Cons.prems(2)] by simp
qed simp

lemma committed_names:
  assumes "node_at F (committed_node ops fs snapshot) p \<noteq> None" and "named F"
  shows "\<forall>s \<in> set p. SLASH \<notin> set s"
proof (cases "root_of (store_contents ops (store fs)) (named_head fs snapshot)")
  case None
  then show ?thesis using assms(1) by (cases p) (simp_all add: committed_node_def edit_load_def children_def)
next
  case (Some d)
  then show ?thesis
    using node_at_names [of F _ p] assms by (simp add: committed_node_def edit_load_def)
qed

lemma sorted_pairs_eq:
  assumes "bt_wf xs" "bt_wf ys" "set xs = set ys"
  shows "xs = ys"
proof (rule bt_ext [OF assms(1,2)])
  show "bt_get xs k = bt_get ys k" for k
    using bt_get_iff_mem [OF assms(1), of k] bt_get_iff_mem [OF assms(2), of k] assms(3)
    by (cases "bt_get xs k"; cases "bt_get ys k") auto
qed

text \<open>Asking again with the cursor of a page continues after it: pages tile the enumeration.\<close>

lemma after_cursor_path:
  "\<forall>s \<in> set q. SLASH \<notin> set s \<Longrightarrow> after_cursor (Some (path_str q)) p \<longleftrightarrow> q < p"
  by (simp add: after_cursor_def split_path_str)

lemma after_cursor_trans: "after_cursor c q \<Longrightarrow> q < p \<Longrightarrow> after_cursor c p"
  using less_trans [of _ "[] # q" "[] # p"] by (auto simp: after_cursor_def split: option.splits)

lemma sorted_drop_after:
  assumes "sorted_wrt (<) (map fst M)" "0 < k" "k < length (M :: ('a::linorder \<times> 'b) list)"
  shows "set (drop k M) = {x \<in> set M. fst (M ! (k - 1)) < fst x}"
proof -
  have lt: "fst (M ! i) < fst (M ! j)" if "i < j" "j < length M" for i j
    using assms(1) that by (simp add: sorted_wrt_iff_nth_less)
  have "x \<in> set (drop k M) \<longleftrightarrow> (\<exists>j < length M. k \<le> j \<and> x = M ! j)" for x
  proof
    assume "x \<in> set (drop k M)"
    then obtain j where "j < length M - k" "x = M ! (k + j)" by (auto simp: in_set_conv_nth)
    then show "\<exists>j < length M. k \<le> j \<and> x = M ! j" by (intro exI [of _ "k + j"]) auto
  next
    assume "\<exists>j < length M. k \<le> j \<and> x = M ! j"
    then obtain j where j: "j < length M" "k \<le> j" "x = M ! j" by blast
    then have "x = drop k M ! (j - k)" "j - k < length (drop k M)" by auto
    then show "x \<in> set (drop k M)" by (metis nth_mem)
  qed
  moreover have "k \<le> j \<longleftrightarrow> fst (M ! (k - 1)) < fst (M ! j)" if "j < length M" for j
  proof
    show "fst (M ! (k - 1)) < fst (M ! j)" if "k \<le> j"
      using that assms(2) \<open>j < length M\<close> by (intro lt) auto
    show "k \<le> j" if a: "fst (M ! (k - 1)) < fst (M ! j)"
    proof (rule ccontr)
      assume "\<not> k \<le> j"
      then have "j = k - 1 \<or> j < k - 1" by linarith
      then show False using a lt [of j "k - 1"] assms(3) by (auto dest: order.asym)
    qed
  qed
  ultimately have "x \<in> set (drop k M) \<longleftrightarrow> x \<in> set M \<and> fst (M ! (k - 1)) < fst x" for x
    by (metis in_set_conv_nth)
  then show ?thesis by blast
qed

lemma find_pages_tile:
  assumes "sorted_wrt (<) (map fst M)" "set M = {(p, e). p \<noteq> [] \<and> matching pre cursor p \<and> N p = Some (NRef e)}"
    and "sorted_wrt (<) (map fst M')" "set M' = {(p, e). p \<noteq> [] \<and> matching pre (Some (path_str q)) p \<and> N p = Some (NRef e)}"
    and "q = fst (M ! (k - 1))" "0 < k" "k < length M" "\<And>p. N p \<noteq> None \<Longrightarrow> \<forall>s \<in> set p. SLASH \<notin> set s"
  shows "M' = drop k M"
proof (rule sorted_pairs_eq)
  have "M ! (k - 1) \<in> set M" using assms(7) by (intro nth_mem) simp
  then have q: "matching pre cursor q" "\<forall>s \<in> set q. SLASH \<notin> set s"
    using assms(2,5,8) by (auto simp: case_prod_beta)
  show "bt_wf M'" using assms(3) by (simp add: bt_wf_def)
  show "bt_wf (drop k M)"
    using assms(1) by (simp add: bt_wf_def drop_map [symmetric] sorted_wrt_drop)
  have m: "matching pre (Some (path_str q)) p \<longleftrightarrow> matching pre cursor p \<and> q < p" for p
    using after_cursor_path [OF q(2)] after_cursor_trans q(1) by (auto simp: matching_def)
  show "set M' = set (drop k M)"
    unfolding sorted_drop_after [OF assms(1,6,7)] assms(5) [symmetric] assms(2,4) m by auto
qed

subsection \<open>Diff\<close>

lemma diff_query_exact:
  assumes "diff n H ops fs from_s to_s pre rs = Inr (RDiff out, rs')"
  shows "\<exists>L. out = map diff_entry_of L \<and> sorted_wrt (<) (map fst L) \<and>
    set L = {(q, k). q \<noteq> [] \<and> prefix pre (path_str q) \<and>
      change_of (node_at (store_contents ops (store fs)) (committed_node ops fs (Some from_s)) q)
        (node_at (store_contents ops (store fs)) (committed_node ops fs (Some to_s)) q) = Some k}"
proof -
  let ?F = "store_contents ops (store fs)" and ?v = "committed_store ops fs"
  from assms obtain i j d1 d2 r where ids: "named_head fs (Some from_s) = Some i" "named_head fs (Some to_s) = Some j"
    and roots: "\<exists>s. snapshot_at ?F i = Some s \<and> d1 = s_root s" "\<exists>s. snapshot_at ?F j = Some s \<and> d2 = s_root s"
    and w: "diff_walk H ?v pre n d1 d2 (path_str []) [] r = Inr (out, rs')"
    unfolding lookup_committed [of H, symmetric]
    by (auto simp: diff_def Let_def simp del: diff_walk.simps dest!: resolve_head_named snapshot_root_tree_at)
  have c: "committed_node ops fs (Some from_s) = edit_load (Some d1)" "committed_node ops fs (Some to_s) = edit_load (Some d2)"
    using ids roots by (auto simp: committed_node_def root_of_def)
  have "emitted [] out (diff_set ?F pre [] d1 d2)"
    using diff_walk_emitted [OF w] by (simp add: lookup_committed)
  then show ?thesis unfolding c entry_in_def by (auto simp: emitted_def conj_ac)
qed

subsection \<open>Read\<close>

lemma fetch_tree_plain:
  "plain v \<Longrightarrow> tree_at (lookup H v) d = Some es \<Longrightarrow> fetch_tree H v d rs = Inr (es, rs)"
  by (auto simp: tree_at_def fetch_tree_def plain_get sbind_def slift_def split: option.splits kind.splits sum.splits)

lemma snapshot_root_plain:
  "plain v \<Longrightarrow> snapshot_at (lookup H v) i = Some s \<Longrightarrow> snapshot_root_tree H v i rs = Inr (s_root s, rs)"
  by (auto simp: snapshot_at_def snapshot_root_tree_def plain_get sbind_def slift_def
      split: option.splits kind.splits sum.splits)

lemma load_fileobj_plain:
  "plain v \<Longrightarrow> file_at (lookup H v) i = Some f \<Longrightarrow> load_fileobj H v i rs = Inr (f, rs)"
  by (auto simp: file_at_def load_fileobj_def plain_get sbind_def slift_def
      split: option.splits kind.splits sum.splits)

lemma entry_from_plain:
  "plain v \<Longrightarrow> segs \<noteq> [] \<Longrightarrow> node_at (lookup H v) (edit_load (Some d)) segs = Some (NRef e) \<Longrightarrow>
   entry_from H v d segs rs = Inr (Some e, rs)"
proof (induction segs arbitrary: d)
  case (Cons s segs)
  let ?F = "lookup H v"
  from Cons.prems(3) obtain x where x: "bt_get (subentries ?F d) s = Some x" "node_at ?F (NRef x) segs = Some (NRef e)"
    unfolding node_at_dir_Cons by (auto split: option.splits)
  then obtain es where es: "tree_at ?F d = Some es" "bt_get es s = Some x"
    by (auto simp: subentries_def split: option.splits)
  note f = fetch_tree_plain [OF Cons.prems(1) es(1)]
  show ?case
  proof (cases "segs = []")
    case True
    then show ?thesis using x es f by (simp add: sbind_def sret_def)
  next
    case False
    then have "e_kind x = EDir" using x(2) by (cases segs) (auto simp: children_def split: if_splits)
    then show ?thesis
      using Cons.IH [OF Cons.prems(1) False] x es f False node_at_entry [of x segs ?F] by (simp add: sbind_def)
  qed
qed simp

lemma entry_at_plain:
  assumes "plain v" "segs \<noteq> []" "node_at (lookup H v) (edit_load root) segs = Some (NRef e)"
  shows "entry_at H v root segs rs = Inr (Some e, rs)"
proof (cases root)
  case None
  then show ?thesis using assms(2,3) by (cases segs) (simp_all add: edit_load_def children_def)
next
  case (Some d)
  then show ?thesis using entry_from_plain [OF assms(1,2)] assms by (simp add: entry_at_def)
qed

lemma read_query_exact:
  assumes "canonical nfc path = Inr segs" "segs \<noteq> []"
    and e: "node_at (store_contents ops (store fs)) (committed_node ops fs None) segs = Some (NRef e)" "e_kind e \<noteq> EDir"
    and f: "file_at (store_contents ops (store fs)) (e_id e) = Some f"
      "file_pieces (store_contents ops (store fs)) f bs"
  shows "read_query H nfc b64_encode ops fs path None offset len rs =
    (let got = take (unat (min len MAX_READ_BYTES)) (drop (unat offset) (concat bs))
     in Inr (RRead (b64_encode got) (saturating_add64 offset (of_nat (length got)) \<ge> f_size f), rs))"
proof -
  let ?v = "committed_store ops fs" and ?F = "store_contents ops (store fs)"
  have "committed_view H ops fs None rs = Inr (root_of ?F (head (fs_refs fs)), rs)"
  proof (cases "head (fs_refs fs)")
    case None
    then show ?thesis by (simp add: committed_view_def resolve_head_def root_of_def sbind_def sret_def)
  next
    case (Some h)
    have "snapshot_at ?F h \<noteq> None"
    proof
      assume "snapshot_at ?F h = None"
      then have "committed_node ops fs None = NDir []"
        using Some by (simp add: committed_node_def named_head_def root_of_def edit_load_def)
      then show False using e(1) assms(2) by (cases segs) (simp_all add: children_def)
    qed
    then obtain s where s: "snapshot_at ?F h = Some s" by blast
    then show ?thesis
      using Some snapshot_root_plain [OF plain_committed, of H ops fs h s] unfolding lookup_committed
      by (simp add: committed_view_def resolve_head_def root_of_def sbind_def sret_def)
  qed
  moreover have "entry_at H ?v (root_of ?F (head (fs_refs fs))) segs rs = Inr (Some e, rs)"
    using e(1) by (intro entry_at_plain [OF plain_committed assms(2)]) (simp add: lookup_committed committed_node_def named_head_def)
  moreover have "load_fileobj H ?v (e_id e) rs = Inr (f, rs)"
    using f(1) by (intro load_fileobj_plain) (simp_all add: lookup_committed)
  moreover have "length (f_chunks f) < 2 ^ 64"
  proof -
    have "file_ok f" using f(1) by (auto simp: file_at_def file_decode_iff split: option.splits kind.splits sum.splits)
    then show ?thesis by (simp add: file_ok_def caps)
  qed
  then have "read_range H ?v f offset (min len MAX_READ_BYTES) rs =
      Inr (take (unat (min len MAX_READ_BYTES)) (drop (unat offset) (concat bs)), rs)"
    using f(2) by (intro read_range_exact) (simp_all add: lookup_committed)
  ultimately show ?thesis
    using assms(1,2) e(2) by (simp add: read_query_def sbind_def slift_def sret_def Let_def)
qed

end
