(* ===== verification/Round_Trip.thy ===== *)
theory Round_Trip
  imports Query_Results Fs_Commit
begin

text \<open>
  From a write to a read: the objects a commit stages for inline content are in the store after the
  flush, and a read of the new head returns the content.
\<close>

subsection \<open>What a commit stages is present\<close>

text \<open>
  An object is present when its id is staged by this commit, by the block, or held by the store: the
  three tests of \<open>stage_object\<close>.
\<close>

definition present :: "view \<Rightarrow> block_index \<Rightarrow> block_index \<Rightarrow> object_id \<Rightarrow> bool" where
  "present v pending_ids staged_ids i \<longleftrightarrow> bt_has staged_ids i \<or> bt_has pending_ids i \<or> v_has v i"

text \<open>What a staging step keeps: presence, and an index that lists staged objects only.\<close>

definition stages :: "(bytes \<Rightarrow> object_id) \<Rightarrow> view \<Rightarrow> block_index \<Rightarrow> stage_state \<Rightarrow> stage_state \<Rightarrow> bool" where
  "stages H v pending_ids st st' \<longleftrightarrow>
     (\<forall>i. present v pending_ids (snd st) i \<longrightarrow> present v pending_ids (snd st') i) \<and>
     ((\<forall>i. bt_has (snd st) i \<longrightarrow> i \<in> (\<lambda>(k, b). object_id H k b) ` set (fst st)) \<longrightarrow>
      (\<forall>i. bt_has (snd st') i \<longrightarrow> i \<in> (\<lambda>(k, b). object_id H k b) ` set (fst st')))"

lemma stages_refl [simp]: "stages H v pending_ids st st"
  by (simp add: stages_def)

lemma stages_trans: "stages H v p a b \<Longrightarrow> stages H v p b c \<Longrightarrow> stages H v p a c"
  by (auto simp: stages_def)

lemma bt_has_insert: "bt_has (bt_insert i x m) j \<longleftrightarrow> j = i \<or> bt_has m j"
  by (auto simp: bt_has_def bt_get_insert)

lemma stage_object_stages:
  "stage_object H v pending_ids k b st rs = Inr ((i, st'), rs') \<Longrightarrow>
   stages H v pending_ids st st' \<and> present v pending_ids (snd st') (object_id H k b)"
  by (cases st) (auto simp: stage_object_def Let_def stages_def present_def bt_has_insert has_committed_def
      split: if_splits option.splits)

lemma stages_present: "stages H v p a b \<Longrightarrow> present v p (snd a) i \<Longrightarrow> present v p (snd b) i"
  by (simp add: stages_def)

lemma stage_pieces_stages:
  "stage_pieces H v pending_ids cs st rs = Inr ((ids, st'), rs') \<Longrightarrow>
   stages H v pending_ids st st' \<and> (\<forall>c \<in> set cs. present v pending_ids (snd st') (object_id H KChunk c))"
proof (induction cs arbitrary: st rs ids)
  case (Cons c cs)
  from Cons.prems obtain i st1 r1 js where o: "stage_object H v pending_ids KChunk c st rs = Inr ((i, st1), r1)"
    and p: "stage_pieces H v pending_ids cs st1 r1 = Inr ((js, st'), rs')"
    by auto
  note o' = stage_object_stages [OF o]
  have p': "stages H v pending_ids st1 st'" "\<forall>c \<in> set cs. present v pending_ids (snd st') (object_id H KChunk c)"
    using Cons.IH [OF p] by simp_all
  have "present v pending_ids (snd st') (object_id H KChunk c)"
    using stages_present [OF p'(1)] o' by blast
  then show ?case using p' stages_trans [OF _ p'(1)] o' by simp
qed simp

lemma chunk_bytes_stages:
  "chunk_bytes H v pending_ids bs st rs = Inr ((ids, st'), rs') \<Longrightarrow>
   stages H v pending_ids st st' \<and>
   (\<forall>c \<in> set (chunk_pieces bs). present v pending_ids (snd st') (object_id H KChunk c))"
  using stage_pieces_stages [of H v pending_ids "chunk_pieces bs" st rs]
  by (auto simp: chunk_bytes_def chunk_pieces.simps [of "[]"] split: if_splits)

text \<open>The objects an inline put stores.\<close>

definition content_objects :: "(bytes \<Rightarrow> object_id) \<Rightarrow> (rstring, rstring) btree \<Rightarrow> bytes \<Rightarrow> (kind \<times> bytes) set" where
  "content_objects H meta bs = insert (KFile, file_encode (inline_file H meta bs)) (Pair KChunk ` set (chunk_pieces bs))"

lemma plan_content_stages:
  assumes "plan_content H b64_decode v pending_ids meta content ps rs = Inr ((i, ids, sz, ps'), rs')"
  shows "stages H v pending_ids (ps_stage ps) (ps_stage ps')"
    and "content = Inline b64 \<Longrightarrow> b64_decode b64 = Some bs \<Longrightarrow> length bs \<le> MAX_INLINE_COMMIT_BYTES \<and>
      (\<forall>(k, b) \<in> content_objects H meta bs. present v pending_ids (snd (ps_stage ps')) (object_id H k b))"
proof -
  show "stages H v pending_ids (ps_stage ps) (ps_stage ps')"
    using assms
    by (auto simp: plan_content_def stage_fileobj_def Let_def split: content.splits if_splits
        dest!: stage_object_stages chunk_bytes_stages; metis stages_trans)
  assume c: "content = Inline b64" "b64_decode b64 = Some bs"
  from assms c obtain st1 st2 r1 r2 where
    len: "length bs \<le> MAX_INLINE_COMMIT_BYTES" and
    ch: "chunk_bytes H v pending_ids bs (ps_stage ps) r1 = Inr ((ids, st1), r2)" and
    f: "stage_object H v pending_ids KFile
        (file_encode \<lparr>f_size = of_nat (length bs), f_chunks = ids, f_meta = meta\<rparr>) st1 r2 = Inr ((i, st2), rs')" and
    ps': "ps_stage ps' = st2"
    by (auto simp: plan_content_def stage_fileobj_def Let_def split: if_splits)
  show "length bs \<le> MAX_INLINE_COMMIT_BYTES \<and>
      (\<forall>(k, b) \<in> content_objects H meta bs. present v pending_ids (snd (ps_stage ps')) (object_id H k b))"
    using len stage_object_stages [OF f] chunk_bytes_stages [OF ch] chunk_bytes_ids [OF ch] stages_present ps'
    by (fastforce simp: content_objects_def inline_file_def)
qed

lemma plan_change_stages:
  assumes "plan_change H nfc b64_decode v pending_ids a ps ch rs = Inr (ps', rs')"
  shows "stages H v pending_ids (ps_stage ps) (ps_stage ps')"
  using assms
  by (cases ch; auto simp: plan_change_def plan_op_def split: if_splits
      dest!: stage_object_stages plan_content_stages(1); metis stages_trans)

lemma plan_changes_stages:
  "sfold (plan_change H nfc b64_decode v pending_ids a) ps chs rs = Inr (ps', rs') \<Longrightarrow>
   stages H v pending_ids (ps_stage ps) (ps_stage ps')"
  by (induction chs arbitrary: ps rs) (auto dest!: plan_change_stages intro: stages_trans)

lemma plan_put_stages:
  assumes "plan_change H nfc b64_decode v pending_ids a ps (Put path exec meta (Inline b64)) rs = Inr (ps', rs')"
    and "b64_decode b64 = Some bs"
  shows "length bs \<le> MAX_INLINE_COMMIT_BYTES \<and> validate_meta meta = Inr () \<and>
    (\<forall>(k, b) \<in> content_objects H meta bs. present v pending_ids (snd (ps_stage ps')) (object_id H k b))"
proof -
  from assms(1) obtain segs seen i ids sz ps1 r1 where m: "validate_meta meta = Inr ()"
    and p: "plan_content H b64_decode v pending_ids meta (Inline b64) ps r1 = Inr ((i, ids, sz, ps1), rs')"
    and ps': "ps_stage ps' = ps_stage ps1"
    by (auto simp: plan_change_def plan_op_def)
  show ?thesis using plan_content_stages(2) [OF p refl assms(2)] m ps' by simp
qed


subsection \<open>The store after the flush\<close>

text \<open>A tree without entries is on no path.\<close>

lemma node_at_empty_tree:
  assumes "\<And>i. i \<noteq> i0 \<Longrightarrow> F' i = F i" and "subentries F' i0 = []"
  shows "node_at F' (NRef e) p = Some x \<Longrightarrow> p = [] \<or> e_kind e = EDir \<and> node_at F (NRef e) p = Some x"
proof (induction p arbitrary: e)
  case (Cons s p)
  then have d: "e_kind e = EDir" by (auto simp: children_def split: if_splits)
  have n: "node_at F' (edit_load (Some (e_id e))) (s # p) = Some x"
    using Cons.prems node_at_entry [OF d, of "s # p" F'] by (simp del: node_at.simps)
  then obtain c where c: "bt_get (subentries F' (e_id e)) s = Some c" "node_at F' (NRef c) p = Some x"
    unfolding node_at_dir_Cons by (auto split: option.splits)
  then have "e_id e \<noteq> i0" using assms(2) by auto
  then have "subentries F (e_id e) = subentries F' (e_id e)"
    using assms(1) by (simp add: subentries_def tree_at_def)
  moreover have "node_at F (NRef c) p = Some x" using Cons.IH [OF c(2)] c(2) by (cases p) auto
  ultimately have "node_at F (edit_load (Some (e_id e))) (s # p) = Some x"
    using c(1) unfolding node_at_dir_Cons by simp
  then show ?case using node_at_entry [OF d, of "s # p" F] d by (simp del: node_at.simps)
qed simp

lemma file_pieces_inline:
  assumes "length bs \<le> MAX_INLINE_COMMIT_BYTES"
    and "\<And>c. c \<in> set (chunk_pieces bs) \<Longrightarrow> F (object_id H KChunk c) = Some (KChunk, c)"
  shows "file_pieces F (inline_file H meta bs) (chunk_pieces bs)"
proof -
  let ?f = "inline_file H meta bs"
  have "length bs < 2 ^ 60" using assms(1) by (simp add: caps)
  note ch = inline_file_checks [OF this refl, of H meta]
  have "length c < 2 ^ 64" if "c \<in> set (chunk_pieces bs)" for c
    using chunk_pieces_size [OF that] by simp
  then show ?thesis
    using ch assms(2) by (auto simp: file_pieces_def list_all2_conv_all_nth inline_file_def)
qed

lemma validate_meta_ok:
  "validate_meta meta = Inr () \<Longrightarrow> \<forall>(k, w) \<in> set meta. utf8 k \<and> utf8 w \<Longrightarrow>
   length meta \<le> MAX_META_ENTRIES \<and> list_all meta_ok meta"
proof -
  have "validate_meta_entries m = Inr () \<Longrightarrow> \<forall>(k, w) \<in> set m. utf8 k \<and> utf8 w \<Longrightarrow> list_all meta_ok m" for m
    by (induction m) (auto simp: meta_ok_def split: if_splits)
  then show "validate_meta meta = Inr () \<Longrightarrow> \<forall>(k, w) \<in> set meta. utf8 k \<and> utf8 w \<Longrightarrow>
      length meta \<le> MAX_META_ENTRIES \<and> list_all meta_ok meta"
    by (auto simp: validate_meta_def split: if_splits)
qed

lemma inline_file_ok:
  assumes "length bs \<le> MAX_INLINE_COMMIT_BYTES" "validate_meta meta = Inr ()" "bt_wf meta"
    and "\<forall>(k, w) \<in> set meta. utf8 k \<and> utf8 w" "\<forall>b. length (H b) = 32"
  shows "file_ok (inline_file H meta bs)"
proof -
  have "length (chunk_pieces bs) \<le> MAX_CHUNKS_PER_FILE"
    using assms(1) by (simp add: length_chunk_pieces caps)
  then show ?thesis
    using validate_meta_ok [OF assms(2,4)] assms(3,5)
    by (simp add: file_ok_def inline_file_def list_all_iff object_id_def)
qed


subsection \<open>Write, then read\<close>

lemma commit_objects:
  assumes "commit_apply H nfc b64_decode v pending_ids refs0 a height time base message
      (chs @ [Put path exec meta (Inline b64)]) cap rs = Inr (built, rs')" and "b64_decode b64 = Some bs"
  shows "length bs \<le> MAX_INLINE_COMMIT_BYTES \<and> validate_meta meta = Inr () \<and> canonical nfc path = Inr (segs_of nfc path) \<and>
    (\<forall>(k, b) \<in> content_objects H meta bs. let i = object_id H k b in
      i \<in> (\<lambda>(k, b). object_id H k b) ` set (cb_objects built) \<or> bt_has pending_ids i \<or> v_has v i)"
  using assms(1)
proof (rule commit_applyE)
  let ?ids = "\<lambda>os. (\<lambda>(k, b). object_id H k b) ` set os"
  fix effective_root :: "object_id option" and r2 r3 r5 r6 :: reads and ps root1 out root objects
  assume p: "sfold (plan_change H nfc b64_decode v pending_ids a) plan_start (chs @ [Put path exec meta (Inline b64)]) r2 = Inr (ps, r3)"
    and sr: "stage_root H v pending_ids root1 (fst (ps_stage ps) @ out) (snd (ps_stage ps)) r5 = Inr ((root, objects), rs')"
    and built: "built = seal_commit H (sweep_expired height refs0)
        (commit_snapshot (sweep_expired height refs0) a height time message root) cap ps objects"
  from p obtain ps1 r where p1: "sfold (plan_change H nfc b64_decode v pending_ids a) plan_start chs r2 = Inr (ps1, r)"
    and p2: "plan_change H nfc b64_decode v pending_ids a ps1 (Put path exec meta (Inline b64)) r = Inr (ps, r3)"
    by (auto simp: sfold_append)
  have "stages H v pending_ids (ps_stage plan_start) (ps_stage ps)"
    using plan_changes_stages [OF p1] plan_change_stages [OF p2] by (rule stages_trans)
  then have idx: "bt_has (snd (ps_stage ps)) i \<Longrightarrow> i \<in> ?ids (fst (ps_stage ps))" for i
    by (auto simp: stages_def plan_start_def bt_has_def)
  have "fst (ps_stage ps) @ out = objects \<or> (\<exists>o1. fst (ps_stage ps) @ out @ [o1] = objects)"
    using sr by (auto simp: stage_root_def Let_def split: option.splits if_splits)
  then have "?ids (fst (ps_stage ps)) \<subseteq> ?ids (cb_objects built)"
    by (auto simp: built seal_commit_def Let_def)
  moreover have "planned_all H nfc b64_decode a (chs @ [Put path exec meta (Inline b64)]) ps" using p by (rule plan_all)
  then have "canonical nfc path = Inr (segs_of nfc path)" by (simp add: planned_all_def)
  moreover note put = plan_put_stages [OF p2 assms(2)]
  ultimately show ?thesis
  proof (intro conjI ballI)
    fix x assume x: "x \<in> content_objects H meta bs"
    obtain k b where kb: "x = (k, b)" by (cases x)
    have "present v pending_ids (snd (ps_stage ps)) (object_id H k b)" using put x kb by blast
    then show "case x of (k, b) \<Rightarrow> let i = object_id H k b in
        i \<in> ?ids (cb_objects built) \<or> bt_has pending_ids i \<or> v_has v i"
      using idx \<open>?ids (fst (ps_stage ps)) \<subseteq> ?ids (cb_objects built)\<close> kb by (auto simp only: present_def Let_def prod.case)
  qed simp_all
qed


lemma forked_has: "v_has (forked_view ops height fs) = so_has ops (store fs)"
  using same_base_fields(2) [OF require_pending_view(5) [of fs height]]
  by (simp add: forked_view_def fs_view_def Let_def)

lemma addressed_unique:
  assumes "addressed H F" "F (object_id H k b) \<noteq> None" "inj_on (\<lambda>(k, b). object_id H k b) (ran F \<union> A)" "(k, b) \<in> ran F \<union> A"
  shows "F (object_id H k b) = Some (k, b)"
proof -
  from assms(2) obtain l c where y: "F (object_id H k b) = Some (l, c)" by auto
  then have "object_id H l c = object_id H k b" using assms(1) by (auto simp: addressed_def)
  moreover have "(l, c) \<in> ran F \<union> A" using y by (auto simp: ran_def)
  ultimately show ?thesis using y inj_onD [OF assms(3), of "(l, c)" "(k, b)"] assms(4) by auto
qed

lemma write_then_read:
  fixes fs2 :: "'s fs"
  assumes c: "commit H nfc b64_decode ops a height time base message (chs @ [Put path exec meta (Inline b64)]) fs = (Inr notes, fs')"
    and b64: "b64_decode b64 = Some bs" and H: "\<forall>b. length (H b) = 32"
    and ty: "\<forall>ch \<in> set (chs @ [Put path exec meta (Inline b64)]). \<forall>p \<in> set (change_paths ch). utf8 p"
      "utf8 message" "authority_typed a" "refs_inv (pending_refs fs)" "bt_wf meta" "\<forall>(k, w) \<in> set meta. utf8 k \<and> utf8 w"
    and F: "F = store_contents ops (store fs2)" "addressed H F" "block_contents H ops fs \<subseteq>\<^sub>m F" "holds H F (staged_of fs')"
      "\<And>i. bt_has (block_objects fs) i \<or> so_has ops (store fs) i \<Longrightarrow> F i \<noteq> None"
    and inj: "inj_on (\<lambda>(k, b). object_id H k b) (ran F \<union> insert empty_tree_object (content_objects H meta bs))"
    and hd: "head (fs_refs fs2) = head (pending_refs fs')"
  shows "read_query H nfc b64_encode ops fs2 path None offset len rs =
    (let got = take (unat (min len MAX_READ_BYTES)) (drop (unat offset) bs)
     in Inr (RRead (b64_encode got) (saturating_add64 offset (of_nat (length got)) \<ge> of_nat (length bs)), rs))"
proof -
  let ?f = "inline_file H meta bs" and ?segs = "segs_of nfc path"
  let ?e = "file_leaf H EFile exec ?f" and ?i0 = "object_id H KTree (tree_encode \<lparr>t_entries = []\<rparr>)"
  define F' where "F' = F(?i0 \<mapsto> empty_tree_object)"
  have "F ?i0 \<noteq> None \<Longrightarrow> F ?i0 = Some empty_tree_object" by (rule addressed_unique [OF F(2) _ inj]) simp_all
  then have le: "F \<subseteq>\<^sub>m F'" by (auto simp: F'_def map_le_def dom_def)
  have "block_contents H ops fs \<subseteq>\<^sub>m F'" using F(3) le by (rule map_le_trans)
  moreover have "holds H F' (empty_tree_object # staged_of fs')"
    using F(4) le by (force simp: holds_def F'_def map_le_def dom_def)
  ultimately obtain snap s where snap: "head (pending_refs fs') = Some snap" "snapshot_at F' snap = Some s"
    and t: "tree_of F' (Some snap) = fold (change_map H nfc b64_decode) (chs @ [Put path exec meta (Inline b64)])
      (tree_of F' (head (pending_refs fs)))"
    using commit_verb_tree [OF c H ty(1-4)] by blast
  have "snap \<noteq> ?i0" using snap(2) by (auto simp: snapshot_at_def F'_def)
  then have root: "root_of F (Some snap) = Some (s_root s)" "root_of F' (Some snap) = Some (s_root s)"
    using snap(2) by (simp_all add: root_of_def snapshot_at_def F'_def)
  have leaf: "tree_of F' (Some snap) ?segs = Some (ILeaf ?e)"
    unfolding t by (simp add: change_map_def pm_graft_def pm_leaf_def b64)
  then obtain n where n: "node_at F' (edit_load (Some (s_root s))) ?segs = Some n" "item_of n = ILeaf ?e"
    by (auto simp: tree_of_def den_def root(2))
  then have ne: "n = NRef ?e" by (cases n) (auto simp: item_of_def split: if_splits)
  have segs: "?segs \<noteq> []" using n by (auto simp: edit_load_def item_of_def)
  have "tree_decode (tree_encode \<lparr>t_entries = []\<rparr>) = Inr \<lparr>t_entries = []\<rparr>"
    by (rule tree_decode_encode) (simp add: tree_ok_def)
  then have "subentries F' ?i0 = []" by (simp add: subentries_def tree_at_def F'_def)
  then have node: "node_at F (committed_node ops fs2 None) ?segs = Some (NRef ?e)"
    using node_at_empty_tree [of ?i0 F' F _ ?segs] n(1) segs root(1) snap(1)
    unfolding committed_node_def named_head_def F(1) [symmetric] hd ne
    by (auto simp: edit_load_def F'_def)
  from commit_accepted [OF c] obtain built r where
    app: "commit_apply H nfc b64_decode (forked_view ops height fs) (block_objects fs) (pending_refs fs)
      a height time base message (chs @ [Put path exec meta (Inline b64)]) (window_cap fs) no_reads = Inr (built, r)" and
    st: "staged_of fs' = staged_of fs @ cb_objects built"
    by blast
  note ob = commit_objects [OF app b64]
  have obj: "F (object_id H k b) = Some (k, b)" if "(k, b) \<in> content_objects H meta bs" for k b
  proof (rule addressed_unique [OF F(2) _ inj])
    have "object_id H k b \<in> (\<lambda>(k, b). object_id H k b) ` set (cb_objects built) \<or>
        bt_has (block_objects fs) (object_id H k b) \<or> so_has ops (store fs) (object_id H k b)"
      using ob that by (auto simp: Let_def forked_has)
    moreover have "F (object_id H k b) \<noteq> None"
      if "object_id H k b \<in> (\<lambda>(k, b). object_id H k b) ` set (cb_objects built)"
      using that F(4) st by (fastforce simp: holds_def)
    ultimately show "F (object_id H k b) \<noteq> None" using F(5) by blast
  qed (use that in simp)
  have "file_at F (e_id ?e) = Some ?f"
    using obj [of KFile "file_encode ?f"] file_decode_encode [OF inline_file_ok [OF _ _ ty(5,6) H, of bs]] ob
    by (simp add: content_objects_def file_at_def file_leaf_def)
  moreover have "file_pieces F ?f (chunk_pieces bs)"
    using ob obj by (intro file_pieces_inline) (auto simp: content_objects_def)
  ultimately show ?thesis
    using read_query_exact [of nfc path ?segs ops fs2 ?e ?f "chunk_pieces bs"] ob segs node
    unfolding F(1) [symmetric] by (simp add: concat_chunk_pieces file_leaf_def inline_file_def)
qed

end
