(* ===== verification/Write_Scenario.thy ===== *)
theory Write_Scenario
  imports Divergence Round_Trip
begin

text \<open>
  A concrete write: \<open>put /a\<close> with one byte of inline content by the kernel on the empty filesystem, the
  flush of what it staged, and the state that a query then reads.
\<close>

abbreviation put_changes :: "change list" where
  "put_changes \<equiv> [Put [47, 97] False [] (Inline [1])]"

abbreviation put_commit :: "notification list res \<times> mem_store fs" where
  "put_commit \<equiv> commit short_hash id Some (mem_ops short_hash) AuthSystem 1 2 None [] put_changes genesis"

definition put_tree :: bytes where
  "put_tree = tree_encode \<lparr>t_entries = [([97], leaf_entry)]\<rparr>"

definition put_stage :: stage_state where
  "put_stage = ([(KChunk, [1]), (KFile, chunk_file)],
     bt_insert file_id (KFile, of_nat (length chunk_file)) (bt_insert chunk_digest (KChunk, 1) []))"

definition put_plan :: plan_state where
  "put_plan = \<lparr>ps_stage = put_stage, ps_plan = [PlanPut [[97]] leaf_entry], ps_touched = [([47, 97], [[97]])],
     ps_seen = {[47, 97]}, ps_chunk_refs = [chunk_digest], ps_checks = [], ps_inline = 1\<rparr>"

lemma put_plan_run:
  "\<exists>rs. sfold (plan_change short_hash id Some (node_view []) [] AuthSystem) plan_start put_changes no_reads = Inr (put_plan, rs)"
proof -
  have f0: "few no_reads 0" by (simp add: no_reads_def)
  have e: "\<not> bt_has ([] :: mem_store) i" "\<not> bt_has ([] :: block_index) i" for i by (simp_all add: bt_has_def)
  let ?st1 = "([(KChunk, [1 :: byte])], bt_insert chunk_digest (KChunk, 1 :: u64) [])"
  obtain r1 where r1: "few r1 1" "stage_object short_hash (node_view []) [] KChunk [1] ([], []) no_reads = Inr ((chunk_digest, ?st1), r1)"
    using stage_step [OF f0, of "[]" KChunk "[1]" "[]" "[]"] e by auto
  have "\<not> bt_has (snd ?st1) file_id"
    using chunk_not_file [of chunk_file] by (auto simp: bt_has_def bt_get_Cons)
  then obtain r2 where r2: "stage_object short_hash (node_view []) [] KFile chunk_file ?st1 r1 = Inr ((file_id, put_stage), r2)"
    using stage_step [OF r1(1), of "snd ?st1" KFile chunk_file "[]" "fst ?st1"] e by (auto simp: put_stage_def)
  have "chunk_bytes short_hash (node_view []) [] [1] ([], []) no_reads = Inr (([chunk_digest], ?st1), r1)"
    using r1(2) by (simp add: chunk_bytes_def one_piece sbind_def sret_def)
  then have c: "plan_content short_hash Some (node_view []) [] [] (Inline [1]) plan_start no_reads =
      Inr ((file_id, [chunk_digest], 1, plan_start\<lparr>ps_stage := put_stage, ps_inline := 1\<rparr>), r2)"
    using r2 by (simp add: plan_content_def plan_start_def stage_fileobj_def sbind_def slift_def sret_def caps Let_def)
  have m: "validate_meta [] = Inr ()" by (simp add: validate_meta_def)
  have "plan_change short_hash id Some (node_view []) [] AuthSystem plan_start (Put [47, 97] False [] (Inline [1])) no_reads =
      Inr (put_plan, r2)"
    by (simp add: plan_change_def admit_a joins dedup_def m c sbind_def slift_def sret_def plan_op_def leaf_entry_def)
      (simp add: plan_start_def put_plan_def leaf_entry_def)
  then show ?thesis by (simp add: sbind_def sret_def del: One_nat_def)
qed

lemma put_apply:
  "\<exists>built rs x. commit_apply short_hash id Some (node_view []) [] refs_default AuthSystem 1 2 None [] put_changes cap no_reads
    = Inr (built, rs) \<and> cb_objects built = [(KChunk, [1]), (KFile, chunk_file), (KTree, put_tree), (KSnapshot, x)]"
proof -
  obtain rs where p: "sfold (plan_change short_hash id Some (node_view []) [] AuthSystem) plan_start put_changes no_reads
      = Inr (put_plan, rs)"
    using put_plan_run by blast
  have ed: "sfold (apply_op short_hash (node_view [])) (NDir []) [PlanPut [[97]] leaf_entry] rs = Inr (NDir [([97], NRef leaf_entry)], rs)"
    by (simp add: apply_op_def edit_put_def materialize_def sbind_def slift_def sret_def)
  have bu: "edit_build short_hash (NDir [([97], NRef leaf_entry)]) = Inr (Some (object_id short_hash KTree put_tree), [(KTree, put_tree)])"
    by (simp add: edit_build_def caps Let_def put_tree_def)
  show ?thesis
    using p ed bu unfolding commit_apply_def Let_def sweep_default
    by (simp add: resolve_base_def effective_root_of_def genesis_refs(3) sbind_def slift_def sret_def caps
        put_plan_def put_stage_def entry_at_def edit_load_def stage_root_def seal_commit_def Let_def del: sfold.simps)
qed

lemma genesis_engine:
  "forked_view (mem_ops short_hash) 1 genesis = node_view []" "block_objects genesis = []"
  "pending_refs genesis = refs_default" "window_cap genesis = HISTORY_WINDOW" "staged_of genesis = []"
proof -
  let ?g = "genesis\<lparr>pending := Some forked\<rparr>"
  have g: "require_pending 1 genesis = ?g" by (simp add: require_pending_def fs_new_def)
  show "forked_view (mem_ops short_hash) 1 genesis = node_view []" "block_objects genesis = []"
    "pending_refs genesis = refs_default" "window_cap genesis = HISTORY_WINDOW" "staged_of genesis = []"
    by (simp_all add: forked_view_def g node_view_def block_objects_def genesis_refs(1) staged_of_def) (simp_all add: fs_new_def)
qed

lemma put_committed:
  "\<exists>n x. put_commit = (Inr n, snd put_commit) \<and>
    staged_of (snd put_commit) = [(KChunk, [1]), (KFile, chunk_file), (KTree, put_tree), (KSnapshot, x)]"
proof -
  let ?g = "genesis\<lparr>pending := Some forked\<rparr>"
  obtain built rs x where c: "commit_apply short_hash id Some (node_view []) [] refs_default AuthSystem 1 2 None []
      put_changes HISTORY_WINDOW no_reads = Inr (built, rs)"
    and b: "cb_objects built = [(KChunk, [1]), (KFile, chunk_file), (KTree, put_tree), (KSnapshot, x)]"
    using put_apply by blast
  have g: "require_pending 1 genesis = ?g" "require_pending 1 ?g = ?g" "window_cap ?g = HISTORY_WINDOW"
    by (simp_all add: require_pending_def fs_new_def)
  obtain k where "checked_add64 (source_revision refs_default) 1 = Some k" by (simp add: checked_add64_def refs_default_def)
  then obtain n where n: "put_commit = (Inr n, snd put_commit)"
    using c by (auto simp: commit_def transact_def authority_validate_def g Let_def pending_refs_def commit_op_def node_view_def)
  from commit_accepted [OF n] c b show ?thesis unfolding genesis_engine using n by auto
qed

text \<open>The store after the flush, and the state that has adopted the new refs.\<close>

definition flushed :: "(kind \<times> bytes) list \<Rightarrow> mem_store" where
  "flushed os = map (\<lambda>(k, b). (object_id short_hash k b, (k, b))) os"

abbreviation put_fs :: "mem_store fs" where
  "put_fs \<equiv> fs_new (flushed (staged_of (snd put_commit))) (pending_refs (snd put_commit))"

lemma put_tree_ids: "object_id short_hash KTree put_tree \<noteq> object_id short_hash KTree empty_body"
proof -
  have "\<exists>r. put_tree = 1 # r" by (simp add: put_tree_def tree_encode_def to_le32_def le_bytes_4)
  then show ?thesis using first_bodies(1) short_hash_next [of KTree] by (metis zero_neq_one)
qed

lemma tag_differ: "kind_tag k \<noteq> kind_tag l \<Longrightarrow> object_id short_hash k b \<noteq> object_id short_hash l c"
  using short_hash_tag [of k b] short_hash_tag [of l c] by auto

lemma flushed_mem: "bt_get (flushed os) i = Some (k, b) \<Longrightarrow> i = object_id short_hash k b \<and> (k, b) \<in> set os"
  by (auto simp: flushed_def dest: bt_get_Some_mem)

lemma flushed_get:
  assumes "inj_on (\<lambda>(k, b). object_id short_hash k b) (set os)" "(k, b) \<in> set os"
  shows "bt_get (flushed os) (object_id short_hash k b) = Some (k, b)"
proof -
  have "object_id short_hash k b \<in> fst ` set (flushed os)" using assms(2) by (force simp: flushed_def)
  then obtain l c where y: "bt_get (flushed os) (object_id short_hash k b) = Some (l, c)"
    using bt_get_None_iff [of "flushed os"] by fastforce
  then have "(l, c) = (k, b)" using flushed_mem [OF y] inj_onD [OF assms(1), of "(k, b)" "(l, c)"] assms(2) by auto
  then show ?thesis using y by simp
qed

lemma kind_tag_inj: "kind_tag k = kind_tag l \<longleftrightarrow> k = l"
  by (metis kind_from_u8_tag option.inject)

lemma inj_by_kind:
  assumes "\<And>k b c. (k, b) \<in> S \<Longrightarrow> (k, c) \<in> S \<Longrightarrow> object_id short_hash k b = object_id short_hash k c \<Longrightarrow> b = c"
  shows "inj_on (\<lambda>(k, b). object_id short_hash k b) S"
proof (rule inj_onI)
  fix y z
  assume m: "y \<in> S" "z \<in> S"
    and eq: "(case y of (k, b) \<Rightarrow> object_id short_hash k b) = (case z of (k, b) \<Rightarrow> object_id short_hash k b)"
  obtain k b l c where yz: "y = (k, b)" "z = (l, c)" by (cases y, cases z) blast
  have i: "object_id short_hash k b = object_id short_hash l c" using eq unfolding yz prod.case .
  have k: "l = k" using tag_differ [of k l b c] i unfolding kind_tag_inj by metis
  show "y = z" using assms [of k b c] m i unfolding yz k by simp
qed

lemma put_inj:
  assumes "os = [(KChunk, [1]), (KFile, chunk_file), (KTree, put_tree), (KSnapshot, x)]"
  shows "inj_on (\<lambda>(k, b). object_id short_hash k b) (insert empty_tree_object (set os))"
proof (rule inj_by_kind)
  fix k b c
  assume m: "(k, b) \<in> insert empty_tree_object (set os)" "(k, c) \<in> insert empty_tree_object (set os)"
    and i: "object_id short_hash k b = object_id short_hash k c"
  have e: "empty_tree_object = (KTree, empty_body)" by (simp add: empty_body_def)
  have t: "(k', b') \<in> {(KChunk, [1]), (KFile, chunk_file), (KSnapshot, x)} \<or> k' = KTree \<and> b' \<in> {empty_body, put_tree}"
    if "(k', b') \<in> insert empty_tree_object (set os)" for k' b'
    using that unfolding e assms list.set by blast
  show "b = c"
  proof (cases "k = KTree")
    case True
    then have "b \<in> {empty_body, put_tree}" "c \<in> {empty_body, put_tree}" using t [of k b] t [of k c] m by auto
    then show ?thesis using i put_tree_ids unfolding True by auto
  next
    case False
    then show ?thesis using t [of k b] t [of k c] m by auto
  qed
qed

lemma put_store:
  assumes "staged_of (snd put_commit) = os" "os = [(KChunk, [1]), (KFile, chunk_file), (KTree, put_tree), (KSnapshot, x)]"
    and "F = store_contents (mem_ops short_hash) (store put_fs)"
  shows "addressed short_hash F" "holds short_hash F os"
    "inj_on (\<lambda>(k, b). object_id short_hash k b) (ran F \<union> insert empty_tree_object (content_objects short_hash [] [1]))"
proof -
  have "F = bt_get (flushed os)"
    using assms(1) unfolding assms(3) by (simp add: fun_eq_iff store_contents_def mem_ops_def mem_get_def fs_new_def)
  note F = this
  have i: "inj_on (\<lambda>(k, b). object_id short_hash k b) (set os)"
    using put_inj [OF assms(2)] by (rule inj_on_subset) auto
  show "addressed short_hash F" using flushed_mem by (simp add: F addressed_def)
  show "holds short_hash F os" using flushed_get [OF i] by (auto simp: F holds_def)
  have "ran F \<subseteq> set os" using flushed_mem [of os] by (auto simp: F ran_def)
  moreover have "content_objects short_hash [] [1] \<subseteq> set os"
    by (simp add: assms(2) content_objects_def inline_file_def one_piece)
  ultimately show "inj_on (\<lambda>(k, b). object_id short_hash k b) (ran F \<union> insert empty_tree_object (content_objects short_hash [] [1]))"
    by (intro inj_on_subset [OF put_inj [OF assms(2)]]) auto
qed

end
