(* ===== verification/Query_Total.thy ===== *)
theory Query_Total
  imports Query_Results
begin

text \<open>
  The queries of queries.rs return: on a tree whose directories and file objects the store holds down to
  a depth, a walk with that much fuel ends without an error.
\<close>

fun held :: "contents \<Rightarrow> nat \<Rightarrow> object_id \<Rightarrow> bool" where
  "held F 0 d \<longleftrightarrow> False"
| "held F (Suc n) d \<longleftrightarrow> (case tree_at F d of
     None \<Rightarrow> False
   | Some es \<Rightarrow> \<forall>(s, e) \<in> set es. if e_kind e = EDir then held F n (e_id e) else file_at F (e_id e) \<noteq> None)"

lemma held_tree:
  "held F n d \<Longrightarrow> \<exists>m es. n = Suc m \<and> tree_at F d = Some es \<and>
    (\<forall>(s, e) \<in> set es. if e_kind e = EDir then held F m (e_id e) else file_at F (e_id e) \<noteq> None)"
  by (cases n) (auto split: option.splits)

lemma held_depth: "held F n d \<Longrightarrow> node_at F (edit_load (Some d)) p \<noteq> None \<Longrightarrow> length p \<le> n"
proof (induction n arbitrary: d p)
  case (Suc n)
  show ?case
  proof (cases p)
    case (Cons s q)
    from held_tree [OF Suc.prems(1)] obtain es where es: "tree_at F d = Some es"
      "\<forall>(s, e) \<in> set es. if e_kind e = EDir then held F n (e_id e) else file_at F (e_id e) \<noteq> None" by auto
    from Suc.prems(2) obtain e where e: "bt_get es s = Some e" "node_at F (NRef e) q \<noteq> None"
      unfolding Cons node_at_dir_Cons by (auto simp: subentries_def es split: option.splits)
    have "(s, e) \<in> set es" using e(1) by (rule bt_get_Some_mem)
    show ?thesis
    proof (cases "q = []")
      case False
      then have "e_kind e = EDir" using e(2) by (cases q) (auto simp: children_def split: if_splits)
      moreover from this have "held F n (e_id e)" using es(2) \<open>(s, e) \<in> set es\<close> by auto
      ultimately have "length q \<le> n"
        using e(2) node_at_entry [of e q F] False by (intro Suc.IH [of "e_id e"]) (simp_all del: node_at.simps)
      then show ?thesis using Cons by simp
    qed (simp add: Cons)
  qed simp
qed simp

text \<open>A reading that returns or fails with an error of \<open>E\<close>, without touching the budget.\<close>

definition ends :: "err set \<Rightarrow> 'a reading \<Rightarrow> bool" where
  "ends E m \<longleftrightarrow> (\<forall>rs. (\<exists>x. m rs = Inr (x, rs)) \<or> (\<exists>e \<in> E. m rs = Inl e))"

abbreviation returns :: "'a reading \<Rightarrow> bool" where "returns \<equiv> ends {}"

lemma returns_def: "returns m \<longleftrightarrow> (\<forall>rs. \<exists>x. m rs = Inr (x, rs))"
  by (simp add: ends_def)

lemma ends_ret [simp]: "ends E (sret x)"
  by (simp add: ends_def sret_def)

lemma ends_fail: "e \<in> E \<Longrightarrow> ends E (slift (Inl e))"
  by (auto simp: ends_def slift_def)

lemma ends_bind:
  assumes "ends E m" "\<And>x. ends E (f x)"
  shows "ends E (sbind m f)"
  unfolding ends_def
proof
  fix rs
  consider x where "m rs = Inr (x, rs)" | e where "e \<in> E" "m rs = Inl e"
    using assms(1) unfolding ends_def by blast
  then show "(\<exists>y. sbind m f rs = Inr (y, rs)) \<or> (\<exists>e \<in> E. sbind m f rs = Inl e)"
  proof cases
    case (1 x)
    moreover have "(\<exists>y. f x rs = Inr (y, rs)) \<or> (\<exists>e \<in> E. f x rs = Inl e)"
      using assms(2) [of x] unfolding ends_def by blast
    ultimately show ?thesis by (simp add: sbind_def)
  next
    case (2 e)
    then show ?thesis by (simp add: sbind_def)
  qed
qed

lemma bind_ret [simp]: "sbind (sret x) f = f x"
  by (simp add: fun_eq_iff sbind_def sret_def)

lemma ends_sfold:
  "(\<And>a x. x \<in> set xs \<Longrightarrow> ends E (body a x)) \<Longrightarrow> ends E (sfold body a xs)"
proof (induction xs arbitrary: a)
  case (Cons x xs)
  have "ends E (sbind (body a x) (\<lambda>b. sfold body b xs))"
    using Cons by (intro ends_bind) simp_all
  then show ?case by simp
qed simp

lemma dir_entries_plain: "plain v \<Longrightarrow> tree_at (lookup H v) d = Some es \<Longrightarrow> dir_entries H v (Some d) = sret es"
  by (auto simp: tree_at_def dir_entries_def fun_eq_iff plain_get sbind_def slift_def sret_def
      split: option.splits kind.splits sum.splits)

lemma returns_entry_info:
  assumes "plain v" "e_kind e \<noteq> EDir \<Longrightarrow> file_at (lookup H v) (e_id e) \<noteq> None"
  shows "returns (entry_info H v path e)"
proof -
  have "returns (load_fileobj H v (e_id e))" if "e_kind e \<noteq> EDir"
    using assms(2) [OF that] load_fileobj_plain [OF assms(1), of H "e_id e"] by (auto simp: returns_def)
  then show ?thesis unfolding entry_info_def by (intro ends_bind) (simp_all add: ends_bind)
qed

lemma find_walk_returns:
  assumes "plain v"
  shows "held (lookup H v) n d \<Longrightarrow> returns (find_walk H v pre cursor limit n (Some d) base acc)"
proof (induction n arbitrary: d base acc)
  case (Suc n)
  from held_tree [OF Suc.prems] obtain es where es: "tree_at (lookup H v) d = Some es"
    "\<forall>(s, e) \<in> set es. if e_kind e = EDir then held (lookup H v) n (e_id e) else file_at (lookup H v) (e_id e) \<noteq> None"
    by auto
  have info: "returns (entry_info H v child e)" if "(s, e) \<in> set es" for s e child
    using es(2) that by (intro returns_entry_info [OF assms]) fastforce
  have walk: "returns (find_walk H v pre cursor limit n (Some (e_id e)) child acc)"
    if "(s, e) \<in> set es" "e_kind e = EDir" for s e child acc
    using es(2) that Suc.IH by fastforce
  show ?case
  proof (cases "fa_done acc")
    case False
    have "returns (find_walk H v pre cursor limit (Suc n) (Some d) base acc)"
      unfolding find_walk.simps(2) dir_entries_plain [OF assms es(1)] bind_ret if_not_P [OF False]
    proof (rule ends_sfold)
      fix a x
      assume "x \<in> set es"
      moreover obtain s e where x: "x = (s, e)" by (cases x)
      ultimately show "returns (case x of (name, entry) \<Rightarrow>
          if fa_done a then sret a
          else let child = base @ SLASH # name in
            sbind (if prefix pre child \<and> path_after child cursor then
                     if length (fa_out a) = limit then
                       sret (a\<lparr>fa_next := if fa_out a = [] then None else Some (ei_path (last (fa_out a))),
                                 fa_done := True\<rparr>)
                     else sbind (entry_info H v child entry) (\<lambda>info. sret (a\<lparr>fa_out := fa_out a @ [info]\<rparr>))
                   else sret a) (\<lambda>acc.
            if \<not> fa_done acc \<and> e_kind entry = EDir \<and> subtree_may_match child pre \<and> subtree_after child cursor
            then find_walk H v pre cursor limit n (Some (e_id entry)) child acc
            else sret acc))"
        using info walk unfolding x Let_def prod.case
        by (simp add: ends_bind)
    qed
    then show ?thesis .
  qed simp
qed simp

text \<open>A diff ends, or refuses to list more than its maximum of changes.\<close>

abbreviation diff_ends :: "'a reading \<Rightarrow> bool" where "diff_ends \<equiv> ends {QueryE DiffTooLarge}"

lemma push_diff_ends: "diff_ends (push_diff path kind pre out)"
  by (auto simp: push_diff_def Let_def intro!: ends_fail)

lemma emit_children_ends:
  assumes "plain v"
  shows "held (lookup H v) n d \<Longrightarrow> diff_ends (emit_children H v kind pre n base d out)"
proof (induction n arbitrary: d base out)
  case (Suc n)
  from held_tree [OF Suc.prems] obtain es where es: "tree_at (lookup H v) d = Some es"
    "\<forall>(s, e) \<in> set es. if e_kind e = EDir then held (lookup H v) n (e_id e) else file_at (lookup H v) (e_id e) \<noteq> None"
    by auto
  have "diff_ends (emit_side H v kind pre n child e out)" if "(s, e) \<in> set es" for s e child out
    unfolding emit_side.simps using es(2) that Suc.IH by (intro ends_bind push_diff_ends) fastforce
  then show ?case
    unfolding emit_children.simps(2) dir_entries_plain [OF assms es(1)] bind_ret
    by (intro ends_sfold) (auto simp: Let_def simp del: emit_side.simps)
qed simp

lemma diff_walk_ends:
  assumes "plain v"
  shows "held (lookup H v) n d \<Longrightarrow> held (lookup H v) n d' \<Longrightarrow> diff_ends (diff_walk H v pre n d d' base out)"
proof (induction n arbitrary: d d' base out)
  case (Suc n)
  let ?ok = "\<lambda>es. \<forall>(s, e) \<in> set es. if e_kind e = EDir then held (lookup H v) n (e_id e) else file_at (lookup H v) (e_id e) \<noteq> None"
  from held_tree [OF Suc.prems(1)] obtain es where es: "tree_at (lookup H v) d = Some es" "?ok es" by auto
  from held_tree [OF Suc.prems(2)] obtain es' where es': "tree_at (lookup H v) d' = Some es'" "?ok es'" by auto
  have kids: "diff_ends (emit_children H v kind pre n child (e_id e) out)"
    if "bt_get es s = Some e \<or> bt_get es' s = Some e" "e_kind e = EDir" for s e kind child out
  proof -
    have "(s, e) \<in> set es \<or> (s, e) \<in> set es'" using that(1) bt_get_Some_mem by metis
    then have "held (lookup H v) n (e_id e)" using es(2) es'(2) that(2) by auto
    then show ?thesis by (rule emit_children_ends [OF assms])
  qed
  have side: "diff_ends (emit_side H v kind pre n child e out)"
    if "bt_get es s = Some e \<or> bt_get es' s = Some e" for s e kind child out
    unfolding emit_side.simps using kids [OF that] by (intro ends_bind push_diff_ends) auto
  have both: "diff_ends (diff_walk H v pre n (e_id f) (e_id t) child out)"
    if "bt_get es s = Some f" "bt_get es' s = Some t" "e_kind f = EDir" "e_kind t = EDir" for s f t child out
  proof -
    have "(s, f) \<in> set es" "(s, t) \<in> set es'" using that(1,2) by (auto dest: bt_get_Some_mem)
    then show ?thesis using es(2) es'(2) that(3,4) by (intro Suc.IH) auto
  qed
  show ?case
  proof (cases "d = d'")
    case False
    show ?thesis
      unfolding diff_walk.simps(2) dir_entries_plain [OF assms es(1)] dir_entries_plain [OF assms es'(1)] bind_ret
        if_not_P [OF False]
    proof (rule ends_sfold)
      fix out s
      show "diff_ends (let child = base @ SLASH # s in
          if \<not> subtree_may_match child pre then sret out
          else case (bt_get es s, bt_get es' s) of
            (Some f, None) \<Rightarrow> emit_side H v Removed pre n child f out
          | (None, Some t) \<Rightarrow> emit_side H v Added pre n child t out
          | (Some f, Some t) \<Rightarrow>
              if f = t then sret out
              else if e_kind f = EDir \<and> e_kind t = EDir
              then diff_walk H v pre n (e_id f) (e_id t) child out
              else sbind (push_diff child Modified pre out) (\<lambda>out.
                sbind (if e_kind f = EDir then emit_children H v Removed pre n child (e_id f) out
                       else sret out) (\<lambda>out.
                if e_kind t = EDir then emit_children H v Added pre n child (e_id t) out else sret out))
          | (None, None) \<Rightarrow> sret out)"
        using kids [of s] side [of s] both [of s] unfolding Let_def
        by (cases "bt_get es s"; cases "bt_get es' s") (simp_all add: ends_bind push_diff_ends del: emit_side.simps)
    qed
  qed simp
qed simp

subsection \<open>The queries\<close>

text \<open>A find returns the page of the enumeration that its limit cuts.\<close>

definition held_head :: "contents \<Rightarrow> nat \<Rightarrow> object_id option \<Rightarrow> bool" where
  "held_head F n h \<longleftrightarrow> 0 < n \<and> pred_option (\<lambda>i. \<exists>s. snapshot_at F i = Some s \<and> held F n (s_root s)) h"

lemma held_root:
  assumes "resolve_head H ops fs snapshot rs = Inr (h, rs')" "held_head (store_contents ops (store fs)) n h"
  shows "committed_view H ops fs snapshot rs = Inr (root_of (store_contents ops (store fs)) h, rs')"
    and "committed_node ops fs snapshot = edit_load (root_of (store_contents ops (store fs)) h)"
    and "pred_option (held (store_contents ops (store fs)) n) (root_of (store_contents ops (store fs)) h)"
proof -
  have h: "h = named_head fs snapshot" using assms(1) by (rule resolve_head_named)
  then show "committed_node ops fs snapshot = edit_load (root_of (store_contents ops (store fs)) h)"
    by (simp add: committed_node_def)
  show "pred_option (held (store_contents ops (store fs)) n) (root_of (store_contents ops (store fs)) h)"
    using assms(2) by (cases h) (auto simp: held_head_def root_of_def)
  show "committed_view H ops fs snapshot rs = Inr (root_of (store_contents ops (store fs)) h, rs')"
    using assms snapshot_root_plain [OF plain_committed, of H ops fs] unfolding lookup_committed
    by (auto simp: committed_view_def held_head_def root_of_def sbind_def sret_def split: option.split)
qed

lemma find_query_exact:
  assumes "named (store_contents ops (store fs))"
    and "resolve_head H ops fs snapshot rs = Inr (h, rs')" "held_head (store_contents ops (store fs)) n h"
  shows "\<exists>M. sorted_wrt (<) (map fst M) \<and>
    set M = {(p, e). p \<noteq> [] \<and> matching pre cursor p \<and>
      node_at (store_contents ops (store fs)) (committed_node ops fs snapshot) p = Some (NRef e)} \<and>
    find_query n H ops fs pre snapshot cursor limit rs = Inr (RFind
      (map (\<lambda>(p, e). info_of (store_contents ops (store fs)) (path_str p) e) (take (page_limit limit) M))
      (if page_limit limit < length M then Some (path_str (fst (M ! (page_limit limit - 1)))) else None), rs')"
proof -
  let ?F = "store_contents ops (store fs)" and ?acc = "\<lparr>fa_out = [], fa_next = None, fa_done = False\<rparr>"
  note hr = held_root [OF assms(2,3)]
  have "\<exists>acc. find_walk H (committed_store ops fs) pre cursor (page_limit limit) n (root_of ?F h) [] ?acc rs' = Inr (acc, rs')"
  proof (cases "root_of ?F h")
    case None
    then show ?thesis using assms(3) by (cases n) (simp_all add: held_head_def dir_entries_def sret_def)
  next
    case (Some d)
    then have "held (lookup H (committed_store ops fs)) n d" using hr(3) by (simp add: lookup_committed)
    then show ?thesis using find_walk_returns [OF plain_committed] Some unfolding returns_def by metis
  qed
  then obtain entries nx where q: "find_query n H ops fs pre snapshot cursor limit rs = Inr (RFind entries nx, rs')"
    using hr(1) by (auto simp: find_query_def sbind_def sret_def)
  have "\<forall>p. node_at ?F (committed_node ops fs snapshot) p \<noteq> None \<longrightarrow> length p \<le> n"
  proof (intro allI impI)
    fix p
    assume p: "node_at ?F (committed_node ops fs snapshot) p \<noteq> None"
    show "length p \<le> n"
    proof (cases "root_of ?F h")
      case None
      then show ?thesis using p hr(2) by (cases p) (simp_all add: edit_load_def children_def)
    next
      case (Some d)
      then show ?thesis using p hr(2,3) held_depth [of ?F n d p] by simp
    qed
  qed
  from find_query_page [OF q assms(1) this] q show ?thesis by auto
qed

lemma page_limit_small: "1 \<le> l \<Longrightarrow> l \<le> MAX_PAGE \<Longrightarrow> page_limit l = unat l"
  by (auto simp: page_limit_def)

lemma find_compose:
  assumes F: "named (store_contents ops (store fs))"
    "resolve_head H ops fs snapshot rs = Inr (h, rs')" "held_head (store_contents ops (store fs)) n h"
    and l: "1 \<le> l1" "1 \<le> l2" "unat l1 + unat l2 \<le> unat MAX_PAGE"
    and q: "find_query n H ops fs pre snapshot cursor l1 rs = Inr (RFind es nx, rs')"
  shows "find_query n H ops fs pre snapshot cursor (l1 + l2) rs = (case nx of
      None \<Rightarrow> Inr (RFind es None, rs')
    | Some c \<Rightarrow> (case find_query n H ops fs pre snapshot (Some c) l2 rs of
        Inr (RFind es2 nx2, r) \<Rightarrow> Inr (RFind (es @ es2) nx2, r) | x \<Rightarrow> x))"
proof -
  let ?F = "store_contents ops (store fs)" and ?N = "node_at (store_contents ops (store fs)) (committed_node ops fs snapshot)"
  let ?i = "\<lambda>(p, e). info_of ?F (path_str p) e" and ?a = "unat l1" and ?b = "unat l2"
  have u: "unat (l1 + l2) = ?a + ?b" using l(3) by (intro unat_add_lem [THEN iffD1]) (simp add: MAX_PAGE_def)
  have "l1 \<le> MAX_PAGE" "l2 \<le> MAX_PAGE" "1 \<le> l1 + l2" "l1 + l2 \<le> MAX_PAGE"
    using l u by (simp_all add: word_le_nat_alt)
  then have p: "page_limit l1 = ?a" "page_limit l2 = ?b" "page_limit (l1 + l2) = ?a + ?b"
    using page_limit_small l(1,2) u by simp_all
  have pos: "0 < ?a" "0 < ?b" using l(1,2) by (simp_all add: word_le_nat_alt)
  obtain M where M: "sorted_wrt (<) (map fst M)"
      "set M = {(p, e). p \<noteq> [] \<and> matching pre cursor p \<and> ?N p = Some (NRef e)}"
    and one: "find_query n H ops fs pre snapshot cursor l1 rs =
      Inr (RFind (map ?i (take ?a M)) (if ?a < length M then Some (path_str (fst (M ! (?a - 1)))) else None), rs')"
    using find_query_exact [OF F, of pre cursor l1] unfolding p by blast
  obtain M2 where M2: "sorted_wrt (<) (map fst M2)"
      "set M2 = {(p, e). p \<noteq> [] \<and> matching pre cursor p \<and> ?N p = Some (NRef e)}"
    and both: "find_query n H ops fs pre snapshot cursor (l1 + l2) rs =
      Inr (RFind (map ?i (take (?a + ?b) M2)) (if ?a + ?b < length M2 then Some (path_str (fst (M2 ! (?a + ?b - 1)))) else None), rs')"
    using find_query_exact [OF F, of pre cursor "l1 + l2"] unfolding p by blast
  have "M2 = M" using M M2 by (intro sorted_pairs_eq) (simp_all add: bt_wf_def)
  note both = both [unfolded this]
  have q1: "es = map ?i (take ?a M)" "nx = (if ?a < length M then Some (path_str (fst (M ! (?a - 1)))) else None)"
    using q unfolding one by simp_all
  show ?thesis
  proof (cases "?a < length M")
    case False
    then show ?thesis using both q1 by simp
  next
    case True
    let ?q = "fst (M ! (?a - 1))"
    obtain M3 where M3: "sorted_wrt (<) (map fst M3)"
        "set M3 = {(p, e). p \<noteq> [] \<and> matching pre (Some (path_str ?q)) p \<and> ?N p = Some (NRef e)}"
      and two: "find_query n H ops fs pre snapshot (Some (path_str ?q)) l2 rs =
        Inr (RFind (map ?i (take ?b M3)) (if ?b < length M3 then Some (path_str (fst (M3 ! (?b - 1)))) else None), rs')"
      using find_query_exact [OF F, of pre "Some (path_str ?q)" l2] unfolding p by blast
    have "M3 = drop ?a M"
      using committed_names [OF _ F(1)] by (intro find_pages_tile [OF M M3 refl pos(1) True]) blast
    moreover have "?b < length M - ?a \<longleftrightarrow> ?a + ?b < length M" by linarith
    moreover have "drop ?a M ! (?b - 1) = M ! (?a + ?b - 1)" if "?a + ?b < length M"
      using that pos by simp
    ultimately show ?thesis
      using both two q1 True by (simp add: take_add del: nth_drop)
  qed
qed

lemma diff_exact:
  assumes "resolve_head H ops fs (Some from_s) rs = Inr (Some i, r1)" "resolve_head H ops fs (Some to_s) r1 = Inr (Some j, r2)"
    and "held_head (store_contents ops (store fs)) n (Some i)" "held_head (store_contents ops (store fs)) n (Some j)"
  shows "diff n H ops fs from_s to_s pre rs = Inl (QueryE DiffTooLarge) \<or>
    (\<exists>L. diff n H ops fs from_s to_s pre rs = Inr (RDiff (map diff_entry_of L), r2) \<and> sorted_wrt (<) (map fst L) \<and>
      set L = {(q, k). q \<noteq> [] \<and> prefix pre (path_str q) \<and>
        change_of (node_at (store_contents ops (store fs)) (committed_node ops fs (Some from_s)) q)
          (node_at (store_contents ops (store fs)) (committed_node ops fs (Some to_s)) q) = Some k})"
proof -
  let ?F = "store_contents ops (store fs)" and ?v = "committed_store ops fs"
  obtain s t where s: "snapshot_at ?F i = Some s" "held ?F n (s_root s)" and t: "snapshot_at ?F j = Some t" "held ?F n (s_root t)"
    using assms(3,4) by (auto simp: held_head_def)
  note roots = snapshot_root_plain [OF plain_committed, of H ops fs, unfolded lookup_committed, OF s(1)]
    snapshot_root_plain [OF plain_committed, of H ops fs, unfolded lookup_committed, OF t(1)]
  have run: "diff n H ops fs from_s to_s pre rs =
      sbind (diff_walk H ?v pre n (s_root s) (s_root t) [] []) (\<lambda>out. sret (RDiff out)) r2"
    using assms(1,2) roots by (simp add: diff_def Let_def sbind_def slift_def)
  have "diff_ends (diff_walk H ?v pre n (s_root s) (s_root t) [] [])"
    using s(2) t(2) by (intro diff_walk_ends) (simp_all add: lookup_committed)
  then have "(\<exists>out. diff_walk H ?v pre n (s_root s) (s_root t) [] [] r2 = Inr (out, r2)) \<or>
      diff_walk H ?v pre n (s_root s) (s_root t) [] [] r2 = Inl (QueryE DiffTooLarge)"
    unfolding ends_def by blast
  then consider out where "diff n H ops fs from_s to_s pre rs = Inr (RDiff out, r2)"
    | "diff n H ops fs from_s to_s pre rs = Inl (QueryE DiffTooLarge)"
    unfolding run by (auto simp: sbind_def sret_def)
  then show ?thesis
  proof cases
    case (1 out)
    from diff_query_exact [OF 1] obtain L where L: "out = map diff_entry_of L" "sorted_wrt (<) (map fst L)"
      "set L = {(q, k). q \<noteq> [] \<and> prefix pre (path_str q) \<and>
        change_of (node_at ?F (committed_node ops fs (Some from_s)) q) (node_at ?F (committed_node ops fs (Some to_s)) q) = Some k}"
      by blast
    from 1 show ?thesis unfolding L(1) by (intro disjI2 exI [of _ L] conjI refl L(2,3))
  qed simp
qed

end
