(* ===== verification/Query_Scenario.thy ===== *)
theory Query_Scenario
  imports Write_Scenario Query_Total
begin

text \<open>
  A store with two snapshots, the tree with \<open>/a\<close> and the tree with \<open>/a\<close> and \<open>/b\<close>, for the witnesses of
  the queries.
\<close>

definition pair_tree :: bytes where
  "pair_tree = tree_encode \<lparr>t_entries = [([97], leaf_entry), ([98], leaf_entry)]\<rparr>"

abbreviation one_root :: object_id where "one_root \<equiv> object_id short_hash KTree put_tree"
abbreviation pair_root :: object_id where "pair_root \<equiv> object_id short_hash KTree pair_tree"

definition one_snap :: snapshot_obj where
  "one_snap = commit_snapshot refs_default AuthSystem 1 2 [] one_root"

definition pair_snap :: snapshot_obj where
  "pair_snap = commit_snapshot refs_default AuthSystem 2 3 [] pair_root"

abbreviation one_id :: object_id where "one_id \<equiv> object_id short_hash KSnapshot (snapshot_encode one_snap)"
abbreviation pair_id :: object_id where "pair_id \<equiv> object_id short_hash KSnapshot (snapshot_encode pair_snap)"

definition pair_objects :: "(kind \<times> bytes) list" where
  "pair_objects = [(KFile, chunk_file), (KTree, put_tree), (KTree, pair_tree),
     (KSnapshot, snapshot_encode one_snap), (KSnapshot, snapshot_encode pair_snap)]"

abbreviation pair_fs :: "mem_store fs" where
  "pair_fs \<equiv> fs_new (flushed pair_objects) (refs_default\<lparr>head := Some pair_id, window := [one_id, pair_id]\<rparr>)"

abbreviation pair_contents :: contents where
  "pair_contents \<equiv> store_contents (mem_ops short_hash) (store pair_fs)"

lemma le_bytes_4_2: "le_bytes 4 2 = [2, 0, 0, 0]"
  by code_simp

lemma pair_roots: "one_root \<noteq> pair_root" "one_root ! 1 = 1" "pair_root ! 1 = 2"
proof -
  have "\<exists>r. put_tree = 1 # r" "\<exists>r. pair_tree = 2 # r"
    by (simp_all add: put_tree_def pair_tree_def tree_encode_def to_le32_def le_bytes_4 le_bytes_4_2)
  then show "one_root ! 1 = 1" "pair_root ! 1 = 2" using short_hash_next [of KTree] by metis+
  then show "one_root \<noteq> pair_root" by auto
qed

lemma short_hash_2: "short_hash (x # y # z # b) ! 2 = z"
  by (simp add: short_hash_def)

lemma pair_snaps: "one_id \<noteq> pair_id"
proof -
  have "one_id ! 2 = one_root ! 1" "pair_id ! 2 = pair_root ! 1"
    using short_hash_32 by (simp_all add: object_id_def short_hash_def snapshot_encode_def one_snap_def pair_snap_def
        commit_snapshot_def nth_append)
  then show ?thesis using pair_roots by auto
qed

lemma pair_inj: "inj_on (\<lambda>(k, b). object_id short_hash k b) (set pair_objects)"
proof (rule inj_by_kind)
  fix k b c
  assume m: "(k, b) \<in> set pair_objects" "(k, c) \<in> set pair_objects"
    and i: "object_id short_hash k b = object_id short_hash k c"
  have t: "k' = KFile \<and> b' = chunk_file \<or> k' = KTree \<and> b' \<in> {put_tree, pair_tree} \<or>
      k' = KSnapshot \<and> b' \<in> {snapshot_encode one_snap, snapshot_encode pair_snap}"
    if "(k', b') \<in> set pair_objects" for k' b'
    using that unfolding pair_objects_def list.set by blast
  show "b = c" using t [OF m(1)] t [OF m(2)] i pair_roots(1) pair_snaps by (cases k) auto
qed

lemma pair_get: "(k, b) \<in> set pair_objects \<Longrightarrow> pair_contents (object_id short_hash k b) = Some (k, b)"
  using flushed_get [OF pair_inj]
  by (simp add: store_contents_def mem_ops_def mem_get_def fs_new_def)

lemma pair_mem: "pair_contents i = Some (k, b) \<Longrightarrow> i = object_id short_hash k b \<and> (k, b) \<in> set pair_objects"
  by (simp add: store_contents_def mem_ops_def mem_get_def fs_new_def flushed_mem)

lemma leaf_32: "length (e_id leaf_entry) = 32"
  by (simp add: leaf_entry_def object_id_def short_hash_32)

lemma pair_trees:
  "tree_at pair_contents one_root = Some [([97], leaf_entry)]"
  "tree_at pair_contents pair_root = Some [([97], leaf_entry), ([98], leaf_entry)]"
proof -
  have "tree_ok \<lparr>t_entries = [([97], leaf_entry)]\<rparr>" "tree_ok \<lparr>t_entries = [([97], leaf_entry), ([98], leaf_entry)]\<rparr>"
    by (simp_all add: tree_ok_def entry_ok_def leaf_32 caps bt_wf_def utf8_lead_def utf8_width_def)
  then show "tree_at pair_contents one_root = Some [([97], leaf_entry)]"
    "tree_at pair_contents pair_root = Some [([97], leaf_entry), ([98], leaf_entry)]"
    using pair_get [of KTree put_tree] pair_get [of KTree pair_tree]
    by (simp_all add: tree_at_def pair_objects_def put_tree_def pair_tree_def tree_decode_encode)
qed

lemma pair_file: "file_at pair_contents file_id = Some \<lparr>f_size = 1, f_chunks = [chunk_digest], f_meta = []\<rparr>"
proof -
  have "file_ok \<lparr>f_size = 1, f_chunks = [chunk_digest], f_meta = []\<rparr>"
    by (simp add: file_ok_def caps bt_wf_def object_id_def short_hash_32)
  then show ?thesis
    using pair_get [of KFile chunk_file] by (simp add: file_at_def pair_objects_def file_decode_encode)
qed

lemma pair_snapshots: "snapshot_at pair_contents one_id = Some one_snap" "snapshot_at pair_contents pair_id = Some pair_snap"
proof -
  have "snapshot_ok one_snap" "snapshot_ok pair_snap"
    by (simp_all add: snapshot_ok_def one_snap_def pair_snap_def commit_snapshot_def refs_default_def caps
        object_id_def short_hash_32)
  then show "snapshot_at pair_contents one_id = Some one_snap" "snapshot_at pair_contents pair_id = Some pair_snap"
    using pair_get [of KSnapshot "snapshot_encode one_snap"] pair_get [of KSnapshot "snapshot_encode pair_snap"]
    by (simp_all add: snapshot_at_def pair_objects_def snapshot_decode_encode)
qed

lemma pair_named: "named pair_contents"
proof -
  have "SLASH \<notin> set s" if t: "tree_at pair_contents i = Some es" and e: "(s, e) \<in> set es" for i es s e
  proof -
    from t obtain b where "pair_contents i = Some (KTree, b)"
      by (auto simp: tree_at_def split: option.splits kind.splits)
    then have "i = one_root \<or> i = pair_root" using pair_mem [of i KTree b] by (auto simp: pair_objects_def)
    then show ?thesis using t e pair_trees by (auto simp: SLASH_def)
  qed
  then show ?thesis by (auto simp: named_def)
qed

lemma pair_held: "held pair_contents 1 one_root" "held pair_contents 1 pair_root"
  by (simp_all add: pair_trees leaf_entry_def pair_file)

lemma pair_heads:
  "resolve_head short_hash (mem_ops short_hash) pair_fs None rs = Inr (Some pair_id, rs)"
  "resolve_head short_hash (mem_ops short_hash) pair_fs (Some (to_hex one_id)) rs = Inr (Some one_id, rs)"
  "resolve_head short_hash (mem_ops short_hash) pair_fs (Some (to_hex pair_id)) rs = Inr (Some pair_id, rs)"
proof -
  have "length one_id = 32" "length pair_id = 32" by (simp_all add: object_id_def short_hash_32)
  then show "resolve_head short_hash (mem_ops short_hash) pair_fs None rs = Inr (Some pair_id, rs)"
    "resolve_head short_hash (mem_ops short_hash) pair_fs (Some (to_hex one_id)) rs = Inr (Some one_id, rs)"
    "resolve_head short_hash (mem_ops short_hash) pair_fs (Some (to_hex pair_id)) rs = Inr (Some pair_id, rs)"
    by (simp_all add: resolve_head_def refs_contains_snapshot_def fs_new_def from_hex_32_iff [THEN iffD2] sbind_def slift_def sret_def)
qed

lemma pair_snap_roots [simp]: "s_root one_snap = one_root" "s_root pair_snap = pair_root"
  by (simp_all add: one_snap_def pair_snap_def commit_snapshot_def)

lemma pair_held_head:
  "held_head pair_contents 1 (Some one_id)" "held_head pair_contents 1 (Some pair_id)"
  using pair_held by (simp_all add: held_head_def pair_snapshots del: held.simps)

lemma node_at_leaf: "node_at F (NRef leaf_entry) p = (if p = [] then Some (NRef leaf_entry) else None)"
  by (cases p) (simp_all add: children_def leaf_entry_def)

lemma pair_node:
  "node_at pair_contents (edit_load (Some one_root)) p =
     (if p = [] then Some (edit_load (Some one_root)) else if p = [[97]] then Some (NRef leaf_entry) else None)"
  "node_at pair_contents (edit_load (Some pair_root)) p =
     (if p = [] then Some (edit_load (Some pair_root))
      else if p = [[97]] \<or> p = [[98]] then Some (NRef leaf_entry) else None)"
proof -
  have "subentries pair_contents one_root = [([97], leaf_entry)]"
    "subentries pair_contents pair_root = [([97], leaf_entry), ([98], leaf_entry)]"
    by (simp_all add: subentries_def pair_trees)
  note s = this
  show "node_at pair_contents (edit_load (Some one_root)) p =
     (if p = [] then Some (edit_load (Some one_root)) else if p = [[97]] then Some (NRef leaf_entry) else None)"
    "node_at pair_contents (edit_load (Some pair_root)) p =
     (if p = [] then Some (edit_load (Some pair_root))
      else if p = [[97]] \<or> p = [[98]] then Some (NRef leaf_entry) else None)"
    by (cases p; simp add: node_at_dir_Cons s bt_get_Cons node_at_leaf del: node_at.simps(2))+
qed

lemma pair_commits:
  "committed_node (mem_ops short_hash) pair_fs (Some (to_hex one_id)) = edit_load (Some one_root)"
  "committed_node (mem_ops short_hash) pair_fs (Some (to_hex pair_id)) = edit_load (Some pair_root)"
  "committed_node (mem_ops short_hash) pair_fs None = edit_load (Some pair_root)"
  using held_root(2) [OF pair_heads(2) pair_held_head(1)] held_root(2) [OF pair_heads(3) pair_held_head(2)]
    held_root(2) [OF pair_heads(1) pair_held_head(2)] pair_snapshots
  by (simp_all add: root_of_def)

lemma pair_nodes:
  "p \<noteq> [] \<Longrightarrow> node_at pair_contents (committed_node (mem_ops short_hash) pair_fs (Some (to_hex one_id))) p = Some n \<longleftrightarrow>
     p = [[97]] \<and> n = NRef leaf_entry"
  "p \<noteq> [] \<Longrightarrow> node_at pair_contents (committed_node (mem_ops short_hash) pair_fs None) p = Some n \<longleftrightarrow>
     (p = [[97]] \<or> p = [[98]]) \<and> n = NRef leaf_entry"
  unfolding pair_commits pair_node by auto

lemma pair_changes:
  "q \<noteq> [] \<Longrightarrow> change_of (node_at pair_contents (committed_node (mem_ops short_hash) pair_fs (Some (to_hex one_id))) q)
     (node_at pair_contents (committed_node (mem_ops short_hash) pair_fs (Some (to_hex pair_id))) q) = Some k \<longleftrightarrow>
     q = [[98]] \<and> k = Added"
  unfolding pair_commits pair_node by (auto simp: change_of_def)

end
