(* ===== verification/File_System.thy ===== *)
theory File_System
  imports BTree
begin

text \<open>
  The part of \<open>std::fs\<close> that crates/duckfs/disk uses, as a file system that can fail at any call and
  lose power at any point. A disk has the entries a running process sees (\<open>d_live\<close>) and, for each
  path, what a power loss may leave there (\<open>d_kept\<close>). A change reaches \<open>d_kept\<close> for certain only with
  an fsync: \<open>sync_all\<close> on a file makes its bytes durable, an fsync of a directory makes the names in
  it durable (fsync(2)). A rename is atomic: after a power loss its target has the old entry or the new.

  \<open>d_plan\<close> says how the calls to come turn out: each takes the next outcome and, when the list is
  exhausted, succeeds. After \<open>Halt\<close> nothing happens any more. A theorem over all plans therefore
  speaks of every failure and of a power loss between any two calls.
\<close>

subsection \<open>The disk\<close>

type_synonym fpath = "rstring list"

datatype entry = FileE bytes | DirE

datatype io_error = NotFound | AlreadyExists | OtherIo

datatype outcome = Done | Fail nat | Halt

record disk =
  d_live :: "(fpath, entry) btree"
  d_kept :: "fpath \<Rightarrow> entry option set"
  d_unsynced :: "fpath set"
  d_plan :: "outcome list"

type_synonym ('e, 'a) io = "disk \<Rightarrow> ('e + 'a) \<times> disk"

definition at_path :: "disk \<Rightarrow> fpath \<Rightarrow> entry option" where
  "at_path d p = (if p = [] then Some DirE else bt_get (d_live d) p)"

subsection \<open>Sequencing\<close>

definition ioret :: "'a \<Rightarrow> ('e, 'a) io" where
  "ioret x d = (Inr x, d)"

definition iofail :: "'e \<Rightarrow> ('e, 'a) io" where
  "iofail e d = (Inl e, d)"

definition iobind :: "('e, 'a) io \<Rightarrow> ('a \<Rightarrow> ('e, 'b) io) \<Rightarrow> ('e, 'b) io" where
  "iobind m f d = (case m d of (Inl e, d') \<Rightarrow> (Inl e, d') | (Inr x, d') \<Rightarrow> f x d')"

text \<open>\<open>map_err\<close>, a match on the result of a call, and \<open>let _ = call\<close>.\<close>

definition iomap_err :: "'e2 \<Rightarrow> ('e, 'a) io \<Rightarrow> ('e2, 'a) io" where
  "iomap_err e m d = (case m d of (Inl _, d') \<Rightarrow> (Inl e, d') | (Inr x, d') \<Rightarrow> (Inr x, d'))"

definition iotry :: "('e, 'a) io \<Rightarrow> ('e2, 'e + 'a) io" where
  "iotry m d = (let (r, d') = m d in (Inr r, d'))"

definition iolift :: "('e + 'a) \<Rightarrow> ('e, 'a) io" where
  "iolift r d = (r, d)"

fun ioeach :: "('a \<Rightarrow> ('e, unit) io) \<Rightarrow> 'a list \<Rightarrow> ('e, unit) io" where
  "ioeach f [] = ioret ()"
| "ioeach f (x # xs) = iobind (f x) (\<lambda>_. ioeach f xs)"

lemma iobind_simps [simp]:
  "iobind (ioret x) f = f x"
  "iobind (iofail e) f = iofail e"
  by (simp_all add: fun_eq_iff iobind_def ioret_def iofail_def)

subsection \<open>Calls\<close>

text \<open>A call consumes an outcome; a failed one may leave a torn effect.\<close>

definition call :: "(io_error, 'a) io \<Rightarrow> (nat \<Rightarrow> disk \<Rightarrow> disk) \<Rightarrow> (io_error, 'a) io" where
  "call act torn d = (case d_plan d of
     [] \<Rightarrow> act d
   | Done # os \<Rightarrow> act (d\<lparr>d_plan := os\<rparr>)
   | Fail n # os \<Rightarrow> (Inl OtherIo, torn n (d\<lparr>d_plan := os\<rparr>))
   | Halt # os \<Rightarrow> (Inl OtherIo, d))"

abbreviation untorn :: "nat \<Rightarrow> disk \<Rightarrow> disk" where "untorn \<equiv> \<lambda>_ d. d"

definition put_entry :: "fpath \<Rightarrow> entry \<Rightarrow> entry option set \<Rightarrow> disk \<Rightarrow> disk" where
  "put_entry p e ks d = d\<lparr>d_live := bt_insert p e (d_live d), d_kept := (d_kept d)(p := ks)\<rparr>"

definition drop_entry :: "fpath \<Rightarrow> disk \<Rightarrow> disk" where
  "drop_entry p d = d\<lparr>d_live := filter (\<lambda>(q, _). q \<noteq> p) (d_live d), d_kept := (d_kept d)(p := insert None (d_kept d p)),
     d_unsynced := d_unsynced d - {p}\<rparr>"

definition is_dir :: "disk \<Rightarrow> fpath \<Rightarrow> bool" where
  "is_dir d p \<longleftrightarrow> at_path d p = Some DirE"

text \<open>\<open>File::create\<close>, \<open>write_all\<close> on the open file, and \<open>sync_all\<close> on it.\<close>

definition fs_create :: "fpath \<Rightarrow> (io_error, unit) io" where
  "fs_create p = call (\<lambda>d.
     if \<not> is_dir d (butlast p) then (Inl NotFound, d)
     else if is_dir d p then (Inl OtherIo, d)
     else (Inr (), put_entry p (FileE []) UNIV (d\<lparr>d_unsynced := insert p (d_unsynced d)\<rparr>))) untorn"

definition fs_append :: "fpath \<Rightarrow> bytes \<Rightarrow> disk \<Rightarrow> disk" where
  "fs_append p bs d = (case at_path d p of
     Some (FileE old) \<Rightarrow> put_entry p (FileE (old @ bs)) UNIV (d\<lparr>d_unsynced := insert p (d_unsynced d)\<rparr>)
   | _ \<Rightarrow> d)"

definition fs_write_all :: "fpath \<Rightarrow> bytes \<Rightarrow> (io_error, unit) io" where
  "fs_write_all p bs = call (\<lambda>d. (Inr (), fs_append p bs d)) (\<lambda>n. fs_append p (take n bs))"

definition fs_sync_all :: "fpath \<Rightarrow> (io_error, unit) io" where
  "fs_sync_all p = call (\<lambda>d. (Inr (), d\<lparr>d_unsynced := d_unsynced d - {p}\<rparr>)) untorn"

text \<open>The entry under a new name: its bytes are certain only when they were synced.\<close>

definition named_entry :: "fpath \<Rightarrow> entry \<Rightarrow> fpath \<Rightarrow> disk \<Rightarrow> disk" where
  "named_entry s e t d = put_entry t e (if s \<in> d_unsynced d then UNIV else insert (Some e) (d_kept d t))
     (d\<lparr>d_unsynced := (if s \<in> d_unsynced d then insert t (d_unsynced d) else d_unsynced d - {t})\<rparr>)"

definition fs_rename :: "fpath \<Rightarrow> fpath \<Rightarrow> (io_error, unit) io" where
  "fs_rename s t = call (\<lambda>d. case at_path d s of
     Some (FileE b) \<Rightarrow>
       if \<not> is_dir d (butlast t) then (Inl NotFound, d)
       else if is_dir d t then (Inl OtherIo, d)
       else (Inr (), drop_entry s (named_entry s (FileE b) t d))
   | Some DirE \<Rightarrow> (Inl OtherIo, d)
   | None \<Rightarrow> (Inl NotFound, d)) untorn"

definition fs_hard_link :: "fpath \<Rightarrow> fpath \<Rightarrow> (io_error, unit) io" where
  "fs_hard_link s t = call (\<lambda>d. case at_path d s of
     Some (FileE b) \<Rightarrow>
       if at_path d t \<noteq> None then (Inl AlreadyExists, d)
       else if \<not> is_dir d (butlast t) then (Inl NotFound, d)
       else (Inr (), named_entry s (FileE b) t d)
   | Some DirE \<Rightarrow> (Inl OtherIo, d)
   | None \<Rightarrow> (Inl NotFound, d)) untorn"

definition fs_write_file :: "fpath \<Rightarrow> bytes \<Rightarrow> disk \<Rightarrow> disk" where
  "fs_write_file p bs d = put_entry p (FileE bs) UNIV (d\<lparr>d_unsynced := insert p (d_unsynced d)\<rparr>)"

definition fs_copy :: "fpath \<Rightarrow> fpath \<Rightarrow> (io_error, unit) io" where
  "fs_copy s t d0 = call (\<lambda>d. case at_path d s of
     Some (FileE b) \<Rightarrow>
       if \<not> is_dir d (butlast t) then (Inl NotFound, d)
       else if is_dir d t then (Inl OtherIo, d)
       else (Inr (), fs_write_file t b d)
   | Some DirE \<Rightarrow> (Inl OtherIo, d)
   | None \<Rightarrow> (Inl NotFound, d))
   (\<lambda>n d. case at_path d s of
     Some (FileE b) \<Rightarrow> if is_dir d (butlast t) \<and> \<not> is_dir d t then fs_write_file t (take n b) d else d
   | _ \<Rightarrow> d) d0"

definition fs_remove_file :: "fpath \<Rightarrow> (io_error, unit) io" where
  "fs_remove_file p = call (\<lambda>d. case at_path d p of
     Some (FileE _) \<Rightarrow> (Inr (), drop_entry p d)
   | Some DirE \<Rightarrow> (Inl OtherIo, d)
   | None \<Rightarrow> (Inl NotFound, d)) untorn"

text \<open>\<open>create_dir_all\<close>: each missing prefix in turn, \<open>pre\<close> those already there.\<close>

fun make_dirs :: "fpath \<Rightarrow> fpath \<Rightarrow> (io_error, unit) io" where
  "make_dirs pre [] d = (Inr (), d)"
| "make_dirs pre (s # p) d = (let q = pre @ [s] in
     case at_path d q of
       Some DirE \<Rightarrow> make_dirs q p d
     | Some (FileE _) \<Rightarrow> (Inl OtherIo, d)
     | None \<Rightarrow> make_dirs q p (put_entry q DirE (insert (Some DirE) (d_kept d q)) d))"

definition fs_create_dir_all :: "fpath \<Rightarrow> (io_error, unit) io" where
  "fs_create_dir_all p = call (make_dirs [] p) (\<lambda>n d. snd (make_dirs [] (take n p) d))"

definition fs_remove_dir_all :: "fpath \<Rightarrow> (io_error, unit) io" where
  "fs_remove_dir_all p = call (\<lambda>d. if is_dir d p
       then (Inr (), fold drop_entry (filter (\<lambda>q. take (length p) q = p) (map fst (d_live d))) d)
       else (Inl NotFound, d))
     (\<lambda>n d. fold drop_entry (take n (filter (\<lambda>q. take (length p) q = p) (map fst (d_live d)))) d)"

text \<open>Reading. \<open>Path::exists\<close> answers no on an error.\<close>

definition fs_read :: "fpath \<Rightarrow> (io_error, bytes) io" where
  "fs_read p = call (\<lambda>d. case at_path d p of
     Some (FileE b) \<Rightarrow> (Inr b, d)
   | Some DirE \<Rightarrow> (Inl OtherIo, d)
   | None \<Rightarrow> (Inl NotFound, d)) untorn"

definition fs_open :: "fpath \<Rightarrow> (io_error, unit) io" where
  "fs_open p = call (\<lambda>d. (if at_path d p = None then Inl NotFound else Inr (), d)) untorn"

text \<open>The length in a file's metadata, and \<open>read_exact\<close> of one byte. No caller asks for a directory's.\<close>

definition fs_len :: "fpath \<Rightarrow> (io_error, nat) io" where
  "fs_len p = call (\<lambda>d. case at_path d p of
     Some (FileE b) \<Rightarrow> (Inr (length b), d)
   | Some DirE \<Rightarrow> (Inl OtherIo, d)
   | None \<Rightarrow> (Inl NotFound, d)) untorn"

definition fs_first_byte :: "fpath \<Rightarrow> (io_error, byte) io" where
  "fs_first_byte p = call (\<lambda>d. case at_path d p of
     Some (FileE (b # _)) \<Rightarrow> (Inr b, d)
   | _ \<Rightarrow> (Inl OtherIo, d)) untorn"

definition fs_exists :: "fpath \<Rightarrow> ('e, bool) io" where
  "fs_exists p = iobind (iotry (call (\<lambda>d. (Inr (at_path d p \<noteq> None), d)) untorn))
     (\<lambda>r. ioret (r = Inr True))"

definition fs_read_dir :: "fpath \<Rightarrow> (io_error, (rstring \<times> bool) list) io" where
  "fs_read_dir p = call (\<lambda>d.
     if is_dir d p
     then (Inr (map (\<lambda>(q, e). (last q, e = DirE)) (filter (\<lambda>(q, _). q \<noteq> [] \<and> butlast q = p) (d_live d))), d)
     else (Inl (if at_path d p = None then NotFound else OtherIo), d)) untorn"

text \<open>Opening a directory and \<open>sync_all\<close> on it.\<close>

definition settle :: "fpath \<Rightarrow> disk \<Rightarrow> disk" where
  "settle p d = d\<lparr>d_kept := (\<lambda>q. if q \<noteq> [] \<and> butlast q = p
     then (if q \<in> d_unsynced d then UNIV else {bt_get (d_live d) q}) else d_kept d q)\<rparr>"

definition fs_sync_dir :: "fpath \<Rightarrow> (io_error, unit) io" where
  "fs_sync_dir p = call (\<lambda>d. if is_dir d p then (Inr (), settle p d) else (Inl NotFound, d)) untorn"

subsection \<open>Power loss\<close>

text \<open>
  What is found after a power loss: each path has one of the entries that may have been kept, as long
  as the directories above it were kept.
\<close>

definition survives :: "disk \<Rightarrow> (fpath \<Rightarrow> entry option) \<Rightarrow> bool" where
  "survives d m \<longleftrightarrow> (\<exists>c. (\<forall>p. c p \<in> d_kept d p) \<and>
     (\<forall>p. m p = (if \<forall>n < length p. 0 < n \<longrightarrow> c (take n p) = Some DirE then c p else None)))"

definition reboots :: "disk \<Rightarrow> disk \<Rightarrow> bool" where
  "reboots d d' \<longleftrightarrow> survives d (bt_get (d_live d')) \<and> d_kept d' = (\<lambda>p. {bt_get (d_live d') p}) \<and> d_unsynced d' = {} \<and> d_plan d' = []"

text \<open>A path whose entry, and the directories above it, cannot be lost.\<close>

definition durable :: "disk \<Rightarrow> fpath \<Rightarrow> bool" where
  "durable d p \<longleftrightarrow> (\<forall>n \<le> length p. 0 < n \<longrightarrow>
     d_kept d (take n p) = {bt_get (d_live d) (take n p)} \<and> (n < length p \<longrightarrow> bt_get (d_live d) (take n p) = Some DirE))"

lemma durable_survives:
  assumes "survives d m" "durable d p" "p \<noteq> []"
  shows "m p = bt_get (d_live d) p"
proof -
  from assms(1) obtain c where c: "\<And>p. c p \<in> d_kept d p"
    "m p = (if \<forall>n < length p. 0 < n \<longrightarrow> c (take n p) = Some DirE then c p else None)"
    unfolding survives_def by blast
  have eq: "c (take n p) = bt_get (d_live d) (take n p)" if "0 < n" "n \<le> length p" for n
    using assms(2) that c(1) [of "take n p"] unfolding durable_def by auto
  moreover have "c (take n p) = Some DirE" if "0 < n" "n < length p" for n
    using assms(2) that eq [of n] unfolding durable_def by auto
  moreover have "c p = bt_get (d_live d) p" using eq [of "length p"] assms(3) by simp
  ultimately show ?thesis using c(2) by simp
qed

subsection \<open>Triples\<close>

text \<open>
  What a program on the disk guarantees when it returns, and what when it fails, under every plan of the
  calls.
\<close>

definition triple :: "(disk \<Rightarrow> bool) \<Rightarrow> ('e, 'a) io \<Rightarrow> ('a \<Rightarrow> disk \<Rightarrow> bool) \<Rightarrow> ('e \<Rightarrow> disk \<Rightarrow> bool) \<Rightarrow> bool" where
  "triple P m Q E \<longleftrightarrow> (\<forall>d. P d \<longrightarrow> (case m d of (Inr x, d') \<Rightarrow> Q x d' | (Inl e, d') \<Rightarrow> E e d'))"

lemma triple_run: "triple P m Q E \<Longrightarrow> P d \<Longrightarrow> m d = (r, d') \<Longrightarrow> (case r of Inr x \<Rightarrow> Q x d' | Inl e \<Rightarrow> E e d')"
  unfolding triple_def by (fastforce split: sum.splits)

lemma triple_ret: "(\<And>d. P d \<Longrightarrow> Q x d) \<Longrightarrow> triple P (ioret x) Q E"
  by (simp add: triple_def ioret_def)

lemma triple_fail: "(\<And>d. P d \<Longrightarrow> E e d) \<Longrightarrow> triple P (iofail e) Q E"
  by (simp add: triple_def iofail_def)

lemma triple_bind:
  assumes "triple P m R E" "\<And>x. triple (R x) (f x) Q E"
  shows "triple P (iobind m f) Q E"
  unfolding triple_def
proof (intro allI impI)
  fix d
  assume "P d"
  obtain r d' where m: "m d = (r, d')" by (cases "m d")
  show "case iobind m f d of (Inr x, d') \<Rightarrow> Q x d' | (Inl e, d') \<Rightarrow> E e d'"
  proof (cases r)
    case (Inl e)
    then show ?thesis using triple_run [OF assms(1) \<open>P d\<close> m] m by (simp add: iobind_def)
  next
    case (Inr x)
    then have "R x d'" using triple_run [OF assms(1) \<open>P d\<close> m] by simp
    then show ?thesis using assms(2) [of x] m Inr by (simp add: iobind_def triple_def)
  qed
qed

lemma triple_conseq:
  assumes "triple P m Q E" "\<And>d. P' d \<Longrightarrow> P d" "\<And>x d. Q x d \<Longrightarrow> Q' x d" "\<And>e d. E e d \<Longrightarrow> E' e d"
  shows "triple P' m Q' E'"
  using assms unfolding triple_def by (fastforce split: sum.splits prod.splits)

lemma triple_map_err: "triple P m Q (\<lambda>_. E e) \<Longrightarrow> triple P (iomap_err e m) Q E"
  unfolding triple_def iomap_err_def by (fastforce split: sum.splits prod.splits)

lemma triple_try: "triple P m (\<lambda>x. R (Inr x)) (\<lambda>e. R (Inl e)) \<Longrightarrow> triple P (iotry m) R E"
  unfolding triple_def iotry_def by (fastforce split: sum.splits prod.splits)

lemma triple_if: "(b \<Longrightarrow> triple P m Q E) \<Longrightarrow> (\<not> b \<Longrightarrow> triple P m' Q E) \<Longrightarrow> triple P (if b then m else m') Q E"
  by simp

lemma triple_each:
  assumes "\<And>x. x \<in> set xs \<Longrightarrow> triple I (f x) (\<lambda>_. I) E"
  shows "triple I (ioeach f xs) (\<lambda>_. I) E"
  using assms
proof (induction xs)
  case Nil
  show ?case by (simp add: triple_ret)
next
  case (Cons x xs)
  show ?case unfolding ioeach.simps
    by (rule triple_bind [where R = "\<lambda>_. I"]) (use Cons in auto)
qed

text \<open>A predicate that does not look at the plan.\<close>

definition planless :: "(disk \<Rightarrow> bool) \<Rightarrow> bool" where
  "planless P \<longleftrightarrow> (\<forall>d os. P (d\<lparr>d_plan := os\<rparr>) = P d)"

lemma triple_call:
  assumes "planless P" and "\<And>d. P d \<Longrightarrow> (case act d of (Inr x, d') \<Rightarrow> Q x d' | (Inl e, d') \<Rightarrow> E e d')"
    and "\<And>d n. P d \<Longrightarrow> E OtherIo (torn n d)" "\<And>d. P d \<Longrightarrow> E OtherIo d"
  shows "triple P (call act torn) Q E"
  unfolding triple_def
proof (intro allI impI)
  fix d
  assume P: "P d"
  then have P': "P (d\<lparr>d_plan := os\<rparr>)" for os using assms(1) by (simp add: planless_def)
  show "case call act torn d of (Inr x, d') \<Rightarrow> Q x d' | (Inl e, d') \<Rightarrow> E e d'"
    using assms(2) [OF P] assms(2) [OF P'] assms(3) [OF P'] assms(4) [OF P]
    by (auto simp: call_def split: list.split outcome.split)
qed

lemma triple_read:
  assumes "planless P" "\<And>d. P d \<Longrightarrow> snd (act d) = d"
    and "\<And>d x. P d \<Longrightarrow> fst (act d) = Inr x \<Longrightarrow> Q x d" "\<And>d e. P d \<Longrightarrow> E e d"
  shows "triple P (call act untorn) Q E"
proof (rule triple_call [OF assms(1)])
  fix d
  assume P: "P d"
  obtain r d' where "act d = (r, d')" by (cases "act d")
  then show "case act d of (Inr x, d') \<Rightarrow> Q x d' | (Inl e, d') \<Rightarrow> E e d'"
    using assms(2-4) [OF P] by (cases r) auto
qed (use assms(4) in auto)

subsection \<open>The entry a process sees may be kept\<close>

definition sane :: "disk \<Rightarrow> bool" where
  "sane d \<longleftrightarrow> (\<forall>p. p \<noteq> [] \<longrightarrow> bt_get (d_live d) p \<in> d_kept d p)"

lemma bt_get_drop: "bt_get (filter (\<lambda>(q, _). q \<noteq> p) m) k = (if k = p then None else bt_get m k)"
  by (induction m) (auto simp: bt_get_Cons)

lemma entry_simps [simp]:
  "bt_get (d_live (put_entry p e ks d)) q = (if q = p then Some e else bt_get (d_live d) q)"
  "d_kept (put_entry p e ks d) q = (if q = p then ks else d_kept d q)"
  "d_unsynced (put_entry p e ks d) = d_unsynced d"
  "bt_get (d_live (drop_entry p d)) q = (if q = p then None else bt_get (d_live d) q)"
  "d_kept (drop_entry p d) q = (if q = p then insert None (d_kept d p) else d_kept d q)"
  "d_unsynced (drop_entry p d) = d_unsynced d - {p}"
  by (simp_all add: put_entry_def drop_entry_def bt_get_insert bt_get_drop)

lemma sane_entry [simp]:
  "sane d \<Longrightarrow> Some e \<in> ks \<Longrightarrow> sane (put_entry p e ks d)"
  "sane d \<Longrightarrow> sane (drop_entry p d)"
  "sane (d\<lparr>d_unsynced := u\<rparr>) = sane d"
  "sane (d\<lparr>d_plan := os\<rparr>) = sane d"
  by (auto simp: sane_def)

lemma sane_settle [simp]: "sane d \<Longrightarrow> sane (settle p d)"
  by (auto simp: sane_def settle_def)

end
