(* ===== verification/Disk.thy ===== *)
theory Disk
  imports File_System Object_Store "HOL-Library.Sublist"
begin

text \<open>
  crates/duckfs/disk/src/disk.rs: the two persistence traits of store.rs on a file system. \<open>DiskStore\<close>
  keeps an object in the file \<open>dir/<aa>/<rest>\<close> that its hex id names, as the kind tag followed by the
  body; \<open>DiskRefs\<close> keeps the refs image in the file \<open>dir/refs\<close> inside a checksummed envelope.
\<close>

subsection \<open>Helpers\<close>

text \<open>\<open>sort\<close> and the insertion of a path into a \<open>BTreeSet\<close> keep the order of paths.\<close>

record disk_store =
  ds_dir :: fpath
  ds_dirty :: "fpath list"

definition fsync_dir :: "fpath \<Rightarrow> (err, unit) io" where
  "fsync_dir p = iomap_err (DiskE FsyncDir) (fs_sync_dir p)"

definition TMP :: rstring where "TMP = str ''.tmp''"

text \<open>\<open>sweep_tmp\<close>, with fuel for the depth of the directory.\<close>

fun sweep_tmp :: "nat \<Rightarrow> fpath \<Rightarrow> (io_error, unit) io" where
  "sweep_tmp 0 p = iofail OtherIo"
| "sweep_tmp (Suc n) p = iobind (fs_read_dir p) (ioeach (\<lambda>(name, dir).
     if dir then sweep_tmp n (p @ [name])
     else if suffix TMP name then fs_remove_file (p @ [name])
     else ioret ()))"

definition disk_open :: "nat \<Rightarrow> fpath \<Rightarrow> (io_error, disk_store) io" where
  "disk_open n dir =
     iobind (fs_create_dir_all dir) (\<lambda>_.
     iobind (sweep_tmp n dir) (\<lambda>_.
     ioret \<lparr>ds_dir = dir, ds_dirty = []\<rparr>))"

definition object_path :: "disk_store \<Rightarrow> object_id \<Rightarrow> fpath" where
  "object_path ds i = (let hex = to_hex i in ds_dir ds @ [take 2 hex, drop 2 hex])"

text \<open>A rename that removes its source when it fails.\<close>

definition rename_or_clean :: "err \<Rightarrow> fpath \<Rightarrow> fpath \<Rightarrow> (err, unit) io" where
  "rename_or_clean e tmp dest =
     iobind (iotry (fs_rename tmp dest)) (\<lambda>r. case r of
       Inr _ \<Rightarrow> ioret ()
     | Inl _ \<Rightarrow> iobind (iotry (fs_remove_file tmp)) (\<lambda>_. iofail e))"

subsection \<open>The object store\<close>

definition intact_len :: "fpath \<Rightarrow> nat \<Rightarrow> ('e, bool) io" where
  "intact_len dest n = iobind (fs_exists dest) (\<lambda>ex.
     if \<not> ex then ioret False
     else iobind (iotry (fs_len dest)) (\<lambda>r. ioret (r = Inr n)))"

definition disk_put_io :: "(bytes \<Rightarrow> object_id) \<Rightarrow> kind \<Rightarrow> bytes \<Rightarrow> disk_store \<Rightarrow> (err, object_id \<times> disk_store) io" where
  "disk_put_io H kind body ds =
     (let i = object_id H kind body; hex = to_hex i; dest = object_path ds i in
      iobind (intact_len dest (length body + 1)) (\<lambda>intact.
      if intact then ioret (i, ds)
      else
        let subdir = ds_dir ds @ [take 2 hex]; tmp = subdir @ [hex @ TMP]; buf = kind_tag kind # body in
        iobind (iomap_err (DiskE PutMkdir) (fs_create_dir_all subdir)) (\<lambda>_.
        iobind (iomap_err (DiskE PutCreateTmp) (fs_create tmp)) (\<lambda>_.
        iobind (iomap_err (DiskE PutWriteTmp) (fs_write_all tmp buf)) (\<lambda>_.
        iobind (iomap_err (DiskE PutFsyncTmp) (fs_sync_all tmp)) (\<lambda>_.
        iobind (rename_or_clean (DiskE PutRename) tmp dest) (\<lambda>_.
        ioret (i, ds\<lparr>ds_dirty := insort_insert subdir (ds_dirty ds)\<rparr>))))))))"

definition disk_get_io :: "(bytes \<Rightarrow> object_id) \<Rightarrow> object_id \<Rightarrow> disk_store \<Rightarrow> (err, (kind \<times> bytes) option) io" where
  "disk_get_io H i ds = iobind (iotry (fs_read (object_path ds i))) (\<lambda>r. case r of
     Inl NotFound \<Rightarrow> ioret None
   | Inl _ \<Rightarrow> iofail (DiskE GetRead)
   | Inr [] \<Rightarrow> iofail (DiskE GetEmpty)
   | Inr (tag # body) \<Rightarrow> (case kind_from_u8 tag of
       None \<Rightarrow> iofail (DiskE (GetUnknownKind tag))
     | Some kind \<Rightarrow> if object_id H kind body \<noteq> i then iofail (DiskE GetHashMismatch)
                    else ioret (Some (kind, body))))"

definition disk_has_io :: "object_id \<Rightarrow> disk_store \<Rightarrow> (err, bool) io" where
  "disk_has_io i ds = fs_exists (object_path ds i)"

definition intact_object :: "(bytes \<Rightarrow> object_id) \<Rightarrow> object_id \<Rightarrow> bytes \<Rightarrow> bool" where
  "intact_object H i raw = (case raw of
     [] \<Rightarrow> False
   | tag # body \<Rightarrow> (case kind_from_u8 tag of None \<Rightarrow> False | Some kind \<Rightarrow> object_id H kind body = i))"

definition disk_verify_io :: "(bytes \<Rightarrow> object_id) \<Rightarrow> object_id \<Rightarrow> disk_store \<Rightarrow> (err, bool) io" where
  "disk_verify_io H i ds = iobind (iotry (fs_read (object_path ds i))) (\<lambda>r. case r of
     Inl NotFound \<Rightarrow> ioret False
   | Inl _ \<Rightarrow> iofail (DiskE VerifyRead)
   | Inr raw \<Rightarrow>
       if intact_object H i raw then ioret True
       else iobind (iotry (fs_remove_file (object_path ds i))) (\<lambda>_. ioret False))"

text \<open>
  \<open>stat\<close> opens the file, reads its length and its first byte; the three calls can fail apart. A file
  of length 0 is an error before the byte is read.
\<close>

definition disk_stat_io :: "object_id \<Rightarrow> disk_store \<Rightarrow> (err, (kind \<times> u64) option) io" where
  "disk_stat_io i ds = iobind (iotry (fs_open (object_path ds i))) (\<lambda>r. case r of
     Inl NotFound \<Rightarrow> ioret None
   | Inl _ \<Rightarrow> iofail (DiskE StatRead)
   | Inr _ \<Rightarrow>
       iobind (iomap_err (DiskE StatRead) (fs_len (object_path ds i))) (\<lambda>len.
       if len = 0 then iofail (DiskE StatEmpty)
       else iobind (iomap_err (DiskE StatRead) (fs_first_byte (object_path ds i))) (\<lambda>tag.
         case kind_from_u8 tag of
           None \<Rightarrow> iofail (DiskE (StatUnknownKind tag))
         | Some kind \<Rightarrow> ioret (Some (kind, of_nat len - 1)))))"

definition disk_remove_io :: "object_id \<Rightarrow> disk_store \<Rightarrow> (err, unit) io" where
  "disk_remove_io i ds = iobind (iotry (fs_remove_file (object_path ds i))) (\<lambda>r. case r of
     Inr _ \<Rightarrow> ioret ()
   | Inl NotFound \<Rightarrow> ioret ()
   | Inl _ \<Rightarrow> iofail (DiskE RemoveFailed))"

text \<open>The object files of a fanout directory, then of the store.\<close>

definition object_names :: "rstring \<Rightarrow> (rstring \<times> bool) list \<Rightarrow> object_id list" where
  "object_names aa files = List.map_filter (\<lambda>(rest, _).
     if utf8 rest \<and> length rest = 62 then from_hex_32 (aa @ rest) else None) files"

fun list_fanout :: "fpath \<Rightarrow> (rstring \<times> bool) list \<Rightarrow> object_id list \<Rightarrow> (err, object_id list) io" where
  "list_fanout dir [] out = ioret out"
| "list_fanout dir ((aa, sub) # es) out =
     (if \<not> (utf8 aa \<and> length aa = 2) \<or> \<not> sub then list_fanout dir es out
      else iobind (iomap_err (DiskE ListFailed) (fs_read_dir (dir @ [aa]))) (\<lambda>files.
        list_fanout dir es (out @ object_names aa files)))"

definition disk_list_io :: "disk_store \<Rightarrow> (err, object_id list) io" where
  "disk_list_io ds = iobind (iotry (fs_read_dir (ds_dir ds))) (\<lambda>r. case r of
     Inl NotFound \<Rightarrow> ioret []
   | Inl _ \<Rightarrow> iofail (DiskE ListFailed)
   | Inr es \<Rightarrow> iobind (list_fanout (ds_dir ds) es []) (\<lambda>out. ioret (sort out)))"

definition disk_sync_dirs_io :: "disk_store \<Rightarrow> (err, disk_store) io" where
  "disk_sync_dirs_io ds =
     (if ds_dirty ds = [] then ioret ds
      else iobind (ioeach fsync_dir (ds_dirty ds)) (\<lambda>_.
        iobind (fsync_dir (ds_dir ds)) (\<lambda>_. ioret (ds\<lparr>ds_dirty := []\<rparr>))))"

text \<open>
  The trait's methods on a store with its disk. A method taking \<open>&self\<close> leaves the disk as the call
  leaves it; the record type of the traits has pure reads, so a read drops the disk it returns.
\<close>

type_synonym on_disk = "disk_store \<times> disk"

definition disk_put :: "(bytes \<Rightarrow> object_id) \<Rightarrow> kind \<Rightarrow> bytes \<Rightarrow> on_disk \<Rightarrow> object_id res \<times> on_disk" where
  "disk_put H kind body s = (case disk_put_io H kind body (fst s) (snd s) of
     (Inl e, d) \<Rightarrow> (Inl e, (fst s, d))
   | (Inr (i, ds), d) \<Rightarrow> (Inr i, (ds, d)))"

definition disk_sync_dirs :: "on_disk \<Rightarrow> unit res \<times> on_disk" where
  "disk_sync_dirs s = (case disk_sync_dirs_io (fst s) (snd s) of
     (Inl e, d) \<Rightarrow> (Inl e, (fst s, d))
   | (Inr ds, d) \<Rightarrow> (Inr (), (ds, d)))"

definition disk_ops :: "(bytes \<Rightarrow> object_id) \<Rightarrow> on_disk store_ops" where
  "disk_ops H = \<lparr>so_put = disk_put H,
     so_get = \<lambda>s i. fst (disk_get_io H i (fst s) (snd s)),
     so_has = \<lambda>s i. fst (disk_has_io i (fst s) (snd s)) = Inr True,
     so_verify = \<lambda>i s. (case disk_verify_io H i (fst s) (snd s) of (r, d) \<Rightarrow> (r, (fst s, d))),
     so_stat = \<lambda>s i. fst (disk_stat_io i (fst s) (snd s)),
     so_remove = \<lambda>i s. (case disk_remove_io i (fst s) (snd s) of (r, d) \<Rightarrow> (r, (fst s, d))),
     so_list = \<lambda>s. fst (disk_list_io (fst s) (snd s)),
     so_sync_dirs = disk_sync_dirs\<rparr>"

subsection \<open>The refs file\<close>

definition REFS_MAGIC :: bytes where "REFS_MAGIC = str ''DUCKFS1'' @ [10]"

definition REFS_FIXED_LEN :: nat where "REFS_FIXED_LEN = 8 + 8 + 8 + 8 + 32"

definition refs_path :: "fpath \<Rightarrow> fpath" where "refs_path dir = dir @ [str ''refs'']"

definition disk_refs_open :: "fpath \<Rightarrow> (err, fpath) io" where
  "disk_refs_open dir = iobind (iomap_err (DiskE RefsOpenFailed) (fs_create_dir_all dir)) (\<lambda>_. ioret dir)"

text \<open>\<open>usize\<close> has 64 bits, so \<open>try_from\<close> succeeds; the sum with the fixed length can overflow.\<close>

definition decode_envelope :: "(bytes \<Rightarrow> object_id) \<Rightarrow> bytes \<Rightarrow> (refs \<times> u64 \<times> u64) res" where
  "decode_envelope H raw =
     (if length raw < REFS_FIXED_LEN then Inl (DiskE RefsFileShort)
      else if take 8 raw \<noteq> REFS_MAGIC then Inl (DiskE RefsMagicMismatch)
      else let height = of_nat (le_val (take 8 (drop 8 raw)));
               gc_watermark = of_nat (le_val (take 8 (drop 16 raw)));
               payload_len = le_val (take 8 (drop 24 raw))
           in if REFS_FIXED_LEN + payload_len \<ge> 2 ^ 64 then Inl (DiskE RefsLenOverflow)
              else if length raw \<noteq> REFS_FIXED_LEN + payload_len then Inl (DiskE RefsFileLength)
              else let payload = take payload_len (drop 32 raw);
                       stored_sum = drop (32 + payload_len) raw
                   in if stored_sum \<noteq> H payload then Inl (DiskE RefsChecksum)
                      else rbind (decode_refs payload) (\<lambda>refs. Inr (refs, height, gc_watermark)))"

definition disk_refs_load :: "(bytes \<Rightarrow> object_id) \<Rightarrow> fpath \<Rightarrow> (err, (refs \<times> u64 \<times> u64) option) io" where
  "disk_refs_load H dir = iobind (iotry (fs_read (refs_path dir))) (\<lambda>r. case r of
     Inl NotFound \<Rightarrow> ioret None
   | Inl _ \<Rightarrow> iofail (DiskE RefsLoadFailed)
   | Inr raw \<Rightarrow> iobind (iolift (decode_envelope H raw)) (\<lambda>x. ioret (Some x)))"

definition encode_envelope :: "(bytes \<Rightarrow> object_id) \<Rightarrow> refs \<Rightarrow> u64 \<Rightarrow> u64 \<Rightarrow> bytes" where
  "encode_envelope H refs height gc_watermark =
     (let payload = encode_refs refs in
      REFS_MAGIC @ to_le64 height @ to_le64 gc_watermark @ to_le64 (of_nat (length payload)) @ payload @ H payload)"

definition disk_refs_save :: "(bytes \<Rightarrow> object_id) \<Rightarrow> refs \<Rightarrow> u64 \<Rightarrow> u64 \<Rightarrow> fpath \<Rightarrow> (err, unit) io" where
  "disk_refs_save H refs height gc_watermark dir =
     (let buf = encode_envelope H refs height gc_watermark; dest = refs_path dir; tmp = dir @ [str ''refs.tmp''] in
      iobind (iomap_err (DiskE SaveCreateTmp) (fs_create tmp)) (\<lambda>_.
      iobind (iomap_err (DiskE SaveWriteTmp) (fs_write_all tmp buf)) (\<lambda>_.
      iobind (iomap_err (DiskE SaveFsyncTmp) (fs_sync_all tmp)) (\<lambda>_.
      iobind (rename_or_clean (DiskE SaveRename) tmp dest) (\<lambda>_.
      iomap_err (DiskE SaveFsyncDir) (fsync_dir dir))))))"

definition disk_refs_ops :: "(bytes \<Rightarrow> object_id) \<Rightarrow> (fpath \<times> disk) refs_store_ops" where
  "disk_refs_ops H = \<lparr>ro_load = \<lambda>(dir, d). fst (disk_refs_load H dir d),
     ro_save = \<lambda>refs height gc_watermark (dir, d).
       (case disk_refs_save H refs height gc_watermark dir d of (r, d') \<Rightarrow> (r, (dir, d')))\<rparr>"

end
