(* ===== verification/Disk_Spec.thy ===== *)
theory Disk_Spec
  imports Disk
begin

text \<open>
  The object directory under failures and power loss. \<open>odb_inv\<close> is the invariant of a store with its set
  of fanout directories still to be synced; \<open>sure\<close> says that a power loss cannot take an object away.
  \<open>advances\<close> is what every operation guarantees of the disk, however the calls turn out.
\<close>

subsection \<open>Paths\<close>

definition tmp_path :: "fpath \<Rightarrow> bool" where
  "tmp_path p \<longleftrightarrow> p \<noteq> [] \<and> suffix TMP (last p)"

definition fan :: "fpath \<Rightarrow> object_id \<Rightarrow> fpath" where
  "fan dir i = dir @ [take 2 (to_hex i)]"

definition opath :: "fpath \<Rightarrow> object_id \<Rightarrow> fpath" where
  "opath dir i = dir @ [take 2 (to_hex i), drop 2 (to_hex i)]"

lemma object_path_eq: "object_path ds i = opath (ds_dir ds) i"
  by (simp add: object_path_def opath_def Let_def)

lemma hex_digit_dot: "n < 16 \<Longrightarrow> hex_digit n \<noteq> 46"
  by (rule byte_range [of 0 n 16]) (simp, simp, simp, simp, code_simp)

lemma hex_no_dot: "46 \<notin> set (to_hex i)"
proof -
  have "hex_digit (drop_bit 4 b) \<noteq> 46" "hex_digit (and b 15) \<noteq> 46" for b :: byte
    by (intro hex_digit_dot nibbles)+
  then show ?thesis by (force simp: to_hex_def hex_byte_def)
qed

lemma suffix_TMP: "suffix TMP s \<Longrightarrow> 46 \<in> set s \<and> 4 \<le> length s"
  by (auto simp: suffix_def TMP_def)

lemma not_tmp [simp]: "\<not> tmp_path (opath p i)" "\<not> tmp_path (fan p i)"
  using suffix_TMP [of "drop 2 (to_hex i)"] suffix_TMP [of "take 2 (to_hex i)"] hex_no_dot [of i]
  by (auto simp: tmp_path_def opath_def fan_def dest: in_set_dropD)

lemma opath_inj: "opath p i = opath p j \<longleftrightarrow> i = j"
proof
  assume "opath p i = opath p j"
  then have "take 2 (to_hex i) @ drop 2 (to_hex i) = take 2 (to_hex j) @ drop 2 (to_hex j)"
    unfolding opath_def by simp
  then show "i = j" using to_hex_inj [of i j] by simp
qed simp

lemma path_shapes [simp]:
  "opath p i \<noteq> []" "fan p i \<noteq> []" "butlast (opath p i) = fan p i" "butlast (fan p i) = p" "opath p i \<noteq> fan p j" "fan p j \<noteq> opath p i"
  by (simp_all add: opath_def fan_def butlast_append)

lemma refs_path_shapes [simp]: "refs_path r \<noteq> []" "butlast (refs_path r) = r" "\<not> tmp_path (refs_path r)"
proof -
  have "46 \<notin> set (str ''refs'')" by (simp add: str_def)
  then show "refs_path r \<noteq> []" "butlast (refs_path r) = r" "\<not> tmp_path (refs_path r)"
    using suffix_TMP [of "str ''refs''"] by (auto simp: refs_path_def tmp_path_def)
qed

subsection \<open>The invariant\<close>

definition intact_file :: "(bytes \<Rightarrow> object_id) \<Rightarrow> object_id \<Rightarrow> entry \<Rightarrow> bool" where
  "intact_file H i e \<longleftrightarrow> (\<exists>raw. e = FileE raw \<and> intact_object H i raw)"

definition filed :: "(bytes \<Rightarrow> object_id) \<Rightarrow> fpath \<Rightarrow> disk \<Rightarrow> object_id \<Rightarrow> bool" where
  "filed H dir d i \<longleftrightarrow> (\<forall>x \<in> d_kept d (opath dir i). \<exists>e. x = Some e \<and> intact_file H i e)"

definition sure :: "(bytes \<Rightarrow> object_id) \<Rightarrow> fpath \<Rightarrow> disk \<Rightarrow> object_id \<Rightarrow> bool" where
  "sure H dir d i \<longleftrightarrow> filed H dir d i \<and> d_kept d (fan dir i) = {Some DirE}"

definition anchored :: "fpath \<Rightarrow> disk \<Rightarrow> bool" where
  "anchored dir d \<longleftrightarrow> (\<forall>n. 0 < n \<and> n \<le> length dir \<longrightarrow> d_kept d (take n dir) = {Some DirE})"

definition present_at :: "fpath \<Rightarrow> disk \<Rightarrow> object_id \<Rightarrow> bool" where
  "present_at dir d i \<longleftrightarrow> bt_get (d_live d) (opath dir i) \<noteq> None"

definition clean_path :: "fpath \<Rightarrow> bool" where
  "clean_path dir \<longleftrightarrow> (\<forall>n. 0 < n \<and> n \<le> length dir \<longrightarrow> \<not> tmp_path (take n dir))"

definition odb_inv :: "(bytes \<Rightarrow> object_id) \<Rightarrow> fpath \<Rightarrow> fpath set \<Rightarrow> disk \<Rightarrow> bool" where
  "odb_inv H dir D d \<longleftrightarrow> sane d \<and> anchored dir d \<and> (\<forall>p \<in> d_unsynced d. tmp_path p) \<and>
     (\<forall>i e. length i = 32 \<longrightarrow> bt_get (d_live d) (opath dir i) = Some e \<longrightarrow>
        intact_file H i e \<and> is_dir d (fan dir i) \<and> (sure H dir d i \<or> fan dir i \<in> D)) \<and>
     (\<forall>i e. length i = 32 \<longrightarrow> Some e \<in> d_kept d (opath dir i) \<longrightarrow> intact_file H i e)"

text \<open>Paths outside the object directory, where its operations change nothing.\<close>

definition apart :: "fpath \<Rightarrow> fpath \<Rightarrow> bool" where
  "apart dir p \<longleftrightarrow> p \<noteq> [] \<and> \<not> tmp_path p \<and> \<not> (\<exists>s. s \<noteq> [] \<and> p = dir @ s)"

definition advances :: "(bytes \<Rightarrow> object_id) \<Rightarrow> fpath \<Rightarrow> disk \<Rightarrow> fpath set \<Rightarrow> disk \<Rightarrow> bool" where
  "advances H dir d0 D d \<longleftrightarrow> odb_inv H dir D d \<and>
     (\<forall>i. sure H dir d0 i \<longrightarrow> sure H dir d i) \<and> (\<forall>i. present_at dir d0 i \<longrightarrow> present_at dir d i) \<and>
     (\<forall>p. apart dir p \<longrightarrow> bt_get (d_live d) p = bt_get (d_live d0) p \<and> d_kept d p = d_kept d0 p)"

lemmas odb_defs = odb_inv_def advances_def filed_def sure_def anchored_def present_at_def is_dir_def at_path_def

lemma advances_refl: "odb_inv H dir D d \<Longrightarrow> advances H dir d D d"
  by (simp add: advances_def)

lemma advances_trans: "advances H dir d0 D d1 \<Longrightarrow> advances H dir d1 D' d2 \<Longrightarrow> advances H dir d0 D' d2"
  by (simp add: advances_def)

lemma advances_mono: "advances H dir d0 D d \<Longrightarrow> D \<subseteq> D' \<Longrightarrow> advances H dir d0 D' d"
  unfolding advances_def odb_inv_def by blast

lemma planless_advances: "planless (advances H dir d0 D)"
  by (simp add: planless_def odb_defs)

text \<open>What happens at paths \<open>T\<close> that the store does not use, temporary files first, does not matter.\<close>

definition only :: "(fpath \<Rightarrow> bool) \<Rightarrow> disk \<Rightarrow> disk \<Rightarrow> bool" where
  "only T d d' \<longleftrightarrow> (\<forall>p. \<not> T p \<longrightarrow> bt_get (d_live d') p = bt_get (d_live d) p \<and> d_kept d' p = d_kept d p) \<and>
     (\<forall>p \<in> d_unsynced d'. tmp_path p \<or> p \<in> d_unsynced d) \<and> (sane d \<longrightarrow> sane d')"

definition unused :: "(fpath \<Rightarrow> bool) \<Rightarrow> fpath \<Rightarrow> bool" where
  "unused T dir \<longleftrightarrow> (\<forall>i. \<not> T (opath dir i) \<and> \<not> T (fan dir i)) \<and> (\<forall>n. 0 < n \<and> n \<le> length dir \<longrightarrow> \<not> T (take n dir))"

lemma odb_only:
  assumes "only T d d'" "unused T dir" "odb_inv H dir D d"
  shows "odb_inv H dir D d'" "sure H dir d' i = sure H dir d i" "present_at dir d' i = present_at dir d i"
proof -
  have same: "bt_get (d_live d') p = bt_get (d_live d) p" "d_kept d' p = d_kept d p" if "\<not> T p" for p
    using assms(1) that by (simp_all add: only_def)
  have keys: "d_kept d' (opath dir i) = d_kept d (opath dir i)" "d_kept d' (fan dir i) = d_kept d (fan dir i)"
    "bt_get (d_live d') (opath dir i) = bt_get (d_live d) (opath dir i)"
    "bt_get (d_live d') (fan dir i) = bt_get (d_live d) (fan dir i)" for i
    using assms(2) by (simp_all add: same unused_def)
  have sure: "sure H dir d' i = sure H dir d i" for i by (simp add: sure_def filed_def keys)
  then show "sure H dir d' i = sure H dir d i" .
  show "present_at dir d' i = present_at dir d i" by (simp add: present_at_def keys)
  have d: "is_dir d' (fan dir i) = is_dir d (fan dir i)" for i by (simp add: is_dir_def at_path_def keys)
  have "anchored dir d'"
    using assms same(2) unfolding odb_inv_def anchored_def unused_def by simp
  moreover have "sane d'" "\<forall>p \<in> d_unsynced d'. tmp_path p"
    using assms(1,3) unfolding odb_inv_def only_def by auto
  ultimately show "odb_inv H dir D d'"
    using assms(3) unfolding odb_inv_def sure keys d by simp
qed

abbreviation tmp_only :: "disk \<Rightarrow> disk \<Rightarrow> bool" where "tmp_only \<equiv> only tmp_path"

lemma tmp_only_put: "tmp_path p \<Longrightarrow> Some e \<in> ks \<Longrightarrow> tmp_only d (put_entry p e ks (d\<lparr>d_unsynced := insert p (d_unsynced d)\<rparr>))"
  by (auto simp: only_def)

lemma tmp_only_refl: "only T d d"
  by (simp add: only_def)

lemma tmp_only_append: "tmp_path p \<Longrightarrow> tmp_only d (fs_append p bs d)"
  by (auto simp: fs_append_def tmp_only_refl intro!: tmp_only_put split: option.split entry.split)

lemma tmp_only_drop: "tmp_path p \<Longrightarrow> tmp_only d (drop_entry p d)"
  by (auto simp: only_def)

lemma tmp_only_sync: "tmp_only d (d\<lparr>d_unsynced := d_unsynced d - {p}\<rparr>)"
  by (auto simp: only_def)

lemma unused_tmp: "clean_path dir \<Longrightarrow> unused tmp_path dir"
  by (simp add: unused_def clean_path_def)

lemma advances_tmp_only:
  assumes "tmp_only d d'" "clean_path dir" "advances H dir d0 D d"
  shows "advances H dir d0 D d'"
proof -
  have inv: "odb_inv H dir D d" using assms(3) by (simp add: advances_def)
  note o1 = odb_only [OF assms(1) unused_tmp [OF assms(2)] inv]
  have "\<forall>p. apart dir p \<longrightarrow> bt_get (d_live d') p = bt_get (d_live d0) p \<and> d_kept d' p = d_kept d0 p"
    using assms(1,3) by (simp add: advances_def apart_def only_def)
  then show ?thesis using assms(3) o1 by (simp add: advances_def)
qed

subsection \<open>Creating the fanout directory\<close>

lemma make_dirs_skip:
  "\<forall>n. 0 < n \<and> n \<le> length p \<longrightarrow> at_path d (pre @ take n p) = Some DirE \<Longrightarrow>
   make_dirs pre (p @ q) d = make_dirs (pre @ p) q d"
proof (induction p arbitrary: pre)
  case (Cons s p)
  have "at_path d (pre @ [s]) = Some DirE" using Cons.prems [rule_format, of 1] by simp
  moreover have "\<forall>n. 0 < n \<and> n \<le> length p \<longrightarrow> at_path d ((pre @ [s]) @ take n p) = Some DirE"
    using Cons.prems [rule_format, of "Suc n" for n] by (auto split: if_splits)
  ultimately show ?case using Cons.IH [of "pre @ [s]"] by (simp add: Let_def)
qed simp

lemma anchored_dirs: "anchored dir d \<Longrightarrow> sane d \<Longrightarrow> 0 < n \<Longrightarrow> n \<le> length dir \<Longrightarrow> at_path d (take n dir) = Some DirE"
proof -
  assume a: "anchored dir d" "sane d" "0 < n" "n \<le> length dir"
  then have "take n dir \<noteq> []" by auto
  then have "bt_get (d_live d) (take n dir) \<in> d_kept d (take n dir)" using a(2) by (simp add: sane_def)
  then show ?thesis using a \<open>take n dir \<noteq> []\<close> by (simp add: anchored_def at_path_def)
qed

lemma odb_dirs: "odb_inv H dir D d \<Longrightarrow> n \<le> length dir \<Longrightarrow> at_path d (take n dir) = Some DirE"
  using anchored_dirs [of dir d n] by (cases n) (simp_all add: odb_inv_def at_path_def)

lemma advances_mkdir:
  assumes "advances H dir d0 D d" "at_path d (fan dir i) = None"
  shows "advances H dir d0 D (put_entry (fan dir i) DirE (insert (Some DirE) (d_kept d (fan dir i))) d)"
proof -
  let ?d = "put_entry (fan dir i) DirE (insert (Some DirE) (d_kept d (fan dir i))) d"
  have inv: "odb_inv H dir D d" using assms(1) by (simp add: advances_def)
  have none: "bt_get (d_live d) (fan dir i) = None" using assms(2) by (simp add: at_path_def)
  then have "None \<in> d_kept d (fan dir i)" using inv by (metis odb_inv_def path_shapes(2) sane_def)
  then have ns: "\<not> sure H dir d j" if "fan dir j = fan dir i" for j using that by (auto simp: sure_def)
  have sure: "sure H dir ?d j" if "sure H dir d j" for j
    using that ns [of j] by (auto simp: sure_def filed_def)
  have "anchored dir ?d"
  proof -
    have "take n dir \<noteq> fan dir i" for n
    proof -
      have "length (take n dir) < length (fan dir i)" by (simp add: fan_def)
      then show ?thesis by (metis nat_neq_iff)
    qed
    then show ?thesis using inv by (simp add: odb_inv_def anchored_def)
  qed
  moreover have "intact_file H j e \<and> is_dir ?d (fan dir j) \<and> (sure H dir ?d j \<or> fan dir j \<in> D)"
    if "length j = 32" "bt_get (d_live ?d) (opath dir j) = Some e" for j e
  proof -
    have "intact_file H j e \<and> is_dir d (fan dir j) \<and> (sure H dir d j \<or> fan dir j \<in> D)"
      using inv that by (simp add: odb_inv_def)
    then show ?thesis using sure [of j] by (auto simp: is_dir_def at_path_def)
  qed
  moreover have "sane ?d" "\<forall>p \<in> d_unsynced ?d. tmp_path p" using inv by (simp_all add: odb_inv_def)
  moreover have "\<forall>j e. length j = 32 \<longrightarrow> Some e \<in> d_kept ?d (opath dir j) \<longrightarrow> intact_file H j e"
    using inv by (simp add: odb_inv_def)
  ultimately have "odb_inv H dir D ?d" unfolding odb_inv_def by blast
  moreover have "p \<noteq> fan dir i" if "apart dir p" for p using that by (auto simp: apart_def fan_def)
  ultimately show ?thesis
    using assms(1) sure unfolding advances_def present_at_def by simp
qed

lemma make_fan:
  assumes "advances H dir d0 D d"
  shows "make_dirs [] (take n (fan dir i)) d = (r, d') \<Longrightarrow> advances H dir d0 D d'"
    and "make_dirs [] (fan dir i) d = (Inr u, d') \<Longrightarrow> is_dir d' (fan dir i)"
proof -
  have inv: "odb_inv H dir D d" using assms by (simp add: advances_def)
  have skip: "make_dirs [] (take m dir @ q) d = make_dirs (take m dir) q d" for m q
  proof -
    have "\<forall>k. 0 < k \<and> k \<le> length (take m dir) \<longrightarrow> at_path d ([] @ take k (take m dir)) = Some DirE"
      using odb_dirs [OF inv] by (simp add: min_def)
    from make_dirs_skip [OF this, of q] show ?thesis by simp
  qed
  have full: "make_dirs [] (fan dir i) d = (case at_path d (fan dir i) of
      Some DirE \<Rightarrow> (Inr (), d) | Some (FileE _) \<Rightarrow> (Inl OtherIo, d)
    | None \<Rightarrow> (Inr (), put_entry (fan dir i) DirE (insert (Some DirE) (d_kept d (fan dir i))) d))"
    using skip [of "length dir" "[take 2 (to_hex i)]"] by (simp add: fan_def Let_def split: option.split entry.split)
  show "is_dir d' (fan dir i)" if "make_dirs [] (fan dir i) d = (Inr u, d')"
    using that unfolding full by (auto simp: is_dir_def at_path_def split: option.splits entry.splits)
  show "advances H dir d0 D d'" if r: "make_dirs [] (take n (fan dir i)) d = (r, d')"
  proof (cases "n \<le> length dir")
    case True
    then have "take n (fan dir i) = take n dir" by (simp add: fan_def)
    then show ?thesis using r skip [of n "[]"] assms by simp
  next
    case False
    then have "take n (fan dir i) = fan dir i" by (simp add: fan_def)
    then show ?thesis
      using r full assms advances_mkdir [OF assms] by (auto split: option.splits entry.splits)
  qed
qed

lemma create_fan:
  "triple (advances H dir d0 D) (fs_create_dir_all (fan dir i))
     (\<lambda>_ d. advances H dir d0 D d \<and> is_dir d (fan dir i)) (\<lambda>_. advances H dir d0 D)"
  unfolding fs_create_dir_all_def
proof (rule triple_call [OF planless_advances])
  fix d
  assume d: "advances H dir d0 D d"
  obtain r d' where m: "make_dirs [] (fan dir i) d = (r, d')" by (cases "make_dirs [] (fan dir i) d")
  have "advances H dir d0 D d'" using make_fan(1) [OF d, where n = "length (fan dir i)" and i = i] m by simp
  then show "case make_dirs [] (fan dir i) d of
      (Inr x, d') \<Rightarrow> advances H dir d0 D d' \<and> is_dir d' (fan dir i) | (Inl e, d') \<Rightarrow> advances H dir d0 D d'"
    using make_fan(2) [OF d] m by (cases r) auto
next
  fix d n
  assume d: "advances H dir d0 D d"
  show "advances H dir d0 D (snd (make_dirs [] (take n (fan dir i)) d))"
    using make_fan(1) [OF d] by (cases "make_dirs [] (take n (fan dir i)) d") auto
qed

subsection \<open>Writing a temporary file\<close>

definition writing :: "fpath \<Rightarrow> bytes \<Rightarrow> disk \<Rightarrow> bool" where
  "writing p b d \<longleftrightarrow> bt_get (d_live d) p = Some (FileE b)"

lemma file_triples:
  assumes ne: "p \<noteq> []" and pl: "planless I"
    and put: "\<And>d b. I d \<Longrightarrow> \<not> is_dir d p \<Longrightarrow> I (put_entry p (FileE b) UNIV (d\<lparr>d_unsynced := insert p (d_unsynced d)\<rparr>))"
    and sync: "\<And>d. I d \<Longrightarrow> I (d\<lparr>d_unsynced := d_unsynced d - {p}\<rparr>)"
    and drop: "\<And>d. I d \<Longrightarrow> \<not> is_dir d p \<Longrightarrow> I (drop_entry p d)"
  shows "triple I (fs_create p) (\<lambda>_ d. I d \<and> writing p [] d) (\<lambda>_. I)"
    and "triple (\<lambda>d. I d \<and> writing p [] d) (fs_write_all p b) (\<lambda>_ d. I d \<and> writing p b d) (\<lambda>_. I)"
    and "triple (\<lambda>d. I d \<and> writing p b d) (fs_sync_all p) (\<lambda>_ d. I d \<and> writing p b d \<and> p \<notin> d_unsynced d) (\<lambda>_. I)"
    and "triple I (fs_remove_file p) (\<lambda>_. I) (\<lambda>_. I)"
proof -
  have pw: "planless (\<lambda>d. I d \<and> writing p b d)" for b using pl by (simp add: planless_def writing_def)
  have app: "I (fs_append p c d)" if "I d" "writing p b d" for b c d
    using that put [of d] ne by (simp add: fs_append_def at_path_def writing_def is_dir_def)
  show "triple I (fs_create p) (\<lambda>_ d. I d \<and> writing p [] d) (\<lambda>_. I)"
    unfolding fs_create_def by (rule triple_call [OF pl]) (auto simp: put writing_def)
  show "triple (\<lambda>d. I d \<and> writing p [] d) (fs_write_all p b) (\<lambda>_ d. I d \<and> writing p b d) (\<lambda>_. I)"
    unfolding fs_write_all_def
    by (rule triple_call [OF pw]) (auto simp: app, simp add: fs_append_def at_path_def writing_def ne)
  show "triple (\<lambda>d. I d \<and> writing p b d) (fs_sync_all p) (\<lambda>_ d. I d \<and> writing p b d \<and> p \<notin> d_unsynced d) (\<lambda>_. I)"
    unfolding fs_sync_all_def by (rule triple_call [OF pw]) (auto simp: sync writing_def)
  show "triple I (fs_remove_file p) (\<lambda>_. I) (\<lambda>_. I)"
    unfolding fs_remove_file_def
    by (rule triple_call [OF pl]) (auto simp: drop is_dir_def split: option.split entry.split)
qed

lemma tmp_triples:
  assumes t: "tmp_path p" and stable: "planless I" "\<And>d d'. tmp_only d d' \<Longrightarrow> I d \<Longrightarrow> I d'"
  shows "triple I (fs_create p) (\<lambda>_ d. I d \<and> writing p [] d) (\<lambda>_. I)"
    and "triple (\<lambda>d. I d \<and> writing p [] d) (fs_write_all p b) (\<lambda>_ d. I d \<and> writing p b d) (\<lambda>_. I)"
    and "triple (\<lambda>d. I d \<and> writing p b d) (fs_sync_all p) (\<lambda>_ d. I d \<and> writing p b d \<and> p \<notin> d_unsynced d) (\<lambda>_. I)"
    and "triple I (fs_remove_file p) (\<lambda>_. I) (\<lambda>_. I)"
  using t stable(2) [OF tmp_only_put [OF t]] stable(2) [OF tmp_only_sync] stable(2) [OF tmp_only_drop [OF t]]
  by (intro file_triples; simp add: tmp_path_def stable(1))+

lemma rename_triple:
  assumes "triple P (fs_rename s t) (\<lambda>_. Q) (\<lambda>_. E)" "triple E (fs_remove_file s) (\<lambda>_. E') (\<lambda>_. E')"
  shows "triple P (rename_or_clean e s t) (\<lambda>_. Q) (\<lambda>_. E')"
  unfolding rename_or_clean_def
proof (rule triple_bind [where R = "\<lambda>r d. case r of Inr _ \<Rightarrow> Q d | Inl _ \<Rightarrow> E d", OF triple_try])
  show "triple P (fs_rename s t) (\<lambda>x d. case Inr x :: io_error + unit of Inr _ \<Rightarrow> Q d | Inl _ \<Rightarrow> E d)
      (\<lambda>x d. case Inl x :: io_error + unit of Inr _ \<Rightarrow> Q d | Inl _ \<Rightarrow> E d)"
    using assms(1) by simp
  show "triple (\<lambda>d. case r of Inr _ \<Rightarrow> Q d | Inl _ \<Rightarrow> E d)
      (case r of Inr _ \<Rightarrow> ioret () | Inl _ \<Rightarrow> iobind (iotry (fs_remove_file s)) (\<lambda>_. iofail e)) (\<lambda>_. Q) (\<lambda>_. E')"
    for r :: "io_error + unit"
  proof (cases r)
    case (Inl x)
    have "triple E (iobind (iotry (fs_remove_file s)) (\<lambda>_. iofail e)) (\<lambda>_. Q) (\<lambda>_. E')"
      by (rule triple_bind [where R = "\<lambda>_. E'", OF triple_try [OF assms(2)]]) (rule triple_fail)
    then show ?thesis using Inl by simp
  qed (simp add: triple_ret)
qed

subsection \<open>Publishing an object\<close>

text \<open>The entry of a file whose bytes are durable, under the name of its object: by a rename or a hard link.\<close>

lemma advances_link:
  assumes adv: "advances H dir d0 D d" and src: "writing s raw d" "s \<notin> d_unsynced d"
    and ok: "intact_object H i raw" "is_dir d (fan dir i)" "clean_path dir"
  shows "advances H dir d0 (insert (fan dir i) D) (named_entry s (FileE raw) (opath dir i) d)"
    and "present_at dir (named_entry s (FileE raw) (opath dir i) d) i"
proof -
  let ?p = "opath dir i" and ?d1 = "named_entry s (FileE raw) (opath dir i) d"
  have own: "intact_file H i (FileE raw)" using ok(1) by (simp add: intact_file_def)
  have inv: "odb_inv H dir D d" using adv by (simp add: advances_def)
  have live: "bt_get (d_live ?d1) q = (if q = ?p then Some (FileE raw) else bt_get (d_live d) q)"
    "d_kept ?d1 q = (if q = ?p then insert (Some (FileE raw)) (d_kept d ?p) else d_kept d q)"
    "d_unsynced ?d1 = d_unsynced d - {?p}" for q
    using src(2) by (simp_all add: named_entry_def put_entry_def bt_get_insert)
  have sane: "sane ?d1"
    using inv src(2) by (simp add: named_entry_def odb_inv_def)
  have sure: "sure H dir ?d1 j" if "sure H dir d j" for j
    using that own by (auto simp: sure_def filed_def live opath_inj intro: exI [of _ "FileE raw"])
  have "take n dir \<noteq> ?p" for n
  proof -
    have "length (take n dir) < length ?p" by (simp add: opath_def)
    then show ?thesis by (metis nat_neq_iff)
  qed
  then have "anchored dir ?d1" using inv by (simp add: odb_inv_def anchored_def live)
  moreover have "intact_file H j e \<and> is_dir ?d1 (fan dir j) \<and> (sure H dir ?d1 j \<or> fan dir j \<in> insert (fan dir i) D)"
    if "length j = 32" "bt_get (d_live ?d1) (opath dir j) = Some e" for j e
  proof (cases "j = i")
    case True
    then have "e = FileE raw" using that(2) by (simp add: live)
    then show ?thesis using True own ok(2) by (simp add: live is_dir_def at_path_def)
  next
    case False
    then have "intact_file H j e \<and> is_dir d (fan dir j) \<and> (sure H dir d j \<or> fan dir j \<in> D)"
      using inv that by (simp add: odb_inv_def live opath_inj)
    then show ?thesis using sure [of j] by (auto simp: live is_dir_def at_path_def)
  qed
  moreover have "\<forall>j e. length j = 32 \<longrightarrow> Some e \<in> d_kept ?d1 (opath dir j) \<longrightarrow> intact_file H j e"
    using inv own by (auto simp: odb_inv_def live opath_inj)
  ultimately have "odb_inv H dir (insert (fan dir i) D) ?d1"
    using sane inv unfolding odb_inv_def by (simp add: live)
  moreover have "p \<noteq> ?p" if "apart dir p" for p using that by (auto simp: apart_def opath_def)
  ultimately show "advances H dir d0 (insert (fan dir i) D) ?d1"
    using adv sure unfolding advances_def present_at_def by (simp add: live)
  show "present_at dir ?d1 i" by (simp add: present_at_def live)
qed

lemma advances_rename:
  assumes adv: "advances H dir d0 D d" and tmp: "tmp_path tmp" "writing tmp raw d" "tmp \<notin> d_unsynced d"
    and ok: "intact_object H i raw" "is_dir d (fan dir i)" "clean_path dir"
  shows "advances H dir d0 (insert (fan dir i) D) (drop_entry tmp (named_entry tmp (FileE raw) (opath dir i) d))"
    and "present_at dir (drop_entry tmp (named_entry tmp (FileE raw) (opath dir i) d)) i"
proof -
  note link = advances_link [OF adv tmp(2,3) ok]
  show "advances H dir d0 (insert (fan dir i) D) (drop_entry tmp (named_entry tmp (FileE raw) (opath dir i) d))"
    by (rule advances_tmp_only [OF tmp_only_drop [OF tmp(1)] ok(3) link(1)])
  show "present_at dir (drop_entry tmp (named_entry tmp (FileE raw) (opath dir i) d)) i"
    using link(2) tmp(1) by (auto simp: present_at_def)
qed

lemma publish_object:
  assumes t: "tmp_path tmp" and ok: "intact_object H i raw" "clean_path dir"
  shows "triple (\<lambda>d. advances H dir d0 D d \<and> is_dir d (fan dir i) \<and> writing tmp raw d \<and> tmp \<notin> d_unsynced d)
     (rename_or_clean e tmp (opath dir i))
     (\<lambda>_ d. advances H dir d0 (insert (fan dir i) D) d \<and> present_at dir d i) (\<lambda>_. advances H dir d0 D)"
proof (rule rename_triple)
  let ?P = "\<lambda>d. advances H dir d0 D d \<and> is_dir d (fan dir i) \<and> writing tmp raw d \<and> tmp \<notin> d_unsynced d"
  have pl: "planless ?P"
    using planless_advances [of H dir d0 D] by (simp add: planless_def is_dir_def at_path_def writing_def)
  have ne: "tmp \<noteq> []" using t by (simp add: tmp_path_def)
  show "triple ?P (fs_rename tmp (opath dir i)) (\<lambda>_ d. advances H dir d0 (insert (fan dir i) D) d \<and> present_at dir d i)
      (\<lambda>_. advances H dir d0 D)"
    unfolding fs_rename_def
    by (rule triple_call [OF pl])
      (auto simp: at_path_def ne writing_def intro!: advances_rename [OF _ t _ _ ok(1) _ ok(2)])
  show "triple (advances H dir d0 D) (fs_remove_file tmp) (\<lambda>_. advances H dir d0 D) (\<lambda>_. advances H dir d0 D)"
    by (rule tmp_triples(4) [OF t planless_advances]) (rule advances_tmp_only [OF _ ok(2)])
qed

subsection \<open>Put\<close>

lemma exists_triple:
  assumes "planless P" "p \<noteq> []"
  shows "triple P (fs_exists p) (\<lambda>x d. P d \<and> (x \<longrightarrow> bt_get (d_live d) p \<noteq> None)) E"
  unfolding fs_exists_def
proof (rule triple_bind [OF triple_try])
  let ?Q = "\<lambda>x d. P d \<and> (x \<longrightarrow> bt_get (d_live d) p \<noteq> None)"
  show "triple P (call (\<lambda>d. (Inr (at_path d p \<noteq> None), d)) untorn) (\<lambda>x. ?Q (Inr x = (Inr True :: io_error + bool)))
      (\<lambda>e. ?Q (Inl e = (Inr True :: io_error + bool)))"
    by (rule triple_read [OF assms(1)]) (auto simp: at_path_def assms(2))
  show "triple (?Q (r = Inr True)) (ioret (r = Inr True)) ?Q E" for r :: "io_error + bool"
    by (rule triple_ret)
qed

lemma intact_len_triple:
  assumes "planless P" "p \<noteq> []"
  shows "triple P (intact_len p n) (\<lambda>x d. P d \<and> (x \<longrightarrow> bt_get (d_live d) p \<noteq> None)) E"
proof -
  let ?Q = "\<lambda>x d. P d \<and> (x \<longrightarrow> bt_get (d_live d) p \<noteq> None)"
  have ex: "triple P (fs_exists p) ?Q E" by (rule exists_triple [OF assms])
  have len: "triple (?Q True) (fs_len p) (\<lambda>_. ?Q True) (\<lambda>_. ?Q True)"
    unfolding fs_len_def using assms(1)
    by (intro triple_read) (auto simp: planless_def split: option.split entry.split)
  have read: "triple (?Q True) (iobind (iotry (fs_len p)) (\<lambda>r. ioret (r = Inr n))) ?Q E"
    by (rule triple_bind [OF triple_try [OF len]]) (rule triple_ret, simp)
  show ?thesis
    unfolding intact_len_def
  proof (rule triple_bind [OF ex])
    show "triple (?Q ex) (if \<not> ex then ioret False else iobind (iotry (fs_len p)) (\<lambda>r. ioret (r = Inr n))) ?Q E" for ex
      using read by (cases ex) (simp_all add: triple_ret)
  qed
qed

lemma disk_put_triple:
  assumes "clean_path (ds_dir ds)"
  shows "triple (advances H (ds_dir ds) d0 (set (ds_dirty ds))) (disk_put_io H k b ds)
    (\<lambda>(i, ds') d. i = object_id H k b \<and> ds_dir ds' = ds_dir ds \<and>
       set (ds_dirty ds') \<subseteq> insert (fan (ds_dir ds) i) (set (ds_dirty ds)) \<and>
       advances H (ds_dir ds) d0 (set (ds_dirty ds')) d \<and> present_at (ds_dir ds) d i)
    (\<lambda>_. advances H (ds_dir ds) d0 (set (ds_dirty ds)))"
proof -
  let ?dir = "ds_dir ds" and ?i = "object_id H k b" and ?A = "advances H (ds_dir ds) d0 (set (ds_dirty ds))"
  let ?tmp = "fan ?dir ?i @ [to_hex ?i @ TMP]" and ?raw = "kind_tag k # b"
  have t: "tmp_path ?tmp" by (simp add: tmp_path_def suffix_def)
  have ok: "intact_object H ?i ?raw" by (simp add: intact_object_def)
  let ?I = "\<lambda>d. ?A d \<and> is_dir d (fan ?dir ?i)"
  have pl: "planless ?I" using planless_advances [of H ?dir d0] by (simp add: planless_def is_dir_def at_path_def)
  have st: "?I d'" if "tmp_only d d'" "?I d" for d d'
    using that advances_tmp_only [OF that(1) assms] by (auto simp: is_dir_def at_path_def only_def)
  note steps = tmp_triples [OF t pl st]
  have fan: "?dir @ [take 2 (to_hex ?i)] = fan ?dir ?i" by (simp add: fan_def)
  let ?Q = "\<lambda>(i, ds') d. i = ?i \<and> ds_dir ds' = ?dir \<and> set (ds_dirty ds') \<subseteq> insert (fan ?dir i) (set (ds_dirty ds)) \<and>
    advances H ?dir d0 (set (ds_dirty ds')) d \<and> present_at ?dir d i"
  let ?store = "iobind (iomap_err (DiskE PutMkdir) (fs_create_dir_all (fan ?dir ?i))) (\<lambda>_.
    iobind (iomap_err (DiskE PutCreateTmp) (fs_create ?tmp)) (\<lambda>_.
    iobind (iomap_err (DiskE PutWriteTmp) (fs_write_all ?tmp ?raw)) (\<lambda>_.
    iobind (iomap_err (DiskE PutFsyncTmp) (fs_sync_all ?tmp)) (\<lambda>_.
    iobind (rename_or_clean (DiskE PutRename) ?tmp (opath ?dir ?i)) (\<lambda>_.
    ioret (?i, ds\<lparr>ds_dirty := insort_insert (fan ?dir ?i) (ds_dirty ds)\<rparr>))))))"
  have "triple ?A ?store ?Q (\<lambda>_. ?A)"
    apply (rule triple_bind [where R = "\<lambda>_. ?I"])
     apply (rule triple_map_err, rule create_fan)
    apply (rule triple_bind [where R = "\<lambda>_ d. ?I d \<and> writing ?tmp [] d"])
     apply (rule triple_map_err, rule triple_conseq [OF steps(1)]; simp)
    apply (rule triple_bind [where R = "\<lambda>_ d. ?I d \<and> writing ?tmp ?raw d"])
     apply (rule triple_map_err, rule triple_conseq [OF steps(2)]; simp)
    apply (rule triple_bind [where R = "\<lambda>_ d. ?I d \<and> writing ?tmp ?raw d \<and> ?tmp \<notin> d_unsynced d"])
     apply (rule triple_map_err, rule triple_conseq [OF steps(3)]; simp)
    apply (rule triple_bind [where R = "\<lambda>_ d. advances H ?dir d0 (insert (fan ?dir ?i) (set (ds_dirty ds))) d \<and> present_at ?dir d ?i"])
     apply (rule triple_conseq [OF publish_object [OF t ok assms]]; simp)
    apply (rule triple_ret, simp add: set_insort_insert)
    done
  note written = this
  have held: "triple (\<lambda>d. ?A d \<and> bt_get (d_live d) (opath ?dir ?i) \<noteq> None) (ioret (?i, ds)) ?Q (\<lambda>_. ?A)"
    by (rule triple_ret) (auto simp: present_at_def)
  show ?thesis
    unfolding disk_put_io_def Let_def object_path_eq fan
  proof (rule triple_bind [OF intact_len_triple [OF planless_advances]])
    show "opath ?dir ?i \<noteq> []" by simp
    show "triple (\<lambda>d. ?A d \<and> (x \<longrightarrow> bt_get (d_live d) (opath ?dir ?i) \<noteq> None))
      (if x then ioret (?i, ds) else ?store) ?Q (\<lambda>_. ?A)" for x
      using written held by (cases x) simp_all
  qed
qed

end
