(* ===== verification/Disk_Commit.thy ===== *)
theory Disk_Commit
  imports Disk Fs_Core
begin

text \<open>
  crates/duckfs/disk/src/commit.rs: the order in which a block becomes durable. The objects are flushed
  and their directories synced (\<open>persist_objects\<close>) before the refs file that names them is replaced
  (\<open>commit_refs\<close>), and the collection runs only after.
\<close>

definition GC_PERIOD_BLOCKS :: u64 where "GC_PERIOD_BLOCKS = 1024"

datatype persist_error = PutFailed err | SyncFailed err | SaveFailed err | SaveWatermarkFailed err

definition gc_due :: "u64 \<Rightarrow> u64 \<Rightarrow> bool" where
  "gc_due height watermark \<longleftrightarrow> height div GC_PERIOD_BLOCKS > watermark div GC_PERIOD_BLOCKS"

definition persist_objects :: "'s store_ops \<Rightarrow> (kind \<times> bytes) list \<Rightarrow> 's \<Rightarrow> (persist_error + unit) \<times> 's" where
  "persist_objects ops objects s = (case put_all ops objects s of
     (Inl e, s1) \<Rightarrow> (Inl (PutFailed e), s1)
   | (Inr _, s1) \<Rightarrow> (case so_sync_dirs ops s1 of
       (Inl e, s2) \<Rightarrow> (Inl (SyncFailed e), s2)
     | (Inr _, s2) \<Rightarrow> (Inr (), s2)))"

text \<open>A collection that fails sets the latch \<open>gc_faulted\<close>; the block stands.\<close>

definition commit_refs :: "nat \<Rightarrow> nat \<Rightarrow> 's store_ops \<Rightarrow> 'r refs_store_ops \<Rightarrow> refs \<Rightarrow> u64 \<Rightarrow> u64 \<Rightarrow>
    's fs \<Rightarrow> 'r \<Rightarrow> bool \<Rightarrow> (persist_error + u64) \<times> 's fs \<times> 'r \<times> bool" where
  "commit_refs m n ops rops r height gc_watermark fs rs gc_faulted =
     (case ro_save rops r height gc_watermark rs of
        (Inl e, rs1) \<Rightarrow> (Inl (SaveFailed e), fs, rs1, gc_faulted)
      | (Inr _, rs1) \<Rightarrow>
          let fs1 = adopt_refs r fs in
          if \<not> gc_due height gc_watermark then (Inr gc_watermark, fs1, rs1, gc_faulted)
          else (case fs_gc m n ops fs1 of (res, fs2) \<Rightarrow>
            let faulted = (case res of Inr _ \<Rightarrow> False | Inl _ \<Rightarrow> True) in
            (case ro_save rops (fs_refs fs2) height height rs1 of
               (Inl e, rs2) \<Rightarrow> (Inl (SaveWatermarkFailed e), fs2, rs2, faulted)
             | (Inr _, rs2) \<Rightarrow> (Inr height, fs2, rs2, faulted))))"

end
