(* ===== verification/Disk_Crash.thy ===== *)
theory Disk_Crash
  imports Disk_Spec Disk_Commit
begin

text \<open>
  A block on disk, with power lost between any two calls: the refs file names the old refs or the new
  ones, and whatever it names is there.
\<close>

subsection \<open>The sync of the fanout directories\<close>

lemma settle_simps [simp]:
  "d_live (settle p d) = d_live d" "d_unsynced (settle p d) = d_unsynced d"
  "d_kept (settle p d) q = (if q \<noteq> [] \<and> butlast q = p
     then (if q \<in> d_unsynced d then UNIV else {bt_get (d_live d) q}) else d_kept d q)"
  by (simp_all add: settle_def)

lemma fan_of: "p = dir \<or> (\<exists>x. p = dir @ [x]) \<Longrightarrow> n \<le> length dir \<Longrightarrow> 0 < n \<Longrightarrow> butlast (take n dir) \<noteq> p"
  by (auto simp: butlast_take dest: arg_cong [where f = length])

lemma advances_settle:
  assumes "p = dir \<or> (\<exists>x. p = dir @ [x])" "advances H dir d0 D d"
  shows "advances H dir d0 D (settle p d)"
proof -
  have inv: "odb_inv H dir D d" using assms(2) by (simp add: advances_def)
  have unsynced: "opath dir i \<notin> d_unsynced d" "fan dir i \<notin> d_unsynced d" for i
    using inv not_tmp unfolding odb_inv_def by blast+
  have sane: "bt_get (d_live d) q \<in> d_kept d q" if "q \<noteq> []" for q using inv that by (simp add: odb_inv_def sane_def)
  have kept: "d_kept (settle p d) q = (if butlast q = p then {bt_get (d_live d) q} else d_kept d q)"
    if "q = opath dir i \<or> q = fan dir i" for q i
    using that unsynced [of i] by auto
  have filed: "filed H dir (settle p d) i" if "filed H dir d i" for i
  proof -
    have "\<exists>e. bt_get (d_live d) (opath dir i) = Some e \<and> intact_file H i e"
      using that sane [of "opath dir i"] unfolding filed_def by fastforce
    then show ?thesis using that unfolding filed_def kept [of _ i, OF disjI1, OF refl] by simp
  qed
  have sure: "sure H dir (settle p d) i" if "sure H dir d i" for i
    using that filed [of i] sane [of "fan dir i"] unfolding sure_def kept [of _ i, OF disjI2, OF refl] by auto
  have "take n dir \<noteq> []" "butlast (take n dir) \<noteq> p" if "0 < n" "n \<le> length dir" for n
    using that fan_of [OF assms(1)] by auto
  then have "anchored dir (settle p d)" using inv by (simp add: odb_inv_def anchored_def)
  moreover have "is_dir (settle p d) q = is_dir d q" for q by (simp add: is_dir_def at_path_def)
  moreover have "\<forall>i e. length i = 32 \<longrightarrow> Some e \<in> d_kept (settle p d) (opath dir i) \<longrightarrow> intact_file H i e"
    using inv by (auto simp: odb_inv_def kept split: if_splits)
  ultimately have "odb_inv H dir D (settle p d)"
    using inv sure unfolding odb_inv_def by (simp add: imp_disjL) blast
  moreover have "butlast q \<noteq> p" if "apart dir q" for q
  proof
    assume "butlast q = p"
    then have q: "q = p @ [last q]" using that by (auto simp: apart_def)
    then have "\<exists>s. s \<noteq> [] \<and> q = dir @ s" using assms(1) by (metis append_assoc append_is_Nil_conv not_Cons_self2)
    then show False using that by (simp add: apart_def)
  qed
  ultimately show ?thesis using assms(2) sure by (simp add: advances_def present_at_def)
qed

definition filed_in :: "(bytes \<Rightarrow> object_id) \<Rightarrow> fpath \<Rightarrow> fpath set \<Rightarrow> disk \<Rightarrow> bool" where
  "filed_in H dir S d \<longleftrightarrow> (\<forall>i. length i = 32 \<and> present_at dir d i \<and> fan dir i \<in> S \<longrightarrow> filed H dir d i)"

lemma filed_in_settle:
  assumes "odb_inv H dir D d" "filed_in H dir S d"
  shows "filed_in H dir (insert p S) (settle p d)"
  unfolding filed_in_def
proof (intro allI impI, elim conjE)
  fix i
  assume i: "length i = 32" "present_at dir (settle p d) i" "fan dir i \<in> insert p S"
  then obtain e where e: "bt_get (d_live d) (opath dir i) = Some e" by (auto simp: present_at_def)
  then have "intact_file H i e" using assms(1) i(1) by (simp add: odb_inv_def)
  moreover have "opath dir i \<notin> d_unsynced d" using assms(1) not_tmp unfolding odb_inv_def by blast
  ultimately show "filed H dir (settle p d) i"
    using assms(2) i e by (auto simp: filed_in_def filed_def present_at_def)
qed

lemma fsync_fan:
  assumes "p = dir \<or> (\<exists>x. p = dir @ [x])"
  shows "triple (\<lambda>d. advances H dir d0 D d \<and> filed_in H dir S d) (fsync_dir p)
    (\<lambda>_ d. advances H dir d0 D d \<and> filed_in H dir (insert p S) d \<and> (\<forall>q. butlast q = p \<and> q \<noteq> [] \<and> \<not> tmp_path q \<longrightarrow> d_kept d q = {bt_get (d_live d) q}))
    (\<lambda>_. advances H dir d0 D)"
  unfolding fsync_dir_def fs_sync_dir_def
proof (rule triple_map_err, rule triple_call)
  show "planless (\<lambda>d. advances H dir d0 D d \<and> filed_in H dir S d)"
    using planless_advances [of H dir d0 D] by (simp add: planless_def filed_in_def filed_def present_at_def)
  fix d
  assume d: "advances H dir d0 D d \<and> filed_in H dir S d"
  then have inv: "odb_inv H dir D d" by (simp add: advances_def)
  have "q \<notin> d_unsynced d" if "\<not> tmp_path q" for q using inv that unfolding odb_inv_def by blast
  then show "case if is_dir d p then (Inr (), settle p d) else (Inl NotFound, d) of
      (Inr x, d') \<Rightarrow> advances H dir d0 D d' \<and> filed_in H dir (insert p S) d' \<and>
        (\<forall>q. butlast q = p \<and> q \<noteq> [] \<and> \<not> tmp_path q \<longrightarrow> d_kept d' q = {bt_get (d_live d') q})
    | (Inl e, d') \<Rightarrow> advances H dir d0 D d'"
    using d advances_settle [OF assms] filed_in_settle [OF inv] by auto
qed auto

lemma fsync_fans:
  "\<forall>p \<in> set ps. \<exists>x. p = dir @ [x] \<Longrightarrow>
   triple (\<lambda>d. advances H dir d0 D d \<and> filed_in H dir S d) (ioeach fsync_dir ps)
    (\<lambda>_ d. advances H dir d0 D d \<and> filed_in H dir (S \<union> set ps) d) (\<lambda>_. advances H dir d0 D)"
proof (induction ps arbitrary: S)
  case Nil
  then show ?case by (simp add: triple_ret)
next
  case (Cons p ps)
  have "triple (\<lambda>d. advances H dir d0 D d \<and> filed_in H dir S d) (fsync_dir p)
      (\<lambda>_ d. advances H dir d0 D d \<and> filed_in H dir (insert p S) d) (\<lambda>_. advances H dir d0 D)"
    by (rule triple_conseq [OF fsync_fan]) (use Cons.prems in auto)
  moreover have "triple (\<lambda>d. advances H dir d0 D d \<and> filed_in H dir (insert p S) d) (ioeach fsync_dir ps)
      (\<lambda>_ d. advances H dir d0 D d \<and> filed_in H dir (S \<union> set (p # ps)) d) (\<lambda>_. advances H dir d0 D)"
    using Cons.IH [of "insert p S"] Cons.prems by simp
  ultimately show ?case unfolding ioeach.simps by (rule triple_bind)
qed

lemma sync_dirs_triple:
  assumes "\<forall>p \<in> set (ds_dirty ds). \<exists>x. p = ds_dir ds @ [x]"
  shows "triple (advances H (ds_dir ds) d0 (set (ds_dirty ds))) (disk_sync_dirs_io ds)
    (\<lambda>ds' d. ds' = ds\<lparr>ds_dirty := []\<rparr> \<and> advances H (ds_dir ds) d0 {} d)
    (\<lambda>_. advances H (ds_dir ds) d0 (set (ds_dirty ds)))"
proof (cases "ds_dirty ds = []")
  case True
  then show ?thesis by (cases ds) (simp add: disk_sync_dirs_io_def triple_ret)
next
  case False
  let ?dir = "ds_dir ds" and ?D = "set (ds_dirty ds)"
  have all: "advances H ?dir d0 {} d"
    if adv: "advances H ?dir d0 ?D d" and fil: "filed_in H ?dir (insert ?dir ?D) d"
      and settled: "\<forall>q. butlast q = ?dir \<and> q \<noteq> [] \<and> \<not> tmp_path q \<longrightarrow> d_kept d q = {bt_get (d_live d) q}" for d
  proof -
    have inv: "odb_inv H ?dir ?D d" using adv by (simp add: advances_def)
    have "sure H ?dir d i" if i: "length i = 32" "bt_get (d_live d) (opath ?dir i) = Some e" for i e
    proof (cases "sure H ?dir d i")
      case False
      then have "is_dir d (fan ?dir i)" "fan ?dir i \<in> ?D" using inv i by (auto simp: odb_inv_def)
      moreover from this have "filed H ?dir d i"
        using fil i by (simp add: filed_in_def present_at_def)
      ultimately show ?thesis using settled by (simp add: sure_def is_dir_def at_path_def)
    qed simp
    then have "odb_inv H ?dir {} d" using inv by (simp add: odb_inv_def)
    then show ?thesis using adv by (simp add: advances_def)
  qed
  have "triple (advances H ?dir d0 ?D) (ioeach fsync_dir (ds_dirty ds))
      (\<lambda>_ d. advances H ?dir d0 ?D d \<and> filed_in H ?dir ?D d) (\<lambda>_. advances H ?dir d0 ?D)"
    by (rule triple_conseq [OF fsync_fans [OF assms, where S = "{}"]]) (simp_all add: filed_in_def)
  moreover have "triple (\<lambda>d. advances H ?dir d0 ?D d \<and> filed_in H ?dir ?D d)
      (iobind (fsync_dir ?dir) (\<lambda>_. ioret (ds\<lparr>ds_dirty := []\<rparr>)))
      (\<lambda>ds' d. ds' = ds\<lparr>ds_dirty := []\<rparr> \<and> advances H ?dir d0 {} d) (\<lambda>_. advances H ?dir d0 ?D)"
    by (rule triple_bind [OF fsync_fan]) (auto intro!: triple_ret all)
  ultimately show ?thesis
    unfolding disk_sync_dirs_io_def if_not_P [OF False] by (rule triple_bind)
qed

subsection \<open>The objects of a block\<close>

definition fans :: "disk_store \<Rightarrow> bool" where
  "fans ds \<longleftrightarrow> (\<forall>p \<in> set (ds_dirty ds). \<exists>x. p = ds_dir ds @ [x])"

lemma disk_put_advances:
  assumes "disk_put H k b (ds, d) = (r, (ds', d'))" "odb_inv H (ds_dir ds) (set (ds_dirty ds)) d"
    "clean_path (ds_dir ds)" "fans ds"
  shows "ds_dir ds' = ds_dir ds \<and> fans ds' \<and> advances H (ds_dir ds) d (set (ds_dirty ds')) d' \<and>
    (\<forall>i. r = Inr i \<longrightarrow> i = object_id H k b \<and> present_at (ds_dir ds) d' i)"
proof -
  obtain q d1 where q: "disk_put_io H k b ds d = (q, d1)" by (cases "disk_put_io H k b ds d")
  note t = triple_run [OF disk_put_triple [OF assms(3)] advances_refl [OF assms(2)] q]
  have "fan (ds_dir ds) i = ds_dir ds @ [take 2 (to_hex i)]" for i by (simp add: fan_def)
  then show ?thesis
    using assms(1,4) q t by (cases q) (auto simp: disk_put_def fans_def)
qed

lemma flush_advances:
  "put_all (disk_ops H) os (ds, d) = (r, (ds', d')) \<Longrightarrow> odb_inv H (ds_dir ds) (set (ds_dirty ds)) d \<Longrightarrow>
   clean_path (ds_dir ds) \<Longrightarrow> fans ds \<Longrightarrow>
   ds_dir ds' = ds_dir ds \<and> fans ds' \<and> advances H (ds_dir ds) d (set (ds_dirty ds')) d' \<and>
   (r = Inr () \<longrightarrow> (\<forall>(k, b) \<in> set os. present_at (ds_dir ds) d' (object_id H k b)))"
proof (induction os arbitrary: ds d)
  case Nil
  then show ?case by (simp add: advances_refl)
next
  case (Cons kb os)
  obtain k b where kb: "kb = (k, b)" by (cases kb)
  obtain q ds1 d1 where q: "disk_put H k b (ds, d) = (q, (ds1, d1))" by (metis prod.exhaust)
  note one = disk_put_advances [OF q Cons.prems(2-4)]
  show ?case
  proof (cases q)
    case (Inl e)
    then show ?thesis using Cons.prems(1) one q kb by (auto simp: disk_ops_def)
  next
    case (Inr i)
    have rest: "put_all (disk_ops H) os (ds1, d1) = (r, (ds', d'))"
      using Cons.prems(1) q kb Inr by (simp add: disk_ops_def)
    have two: "ds_dir ds' = ds_dir ds1 \<and> fans ds' \<and> advances H (ds_dir ds1) d1 (set (ds_dirty ds')) d' \<and>
        (r = Inr () \<longrightarrow> (\<forall>(k, b) \<in> set os. present_at (ds_dir ds1) d' (object_id H k b)))"
      using one Cons.prems(3) by (intro Cons.IH [OF rest]) (simp_all add: advances_def)
    have "present_at (ds_dir ds) d' (object_id H k b)"
      using one two Inr unfolding advances_def by auto
    then show ?thesis using one two kb advances_trans [of H "ds_dir ds" d _ d1 _ d'] by auto
  qed
qed

lemma persist_advances:
  assumes "persist_objects (disk_ops H) os (ds, d) = (r, (ds', d'))" "odb_inv H (ds_dir ds) (set (ds_dirty ds)) d"
    "clean_path (ds_dir ds)" "fans ds"
  shows "ds_dir ds' = ds_dir ds \<and> fans ds' \<and> advances H (ds_dir ds) d (set (ds_dirty ds')) d' \<and>
    (r = Inr () \<longrightarrow> ds_dirty ds' = [] \<and> (\<forall>(k, b) \<in> set os. present_at (ds_dir ds) d' (object_id H k b)))"
proof -
  obtain q ds1 d1 where q: "put_all (disk_ops H) os (ds, d) = (q, (ds1, d1))" by (metis prod.exhaust)
  note one = flush_advances [OF q assms(2-4)]
  show ?thesis
  proof (cases q)
    case (Inl e)
    then show ?thesis using assms(1) one q by (auto simp: persist_objects_def)
  next
    case (Inr u)
    obtain x d2 where x: "disk_sync_dirs_io ds1 d1 = (x, d2)" by (cases "disk_sync_dirs_io ds1 d1")
    have "\<forall>p \<in> set (ds_dirty ds1). \<exists>x. p = ds_dir ds1 @ [x]" using one unfolding fans_def by metis
    moreover have "advances H (ds_dir ds1) d (set (ds_dirty ds1)) d1" using one by simp
    ultimately have t: "case x of Inr ds' \<Rightarrow> ds' = ds1\<lparr>ds_dirty := []\<rparr> \<and> advances H (ds_dir ds1) d {} d2
        | Inl e \<Rightarrow> advances H (ds_dir ds1) d (set (ds_dirty ds1)) d2"
      and t': "case x of Inr ds' \<Rightarrow> ds' = ds1\<lparr>ds_dirty := []\<rparr> \<and> advances H (ds_dir ds1) d1 {} d2
        | Inl e \<Rightarrow> advances H (ds_dir ds1) d1 (set (ds_dirty ds1)) d2"
      using triple_run [OF sync_dirs_triple _ x, of H d] triple_run [OF sync_dirs_triple _ x, of H d1]
        advances_refl [of H "ds_dir ds1" _ d1] by (auto simp: advances_def)
    have keep: "present_at (ds_dir ds) d2 i" if "present_at (ds_dir ds) d1 i" for i
      using t' that one by (cases x) (auto simp: advances_def)
    show ?thesis
    proof (cases x)
      case (Inl e)
      then show ?thesis using assms(1) one q Inr x t
        by (auto simp: persist_objects_def disk_ops_def disk_sync_dirs_def)
    next
      case y: (Inr ds2)
      then have "r = Inr ()" "ds' = ds1\<lparr>ds_dirty := []\<rparr>" "d' = d2"
        using assms(1) q Inr x t by (simp_all add: persist_objects_def disk_ops_def disk_sync_dirs_def)
      then show ?thesis using one t y Inr keep by (auto simp: fans_def)
    qed
  qed
qed

subsection \<open>The refs file\<close>

definition saving :: "(bytes \<Rightarrow> object_id) \<Rightarrow> fpath \<Rightarrow> fpath \<Rightarrow> object_id set \<Rightarrow> entry option set \<Rightarrow> disk \<Rightarrow> bool" where
  "saving H dir r S ks d \<longleftrightarrow> odb_inv H dir {} d \<and> (\<forall>i \<in> S. sure H dir d i) \<and> d_kept d (refs_path r) \<subseteq> ks"

lemma planless_saving: "planless (saving H dir r S ks)"
  by (simp add: planless_def saving_def odb_defs)

lemma saving_only:
  assumes "only T d d'" "unused T dir" "saving H dir r S ks d" "d_kept d' (refs_path r) \<subseteq> ks'"
  shows "saving H dir r S ks' d'"
proof -
  have "odb_inv H dir {} d" using assms(3) by (simp add: saving_def)
  from odb_only [OF assms(1,2) this] show ?thesis using assms(3,4) by (simp add: saving_def)
qed

lemma take_dir: "dir = r @ [name] \<Longrightarrow> n \<le> length dir \<Longrightarrow> butlast (take n dir) = r \<Longrightarrow> take n dir \<noteq> [] \<Longrightarrow> take n dir = dir"
proof -
  assume a: "dir = r @ [name]" "n \<le> length dir" "butlast (take n dir) = r" "take n dir \<noteq> []"
  have "length (butlast (take n dir)) = n - 1" using a(2) by simp
  then have "n - 1 = length r" using a(3) by simp
  moreover have "n \<noteq> 0" using a(4) by auto
  ultimately have "n = length dir" using a(1) by simp
  then show "take n dir = dir" by simp
qed

lemma unused_refs:
  assumes "dir = r @ [name]" "name \<noteq> str ''refs''" "clean_path dir"
  shows "unused (\<lambda>p. tmp_path p \<or> p = refs_path r) dir"
    and "unused (\<lambda>p. tmp_path p \<or> p \<noteq> [] \<and> butlast p = r \<and> p \<noteq> dir) dir"
proof -
  have n: "refs_path r \<noteq> dir" using assms(1,2) by (simp add: refs_path_def)
  have long: "butlast (opath dir i) \<noteq> r" "butlast (fan dir i) \<noteq> r" for i
    using assms(1) by (auto simp: fan_def butlast_append)
  then have "opath dir i \<noteq> refs_path r" "fan dir i \<noteq> refs_path r" for i by (metis refs_path_shapes(2))+
  moreover have "take n dir \<noteq> refs_path r" if "n \<le> length dir" for n
    using take_dir [OF assms(1) that] n by (metis refs_path_shapes(1,2))
  ultimately show "unused (\<lambda>p. tmp_path p \<or> p = refs_path r) dir"
    using assms(3) by (simp add: unused_def clean_path_def)
  have "\<not> (take n dir \<noteq> [] \<and> butlast (take n dir) = r \<and> take n dir \<noteq> dir)" if "n \<le> length dir" for n
    using take_dir [OF assms(1) that] by blast
  then show "unused (\<lambda>p. tmp_path p \<or> p \<noteq> [] \<and> butlast p = r \<and> p \<noteq> dir) dir"
    using assms(3) long by (auto simp: unused_def clean_path_def)
qed

lemma saving_rename:
  assumes "dir = r @ [name]" "name \<noteq> str ''refs''" "clean_path dir" "tmp_path tmp" "tmp \<notin> d_unsynced d"
    and "saving H dir r S ks d"
  shows "saving H dir r S (insert (Some (FileE b)) ks) (drop_entry tmp (named_entry tmp (FileE b) (refs_path r) d))"
    and "writing (refs_path r) b (drop_entry tmp (named_entry tmp (FileE b) (refs_path r) d))"
proof -
  let ?d = "drop_entry tmp (named_entry tmp (FileE b) (refs_path r) d)"
  have ne: "refs_path r \<noteq> tmp" using assms(4) by auto
  have "only (\<lambda>p. tmp_path p \<or> p = refs_path r) d ?d"
    using assms(4,5) by (auto simp: only_def named_entry_def)
  moreover have "d_kept ?d (refs_path r) \<subseteq> insert (Some (FileE b)) ks"
    using assms(5,6) ne by (auto simp: named_entry_def saving_def)
  ultimately show "saving H dir r S (insert (Some (FileE b)) ks) ?d"
    using saving_only [OF _ unused_refs(1) [OF assms(1-3)] assms(6)] by blast
  show "writing (refs_path r) b ?d" using ne by (simp add: writing_def named_entry_def)
qed

lemma saving_settle:
  assumes "dir = r @ [name]" "name \<noteq> str ''refs''" "clean_path dir"
    and "saving H dir r S ks d" "writing (refs_path r) b d"
  shows "saving H dir r S {Some (FileE b)} (settle r d)"
proof -
  have inv: "odb_inv H dir {} d" using assms(4) by (simp add: saving_def)
  have u: "q \<notin> d_unsynced d" if "\<not> tmp_path q" for q using inv that unfolding odb_inv_def by blast
  have ne: "dir \<noteq> []" using assms(1) by simp
  then have "\<not> tmp_path dir" using assms(3) unfolding clean_path_def by (metis length_greater_0_conv order_refl take_all)
  moreover have "d_kept d dir = {Some DirE}" "bt_get (d_live d) dir = Some DirE"
    using inv ne odb_dirs [OF inv, of "length dir"] unfolding odb_inv_def anchored_def at_path_def
    by (auto dest: spec [of _ "length dir"])
  ultimately have "only (\<lambda>p. tmp_path p \<or> p \<noteq> [] \<and> butlast p = r \<and> p \<noteq> dir) d (settle r d)"
    using u by (auto simp: only_def)
  moreover have "d_kept (settle r d) (refs_path r) \<subseteq> {Some (FileE b)}"
    using u [of "refs_path r"] assms(5) by (simp add: writing_def)
  ultimately show ?thesis using saving_only [OF _ unused_refs(2) [OF assms(1-3)] assms(4)] by blast
qed

lemma save_triple:
  assumes dir: "dir = r @ [name]" "name \<noteq> str ''refs''" "clean_path dir"
  shows "triple (saving H dir r S ks) (disk_refs_save H R h w r)
    (\<lambda>_. saving H dir r S {Some (FileE (encode_envelope H R h w))})
    (\<lambda>_. saving H dir r S (insert (Some (FileE (encode_envelope H R h w))) ks))"
proof -
  let ?b = "encode_envelope H R h w" and ?I = "saving H dir r S ks"
  let ?J = "saving H dir r S (insert (Some (FileE ?b)) ks)"
  define tmp where "tmp = r @ [str ''refs.tmp'']"
  have t: "tmp_path tmp"
    by (simp add: tmp_def tmp_path_def suffix_def TMP_def)
  have ne: "tmp \<noteq> []" by (simp add: tmp_def)
  have weak: "?J d" if "?I d" for d using that by (auto simp: saving_def)
  have st: "?I d'" if "tmp_only d d'" "?I d" for d d'
  proof (rule saving_only [OF that(1) unused_tmp [OF dir(3)] that(2)])
    show "d_kept d' (refs_path r) \<subseteq> ks" using that by (simp add: only_def saving_def)
  qed
  note steps = tmp_triples [OF t planless_saving st]
  let ?P = "\<lambda>d. ?I d \<and> writing tmp ?b d \<and> tmp \<notin> d_unsynced d"
  have pl: "planless ?P" using planless_saving [of H dir r S ks] by (simp add: planless_def writing_def)
  have rename: "triple ?P (fs_rename tmp (refs_path r)) (\<lambda>_ d. ?J d \<and> writing (refs_path r) ?b d) (\<lambda>_. ?I)"
    unfolding fs_rename_def
    using ne by (intro triple_call [OF pl]) (auto simp: at_path_def writing_def [of tmp] intro!: saving_rename [OF dir t])
  have named: "triple ?P (rename_or_clean e tmp (refs_path r)) (\<lambda>_ d. ?J d \<and> writing (refs_path r) ?b d) (\<lambda>_. ?J)" for e
    by (rule rename_triple [OF rename], rule triple_conseq [OF steps(4)]) (auto intro: weak)
  have "planless (\<lambda>d. ?J d \<and> writing (refs_path r) ?b d)"
    using planless_saving [of H dir r S "insert (Some (FileE ?b)) ks"] by (simp add: planless_def writing_def)
  then have last: "triple (\<lambda>d. ?J d \<and> writing (refs_path r) ?b d) (iomap_err (DiskE SaveFsyncDir) (fsync_dir r))
      (\<lambda>_. saving H dir r S {Some (FileE ?b)}) (\<lambda>_. ?J)"
    unfolding fsync_dir_def fs_sync_dir_def
    by (intro triple_map_err triple_call) (auto intro: saving_settle [OF dir])
  show ?thesis
    unfolding disk_refs_save_def Let_def tmp_def [symmetric]
    apply (rule triple_bind [where R = "\<lambda>_ d. ?I d \<and> writing tmp [] d"])
     apply (rule triple_map_err, rule triple_conseq [OF steps(1)]; simp add: weak)
    apply (rule triple_bind [where R = "\<lambda>_ d. ?I d \<and> writing tmp ?b d"])
     apply (rule triple_map_err, rule triple_conseq [OF steps(2)]; simp add: weak)
    apply (rule triple_bind [where R = "\<lambda>_. ?P"])
     apply (rule triple_map_err, rule triple_conseq [OF steps(3)]; simp add: weak)
    apply (rule triple_bind [OF named])
    apply (rule last)
    done
qed

subsection \<open>Power loss\<close>

lemma survives_kept:
  assumes "survives d m" "p \<noteq> []" "\<And>n. 0 < n \<Longrightarrow> n < length p \<Longrightarrow> d_kept d (take n p) = {Some DirE}"
  shows "m p \<in> d_kept d p"
proof -
  from assms(1) obtain c where c: "\<And>p. c p \<in> d_kept d p"
    "m p = (if \<forall>n < length p. 0 < n \<longrightarrow> c (take n p) = Some DirE then c p else None)"
    unfolding survives_def by blast
  have "c (take n p) = Some DirE" if "0 < n" "n < length p" for n
    using c(1) [of "take n p"] assms(3) [OF that] by simp
  then show ?thesis using c by simp
qed

lemma sure_survives:
  assumes "survives d m" "anchored dir d" "sure H dir d i"
  shows "\<exists>raw. m (opath dir i) = Some (FileE raw) \<and> intact_object H i raw"
proof -
  have "d_kept d (take n (opath dir i)) = {Some DirE}" if "0 < n" "n < length (opath dir i)" for n
  proof (cases "n \<le> length dir")
    case True
    then show ?thesis using that assms(2) by (simp add: opath_def anchored_def)
  next
    case False
    then have "n = Suc (length dir)" using that by (simp add: opath_def)
    then have "take n (opath dir i) = fan dir i" by (simp add: opath_def fan_def)
    then show ?thesis using assms(3) by (simp add: sure_def)
  qed
  from survives_kept [OF assms(1) _ this] assms(3) show ?thesis
    unfolding sure_def filed_def intact_file_def by fastforce
qed

lemma refs_survive:
  assumes "survives d m" "anchored dir d" "dir = r @ [name]"
  shows "m (refs_path r) \<in> d_kept d (refs_path r)"
proof (rule survives_kept [OF assms(1)])
  fix n
  assume n: "0 < n" "n < length (refs_path r)"
  then have "take n (refs_path r) = take n dir" using assms(3) by (simp add: refs_path_def)
  moreover have "n \<le> length dir" using n assms(3) by (simp add: refs_path_def)
  ultimately show "d_kept d (take n (refs_path r)) = {Some DirE}"
    using n assms(2) by (simp add: anchored_def)
qed simp

subsection \<open>A block\<close>

text \<open>
  The durable side of a block: \<open>persist_objects\<close>, then the save that \<open>commit_refs\<close> begins with. Its image of
  the refs file, and the objects the refs may name.
\<close>

record block =
  b_objects :: "(kind \<times> bytes) list"
  b_refs :: refs
  b_height :: u64
  b_watermark :: u64

definition block_on_disk :: "(bytes \<Rightarrow> object_id) \<Rightarrow> block \<Rightarrow> fpath \<Rightarrow> on_disk \<Rightarrow> (persist_error + unit) \<times> on_disk" where
  "block_on_disk H b r s = (case persist_objects (disk_ops H) (b_objects b) s of
     (Inl e, s1) \<Rightarrow> (Inl e, s1)
   | (Inr _, (ds1, d1)) \<Rightarrow> (case disk_refs_save H (b_refs b) (b_height b) (b_watermark b) r d1 of
       (Inl e, d2) \<Rightarrow> (Inl (SaveFailed e), (ds1, d2))
     | (Inr _, d2) \<Rightarrow> (Inr (), (ds1, d2))))"

definition image_of :: "(bytes \<Rightarrow> object_id) \<Rightarrow> block \<Rightarrow> entry option" where
  "image_of H b = Some (FileE (encode_envelope H (b_refs b) (b_height b) (b_watermark b)))"

definition named_by :: "(bytes \<Rightarrow> object_id) \<Rightarrow> block \<Rightarrow> object_id set" where
  "named_by H b = (\<lambda>(k, body). object_id H k body) ` set (b_objects b)"

text \<open>The directory of a module: its object directory is beside its refs file.\<close>

definition module_dir :: "fpath \<Rightarrow> fpath \<Rightarrow> bool" where
  "module_dir r dir \<longleftrightarrow> clean_path dir \<and> (\<exists>name. dir = r @ [name] \<and> name \<noteq> str ''refs'')"

definition odb_ok :: "(bytes \<Rightarrow> object_id) \<Rightarrow> on_disk \<Rightarrow> bool" where
  "odb_ok H s \<longleftrightarrow> odb_inv H (ds_dir (fst s)) (set (ds_dirty (fst s))) (snd s) \<and> fans (fst s)"

abbreviation sure_at :: "(bytes \<Rightarrow> object_id) \<Rightarrow> on_disk \<Rightarrow> object_id \<Rightarrow> bool" where
  "sure_at H s \<equiv> sure H (ds_dir (fst s)) (snd s)"

abbreviation refs_kept :: "fpath \<Rightarrow> on_disk \<Rightarrow> entry option set" where
  "refs_kept r s \<equiv> d_kept (snd s) (refs_path r)"

lemma apart_refs: "module_dir r dir \<Longrightarrow> apart dir (refs_path r)"
proof -
  assume "module_dir r dir"
  then have "refs_path r \<noteq> dir @ s" if "s \<noteq> []" for s
    using that by (auto simp: module_dir_def refs_path_def)
  then show ?thesis by (auto simp: apart_def)
qed

lemma block_advances:
  assumes "odb_ok H s" "module_dir r (ds_dir (fst s))" "\<forall>b. length (H b) = 32"
    and run: "block_on_disk H b r s = (res, s')"
  shows "odb_ok H s'" "ds_dir (fst s') = ds_dir (fst s)" "\<And>i. sure_at H s i \<Longrightarrow> sure_at H s' i"
    and "refs_kept r s' \<subseteq> refs_kept r s \<or> (\<forall>i \<in> named_by H b. sure_at H s' i) \<and> refs_kept r s' \<subseteq> insert (image_of H b) (refs_kept r s)"
    and "res = Inr () \<Longrightarrow> (\<forall>i \<in> named_by H b. sure_at H s' i) \<and> refs_kept r s' \<subseteq> {image_of H b}"
proof -
  obtain ds d where s: "s = (ds, d)" by (cases s)
  let ?dir = "ds_dir ds"
  have inv: "odb_inv H ?dir (set (ds_dirty ds)) d" "clean_path ?dir" "fans ds" and md: "module_dir r ?dir"
    using assms(1,2) by (simp_all add: s odb_ok_def module_dir_def)
  from md obtain name where dir: "?dir = r @ [name]" "name \<noteq> str ''refs''" by (auto simp: module_dir_def)
  obtain q ds1 d1 where q: "persist_objects (disk_ops H) (b_objects b) (ds, d) = (q, (ds1, d1))" by (metis prod.exhaust)
  note one = persist_advances [OF q inv]
  have refs1: "d_kept d1 (refs_path r) = d_kept d (refs_path r)" using one apart_refs [OF md] by (simp add: advances_def)
  have ok1: "odb_inv H ?dir (set (ds_dirty ds1)) d1" "ds_dir ds1 = ?dir" "fans ds1"
    and up1: "\<And>i. sure H ?dir d i \<Longrightarrow> sure H ?dir d1 i"
    using one by (simp_all add: advances_def)
  have "odb_ok H s' \<and> ds_dir (fst s') = ds_dir (fst s) \<and> (\<forall>i. sure_at H s i \<longrightarrow> sure_at H s' i) \<and>
    (refs_kept r s' \<subseteq> refs_kept r s \<or> (\<forall>i \<in> named_by H b. sure_at H s' i) \<and> refs_kept r s' \<subseteq> insert (image_of H b) (refs_kept r s)) \<and>
    (res = Inr () \<longrightarrow> (\<forall>i \<in> named_by H b. sure_at H s' i) \<and> refs_kept r s' \<subseteq> {image_of H b})"
  proof (cases q)
    case (Inl e)
    then have "s' = (ds1, d1)" "res = Inl e" using run q by (simp_all add: block_on_disk_def s)
    then show ?thesis using ok1 up1 refs1 by (simp add: odb_ok_def s)
  next
    case (Inr u)
    let ?S = "{i. sure H ?dir d1 i}"
    have clean: "ds_dirty ds1 = []" and all: "\<forall>(k, body) \<in> set (b_objects b). present_at ?dir d1 (object_id H k body)"
      using one Inr by auto
    have odb: "odb_inv H ?dir {} d1" using ok1(1) clean by simp
    then have sv: "saving H ?dir r ?S (d_kept d (refs_path r)) d1" using refs1 by (simp add: saving_def)
    obtain x d2 where x: "disk_refs_save H (b_refs b) (b_height b) (b_watermark b) r d1 = (x, d2)" by fastforce
    then have s': "s' = (ds1, d2)" "x = Inr () \<longleftrightarrow> res = Inr ()"
      using run q Inr by (auto simp: block_on_disk_def s split: sum.splits)
    have st: "case x of Inr _ \<Rightarrow> saving H ?dir r ?S {image_of H b} d2
        | Inl _ \<Rightarrow> saving H ?dir r ?S (insert (image_of H b) (d_kept d (refs_path r))) d2"
      using triple_run [OF save_triple [OF dir inv(2)] sv x] unfolding image_of_def .
    then have s1: "odb_inv H ?dir {} d2" "\<And>j. sure H ?dir d1 j \<Longrightarrow> sure H ?dir d2 j"
      "d_kept d2 (refs_path r) \<subseteq> insert (image_of H b) (d_kept d (refs_path r))"
      by (cases x; auto simp: saving_def)+
    have "sure H ?dir d1 (object_id H k body)" if "(k, body) \<in> set (b_objects b)" for k body
    proof -
      have "length (object_id H k body) = 32" using assms(3) by (simp add: object_id_def)
      then show ?thesis using odb all that by (auto simp: odb_inv_def present_at_def)
    qed
    then have named: "\<forall>i \<in> named_by H b. sure H ?dir d2 i" using s1(2) by (auto simp: named_by_def)
    moreover have "d_kept d2 (refs_path r) \<subseteq> {image_of H b}" if "res = Inr ()" using st s'(2) that by (simp add: saving_def)
    ultimately show ?thesis using s1 up1 ok1(2,3) clean by (auto simp: s s'(1) odb_ok_def)
  qed
  then show "odb_ok H s'" "ds_dir (fst s') = ds_dir (fst s)" "\<And>i. sure_at H s i \<Longrightarrow> sure_at H s' i"
    "refs_kept r s' \<subseteq> refs_kept r s \<or> (\<forall>i \<in> named_by H b. sure_at H s' i) \<and> refs_kept r s' \<subseteq> insert (image_of H b) (refs_kept r s)"
    "res = Inr () \<Longrightarrow> (\<forall>i \<in> named_by H b. sure_at H s' i) \<and> refs_kept r s' \<subseteq> {image_of H b}"
    by blast+
qed

end
