(* ===== verification/Disk_Calm.thy ===== *)
theory Disk_Calm
  imports Disk_Spec
begin

text \<open>
  The store on a disk whose calls all succeed: what its operations return and leave, in terms of the files
  there. \<open>DiskStore\<close> then meets the contract \<open>object_store\<close> of the core, and \<open>DiskRefs\<close> that of \<open>refs_store\<close>.
\<close>

subsection \<open>Calls that succeed\<close>

named_theorems quiet_intros \<open>operations that leave an empty plan empty\<close>

definition quiet :: "('e, 'a) io \<Rightarrow> bool" where
  "quiet m \<longleftrightarrow> (\<forall>d. d_plan d = [] \<longrightarrow> d_plan (snd (m d)) = [])"

lemma quietD: "quiet m \<Longrightarrow> m d = (r, d') \<Longrightarrow> d_plan d = [] \<Longrightarrow> d_plan d' = []"
  by (auto simp: quiet_def dest: spec [of _ d])

lemma quiet_combine [quiet_intros]:
  "quiet (ioret x)" "quiet (iofail e)" "quiet (iolift q)" "quiet m \<Longrightarrow> quiet (iomap_err e2 m)" "quiet m \<Longrightarrow> quiet (iotry m)"
  by (auto simp: quiet_def ioret_def iofail_def iolift_def iomap_err_def iotry_def split: prod.splits sum.splits)

lemma quiet_bind [quiet_intros]:
  assumes "quiet m" "\<And>x. quiet (f x)"
  shows "quiet (iobind m f)"
  using assms unfolding quiet_def iobind_def by (fastforce split: prod.splits sum.splits)

lemma quiet_each [quiet_intros]: "(\<And>x. quiet (f x)) \<Longrightarrow> quiet (ioeach f xs)"
  by (induction xs) (auto intro: quiet_intros)

lemma quiet_call: "(\<And>d. d_plan (snd (act d)) = d_plan d) \<Longrightarrow> quiet (call act torn)"
  by (simp add: quiet_def call_def)

lemma plan_entry [simp]: "d_plan (put_entry p e ks d) = d_plan d" "d_plan (drop_entry p d) = d_plan d"
  "d_plan (fs_append p bs d) = d_plan d" "d_plan (settle p d) = d_plan d" "d_plan (named_entry s e p d) = d_plan d"
  by (auto simp: put_entry_def drop_entry_def fs_append_def settle_def named_entry_def split: option.split entry.split)

lemma plan_make_dirs: "d_plan (snd (make_dirs pre p d)) = d_plan d"
  by (induction pre p d rule: make_dirs.induct) (auto simp: Let_def split: option.split entry.split)

lemma quiet_fs [quiet_intros]:
  "quiet (fs_create p)" "quiet (fs_write_all p bs)" "quiet (fs_sync_all p)" "quiet (fs_rename p q)" "quiet (fs_remove_file p)"
  "quiet (fs_create_dir_all p)" "quiet (fs_read p)" "quiet (fs_open p)" "quiet (fs_len p)" "quiet (fs_first_byte p)"
  "quiet (fs_read_dir p)" "quiet (fs_sync_dir p)"
  unfolding fs_create_def fs_write_all_def fs_sync_all_def fs_rename_def fs_remove_file_def fs_create_dir_all_def
    fs_read_def fs_open_def fs_len_def fs_first_byte_def fs_read_dir_def fs_sync_dir_def
  by (intro quiet_call; auto simp: plan_make_dirs split: option.split entry.split list.split)+

lemma quiet_exists [quiet_intros]: "quiet (fs_exists p)"
  unfolding fs_exists_def by (intro quiet_intros quiet_call) simp

lemma quiet_split:
  "(b \<Longrightarrow> quiet m) \<Longrightarrow> (\<not> b \<Longrightarrow> quiet m') \<Longrightarrow> quiet (if b then m else m')"
  "(\<And>e. quiet (f e)) \<Longrightarrow> (\<And>x. quiet (g x)) \<Longrightarrow> quiet (case q of Inl e \<Rightarrow> f e | Inr x \<Rightarrow> g x)"
  by (simp_all split: sum.split)

lemma quiet_sweep: "quiet (sweep_tmp n p)"
  by (induction n arbitrary: p) (auto intro!: quiet_intros quiet_split split: prod.split)

lemma quiet_open: "quiet (disk_open n dir)"
  unfolding disk_open_def by (intro quiet_intros quiet_sweep)

lemma quiet_rename_or_clean [quiet_intros]: "quiet (rename_or_clean e p q)"
  unfolding rename_or_clean_def by (intro quiet_intros quiet_split)

lemma quiet_fsync_dir [quiet_intros]: "quiet (fsync_dir p)"
  unfolding fsync_dir_def by (intro quiet_intros)

lemma quiet_put: "quiet (disk_put_io H k b ds)"
  unfolding disk_put_io_def intact_len_def Let_def by (intro quiet_intros quiet_split)

lemma quiet_sync_dirs: "quiet (disk_sync_dirs_io ds)"
  unfolding disk_sync_dirs_io_def by (intro quiet_intros quiet_split)

lemma quiet_save: "quiet (disk_refs_save H R h w r)"
  unfolding disk_refs_save_def Let_def by (intro quiet_intros)

subsection \<open>The files an operation leaves alone\<close>

definition keeps :: "fpath \<Rightarrow> (object_id \<Rightarrow> entry option) \<Rightarrow> disk \<Rightarrow> disk \<Rightarrow> bool" where
  "keeps dir F d0 d \<longleftrightarrow> (\<forall>i. bt_get (d_live d) (opath dir i) = F i) \<and>
     (\<forall>p. is_dir d0 p \<longrightarrow> is_dir d p) \<and> (bt_wf (d_live d0) \<longrightarrow> bt_wf (d_live d))"

lemma planless_keeps [simp]: "planless (keeps dir F d0)"
  by (simp add: planless_def keeps_def is_dir_def at_path_def)

lemma dot_paths [simp]: "opath dir i \<noteq> fan dir j @ [to_hex j @ TMP]"
proof
  assume "opath dir i = fan dir j @ [to_hex j @ TMP]"
  then have "drop 2 (to_hex i) = to_hex j @ TMP" by (simp add: opath_def fan_def)
  then have "46 \<in> set (drop 2 (to_hex i))" by (simp add: TMP_def)
  then show False using hex_no_dot [of i] by (auto dest: in_set_dropD)
qed

lemma dir_entry [simp]:
  "is_dir (put_entry p e ks d) q \<longleftrightarrow> (if q = p \<and> q \<noteq> [] then e = DirE else is_dir d q)"
  "is_dir (drop_entry p d) q \<longleftrightarrow> q = [] \<or> q \<noteq> p \<and> is_dir d q"
  "is_dir (d\<lparr>d_unsynced := u\<rparr>) q = is_dir d q"
  by (auto simp: is_dir_def at_path_def)

lemma wf_entry [simp]:
  "bt_wf (d_live d) \<Longrightarrow> bt_wf (d_live (put_entry p e ks d))" "bt_wf (d_live d) \<Longrightarrow> bt_wf (d_live (drop_entry p d))"
  by (simp_all add: put_entry_def drop_entry_def bt_wf_insert bt_wf_filter)

lemma keeps_put:
  "keeps dir F d0 d \<Longrightarrow> \<not> is_dir d p \<or> e = DirE \<Longrightarrow> (\<And>i. opath dir i \<noteq> p) \<Longrightarrow>
   keeps dir F d0 (put_entry p e ks (d\<lparr>d_unsynced := u\<rparr>))"
  by (auto simp: keeps_def)

lemma keeps_put_same:
  "keeps dir F d0 d \<Longrightarrow> (\<And>i. opath dir i \<noteq> p) \<Longrightarrow> keeps dir F d0 (put_entry p DirE ks d)"
  using keeps_put [of dir F d0 d p DirE ks "d_unsynced d"] by simp

lemma keeps_append: "keeps dir F d0 d \<Longrightarrow> (\<And>i. opath dir i \<noteq> p) \<Longrightarrow> keeps dir F d0 (fs_append p bs d)"
  by (auto simp: fs_append_def is_dir_def intro!: keeps_put split: option.split entry.split)

lemma keeps_unsynced: "keeps dir F d0 (d\<lparr>d_unsynced := u\<rparr>) = keeps dir F d0 d"
  by (simp add: keeps_def)

lemma keeps_drop:
  "keeps dir F d0 d \<Longrightarrow> \<not> is_dir d p \<Longrightarrow> (\<And>i. opath dir i \<noteq> p) \<Longrightarrow> keeps dir F d0 (drop_entry p d)"
  by (auto simp: keeps_def)

lemma keeps_make_dirs:
  "make_dirs pre p d = (r, d') \<Longrightarrow> keeps dir F d0 d \<Longrightarrow> length (pre @ p) \<le> Suc (length dir) \<Longrightarrow> is_dir d pre \<Longrightarrow>
   keeps dir F d0 d' \<and> (\<forall>q. is_dir d q \<longrightarrow> is_dir d' q) \<and>
   (r = Inr () \<longrightarrow> (\<forall>n \<le> length p. is_dir d' (pre @ take n p)))"
proof (induction pre p d arbitrary: r rule: make_dirs.induct)
  case (2 pre s p d)
  let ?q = "pre @ [s]"
  have ne: "opath dir i \<noteq> ?q" for i using "2.prems"(3) by (auto simp: opath_def dest: arg_cong [where f = length])
  have shift: "\<forall>n \<le> length (s # p). is_dir d' (pre @ take n (s # p))"
    if "\<forall>n \<le> length p. is_dir d' (?q @ take n p)" "is_dir d' pre"
    using that by (auto simp: take_Cons split: nat.split)
  consider (dir) "at_path d ?q = Some DirE" | (plain) b where "at_path d ?q = Some (FileE b)" | (none) "at_path d ?q = None"
    by (metis entry.exhaust option.exhaust)
  then show ?case
  proof cases
    case dir
    then show ?thesis using "2.IH"(2) [of ?q DirE r] "2.prems" shift by (auto simp: Let_def is_dir_def)
  next
    case plain
    then show ?thesis using "2.prems" by (auto simp: Let_def)
  next
    case none
    let ?d = "put_entry ?q DirE (insert (Some DirE) (d_kept d ?q)) d"
    have "make_dirs ?q p ?d = (r, d')" using "2.prems"(1) none by (simp add: Let_def)
    moreover have "keeps dir F d0 ?d" using "2.prems"(2) ne by (rule keeps_put_same)
    moreover have "is_dir ?d ?q" "\<And>p. is_dir d p \<Longrightarrow> is_dir ?d p" by simp_all
    ultimately show ?thesis using "2.IH"(1) [of ?q r] "2.prems"(3,4) none shift by auto
  qed
qed simp

lemma keeps_create_fan:
  "triple (keeps dir F d0) (fs_create_dir_all (fan dir i))
     (\<lambda>_ d. keeps dir F d0 d \<and> is_dir d (fan dir i) \<and> is_dir d dir) (\<lambda>_. keeps dir F d0)"
  unfolding fs_create_dir_all_def
proof (rule triple_call [OF planless_keeps])
  have root: "is_dir d []" for d by (simp add: is_dir_def at_path_def)
  have len: "length ([] @ take n (fan dir i)) \<le> Suc (length dir)" for n by (simp add: fan_def)
  fix d
  assume d: "keeps dir F d0 d"
  obtain r d' where m: "make_dirs [] (fan dir i) d = (r, d')" by (cases "make_dirs [] (fan dir i) d")
  have k: "keeps dir F d0 d'" "r = Inr () \<longrightarrow> (\<forall>n \<le> length (fan dir i). is_dir d' (take n (fan dir i)))"
    using keeps_make_dirs [OF m d _ root] by (simp_all add: fan_def)
  have "r = Inr () \<longrightarrow> is_dir d' (fan dir i) \<and> is_dir d' dir"
  proof
    assume "r = Inr ()"
    then have "is_dir d' (take (length (fan dir i)) (fan dir i))" "is_dir d' (take (length dir) (fan dir i))"
      using k(2) \<open>r = Inr ()\<close> by (simp_all only: fan_def length_append)
    then show "is_dir d' (fan dir i) \<and> is_dir d' dir" by (simp add: fan_def)
  qed
  then show "case make_dirs [] (fan dir i) d of (Inr x, d') \<Rightarrow> keeps dir F d0 d' \<and> is_dir d' (fan dir i) \<and> is_dir d' dir
      | (Inl e, d') \<Rightarrow> keeps dir F d0 d'"
    using k(1) m by (cases r) auto
  show "keeps dir F d0 (snd (make_dirs [] (take n (fan dir i)) d))" for n
    using keeps_make_dirs [OF _ d len root] by (cases "make_dirs [] (take n (fan dir i)) d") auto
  show "keeps dir F d0 d" using d .
qed

text \<open>A put publishes its object under the object's name or leaves the object files as they are.\<close>

definition put_post :: "(bytes \<Rightarrow> object_id) \<Rightarrow> kind \<Rightarrow> bytes \<Rightarrow> disk_store \<Rightarrow> (object_id \<Rightarrow> entry option) \<Rightarrow> disk \<Rightarrow>
    object_id \<times> disk_store \<Rightarrow> disk \<Rightarrow> bool" where
  "put_post H k b ds F d0 = (\<lambda>(i, ds') d. i = object_id H k b \<and> ds_dir ds' = ds_dir ds \<and>
     (keeps (ds_dir ds) F d0 d \<and> F i \<noteq> None \<or>
      keeps (ds_dir ds) (F(i \<mapsto> FileE (kind_tag k # b))) d0 d \<and> is_dir d (fan (ds_dir ds) i) \<and> is_dir d (ds_dir ds)))"

lemma publish_keeps:
  assumes "i = object_id H k b" "dir = ds_dir ds" "ds_dir ds' = dir" "tmp = fan dir i @ [to_hex i @ TMP]"
  shows "triple (\<lambda>d. (keeps dir F d0 d \<and> is_dir d (fan dir i) \<and> is_dir d dir) \<and> writing tmp (kind_tag k # b) d \<and> tmp \<notin> d_unsynced d)
    (iobind (rename_or_clean e tmp (opath dir i)) (\<lambda>_. ioret (i, ds')))
    (put_post H k b ds F d0) (\<lambda>_. keeps dir F d0)"
proof -
  let ?P = "\<lambda>d. (keeps dir F d0 d \<and> is_dir d (fan dir i) \<and> is_dir d dir) \<and> writing tmp (kind_tag k # b) d \<and> tmp \<notin> d_unsynced d"
  have tmp: "tmp \<noteq> []" "opath dir j \<noteq> tmp" for j using assms(4) by simp_all
  have pl: "planless ?P"
    using planless_keeps [of dir F d0] by (simp add: planless_def is_dir_def at_path_def writing_def)
  have moved: "put_post H k b ds F d0 (i, ds') (drop_entry tmp (named_entry tmp (FileE (kind_tag k # b)) (opath dir i) d))"
    if "?P d" "\<not> is_dir d (opath dir i)" for d
  proof -
    have ne: "fan dir i \<noteq> opath dir i" "dir \<noteq> opath dir i" "dir \<noteq> tmp" "fan dir i \<noteq> tmp"
      using assms(4) by (auto simp: opath_def fan_def dest: arg_cong [where f = length])
    have plain: "\<not> is_dir d tmp" using that tmp by (simp add: is_dir_def at_path_def writing_def)
    then have "is_dir d' p" if "is_dir d p" "d' = drop_entry tmp (named_entry tmp (FileE (kind_tag k # b)) (opath dir i) d)" for p d'
      using \<open>\<not> is_dir d (opath dir i)\<close> that by (auto simp: named_entry_def)
    then show ?thesis
      using that assms(1-3) tmp ne opath_inj [of dir] plain
      by (auto simp: put_post_def keeps_def named_entry_def fun_eq_iff)
  qed
  have one: "triple ?P (fs_rename tmp (opath dir i)) (\<lambda>_. put_post H k b ds F d0 (i, ds')) (\<lambda>_. keeps dir F d0)"
    unfolding fs_rename_def
    by (rule triple_call [OF pl]) (auto simp: at_path_def tmp writing_def intro!: moved)
  have "triple (keeps dir F d0) (fs_remove_file tmp) (\<lambda>_. keeps dir F d0) (\<lambda>_. keeps dir F d0)"
    using keeps_put [of dir F d0 _ tmp] keeps_drop [of dir F d0 _ tmp] tmp
    by (intro file_triples(4)) (auto simp: keeps_unsynced)
  then have "triple ?P (rename_or_clean e tmp (opath dir i)) (\<lambda>_. put_post H k b ds F d0 (i, ds')) (\<lambda>_. keeps dir F d0)"
    by (rule rename_triple [OF one])
  then show ?thesis by (rule triple_bind) (rule triple_ret)
qed

lemma put_keeps:
  "triple (keeps (ds_dir ds) F d0) (disk_put_io H k b ds) (put_post H k b ds F d0) (\<lambda>_. keeps (ds_dir ds) F d0)"
proof -
  let ?dir = "ds_dir ds" and ?i = "object_id H k b" and ?raw = "kind_tag k # b"
  define tmp where "tmp = fan ?dir ?i @ [to_hex ?i @ TMP]"
  let ?K = "keeps ?dir F d0"
  let ?I = "\<lambda>d. ?K d \<and> is_dir d (fan ?dir ?i) \<and> is_dir d ?dir"
  have fan: "?dir @ [take 2 (to_hex ?i)] = fan ?dir ?i" by (simp add: fan_def)
  have tmp: "tmp \<noteq> []" "fan ?dir ?i \<noteq> tmp" "?dir \<noteq> tmp" "\<And>j. opath ?dir j \<noteq> tmp"
    by (simp_all add: tmp_def) (simp add: fan_def)
  have pl: "planless ?I" using planless_keeps [of ?dir F d0] by (simp add: planless_def is_dir_def at_path_def)
  have steps: "triple ?I (fs_create tmp) (\<lambda>_ d. ?I d \<and> writing tmp [] d) (\<lambda>_. ?I)"
    "triple (\<lambda>d. ?I d \<and> writing tmp [] d) (fs_write_all tmp ?raw) (\<lambda>_ d. ?I d \<and> writing tmp ?raw d) (\<lambda>_. ?I)"
    "triple (\<lambda>d. ?I d \<and> writing tmp ?raw d) (fs_sync_all tmp) (\<lambda>_ d. ?I d \<and> writing tmp ?raw d \<and> tmp \<notin> d_unsynced d) (\<lambda>_. ?I)"
    using keeps_put [of ?dir F d0 _ tmp] keeps_drop [of ?dir F d0 _ tmp] tmp
    by (intro file_triples; auto simp: keeps_unsynced intro: pl)+
  let ?store = "iobind (iomap_err (DiskE PutMkdir) (fs_create_dir_all (fan ?dir ?i))) (\<lambda>_.
    iobind (iomap_err (DiskE PutCreateTmp) (fs_create tmp)) (\<lambda>_.
    iobind (iomap_err (DiskE PutWriteTmp) (fs_write_all tmp ?raw)) (\<lambda>_.
    iobind (iomap_err (DiskE PutFsyncTmp) (fs_sync_all tmp)) (\<lambda>_.
    iobind (rename_or_clean (DiskE PutRename) tmp (opath ?dir ?i)) (\<lambda>_.
    ioret (?i, ds\<lparr>ds_dirty := insort_insert (fan ?dir ?i) (ds_dirty ds)\<rparr>))))))"
  have written: "triple ?K ?store (put_post H k b ds F d0) (\<lambda>_. ?K)"
    apply (rule triple_bind [where R = "\<lambda>_. ?I"])
     apply (rule triple_map_err, rule keeps_create_fan)
    apply (rule triple_bind [where R = "\<lambda>_ d. ?I d \<and> writing tmp [] d"])
     apply (rule triple_map_err, rule triple_conseq [OF steps(1)]; simp)
    apply (rule triple_bind [where R = "\<lambda>_ d. ?I d \<and> writing tmp ?raw d"])
     apply (rule triple_map_err, rule triple_conseq [OF steps(2)]; simp)
    apply (rule triple_bind [where R = "\<lambda>_ d. ?I d \<and> writing tmp ?raw d \<and> tmp \<notin> d_unsynced d"])
     apply (rule triple_map_err, rule triple_conseq [OF steps(3)]; simp)
    apply (rule publish_keeps; simp add: tmp_def)
    done
  have held: "triple (\<lambda>d. ?K d \<and> bt_get (d_live d) (opath ?dir ?i) \<noteq> None) (ioret (?i, ds)) (put_post H k b ds F d0) (\<lambda>_. ?K)"
    by (rule triple_ret) (auto simp: put_post_def keeps_def)
  show ?thesis
    unfolding disk_put_io_def Let_def object_path_eq fan tmp_def [symmetric]
  proof (rule triple_bind [OF intact_len_triple [OF planless_keeps]])
    show "opath ?dir ?i \<noteq> []" by simp
    show "triple (\<lambda>d. ?K d \<and> (x \<longrightarrow> bt_get (d_live d) (opath ?dir ?i) \<noteq> None))
      (if x then ioret (?i, ds) else ?store) (put_post H k b ds F d0) (\<lambda>_. ?K)" for x
      using written held by (cases x) simp_all
  qed
qed

subsection \<open>The objects of a disk\<close>

fun object_of :: "entry option \<Rightarrow> (kind \<times> bytes) option" where
  "object_of (Some (FileE (tag # body))) = map_option (\<lambda>k. (k, body)) (kind_from_u8 tag)"
| "object_of _ = None"

abbreviation file_at :: "on_disk \<Rightarrow> object_id \<Rightarrow> entry option" where
  "file_at s i \<equiv> bt_get (d_live (snd s)) (opath (ds_dir (fst s)) i)"

definition disk_contents :: "on_disk \<Rightarrow> contents" where
  "disk_contents s i = object_of (file_at s i)"

definition disk_valid :: "(bytes \<Rightarrow> object_id) \<Rightarrow> on_disk \<Rightarrow> bool" where
  "disk_valid H s \<longleftrightarrow> (\<forall>b. length (H b) = 32) \<and> d_plan (snd s) = [] \<and> bt_wf (d_live (snd s)) \<and>
     (\<forall>i e. file_at s i = Some e \<longrightarrow> length i = 32 \<and> intact_file H i e \<and>
        is_dir (snd s) (fan (ds_dir (fst s)) i) \<and> is_dir (snd s) (ds_dir (fst s)))"

lemma intact_file_iff:
  "intact_file H i e \<longleftrightarrow> (\<exists>tag body k. e = FileE (tag # body) \<and> kind_from_u8 tag = Some k \<and> object_id H k body = i)"
proof (cases e)
  case (FileE raw)
  then show ?thesis by (cases raw) (auto simp: intact_file_def intact_object_def split: option.splits)
qed (simp add: intact_file_def)

lemma intact_object_of: "intact_file H i e \<Longrightarrow> \<exists>k b. object_of (Some e) = Some (k, b) \<and> object_id H k b = i"
  by (auto simp: intact_file_iff)

lemma disk_contents_iff:
  "disk_valid H s \<Longrightarrow> disk_contents s i \<noteq> None \<longleftrightarrow> file_at s i \<noteq> None"
  using intact_object_of unfolding disk_valid_def disk_contents_def by (metis object_of.simps(2) option.exhaust option.simps(3))

lemma disk_valid_keeps:
  assumes "disk_valid H (ds, d0)" "keeps (ds_dir ds) (file_at (ds, d0)) d0 d" "d_plan d = []" "ds_dir ds' = ds_dir ds"
  shows "disk_valid H (ds', d)" "disk_contents (ds', d) = disk_contents (ds, d0)"
  using assms by (auto simp: disk_valid_def keeps_def disk_contents_def)

lemma disk_valid_put:
  assumes "disk_valid H (ds, d0)" "keeps (ds_dir ds) ((file_at (ds, d0))(i \<mapsto> FileE (kind_tag k # b))) d0 d"
    "is_dir d (fan (ds_dir ds) i)" "is_dir d (ds_dir ds)" "d_plan d = []" "ds_dir ds' = ds_dir ds" "i = object_id H k b"
  shows "disk_valid H (ds', d)" "disk_contents (ds', d) = (disk_contents (ds, d0))(i \<mapsto> (k, b))"
  using assms by (auto simp: disk_valid_def keeps_def disk_contents_def object_id_def intact_file_def intact_object_def)

subsection \<open>Reads\<close>

lemma calm_call [simp]: "d_plan d = [] \<Longrightarrow> call act torn d = act d"
  by (simp add: call_def)

lemma iobind_iotry [simp]: "iobind (iotry m) f d = f (fst (m d)) (snd (m d))"
  by (simp add: iobind_def iotry_def Let_def split: prod.split)

lemma run_simps [simp]: "ioret x d = (Inr x, d)" "iofail e d = (Inl e, d)"
  by (simp_all add: ioret_def iofail_def)

lemma fs_read_calm: "d_plan d = [] \<Longrightarrow> p \<noteq> [] \<Longrightarrow> fs_read p d = (case bt_get (d_live d) p of
    Some (FileE b) \<Rightarrow> (Inr b, d) | Some DirE \<Rightarrow> (Inl OtherIo, d) | None \<Rightarrow> (Inl NotFound, d))"
  by (simp add: fs_read_def at_path_def)

lemma get_calm: "d_plan (snd s) = [] \<Longrightarrow> disk_get_io H i (fst s) (snd s) = (case file_at s i of
    None \<Rightarrow> Inr None
  | Some e \<Rightarrow> if intact_file H i e then Inr (object_of (Some e)) else fst (disk_get_io H i (fst s) (snd s)), snd s)"
  unfolding disk_get_io_def object_path_eq iobind_iotry
  by (auto simp: fs_read_calm intact_file_def intact_object_def split: option.split entry.split list.split)

lemma verify_calm: "d_plan (snd s) = [] \<Longrightarrow> file_at s i \<noteq> None \<longrightarrow> intact_file H i (the (file_at s i)) \<Longrightarrow>
    disk_verify_io H i (fst s) (snd s) = (Inr (file_at s i \<noteq> None), snd s)"
  unfolding disk_verify_io_def object_path_eq iobind_iotry
  by (auto simp: fs_read_calm intact_file_def split: option.split entry.split)

lemma stat_calm:
  assumes "d_plan (snd s) = []" "file_at s i \<noteq> None \<longrightarrow> intact_file H i (the (file_at s i))"
  shows "fst (disk_stat_io i (fst s) (snd s)) = Inr (map_option (\<lambda>(k, b). (k, of_nat (length b))) (disk_contents s i))"
proof (cases "file_at s i")
  case None
  then show ?thesis
    using assms(1) by (simp add: disk_stat_io_def object_path_eq fs_open_def at_path_def disk_contents_def)
next
  case (Some e)
  with assms(2) obtain tag body k where e: "e = FileE (tag # body)" "kind_from_u8 tag = Some k"
    by (auto simp: intact_file_iff)
  then show ?thesis
    using assms(1) Some
    by (simp add: disk_stat_io_def object_path_eq fs_open_def fs_len_def fs_first_byte_def at_path_def disk_contents_def
      iobind_def [of "iomap_err _ _"] iomap_err_def)
qed

lemma has_calm: "d_plan (snd s) = [] \<Longrightarrow> fst (disk_has_io i (fst s) (snd s)) = Inr (file_at s i \<noteq> None)"
  by (simp add: disk_has_io_def object_path_eq fs_exists_def at_path_def)

lemma remove_calm:
  assumes "d_plan (snd s) = []" "\<forall>e. file_at s i = Some e \<longrightarrow> intact_file H i e"
  shows "disk_remove_io i (fst s) (snd s) =
    (Inr (), if file_at s i = None then snd s else drop_entry (opath (ds_dir (fst s)) i) (snd s))"
  using assms
  by (auto simp: disk_remove_io_def object_path_eq fs_remove_file_def at_path_def intact_file_def split: option.split entry.split)

subsection \<open>The listing\<close>

lemma ascii_hex: "utf8 (take n (to_hex i))" "utf8 (drop n (to_hex i))"
  using hex_byte_ascii by (auto intro!: utf8_ascii simp: to_hex_def dest!: in_set_takeD in_set_dropD)

lemma read_dir_calm:
  "d_plan d = [] \<Longrightarrow> is_dir d p \<Longrightarrow>
   fs_read_dir p d = (Inr (map (\<lambda>(q, e). (last q, e = DirE)) (filter (\<lambda>(q, _). q \<noteq> [] \<and> butlast q = p) (d_live d))), d)"
  by (simp add: fs_read_dir_def)

lemma in_read_dir:
  assumes "bt_wf (d_live d)"
  shows "(n, b) \<in> set (map (\<lambda>(q, e). (last q, e = DirE)) (filter (\<lambda>(q, _). q \<noteq> [] \<and> butlast q = p) (d_live d))) \<longleftrightarrow>
    (\<exists>e. bt_get (d_live d) (p @ [n]) = Some e \<and> b = (e = DirE))"
  unfolding bt_get_iff_mem [OF assms]
  by (force intro: rev_image_eqI)

lemma in_map_filter: "x \<in> set (List.map_filter f xs) \<longleftrightarrow> (\<exists>y \<in> set xs. f y = Some x)"
  by (induction xs) (auto simp: List.map_filter_simps split: option.split)

lemma object_names_iff:
  "i \<in> set (object_names aa files) \<longleftrightarrow> length i = 32 \<and> (\<exists>b rest. (rest, b) \<in> set files \<and> length rest = 62 \<and> aa @ rest = to_hex i \<and> utf8 rest)"
  unfolding object_names_def in_map_filter Bex_def split_paired_Ex prod.case
  by (simp add: from_hex_32_iff) blast

lemma fanout_names:
  assumes "bt_wf (d_live d)" "length aa = 2"
  shows "i \<in> set (object_names aa (map (\<lambda>(q, e). (last q, e = DirE)) (filter (\<lambda>(q, _). q \<noteq> [] \<and> butlast q = dir @ [aa]) (d_live d)))) \<longleftrightarrow>
    length i = 32 \<and> take 2 (to_hex i) = aa \<and> bt_get (d_live d) (opath dir i) \<noteq> None"
proof (cases "length i = 32")
  case True
  have split: "aa @ rest = to_hex i \<longleftrightarrow> aa = take 2 (to_hex i) \<and> rest = drop 2 (to_hex i)" for rest
    using assms(2) by (metis append_eq_conv_conj append_take_drop_id)
  show ?thesis
    unfolding object_names_iff in_read_dir [OF assms(1)] split using True ascii_hex(2) [of 2 i] by (auto simp: opath_def)
qed (simp add: object_names_iff)

lemma list_fanout_calm:
  assumes "d_plan d = []" "bt_wf (d_live d)"
  shows "\<forall>(aa, b) \<in> set es. b \<longrightarrow> is_dir d (dir @ [aa]) \<Longrightarrow>
    \<exists>is. list_fanout dir es out d = (Inr is, d) \<and> set is = set out \<union>
      {i. length i = 32 \<and> (take 2 (to_hex i), True) \<in> set es \<and> bt_get (d_live d) (opath dir i) \<noteq> None}"
proof (induction es arbitrary: out)
  case Nil
  show ?case by simp
next
  case (Cons x es)
  obtain aa sub where x: "x = (aa, sub)" by (cases x)
  have dirs: "\<forall>(aa, b) \<in> set es. b \<longrightarrow> is_dir d (dir @ [aa])" using Cons.prems by simp
  show ?case
  proof (cases "utf8 aa \<and> length aa = 2 \<and> sub")
    case False
    have "(take 2 (to_hex i), True) \<noteq> (aa, sub)" if "length i = 32" for i
      using False that ascii_hex(1) [of 2 i] by auto
    then have "{i. length i = 32 \<and> (take 2 (to_hex i), True) \<in> set (x # es) \<and> bt_get (d_live d) (opath dir i) \<noteq> None} =
        {i. length i = 32 \<and> (take 2 (to_hex i), True) \<in> set es \<and> bt_get (d_live d) (opath dir i) \<noteq> None}"
      unfolding x by auto
    moreover have "list_fanout dir (x # es) out = list_fanout dir es out" using False x by simp
    ultimately show ?thesis using Cons.IH [OF dirs] by simp
  next
    case True
    define files where "files = map (\<lambda>(q, e). (last q, e = DirE)) (filter (\<lambda>(q, _). q \<noteq> [] \<and> butlast q = dir @ [aa]) (d_live d))"
    have "is_dir d (dir @ [aa])" using Cons.prems x True by simp
    from read_dir_calm [OF assms(1) this] have read: "fs_read_dir (dir @ [aa]) d = (Inr files, d)"
      by (simp add: files_def)
    have step: "list_fanout dir (x # es) out d = list_fanout dir es (out @ object_names aa files) d"
      using True x read by (simp add: iobind_def iomap_err_def)
    have names: "set (object_names aa files) = {i. length i = 32 \<and> take 2 (to_hex i) = aa \<and> bt_get (d_live d) (opath dir i) \<noteq> None}"
      unfolding files_def using fanout_names [OF assms(2), of aa] True by auto
    show ?thesis
      unfolding step using Cons.IH [OF dirs, of "out @ object_names aa files"] True
      by (auto simp: names x)
  qed
qed

lemma list_calm:
  assumes "disk_valid H s" "so_list (disk_ops H) s = Inr is"
  shows "set is = dom (disk_contents s)"
proof -
  obtain ds d where s: "s = (ds, d)" by (cases s)
  have v: "d_plan d = []" "bt_wf (d_live d)"
    and files: "\<And>i e. bt_get (d_live d) (opath (ds_dir ds) i) = Some e \<Longrightarrow> length i = 32 \<and> is_dir d (fan (ds_dir ds) i) \<and> is_dir d (ds_dir ds)"
    using assms(1) by (auto simp: disk_valid_def s)
  have list: "fst (disk_list_io ds d) = Inr is" using assms(2) by (simp add: disk_ops_def s)
  have dom: "dom (disk_contents s) = {i. bt_get (d_live d) (opath (ds_dir ds) i) \<noteq> None}"
    using disk_contents_iff [OF assms(1)] by (auto simp: s dom_def)
  show ?thesis
  proof (cases "is_dir d (ds_dir ds)")
    case False
    then have "is = []" using list v
      by (auto simp: disk_list_io_def fs_read_dir_def split: if_splits)
    then show ?thesis unfolding dom using files False by fastforce
  next
    case True
    define es where "es = map (\<lambda>(q, e). (last q, e = DirE)) (filter (\<lambda>(q, _). q \<noteq> [] \<and> butlast q = ds_dir ds) (d_live d))"
    note rd = in_read_dir [OF v(2), of _ _ "ds_dir ds", folded es_def]
    have "\<forall>(aa, b) \<in> set es. b \<longrightarrow> is_dir d (ds_dir ds @ [aa])"
      using rd by (fastforce simp: is_dir_def at_path_def)
    from list_fanout_calm [OF v this, of "[]"] obtain js where js: "list_fanout (ds_dir ds) es [] d = (Inr js, d)"
      "set js = {i. length i = 32 \<and> (take 2 (to_hex i), True) \<in> set es \<and> bt_get (d_live d) (opath (ds_dir ds) i) \<noteq> None}"
      by auto
    have "is = sort js"
      using list js(1) unfolding disk_list_io_def iobind_iotry read_dir_calm [OF v(1) True, folded es_def] by (simp add: iobind_def)
    then have eq: "set is = set js" by simp
    have "(take 2 (to_hex i), True) \<in> set es" if "bt_get (d_live d) (opath (ds_dir ds) i) = Some e" for i e
      using files [OF that] unfolding rd by (simp add: fan_def is_dir_def at_path_def)
    then show ?thesis unfolding dom eq js(2) using files by auto
  qed
qed

subsection \<open>The contract of the object store\<close>

lemma disk_valid_files: "disk_valid H s \<Longrightarrow> d_plan (snd s) = [] \<and> (\<forall>i e. file_at s i = Some e \<longrightarrow> intact_file H i e)"
  by (simp add: disk_valid_def)

lemma disk_put_law:
  assumes "disk_valid H s" "so_put (disk_ops H) k b s = (r, s')"
  shows "disk_valid H s' \<and> (case r of
      Inr i \<Rightarrow> i = object_id H k b \<and> (disk_contents s' = (disk_contents s)(i \<mapsto> (k, b)) \<or>
        disk_contents s' = disk_contents s \<and> disk_contents s i \<noteq> None)
    | Inl e \<Rightarrow> disk_contents s' = disk_contents s)"
proof -
  obtain ds d where s: "s = (ds, d)" by (cases s)
  obtain q d' where q: "disk_put_io H k b ds d = (q, d')" by (cases "disk_put_io H k b ds d")
  have plan: "d_plan d' = []" using quietD [OF quiet_put q] assms(1) by (simp add: disk_valid_def s)
  have "keeps (ds_dir ds) (file_at s) d d" by (simp add: keeps_def s)
  from triple_run [OF put_keeps this q]
  have post: "case q of Inr x \<Rightarrow> put_post H k b ds (file_at s) d x d' | Inl e \<Rightarrow> keeps (ds_dir ds) (file_at s) d d'" .
  show ?thesis
  proof (cases q)
    case (Inl e)
    then have "s' = (ds, d')" "r = Inl e" using assms(2) q by (auto simp: disk_ops_def disk_put_def s)
    then show ?thesis
      using disk_valid_keeps [OF assms(1) [unfolded s], of d' ds] post plan Inl by (simp add: s)
  next
    case (Inr x)
    obtain i ds' where x: "x = (i, ds')" by (cases x)
    then have r: "s' = (ds', d')" "r = Inr i" using assms(2) q Inr by (auto simp: disk_ops_def disk_put_def s)
    have i: "i = object_id H k b" "ds_dir ds' = ds_dir ds" using post Inr x by (auto simp: put_post_def)
    consider "keeps (ds_dir ds) (file_at s) d d'" "file_at s i \<noteq> None"
      | "keeps (ds_dir ds) ((file_at s)(i \<mapsto> FileE (kind_tag k # b))) d d'" "is_dir d' (fan (ds_dir ds) i)" "is_dir d' (ds_dir ds)"
      using post Inr x by (auto simp: put_post_def)
    then show ?thesis
    proof cases
      case 1
      then show ?thesis
        using disk_valid_keeps [OF assms(1) [unfolded s], of d' ds'] plan i r disk_contents_iff [OF assms(1), of i] by (simp add: s)
    next
      case 2
      then show ?thesis
        using disk_valid_put [OF assms(1) [unfolded s], of i k b d' ds'] plan i r by (simp add: s)
    qed
  qed
qed

lemma disk_remove_law:
  assumes "disk_valid H s" "so_remove (disk_ops H) i s = (r, s')"
  shows "r = Inr () \<and> disk_valid H s' \<and> disk_contents s' = (disk_contents s)(i := None)"
proof -
  note v = disk_valid_files [OF assms(1)]
  let ?p = "opath (ds_dir (fst s)) i"
  have r: "r = Inr ()" "s' = (fst s, if file_at s i = None then snd s else drop_entry ?p (snd s))"
    using assms(2) remove_calm [of s i H] v by (auto simp: disk_ops_def)
  have plain: "\<not> is_dir (snd s) ?p"
    using v by (auto simp: is_dir_def at_path_def intact_file_def)
  show ?thesis
  proof (cases "file_at s i")
    case None
    then show ?thesis using r assms(1) by (auto simp: disk_contents_def fun_eq_iff)
  next
    case (Some e)
    have "fan (ds_dir (fst s)) j \<noteq> ?p" "ds_dir (fst s) \<noteq> ?p" for j by (auto simp: opath_def fan_def)
    then show ?thesis
      using r Some assms(1) plain by (auto simp: disk_valid_def disk_contents_def opath_inj fun_eq_iff)
  qed
qed

interpretation disk: object_store H "disk_ops H" disk_contents "disk_valid H" for H
proof
  fix s i k b e u r "is" x y and s' :: on_disk
  assume v: "disk_valid H s"
  note c = disk_valid_files [OF v]
  show "addressed H (disk_contents s)"
    using c intact_object_of by (fastforce simp: addressed_def disk_contents_def split: option.splits elim: object_of.elims)
  show "x = disk_contents s i" if "so_get (disk_ops H) s i = Inr x"
    using that c by (auto simp: disk_ops_def get_calm disk_contents_def split: option.splits)
  show "so_has (disk_ops H) s i \<longleftrightarrow> disk_contents s i \<noteq> None"
    using c disk_contents_iff [OF v] by (simp add: disk_ops_def has_calm)
  show "y = map_option (\<lambda>(k, body). (k, of_nat (length body))) (disk_contents s i)"
    if "so_stat (disk_ops H) s i = Inr y"
    using that c stat_calm [of s i H] by (auto simp: disk_ops_def)
  show "i = object_id H k b \<and> disk_valid H s' \<and>
      (disk_contents s' = (disk_contents s)(i \<mapsto> (k, b)) \<or> disk_contents s' = disk_contents s \<and> disk_contents s i \<noteq> None)"
    if "so_put (disk_ops H) k b s = (Inr i, s')"
    using disk_put_law [OF v that] unfolding sum.case by blast
  show "disk_valid H s' \<and> disk_contents s \<subseteq>\<^sub>m disk_contents s'" if "so_put (disk_ops H) k b s = (Inl e, s')"
    using disk_put_law [OF v that] by simp
  show "disk_valid H s' \<and> disk_contents s' = (disk_contents s)(i := None)" if "so_remove (disk_ops H) i s = (Inr u, s')"
    using disk_remove_law [OF v that] by simp
  show "disk_valid H s' \<and> disk_contents s' \<subseteq>\<^sub>m disk_contents s \<and> (\<forall>j. j \<noteq> i \<longrightarrow> disk_contents s' j = disk_contents s j)"
    if "so_remove (disk_ops H) i s = (Inl e, s')"
    using disk_remove_law [OF v that] by simp
  show "disk_valid H s' \<and> disk_contents s' \<subseteq>\<^sub>m disk_contents s \<and>
      (r = Inr True \<longrightarrow> disk_contents s' = disk_contents s \<and> disk_contents s i \<noteq> None)"
    if "so_verify (disk_ops H) i s = (r, s')"
    using that c v verify_calm [of s i H] disk_contents_iff [OF v, of i] by (auto simp: disk_ops_def)
  show "set is = dom (disk_contents s)" if "so_list (disk_ops H) s = Inr is" 
    by (rule list_calm [OF v that])
qed

subsection \<open>The refs file\<close>

definition fits_envelope :: "(bytes \<Rightarrow> object_id) \<Rightarrow> refs \<Rightarrow> bool" where
  "fits_envelope H R \<longleftrightarrow> refs_ok R \<and> REFS_FIXED_LEN + length (encode_refs R) < 2 ^ 64 \<and> length (H (encode_refs R)) = 32"

lemma envelope_roundtrip:
  assumes "fits_envelope H R"
  shows "decode_envelope H (encode_envelope H R h w) = Inr (R, h, w)"
proof -
  let ?p = "encode_refs R" and ?raw = "encode_envelope H R h w"
  let ?n = "to_le64 (of_nat (length ?p))"
  have raw: "?raw = REFS_MAGIC @ to_le64 h @ to_le64 w @ ?n @ ?p @ H ?p" by (simp add: encode_envelope_def Let_def)
  have lens: "length REFS_MAGIC = 8" "REFS_FIXED_LEN = 64" by (simp_all add: REFS_MAGIC_def REFS_FIXED_LEN_def)
  have small: "length ?p < 2 ^ 64 - 64" "length (H ?p) = 32" using assms unfolding fits_envelope_def lens by simp_all
  have val: "of_nat (le_val (to_le64 x)) = x" for x :: u64
    using of_nat_le_val_le_bytes [of 8 x] by (simp add: to_le64_def)
  have "unat (of_nat (length ?p) :: u64) = length ?p" using small by (simp add: unat_of_nat)
  then have n: "le_val ?n = length ?p" using small by (simp add: to_le64_def le_val_le_bytes)
  have len: "length ?raw = 64 + length ?p" using lens small by (simp add: raw)
  have d: "take 8 ?raw = REFS_MAGIC" "take 8 (drop 8 ?raw) = to_le64 h" "take 8 (drop 16 ?raw) = to_le64 w"
    "take 8 (drop 24 ?raw) = ?n" "drop 32 ?raw = ?p @ H ?p" "drop (32 + length ?p) ?raw = H ?p"
    using lens by (simp_all add: raw drop_append)
  show ?thesis
    unfolding decode_envelope_def Let_def d n len val lens
    using assms small decode_encode_refs [of R] by (simp add: fits_envelope_def rbind_def)
qed

text \<open>What a load returns that meets no fault.\<close>

definition refs_at :: "(bytes \<Rightarrow> object_id) \<Rightarrow> entry option \<Rightarrow> (refs \<times> u64 \<times> u64) option res" where
  "refs_at H e = (case e of None \<Rightarrow> Inr None | Some DirE \<Rightarrow> Inl (DiskE RefsLoadFailed)
     | Some (FileE raw) \<Rightarrow> rbind (decode_envelope H raw) (\<lambda>x. Inr (Some x)))"

lemma load_calm: "d_plan d = [] \<Longrightarrow> fst (disk_refs_load H r d) = refs_at H (bt_get (d_live d) (refs_path r))"
  unfolding disk_refs_load_def refs_at_def iobind_iotry
  by (auto simp: fs_read_calm refs_path_def iolift_def iobind_def rbind_def split: option.split entry.split sum.split)

lemma refs_at_encode: "fits_envelope H R \<Longrightarrow> refs_at H (Some (FileE (encode_envelope H R h w))) = Inr (Some (R, h, w))"
  by (simp add: refs_at_def envelope_roundtrip)

text \<open>A save replaces the file or leaves it, under every plan.\<close>

lemma save_file:
  "triple (\<lambda>d. bt_get (d_live d) (refs_path r) = X) (disk_refs_save H R h w r)
     (\<lambda>_ d. bt_get (d_live d) (refs_path r) = Some (FileE (encode_envelope H R h w)))
     (\<lambda>_ d. bt_get (d_live d) (refs_path r) \<in> {X, Some (FileE (encode_envelope H R h w))})"
proof -
  let ?b = "encode_envelope H R h w" and ?I = "\<lambda>d. bt_get (d_live d) (refs_path r) = X"
  let ?J = "\<lambda>d. bt_get (d_live d) (refs_path r) = Some (FileE ?b)"
  let ?E = "\<lambda>d. bt_get (d_live d) (refs_path r) \<in> {X, Some (FileE ?b)}"
  define tmp where "tmp = r @ [str ''refs.tmp'']"
  have t: "tmp_path tmp" by (simp add: tmp_def tmp_path_def suffix_def TMP_def)
  have ne: "tmp \<noteq> []" "refs_path r \<noteq> tmp" using t refs_path_shapes(3) [of r] by (simp add: tmp_def, metis)
  have st: "?I d'" if "tmp_only d d'" "?I d" for d d' using that by (simp add: only_def)
  have pl: "planless ?I" by (simp add: planless_def)
  note steps = tmp_triples [OF t pl st]
  let ?P = "\<lambda>d. ?I d \<and> writing tmp ?b d \<and> tmp \<notin> d_unsynced d"
  have rename: "triple ?P (fs_rename tmp (refs_path r)) (\<lambda>_. ?J) (\<lambda>_. ?I)"
    unfolding fs_rename_def
    by (rule triple_call) (auto simp: planless_def writing_def at_path_def ne named_entry_def)
  have named: "triple ?P (rename_or_clean e tmp (refs_path r)) (\<lambda>_. ?J) (\<lambda>_. ?E)" for e
    by (rule rename_triple [OF rename], rule triple_conseq [OF steps(4)]) auto
  have last: "triple ?J (iomap_err (DiskE SaveFsyncDir) (fsync_dir r)) (\<lambda>_. ?J) (\<lambda>_. ?E)"
    unfolding fsync_dir_def fs_sync_dir_def
    by (intro triple_map_err triple_call) (auto simp: planless_def settle_def)
  show ?thesis
    unfolding disk_refs_save_def Let_def tmp_def [symmetric]
    apply (rule triple_bind [where R = "\<lambda>_ d. ?I d \<and> writing tmp [] d"])
     apply (rule triple_map_err, rule triple_conseq [OF steps(1)]; simp)
    apply (rule triple_bind [where R = "\<lambda>_ d. ?I d \<and> writing tmp ?b d"])
     apply (rule triple_map_err, rule triple_conseq [OF steps(2)]; simp)
    apply (rule triple_bind [where R = "\<lambda>_. ?P"])
     apply (rule triple_map_err, rule triple_conseq [OF steps(3)]; simp)
    apply (rule triple_bind [OF named])
    apply (rule last)
    done
qed

definition disk_saved :: "(bytes \<Rightarrow> object_id) \<Rightarrow> fpath \<times> disk \<Rightarrow> (refs \<times> u64 \<times> u64) option" where
  "disk_saved H s = (case refs_at H (bt_get (d_live (snd s)) (refs_path (fst s))) of Inr x \<Rightarrow> x | Inl _ \<Rightarrow> None)"

lemma load_saved:
  assumes "fst (disk_refs_load H r d) = Inr x"
  shows "refs_at H (bt_get (d_live d) (refs_path r)) = Inr x"
proof -
  have "fst (fs_read p d) = Inl OtherIo \<or> fst (fs_read p d) = fst (fs_read p (d\<lparr>d_plan := []\<rparr>))" for p
    by (auto simp: fs_read_def call_def at_path_def split: list.split outcome.split option.split entry.split)
  then have read: "fst (fs_read (refs_path r) d) = Inl OtherIo \<or>
      fst (fs_read (refs_path r) d) = fst (fs_read (refs_path r) (d\<lparr>d_plan := []\<rparr>))" .
  have view: "fst (disk_refs_load H r d) = (case fst (fs_read (refs_path r) d) of
      Inl NotFound \<Rightarrow> Inr None | Inl _ \<Rightarrow> Inl (DiskE RefsLoadFailed)
    | Inr raw \<Rightarrow> rbind (decode_envelope H raw) (\<lambda>x. Inr (Some x)))" for d
    unfolding disk_refs_load_def iobind_iotry
    by (simp add: iolift_def iobind_def rbind_def split: sum.split io_error.split)
  from read have "fst (disk_refs_load H r d) = Inl (DiskE RefsLoadFailed) \<or>
      fst (disk_refs_load H r d) = fst (disk_refs_load H r (d\<lparr>d_plan := []\<rparr>))"
    unfolding view by auto
  then show ?thesis using assms load_calm [of "d\<lparr>d_plan := []\<rparr>" H r] by auto
qed

interpretation diskr: refs_store "disk_refs_ops H" "disk_saved H" "fits_envelope H" for H
proof
  fix s s' :: "fpath \<times> disk" and x R h w u e
  obtain r d where s: "s = (r, d)" by (cases s)
  show "x = disk_saved H s" if "ro_load (disk_refs_ops H) s = Inr x"
    using that load_saved [of H r d x] by (simp add: disk_refs_ops_def disk_saved_def s)
  have save: "\<exists>d'. s' = (r, d') \<and> (case q of Inr _ \<Rightarrow> bt_get (d_live d') (refs_path r) = Some (FileE (encode_envelope H R h w))
      | Inl _ \<Rightarrow> bt_get (d_live d') (refs_path r) \<in> {bt_get (d_live d) (refs_path r), Some (FileE (encode_envelope H R h w))})"
    if "ro_save (disk_refs_ops H) R h w s = (q, s')" for q
    using that triple_run [OF save_file refl, of H R h w r d] by (auto simp: disk_refs_ops_def s split: prod.splits)
  show "disk_saved H s' = Some (R, h, w)" if "fits_envelope H R" "ro_save (disk_refs_ops H) R h w s = (Inr u, s')"
    using save [OF that(2)] refs_at_encode [OF that(1)] by (auto simp: disk_saved_def)
  show "disk_saved H s' = disk_saved H s \<or> disk_saved H s' = Some (R, h, w)"
    if "fits_envelope H R" "ro_save (disk_refs_ops H) R h w s = (Inl e, s')"
    using save [OF that(2)] refs_at_encode [OF that(1)] by (auto simp: disk_saved_def s)
qed

end
