(* ===== verification/Disk_Restart.thy ===== *)
theory Disk_Restart
  imports Disk_Crash Disk_Calm
begin

text \<open>
  What a restarted node finds: \<open>DiskStore::open\<close> after a power loss, the refs and the objects it then reads,
  and the fsync that the replay of a block skips.
\<close>

subsection \<open>Opening the store again\<close>

lemma only_trans: "only T a b \<Longrightarrow> only T b c \<Longrightarrow> only T a c"
  by (auto simp: only_def)

lemma planless_only [simp]: "planless (only T d0)"
  by (simp add: planless_def only_def)

lemma sweep_only: "triple (tmp_only d0) (sweep_tmp n p) (\<lambda>_. tmp_only d0) (\<lambda>_. tmp_only d0)"
proof (induction n arbitrary: p)
  case 0
  show ?case unfolding sweep_tmp.simps by (rule triple_fail)
next
  case (Suc n)
  have rm: "triple (tmp_only d0) (fs_remove_file (p @ [name])) (\<lambda>_. tmp_only d0) (\<lambda>_. tmp_only d0)" if "suffix TMP name" for name
    using that by (intro tmp_triples(4)) (auto simp: tmp_path_def intro: only_trans)
  have rd: "triple (tmp_only d0) (fs_read_dir p) (\<lambda>_. tmp_only d0) (\<lambda>_. tmp_only d0)"
    unfolding fs_read_dir_def by (rule triple_read) auto
  show ?case
    unfolding sweep_tmp.simps
    by (rule triple_bind [OF rd], rule triple_each) (auto intro: Suc.IH rm triple_ret split: prod.split)
qed

lemma mkdir_rooted:
  assumes "\<And>n. n \<le> length dir \<Longrightarrow> is_dir d (take n dir)"
  shows "make_dirs [] (take n dir) d = (Inr (), d)"
proof -
  have "\<forall>k. 0 < k \<and> k \<le> length (take n dir) \<longrightarrow> at_path d ([] @ take k (take n dir)) = Some DirE"
    using assms by (simp add: is_dir_def min_def)
  from make_dirs_skip [OF this, of "[]"] show ?thesis by simp
qed

lemma open_only:
  assumes "clean_path dir" "\<And>n. n \<le> length dir \<Longrightarrow> is_dir d0 (take n dir)"
  shows "triple (tmp_only d0) (disk_open n dir) (\<lambda>ds d. ds = \<lparr>ds_dir = dir, ds_dirty = []\<rparr> \<and> tmp_only d0 d) (\<lambda>_. tmp_only d0)"
proof -
  have rooted: "is_dir d (take k dir)" if "tmp_only d0 d" "k \<le> length dir" for d k
    using that assms(1) assms(2) [OF that(2)]
    by (cases "k = 0") (auto simp: only_def clean_path_def is_dir_def at_path_def)
  have mk: "triple (tmp_only d0) (fs_create_dir_all dir) (\<lambda>_. tmp_only d0) (\<lambda>_. tmp_only d0)"
    unfolding fs_create_dir_all_def
    using mkdir_rooted [OF rooted, where n = "length dir"] mkdir_rooted [OF rooted]
    by (intro triple_call) auto
  show ?thesis
    unfolding disk_open_def
    by (intro triple_bind [OF mk] triple_bind [OF sweep_only] triple_ret) simp
qed

subsection \<open>A power loss\<close>

lemma odb_plan [simp]:
  "odb_inv H dir D (d\<lparr>d_plan := os\<rparr>) = odb_inv H dir D d" "sure H dir (d\<lparr>d_plan := os\<rparr>) i = sure H dir d i"
  by (simp_all add: odb_defs)

lemma odb_sane: "odb_inv H dir D d \<Longrightarrow> p \<noteq> [] \<Longrightarrow> bt_get (d_live d) p \<in> d_kept d p"
  by (simp add: odb_inv_def sane_def)

lemma survives_under:
  assumes "survives d m" "m p = Some e"
  shows "Some e \<in> d_kept d p" "\<And>n. 0 < n \<Longrightarrow> n < length p \<Longrightarrow> m (take n p) = Some DirE"
proof -
  from assms(1) obtain c where c: "\<And>p. c p \<in> d_kept d p"
    "\<And>p. m p = (if \<forall>n < length p. 0 < n \<longrightarrow> c (take n p) = Some DirE then c p else None)"
    unfolding survives_def by blast
  have dirs: "\<forall>n < length p. 0 < n \<longrightarrow> c (take n p) = Some DirE" and "c p = Some e"
    using c(2) [of p] assms(2) by (auto split: if_splits)
  then show "Some e \<in> d_kept d p" using c(1) by metis
  show "m (take n p) = Some DirE" if "0 < n" "n < length p" for n
    using dirs that by (simp add: c(2) [of "take n p"] min_def)
qed

lemma reboot_inv:
  assumes "odb_inv H dir D d" "reboots d d2"
  shows "odb_inv H dir {} d2" "\<And>i. sure H dir d i \<Longrightarrow> sure H dir d2 i"
    and "module_dir r dir \<Longrightarrow> d_kept d2 (refs_path r) \<subseteq> d_kept d (refs_path r)"
proof -
  let ?m = "bt_get (d_live d2)"
  have sv: "survives d ?m" and kept: "d_kept d2 p = {?m p}" and "d_unsynced d2 = {}" for p
    using assms(2) by (simp_all add: reboots_def)
  have anchored: "anchored dir d" using assms(1) by (simp add: odb_inv_def)
  have top: "?m (take n dir) = Some DirE" if "0 < n" "n \<le> length dir" for n
  proof -
    have "?m (take n dir) \<in> d_kept d (take n dir)"
      using that anchored by (intro survives_kept [OF sv]) (auto simp: anchored_def)
    then show ?thesis using that anchored by (simp add: anchored_def)
  qed
  have object: "intact_file H i e \<and> is_dir d2 (fan dir i) \<and> sure H dir d2 i"
    if "length i = 32" "?m (opath dir i) = Some e" for i e
  proof -
    note under = survives_under [OF sv that(2)]
    have "intact_file H i e" using under(1) that(1) assms(1) by (simp add: odb_inv_def)
    moreover have "?m (fan dir i) = Some DirE"
      using under(2) [of "Suc (length dir)"] by (simp add: opath_def fan_def)
    ultimately show ?thesis using that(2) by (simp add: sure_def filed_def kept is_dir_def at_path_def)
  qed
  show "odb_inv H dir {} d2"
    using top object \<open>d_unsynced d2 = {}\<close> by (auto simp: odb_inv_def sane_def anchored_def kept)
  show "sure H dir d2 i" if s: "sure H dir d i" for i
  proof -
    obtain raw where "?m (opath dir i) = Some (FileE raw)" "intact_object H i raw"
      using sure_survives [OF sv anchored s] by blast
    moreover from survives_under(2) [OF sv this(1), of "Suc (length dir)"] have "?m (fan dir i) = Some DirE"
      by (simp add: opath_def fan_def)
    ultimately show ?thesis by (simp add: sure_def filed_def kept intact_file_def)
  qed
  show "d_kept d2 (refs_path r) \<subseteq> d_kept d (refs_path r)" if "module_dir r dir"
    using that refs_survive [OF sv anchored] by (auto simp: module_dir_def kept)
qed

lemma restart_inv:
  assumes "odb_ok H (ds, d)" "module_dir r (ds_dir ds)" "reboots d d2"
    and up: "disk_open n (ds_dir ds) (d2\<lparr>d_plan := os\<rparr>) = (Inr ds3, d3)"
  shows "odb_ok H (ds3, d3)" "ds_dir ds3 = ds_dir ds" "\<And>i. sure_at H (ds, d) i \<Longrightarrow> sure_at H (ds3, d3) i"
    and "refs_kept r (ds3, d3) \<subseteq> refs_kept r (ds, d)"
proof -
  let ?dir = "ds_dir ds" and ?d2 = "d2\<lparr>d_plan := os\<rparr>"
  have clean: "clean_path ?dir" using assms(2) by (simp add: module_dir_def)
  have "odb_inv H ?dir (set (ds_dirty ds)) d" using assms(1) by (simp add: odb_ok_def)
  note rb = reboot_inv [OF this assms(3)]
  have inv: "odb_inv H ?dir {} ?d2" using rb(1) by (simp add: odb_defs)
  then have "is_dir ?d2 (take k ?dir)" if "k \<le> length ?dir" for k
    using odb_dirs [OF inv that] by (simp add: is_dir_def)
  from triple_run [OF open_only [OF clean this] tmp_only_refl up]
  have op: "ds3 = \<lparr>ds_dir = ?dir, ds_dirty = []\<rparr>" "tmp_only ?d2 d3" by simp_all
  note after = odb_only [OF op(2) unused_tmp [OF clean] inv]
  show "ds_dir ds3 = ?dir" using op(1) by simp
  show "odb_ok H (ds3, d3)" using after(1) op(1) by (simp add: odb_ok_def fans_def)
  show "sure_at H (ds3, d3) i" if "sure_at H (ds, d) i" for i
    using rb(2) [of i] that after(2) [of i] op(1) by (simp add: sure_def filed_def)
  show "refs_kept r (ds3, d3) \<subseteq> refs_kept r (ds, d)"
    using rb(3) [OF assms(2)] op(2) by (simp add: only_def)
qed

subsection \<open>The life of a node's disk\<close>

text \<open>
  Blocks, each with the way its calls turn out, and power losses after which the store is opened again; the
  run keeps which blocks were tried and which of them reported success.
\<close>

inductive node_run :: "(bytes \<Rightarrow> object_id) \<Rightarrow> fpath \<Rightarrow> on_disk \<Rightarrow> (block \<times> bool) list \<Rightarrow> on_disk \<Rightarrow> bool"
  for H r s0 where
  start: "node_run H r s0 [] s0"
| faults: "node_run H r s0 bs (ds, d) \<Longrightarrow> node_run H r s0 bs (ds, d\<lparr>d_plan := os\<rparr>)"
| block: "node_run H r s0 bs s \<Longrightarrow> block_on_disk H b r s = (res, s') \<Longrightarrow> node_run H r s0 ((b, res = Inr ()) # bs) s'"
| power: "node_run H r s0 bs (ds, d) \<Longrightarrow> reboots d d2 \<Longrightarrow> disk_open n (ds_dir ds) (d2\<lparr>d_plan := os\<rparr>) = (Inr ds3, d3) \<Longrightarrow>
    node_run H r s0 bs (ds3, d3)"

text \<open>The blocks whose refs may be found: the last that succeeded and those tried after it, newest first.\<close>

fun recent :: "(block \<times> bool) list \<Rightarrow> block option list" where
  "recent [] = [None]"
| "recent ((b, ok) # bs) = (if ok then [Some b] else Some b # recent bs)"

lemma recent_tried: "Some b \<in> set (recent bs) \<Longrightarrow> \<exists>ok. (b, ok) \<in> set bs"
  by (induction bs rule: recent.induct) (auto split: if_splits)

definition backed :: "(bytes \<Rightarrow> object_id) \<Rightarrow> entry option \<Rightarrow> object_id set \<Rightarrow> (block \<times> bool) list \<Rightarrow> on_disk \<Rightarrow> entry option \<Rightarrow> bool" where
  "backed H x0 J0 bs s x \<longleftrightarrow> (\<exists>c \<in> set (recent bs). case c of
     None \<Rightarrow> x = x0 \<and> (\<forall>i \<in> J0. sure_at H s i)
   | Some b \<Rightarrow> x = image_of H b \<and> (\<forall>i \<in> named_by H b. sure_at H s i))"

lemma backed_mono: "backed H x0 J0 bs s x \<Longrightarrow> (\<And>i. sure_at H s i \<Longrightarrow> sure_at H s' i) \<Longrightarrow> backed H x0 J0 bs s' x"
  unfolding backed_def by (force split: option.splits)

lemma node_run_inv:
  assumes "node_run H r s0 bs s" "odb_ok H s0" "module_dir r (ds_dir (fst s0))" "\<forall>b. length (H b) = 32"
    and "refs_kept r s0 = {x0}" "\<forall>i \<in> J0. sure_at H s0 i"
  shows "odb_ok H s \<and> ds_dir (fst s) = ds_dir (fst s0) \<and> (\<forall>x \<in> refs_kept r s. backed H x0 J0 bs s x)"
  using assms(1)
proof induction
  case start
  show ?case using assms by (simp add: backed_def)
next
  case (faults bs ds d os)
  moreover have "odb_ok H (ds, d\<lparr>d_plan := os\<rparr>) = odb_ok H (ds, d)" by (simp add: odb_ok_def)
  ultimately show ?case
    using backed_mono [of H x0 J0 bs "(ds, d)" _ "(ds, d\<lparr>d_plan := os\<rparr>)"] by simp
next
  case (block bs s b res s')
  have md: "module_dir r (ds_dir (fst s))" using block.IH assms(3) by simp
  note adv = block_advances [OF conjunct1 [OF block.IH] md assms(4) block.hyps(2)]
  have old: "backed H x0 J0 bs s' x" if "x \<in> refs_kept r s" for x
    using backed_mono [OF _ adv(3)] block.IH that by blast
  have new: "backed H x0 J0 ((b, ok) # bs) s' (image_of H b)" if "\<forall>i \<in> named_by H b. sure_at H s' i" for ok
    using that by (auto simp: backed_def intro: bexI [of _ "Some b"])
  have weak: "backed H x0 J0 ((b, False) # bs) s' x" if "backed H x0 J0 bs s' x" for x
    using that by (auto simp: backed_def)
  show ?case
  proof (cases "res = Inr ()")
    case True
    then show ?thesis using adv block.IH new by auto
  next
    case False
    then show ?thesis using adv(1,2,4) block.IH new old weak by auto
  qed
next
  case (power bs ds d d2 n os ds3 d3)
  have ok: "odb_ok H (ds, d)" "module_dir r (ds_dir ds)" using power.IH assms(3) by simp_all
  note r = restart_inv [OF ok power.hyps(2,3)]
  then show ?case using power.IH backed_mono [of H x0 J0 bs "(ds, d)" _ "(ds3, d3)"] by auto
qed

lemma read_sure:
  assumes "odb_ok H (ds, d)" "sure_at H (ds, d) i" "fst (disk_get_io H i ds d) = Inr y"
  shows "\<exists>k b. y = Some (k, b) \<and> object_id H k b = i"
proof -
  have "bt_get (d_live d) (opath (ds_dir ds) i) \<in> d_kept d (opath (ds_dir ds) i)"
    using assms(1) odb_sane [of H "ds_dir ds" "set (ds_dirty ds)" d] by (simp add: odb_ok_def)
  then obtain e where e: "bt_get (d_live d) (opath (ds_dir ds) i) = Some e" "intact_file H i e"
    using assms(2) by (auto simp: sure_def filed_def)
  let ?p = "opath (ds_dir ds) i"
  have "fst (fs_read ?p d) = Inl OtherIo \<or> fst (fs_read ?p d) = fst (fs_read ?p (d\<lparr>d_plan := []\<rparr>))"
    by (auto simp: fs_read_def call_def at_path_def split: list.split outcome.split option.split entry.split)
  moreover obtain tag body k where "fst (fs_read ?p (d\<lparr>d_plan := []\<rparr>)) = Inr (tag # body)" "kind_from_u8 tag = Some k" "object_id H k body = i"
    using e by (auto simp: intact_file_iff fs_read_calm)
  ultimately have "fst (fs_read ?p d) = Inl OtherIo \<or>
      (\<exists>tag body k. fst (fs_read ?p d) = Inr (tag # body) \<and> kind_from_u8 tag = Some k \<and> object_id H k body = i)"
    by metis
  then show ?thesis
    using assms(3) unfolding disk_get_io_def object_path_eq iobind_iotry by auto
qed

subsection \<open>A replay without a power loss\<close>

text \<open>
  A process that dies after a put and before \<open>sync_dirs\<close> leaves the object in the page cache, its directory
  entry not yet durable. The reopened store has an empty set of dirty directories, and the replayed put
  returns early on the file it finds: no fsync of the directory ever happens.
\<close>

definition laid_out :: "disk_store \<Rightarrow> disk \<Rightarrow> object_id \<Rightarrow> nat \<Rightarrow> bool" where
  "laid_out ds d i n \<longleftrightarrow> (\<exists>raw. bt_get (d_live d) (opath (ds_dir ds) i) = Some (FileE raw) \<and> length raw = n)"

lemma put_laid_out:
  assumes "d_plan d = []" "laid_out ds d (object_id H k body) (length body + 1)"
  shows "disk_put_io H k body ds d = (Inr (object_id H k body, ds), d)"
  using assms
  by (auto simp: disk_put_io_def intact_len_def object_path_eq laid_out_def fs_exists_def fs_len_def at_path_def Let_def iobind_def
      iotry_def)

lemma persist_laid_out:
  assumes "d_plan d = []" "ds_dirty ds = []" "\<forall>(k, body) \<in> set os. laid_out ds d (object_id H k body) (length body + 1)"
  shows "persist_objects (disk_ops H) os (ds, d) = (Inr (), (ds, d))"
proof -
  have "put_all (disk_ops H) os (ds, d) = (Inr (), (ds, d))"
    using assms(3) by (induction os) (auto simp: disk_ops_def disk_put_def put_laid_out [OF assms(1)])
  then show ?thesis
    using assms(2) by (simp add: persist_objects_def disk_ops_def disk_sync_dirs_def disk_sync_dirs_io_def)
qed

lemma save_calm:
  assumes "d_plan d = []" "is_dir d r" "\<not> is_dir d (r @ [str ''refs.tmp''])" "\<not> is_dir d (refs_path r)"
  obtains d' where "disk_refs_save H R h w r d = (Inr (), d')" "sane d \<Longrightarrow> sane d'"
    and "\<And>p. bt_get (d_live d') p = (if p = r @ [str ''refs.tmp''] then None
      else if p = refs_path r then Some (FileE (encode_envelope H R h w)) else bt_get (d_live d) p)"
    and "\<And>p. butlast p \<noteq> r \<Longrightarrow> d_kept d' p = d_kept d p"
proof -
  define tmp where "tmp = r @ [str ''refs.tmp'']"
  have t: "tmp \<noteq> []" "butlast tmp = r" "tmp \<noteq> refs_path r" "refs_path r \<noteq> tmp" "r \<noteq> tmp" "r \<noteq> refs_path r"
    by (auto simp: tmp_def refs_path_def str_def)
  define b where "b = encode_envelope H R h w"
  define d1 where "d1 = put_entry tmp (FileE []) UNIV (d\<lparr>d_unsynced := insert tmp (d_unsynced d)\<rparr>)"
  define d2 where "d2 = fs_append tmp b d1"
  define d3 where "d3 = d2\<lparr>d_unsynced := d_unsynced d2 - {tmp}\<rparr>"
  define d4 where "d4 = drop_entry tmp (named_entry tmp (FileE b) (refs_path r) d3)"
  have p: "d_plan d1 = []" "d_plan d2 = []" "d_plan d3 = []" "d_plan d4 = []"
    using assms(1) by (simp_all add: d1_def d2_def d3_def d4_def)
  have l1: "at_path d1 tmp = Some (FileE [])" using t by (simp add: d1_def at_path_def)
  have d2: "d2 = put_entry tmp (FileE b) UNIV (d1\<lparr>d_unsynced := insert tmp (d_unsynced d1)\<rparr>)"
    using l1 by (simp add: d2_def fs_append_def)
  have l3: "at_path d3 tmp = Some (FileE b)" "is_dir d3 r" "\<not> is_dir d3 (refs_path r)" "tmp \<notin> d_unsynced d3"
    using t assms(2,4) by (auto simp: d3_def d2 d1_def at_path_def)
  have live: "bt_get (d_live d4) q = (if q = tmp then None else if q = refs_path r then Some (FileE b) else bt_get (d_live d) q)" for q
    using t l3(4) by (simp add: d4_def named_entry_def) (simp add: d3_def d2 d1_def)
  have kept: "d_kept d4 q = d_kept d q" if "butlast q \<noteq> r" for q
    using t l3(4) that by (auto simp: d4_def named_entry_def) (auto simp: d3_def d2 d1_def)
  have dir4: "is_dir d4 r"
    using l3(2) t by (auto simp: d4_def named_entry_def)
  have "disk_refs_save H R h w r d = (Inr (), settle r d4)"
  proof -
    have "fs_create tmp d = (Inr (), d1)"
      using assms(1-3) t(2) by (simp add: fs_create_def d1_def tmp_def)
    moreover have "fs_write_all tmp b d1 = (Inr (), d2)" using p(1) by (simp add: fs_write_all_def d2_def)
    moreover have "fs_sync_all tmp d2 = (Inr (), d3)" using p(2) by (simp add: fs_sync_all_def d3_def)
    moreover have "fs_rename tmp (refs_path r) d3 = (Inr (), d4)"
      using p(3) l3 by (simp add: fs_rename_def d4_def)
    moreover have "fs_sync_dir r d4 = (Inr (), settle r d4)" using p(4) dir4 by (simp add: fs_sync_dir_def)
    ultimately show ?thesis
      unfolding disk_refs_save_def Let_def tmp_def [symmetric] b_def [symmetric]
      by (simp add: iobind_def iomap_err_def rename_or_clean_def iotry_def fsync_dir_def)
  qed
  moreover have "sane (settle r d4)" if "sane d"
    using that l3(4) by (auto simp: d4_def named_entry_def d3_def d2 d1_def)
  ultimately show thesis
    using live kept unfolding tmp_def b_def by (intro that [of "settle r d4"]) simp_all
qed

lemma replay_loses_object:
  assumes d: "d_plan d = []" "sane d" "d_kept d [] \<noteq> {}" "ds_dirty ds = []"
    and mod: "ds_dir ds = r @ [name]" "r \<noteq> []" "\<forall>n \<le> length r. is_dir d (take n r)"
      "\<not> is_dir d (r @ [str ''refs.tmp''])" "\<not> is_dir d (refs_path r)"
    and there: "\<forall>(k, body) \<in> set (b_objects b). laid_out ds d (object_id H k body) (length body + 1)"
    and lost: "None \<in> d_kept d (opath (ds_dir ds) i)"
  shows "\<exists>d' m. block_on_disk H b r (ds, d) = (Inr (), (ds, d')) \<and> survives d' m \<and>
    m (refs_path r) = image_of H b \<and> m (opath (ds_dir ds) i) = None"
proof -
  let ?o = "opath (ds_dir ds) i"
  have root: "is_dir d r" using mod(3) by (metis order_refl take_all)
  obtain d' where d': "disk_refs_save H (b_refs b) (b_height b) (b_watermark b) r d = (Inr (), d')" "sane d \<Longrightarrow> sane d'"
    "\<And>p. bt_get (d_live d') p = (if p = r @ [str ''refs.tmp''] then None
      else if p = refs_path r then image_of H b else bt_get (d_live d) p)"
    "\<And>p. butlast p \<noteq> r \<Longrightarrow> d_kept d' p = d_kept d p"
    by (rule save_calm [OF d(1) root mod(4,5), where H = H and R = "b_refs b" and h = "b_height b" and w = "b_watermark b"])
      (auto simp: image_of_def)
  obtain top where top: "top \<in> d_kept d' []" using d(3) d'(4) [of "[]"] mod(2) by auto
  define c where "c p = (if p = ?o then None else if p = [] then top else bt_get (d_live d') p)" for p
  define m where "m p = (if \<forall>n < length p. 0 < n \<longrightarrow> c (take n p) = Some DirE then c p else None)" for p
  have "fan (ds_dir ds) i \<noteq> r" using mod(1) by (simp add: fan_def)
  then have "None \<in> d_kept d' ?o" using lost d'(4) [of ?o] by simp
  moreover have "bt_get (d_live d') p \<in> d_kept d' p" if "p \<noteq> []" for p using d'(2) [OF d(2)] that by (simp add: sane_def)
  ultimately have "c p \<in> d_kept d' p" for p using top by (simp add: c_def)
  then have "survives d' m" unfolding survives_def m_def by blast
  moreover have "m ?o = None" by (simp add: m_def c_def)
  moreover have "m (refs_path r) = image_of H b"
  proof -
    have "c (take n (refs_path r)) = Some DirE" if "0 < n" "n < length (refs_path r)" for n
    proof -
      have n: "take n (refs_path r) = take n r" "n \<le> length r" using that by (simp_all add: refs_path_def)
      have "length (take n r) < length ?o" "length (take n r) < length (refs_path r)" "length (take n r) < length (r @ [str ''refs.tmp''])"
        using n(2) mod(1) by (simp_all add: opath_def refs_path_def)
      then have ne: "take n r \<noteq> ?o" "take n r \<noteq> refs_path r" "take n r \<noteq> r @ [str ''refs.tmp'']" by (metis nat_neq_iff)+
      have "take n r \<noteq> []" "is_dir d (take n r)" using that n(2) mod(2,3) by auto
      then have "bt_get (d_live d') (take n r) = Some DirE"
        unfolding d'(3) using ne by (simp only: if_False) (simp add: is_dir_def at_path_def)
      then show ?thesis unfolding n(1) c_def using ne(1) \<open>take n r \<noteq> []\<close> by simp
    qed
    moreover have "refs_path r \<noteq> ?o"
    proof
      assume "refs_path r = ?o"
      then have "length (refs_path r) = length ?o" by (rule arg_cong)
      then show False using mod(1) by (simp add: refs_path_def opath_def)
    qed
    moreover have "refs_path r \<noteq> r @ [str ''refs.tmp'']" by (simp add: refs_path_def str_def)
    ultimately show ?thesis using d'(3) [of "refs_path r"] by (simp add: m_def c_def)
  qed
  moreover have "block_on_disk H b r (ds, d) = (Inr (), (ds, d'))"
    using persist_laid_out [OF d(1,4) there] d'(1) by (simp add: block_on_disk_def)
  ultimately show ?thesis by blast
qed

end
