(* ===== verification/Disk_Scenario.thy ===== *)
theory Disk_Scenario
  imports Scenario Disk_Restart
begin

text \<open>A module directory \<open>m\<close> with an empty object directory \<open>o\<close>, and one block, for the witnesses of the disk.\<close>

abbreviation mod_dir :: fpath where "mod_dir \<equiv> [[109]]"
abbreviation obj_dir :: fpath where "obj_dir \<equiv> [[109], [111]]"

definition settled :: "(fpath, entry) btree \<Rightarrow> disk" where
  "settled live = \<lparr>d_live = live, d_kept = \<lambda>p. {bt_get live p}, d_unsynced = {}, d_plan = []\<rparr>"

definition clean_disk :: disk where
  "clean_disk = settled [([[109]], DirE), ([[109], [111]], DirE)]"

definition fresh_store :: disk_store where "fresh_store = \<lparr>ds_dir = obj_dir, ds_dirty = []\<rparr>"

definition one_block :: block where
  "one_block = \<lparr>b_objects = [(KChunk, [1])], b_refs = refs_default, b_height = 1, b_watermark = 0\<rparr>"

abbreviation one_object :: object_id where "one_object \<equiv> object_id short_hash KChunk [1]"

subsection \<open>The empty directory\<close>

lemma clean_get: "bt_get (d_live clean_disk) p = (if p = mod_dir \<or> p = obj_dir then Some DirE else None)"
  by (simp add: clean_disk_def settled_def bt_get_Cons)

lemma clean_kept: "d_kept clean_disk p = {bt_get (d_live clean_disk) p}" "d_unsynced clean_disk = {}" "d_plan clean_disk = []"
  by (simp_all add: clean_disk_def settled_def)

lemma clean_no_object: "bt_get (d_live clean_disk) (opath obj_dir i) = None"
  by (simp add: clean_get opath_def)

lemma two_dirs: "0 < n \<Longrightarrow> n \<le> length obj_dir \<Longrightarrow> take n obj_dir = mod_dir \<or> take n obj_dir = obj_dir"
  by (cases n; cases "n - 1") auto

lemma clean_odb: "odb_ok short_hash (fresh_store, clean_disk)"
proof -
  have "d_kept clean_disk (take n obj_dir) = {Some DirE}" if "0 < n" "n \<le> length obj_dir" for n
    using two_dirs [OF that] by (elim disjE) (simp_all add: clean_kept clean_get)
  then have "anchored obj_dir clean_disk" by (simp add: anchored_def)
  then show ?thesis
    by (simp add: odb_ok_def odb_inv_def sane_def clean_kept clean_no_object fresh_store_def fans_def)
qed

lemma clean_module: "module_dir mod_dir obj_dir"
proof -
  have "\<not> tmp_path mod_dir" "\<not> tmp_path obj_dir" by (simp_all add: tmp_path_def TMP_def suffix_def Cons_eq_append_conv)
  then have "clean_path obj_dir" unfolding clean_path_def using two_dirs by metis
  then show ?thesis by (simp add: module_dir_def)
qed

lemma clean_valid: "disk_valid short_hash (fresh_store, clean_disk)"
  using short_hash_32 by (simp add: disk_valid_def clean_kept clean_no_object fresh_store_def)
    (simp add: clean_disk_def settled_def bt_wf_def)

lemma fits_default: "fits_envelope short_hash refs_default"
proof -
  have "refs_ok refs_default"
    by (simp add: refs_ok_def refs_typed_def refs_counts_def refs_default_def encoded_refs_len_def opt_len_def MAX_REFS_IMAGE_BYTES_def)
  moreover have "length (encode_refs refs_default) = 26" by code_simp
  ultimately show ?thesis using short_hash_32 by (simp add: fits_envelope_def REFS_FIXED_LEN_def)
qed

subsection \<open>A block that reports success\<close>

definition after_block where "after_block = block_on_disk short_hash one_block mod_dir (fresh_store, clean_disk)"

abbreviation "block_disk \<equiv> snd (snd after_block)"

lemma block_ok: "fst after_block = Inr ()" "fst (snd after_block) = fresh_store" "d_plan block_disk = []"
  unfolding after_block_def by code_simp+

definition closed_under :: "(fpath, entry) btree \<Rightarrow> bool" where
  "closed_under live \<longleftrightarrow> list_all (\<lambda>(p, _). p \<noteq> [] \<and> list_all (\<lambda>n. bt_get live (take n p) = Some DirE) [1..<length p]) live"

lemma live_survives:
  assumes "sane d" "None \<in> d_kept d []" "closed_under (d_live d)"
  shows "survives d (bt_get (d_live d))"
proof -
  let ?m = "bt_get (d_live d)"
  have held: "p \<noteq> [] \<and> (\<forall>n. 0 < n \<and> n < length p \<longrightarrow> ?m (take n p) = Some DirE)" if "?m p = Some e" for p e
    using assms(3) bt_get_Some_mem [OF that] by (fastforce simp: closed_under_def list_all_iff)
  have "?m p \<in> d_kept d p" for p
    using assms(1,2) held [of "[]"] by (cases "p = []"; cases "?m p") (auto simp: sane_def)
  moreover have "?m p = (if \<forall>n < length p. 0 < n \<longrightarrow> ?m (take n p) = Some DirE then ?m p else None)" for p
    using held [of p] by (cases "?m p") auto
  ultimately show ?thesis unfolding survives_def by blast
qed

lemma reboots_settled: "survives d (bt_get live) \<Longrightarrow> reboots d (settled live)"
  by (simp add: reboots_def settled_def)

lemma block_closed: "closed_under (d_live block_disk)" "None \<in> d_kept block_disk []"
  unfolding after_block_def by code_simp+

lemma block_run: "node_run short_hash mod_dir (fresh_store, clean_disk) [(one_block, True)] (fresh_store, block_disk)"
proof -
  have "block_on_disk short_hash one_block mod_dir (fresh_store, clean_disk) = (Inr (), (fresh_store, block_disk))"
    using block_ok unfolding after_block_def by (metis prod.collapse)
  from node_run.block [OF node_run.start this] show ?thesis by simp
qed

lemma block_inv:
  "odb_ok short_hash (fresh_store, block_disk) \<and> ds_dir (fst (fresh_store, block_disk)) = ds_dir (fst (fresh_store, clean_disk)) \<and>
   (\<forall>x \<in> refs_kept mod_dir (fresh_store, block_disk).
      backed short_hash (bt_get (d_live clean_disk) (refs_path mod_dir)) {} [(one_block, True)] (fresh_store, block_disk) x)"
proof (rule node_run_inv [OF block_run clean_odb _ short_hash_32])
    show "module_dir mod_dir (ds_dir (fst (fresh_store, clean_disk)))" using clean_module by (simp add: fresh_store_def)
    show "refs_kept mod_dir (fresh_store, clean_disk) = {bt_get (d_live clean_disk) (refs_path mod_dir)}"
      by (simp add: clean_kept)
    show "\<forall>i \<in> {}. sure_at short_hash (fresh_store, clean_disk) i" by simp
qed

lemma block_reboots: "reboots block_disk (settled (d_live block_disk))"
proof -
  have "sane block_disk" using block_inv by (simp add: odb_ok_def odb_inv_def)
  then show ?thesis using block_closed by (intro reboots_settled live_survives)
qed

definition reopened where "reopened = disk_open 3 obj_dir (settled (d_live block_disk))"

lemma reopened_disk: "fst reopened = Inr fresh_store" "d_live (snd reopened) = d_live block_disk" "d_plan (snd reopened) = []"
  unfolding reopened_def after_block_def by code_simp+

lemma block_image: "bt_get (d_live block_disk) (refs_path mod_dir) = image_of short_hash one_block"
proof -
  have "bt_get (d_live block_disk) (refs_path mod_dir) \<in> d_kept block_disk (refs_path mod_dir)"
    using block_inv by (simp add: odb_ok_def odb_inv_def sane_def)
  moreover have "\<forall>x \<in> d_kept block_disk (refs_path mod_dir). x = image_of short_hash one_block"
    using block_inv by (simp add: backed_def)
  ultimately show ?thesis by blast
qed

lemma restarted_run: "node_run short_hash mod_dir (fresh_store, clean_disk) [(one_block, True)] (fresh_store, snd reopened)"
proof -
  have "disk_open 3 (ds_dir fresh_store) ((settled (d_live block_disk))\<lparr>d_plan := []\<rparr>) = (Inr fresh_store, snd reopened)"
    using reopened_disk(1) unfolding reopened_def by (simp add: fresh_store_def settled_def prod_eq_iff)
  then show ?thesis by (rule node_run.power [OF block_run block_reboots])
qed

lemma restarted_load: "fst (disk_refs_load short_hash mod_dir (snd reopened)) = Inr (Some (refs_default, 1, 0))"
  using load_calm [OF reopened_disk(3)] refs_at_encode [OF fits_default]
  by (simp add: reopened_disk(2) block_image image_of_def one_block_def)

subsection \<open>A process that dies after a put\<close>

definition after_put where "after_put = disk_put_io short_hash KChunk [1] fresh_store clean_disk"

abbreviation "put_disk \<equiv> snd after_put"

definition respawned where "respawned = disk_open 3 obj_dir put_disk"

abbreviation "respawn_disk \<equiv> snd respawned"

lemma respawned_disk: "fst respawned = Inr fresh_store" "d_plan respawn_disk = []"
  "d_live respawn_disk = [([[109]], DirE), (obj_dir, DirE), (fan obj_dir one_object, DirE), (opath obj_dir one_object, FileE [0, 1])]"
  "None \<in> d_kept respawn_disk (opath obj_dir one_object)" "d_kept respawn_disk [] \<noteq> {}"
  unfolding respawned_def after_put_def by code_simp+

lemma put_result: "fst after_put = Inr (one_object, fresh_store\<lparr>ds_dirty := [fan obj_dir one_object]\<rparr>)"
  unfolding after_put_def by code_simp

lemma put_run: "disk_put_io short_hash KChunk [1] fresh_store clean_disk =
    (Inr (one_object, fresh_store\<lparr>ds_dirty := [fan obj_dir one_object]\<rparr>), put_disk)"
  using put_result unfolding after_put_def by (metis prod.collapse)

lemma respawn_run: "disk_open 3 obj_dir put_disk = (Inr fresh_store, respawn_disk)"
  using respawned_disk(1) unfolding respawned_def by (metis prod.collapse)

lemma respawn_sane: "sane respawn_disk"
proof -
  have inv: "odb_inv short_hash obj_dir {} clean_disk" and clean: "clean_path obj_dir"
    using clean_odb clean_module by (simp_all add: odb_ok_def fresh_store_def module_dir_def)
  from triple_run [OF disk_put_triple _ put_run, of clean_disk] advances_refl [OF inv] clean
  have put: "odb_inv short_hash obj_dir {fan obj_dir one_object} put_disk"
    by (simp add: fresh_store_def advances_def)
  have dirs: "is_dir put_disk (take n obj_dir)" if "n \<le> length obj_dir" for n
    using odb_dirs [OF put that] by (simp add: is_dir_def)
  from triple_run [OF open_only [OF clean dirs] tmp_only_refl respawn_run]
  have "tmp_only put_disk respawn_disk" by simp
  then show ?thesis using put by (simp add: only_def odb_inv_def)
qed

lemma respawn_laid_out: "laid_out fresh_store respawn_disk one_object 2"
  by (simp add: laid_out_def respawned_disk(3) bt_get_Cons fresh_store_def) (simp add: opath_def fan_def)

end
