(* ===== verification/Sdk_Codec.thy ===== *)
theory Sdk_Codec
  imports Codec
begin

text \<open>
  crates/kernel/sdk/src/codec.rs, hash.rs and genesis_config.rs: the length-prefixed little-endian toolkit
  of the modules' snapshots, the preimage of a map's hash and the genesis configuration of a module.
  A \<open>Cursor\<close> is the bytes left and the cap on a field's length.

  The contract of a field is the locale \<open>field_codec\<close>: what was written is read back, and whatever is
  read was written by the encoder. It is interpreted for every accessor.
\<close>

subsection \<open>Writers\<close>

definition push_bytes :: "bytes \<Rightarrow> bytes" where
  "push_bytes bs = to_le64 (of_nat (length bs)) @ bs"

definition push_str :: "rstring \<Rightarrow> bytes" where
  "push_str s = push_bytes s"

definition push_opt_bytes :: "bytes option \<Rightarrow> bytes" where
  "push_opt_bytes x = (case x of Some b \<Rightarrow> 1 # push_bytes b | None \<Rightarrow> [0])"

definition push_opt_str :: "rstring option \<Rightarrow> bytes" where
  "push_opt_str x = push_opt_bytes x"

definition push_opt_u64 :: "u64 option \<Rightarrow> bytes" where
  "push_opt_u64 x = (case x of Some v \<Rightarrow> 1 # to_le64 v | None \<Rightarrow> [0])"

subsection \<open>The cursor\<close>

datatype sdk_error =
    FieldTruncated rstring
  | BadFlag rstring byte
  | OverCap rstring u64 nat
  | OverRemaining rstring u64 nat
  | BadUtf8 rstring
  | FlagSetEmpty rstring
  | OverLimit rstring nat
  | CountOverRemaining rstring u64 nat
  | Trailing rstring nat
  | KeysNotIncreasing
  | BadTimeUnit bytes

type_synonym 'a sdk_res = "sdk_error + 'a"

record cursor =
  cu_buf :: bytes
  cu_cap :: nat

definition cursor_new :: "bytes \<Rightarrow> cursor" where
  "cursor_new bs = \<lparr>cu_buf = bs, cu_cap = 2 ^ 64 - 1\<rparr>"

definition with_cap :: "bytes \<Rightarrow> nat \<Rightarrow> cursor" where
  "with_cap bs n = \<lparr>cu_buf = bs, cu_cap = n\<rparr>"

definition remaining :: "cursor \<Rightarrow> nat" where
  "remaining c = length (cu_buf c)"

definition cu_array :: "nat \<Rightarrow> rstring \<Rightarrow> cursor \<Rightarrow> (bytes \<times> cursor) sdk_res" where
  "cu_array n what c =
     (if length (cu_buf c) < n then Inl (FieldTruncated what)
      else Inr (take n (cu_buf c), c\<lparr>cu_buf := drop n (cu_buf c)\<rparr>))"

definition cu_u64 :: "rstring \<Rightarrow> cursor \<Rightarrow> (u64 \<times> cursor) sdk_res" where
  "cu_u64 what c = rbind (cu_array 8 what c) (\<lambda>(bs, c). Inr (of_nat (le_val bs), c))"

definition cu_u32 :: "rstring \<Rightarrow> cursor \<Rightarrow> (u32 \<times> cursor) sdk_res" where
  "cu_u32 what c = rbind (cu_array 4 what c) (\<lambda>(bs, c). Inr (of_nat (le_val bs), c))"

definition cu_byte :: "rstring \<Rightarrow> cursor \<Rightarrow> (byte \<times> cursor) sdk_res" where
  "cu_byte what c = (case cu_buf c of [] \<Rightarrow> Inl (FieldTruncated what) | b # rest \<Rightarrow> Inr (b, c\<lparr>cu_buf := rest\<rparr>))"

definition cu_bool :: "rstring \<Rightarrow> cursor \<Rightarrow> (bool \<times> cursor) sdk_res" where
  "cu_bool what c = rbind (cu_byte what c) (\<lambda>(b, c).
     if b = 0 then Inr (False, c) else if b = 1 then Inr (True, c) else Inl (BadFlag what b))"

definition cu_bytes :: "rstring \<Rightarrow> cursor \<Rightarrow> (bytes \<times> cursor) sdk_res" where
  "cu_bytes what c = rbind (cu_u64 what c) (\<lambda>(len, c).
     if unat len > cu_cap c then Inl (OverCap what len (cu_cap c))
     else if unat len > length (cu_buf c) then Inl (OverRemaining what len (length (cu_buf c)))
     else Inr (take (unat len) (cu_buf c), c\<lparr>cu_buf := drop (unat len) (cu_buf c)\<rparr>))"

definition cu_string :: "rstring \<Rightarrow> cursor \<Rightarrow> (rstring \<times> cursor) sdk_res" where
  "cu_string what c = rbind (cu_bytes what c) (\<lambda>(raw, c). if utf8 raw then Inr (raw, c) else Inl (BadUtf8 what))"

definition cu_opt_str :: "nat \<Rightarrow> rstring \<Rightarrow> cursor \<Rightarrow> (rstring option \<times> cursor) sdk_res" where
  "cu_opt_str max_len what c = rbind (cu_byte what c) (\<lambda>(b, c).
     if b = 0 then Inr (None, c)
     else if b = 1 then rbind (cu_bytes what c) (\<lambda>(raw, c).
       if raw = [] then Inl (FlagSetEmpty what)
       else if length raw > max_len then Inl (OverLimit what max_len)
       else if utf8 raw then Inr (Some raw, c) else Inl (BadUtf8 what))
     else Inl (BadFlag what b))"

definition cu_opt_bytes :: "rstring \<Rightarrow> cursor \<Rightarrow> (bytes option \<times> cursor) sdk_res" where
  "cu_opt_bytes what c = rbind (cu_bool what c) (\<lambda>(b, c).
     if b then rbind (cu_bytes what c) (\<lambda>(raw, c). Inr (Some raw, c)) else Inr (None, c))"

definition cu_opt_u64 :: "rstring \<Rightarrow> cursor \<Rightarrow> (u64 option \<times> cursor) sdk_res" where
  "cu_opt_u64 what c = rbind (cu_bool what c) (\<lambda>(b, c).
     if b then rbind (cu_u64 what c) (\<lambda>(v, c). Inr (Some v, c)) else Inr (None, c))"

definition cu_bound :: "u64 \<Rightarrow> u64 \<Rightarrow> rstring \<Rightarrow> cursor \<Rightarrow> unit sdk_res" where
  "cu_bound count min_each what c =
     (if unat count > length (cu_buf c) div unat (max min_each 1)
      then Inl (CountOverRemaining what count (length (cu_buf c))) else Inr ())"

definition cu_finish :: "rstring \<Rightarrow> cursor \<Rightarrow> unit sdk_res" where
  "cu_finish what c = (if cu_buf c = [] then Inr () else Inl (Trailing what (length (cu_buf c))))"

subsection \<open>The contract of a field\<close>

abbreviation cur :: "nat \<Rightarrow> bytes \<Rightarrow> cursor" where "cur n bs \<equiv> \<lparr>cu_buf = bs, cu_cap = n\<rparr>"

locale field_codec =
  fixes rd :: "cursor \<Rightarrow> ('a \<times> cursor) sdk_res" and enc :: "'a \<Rightarrow> bytes" and ok :: "nat \<Rightarrow> 'a \<Rightarrow> bool"
  assumes reads: "ok n x \<Longrightarrow> rd (cur n (enc x @ t)) = Inr (x, cur n t)"
    and only: "rd (cur n bs) = Inr (x, c) \<Longrightarrow> \<exists>t. ok n x \<and> bs = enc x @ t \<and> c = cur n t"
begin

lemma onlyE:
  assumes "rd (cur n bs) = Inr (x, c)"
  obtains t where "ok n x" "bs = enc x @ t" "c = cur n t"
  using only [OF assms] by blast

text \<open>One field never consumes more than it was given, and two inputs read alike are written alike.\<close>

lemma advance: "rd c = Inr (x, c') \<Longrightarrow> length (cu_buf c) = length (enc x) + length (cu_buf c')"
  using only [where n = "cu_cap c" and bs = "cu_buf c" and x = x and c = c'] by (cases c) auto

lemma enc_prefix_free:
  assumes "ok n x" "ok n y" "enc x @ s = enc y @ t"
  shows "x = y \<and> s = t"
proof -
  have "Inr (x, cur n s) = (Inr (y, cur n t) :: ('a \<times> cursor) sdk_res)"
    unfolding reads [OF assms(1), symmetric] reads [OF assms(2), symmetric] assms(3) ..
  then show ?thesis by simp
qed

end

lemma cu_array_cur: "cu_array n what (cur m bs) =
    (if length bs < n then Inl (FieldTruncated what) else Inr (take n bs, cur m (drop n bs)))"
  by (simp add: cu_array_def)

interpretation f_array: field_codec "cu_array k what" "\<lambda>x. x" "\<lambda>_ x. length x = k" for k what
proof
  show "\<exists>t. length x = k \<and> bs = x @ t \<and> c = cur n t" if "cu_array k what (cur n bs) = Inr (x, c)" for n bs x c
    using that by (intro exI [of _ "drop k bs"]) (auto simp: cu_array_cur split: if_splits)
qed (simp add: cu_array_cur)

lemma word_field:
  assumes "rbind (cu_array k what (cur n bs)) (\<lambda>(bs, c). Inr (of_nat (le_val bs), c)) = Inr (x, c)"
    and "LENGTH('a) = 8 * k"
  shows "\<exists>t. bs = le_bytes k (unat (x :: 'a::len word)) @ t \<and> c = cur n t"
proof -
  have "k \<le> length bs" "x = of_nat (le_val (take k bs))" "c = cur n (drop k bs)"
    using assms(1) by (auto simp: cu_array_cur split: if_splits)
  then show ?thesis
    using le_bytes_unat_of_nat [of "take k bs", where 'a = 'a] assms(2) by (intro exI [of _ "drop k bs"]) simp
qed

interpretation f_u64: field_codec "cu_u64 what" to_le64 "\<lambda>_ _. True" for what
proof
  show "\<exists>t. True \<and> bs = to_le64 x @ t \<and> c = cur n t" if "cu_u64 what (cur n bs) = Inr (x, c)" for n bs x c
    using word_field [OF that [unfolded cu_u64_def]] by (simp add: to_le64_def)
qed (simp add: cu_u64_def cu_array_cur to_le64_def of_nat_le_val_le_bytes)

interpretation f_u32: field_codec "cu_u32 what" to_le32 "\<lambda>_ _. True" for what
proof
  show "\<exists>t. True \<and> bs = to_le32 x @ t \<and> c = cur n t" if "cu_u32 what (cur n bs) = Inr (x, c)" for n bs x c
    using word_field [OF that [unfolded cu_u32_def]] by (simp add: to_le32_def)
qed (simp add: cu_u32_def cu_array_cur to_le32_def of_nat_le_val_le_bytes)

interpretation f_byte: field_codec "cu_byte what" "\<lambda>b. [b]" "\<lambda>_ _. True" for what
  by unfold_locales (auto simp: cu_byte_def split: list.splits)

interpretation f_bool: field_codec "cu_bool what" push_bool "\<lambda>_ _. True" for what
  by unfold_locales (auto simp: cu_bool_def push_bool_def cu_byte_def split: list.splits if_splits)

lemma flag_reads: "cu_bool what (cur n (1 # t)) = Inr (True, cur n t)" "cu_bool what (cur n (0 # t)) = Inr (False, cur n t)"
  by (simp_all add: cu_bool_def cu_byte_def)

definition field_ok :: "nat \<Rightarrow> bytes \<Rightarrow> bool" where
  "field_ok n bs \<longleftrightarrow> length bs \<le> n \<and> length bs < 2 ^ 64"

interpretation f_bytes: field_codec "cu_bytes what" push_bytes field_ok for what
proof
  fix n x t bs c
  show "cu_bytes what (cur n (push_bytes x @ t)) = Inr (x, cur n t)" if "field_ok n x"
  proof -
    have "unat (of_nat (length x) :: u64) = length x" using that by (simp add: field_ok_def unat_of_nat)
    then show ?thesis
      using that by (simp add: cu_bytes_def push_bytes_def field_ok_def f_u64.reads)
  qed
  show "\<exists>t. field_ok n x \<and> bs = push_bytes x @ t \<and> c = cur n t" if rd: "cu_bytes what (cur n bs) = Inr (x, c)"
  proof -
    from rd obtain len c1 where len: "cu_u64 what (cur n bs) = Inr (len, c1)"
      unfolding cu_bytes_def by (cases "cu_u64 what (cur n bs)") auto
    from f_u64.onlyE [OF len] obtain t where t: "bs = to_le64 len @ t" "c1 = cur n t" by blast
    have "unat len \<le> n" "unat len \<le> length t" "x = take (unat len) t" "c = cur n (drop (unat len) t)"
      using rd len t(2) by (auto simp: cu_bytes_def split: if_splits)
    then have x: "field_ok n x" "of_nat (length x) = len" "t = x @ drop (unat len) t"
      using unsigned_less [of len] by (auto simp: field_ok_def)
    then show ?thesis using t \<open>c = _\<close> unfolding push_bytes_def by (metis append_assoc)
  qed
qed

interpretation f_string: field_codec "cu_string what" push_str "\<lambda>n s. field_ok n s \<and> utf8 s" for what
  by unfold_locales
    (auto simp: cu_string_def push_str_def f_bytes.reads rbind_eq_Inr split: if_splits prod.splits elim!: f_bytes.onlyE)

interpretation f_opt_bytes: field_codec "cu_opt_bytes what" push_opt_bytes "\<lambda>n x. pred_option (field_ok n) x" for what
proof
  fix n x t bs c
  show "cu_opt_bytes what (cur n (push_opt_bytes x @ t)) = Inr (x, cur n t)" if "pred_option (field_ok n) x"
    using that flag_reads by (cases x) (simp_all add: cu_opt_bytes_def push_opt_bytes_def f_bytes.reads)
  show "\<exists>t. pred_option (field_ok n) x \<and> bs = push_opt_bytes x @ t \<and> c = cur n t" if "cu_opt_bytes what (cur n bs) = Inr (x, c)"
    using that unfolding cu_opt_bytes_def
    by (auto simp: rbind_eq_Inr push_opt_bytes_def push_bool_def split: if_splits elim!: f_bool.onlyE f_bytes.onlyE)
qed

interpretation f_opt_u64: field_codec "cu_opt_u64 what" push_opt_u64 "\<lambda>_ _. True" for what
proof
  fix n x t bs c
  show "cu_opt_u64 what (cur n (push_opt_u64 x @ t)) = Inr (x, cur n t)"
    using flag_reads by (cases x) (simp_all add: cu_opt_u64_def push_opt_u64_def f_u64.reads)
  show "\<exists>t. True \<and> bs = push_opt_u64 x @ t \<and> c = cur n t" if "cu_opt_u64 what (cur n bs) = Inr (x, c)"
    using that unfolding cu_opt_u64_def
    by (auto simp: rbind_eq_Inr push_opt_u64_def push_bool_def split: if_splits elim!: f_bool.onlyE f_u64.onlyE)
qed

text \<open>\<open>opt_str\<close> refuses the empty string that \<open>push_opt_str\<close> can write.\<close>

interpretation f_opt_str: field_codec "cu_opt_str max_len what" push_opt_str
  "\<lambda>n x. pred_option (\<lambda>s. field_ok n s \<and> s \<noteq> [] \<and> length s \<le> max_len \<and> utf8 s) x" for max_len what
proof
  fix n x t bs c
  show "cu_opt_str max_len what (cur n (push_opt_str x @ t)) = Inr (x, cur n t)"
    if "pred_option (\<lambda>s. field_ok n s \<and> s \<noteq> [] \<and> length s \<le> max_len \<and> utf8 s) x"
    using that by (cases x) (auto simp: cu_opt_str_def push_opt_str_def push_opt_bytes_def cu_byte_def f_bytes.reads)
  show "\<exists>t. pred_option (\<lambda>s. field_ok n s \<and> s \<noteq> [] \<and> length s \<le> max_len \<and> utf8 s) x \<and> bs = push_opt_str x @ t \<and> c = cur n t"
    if "cu_opt_str max_len what (cur n bs) = Inr (x, c)"
    using that unfolding cu_opt_str_def
    by (auto simp: rbind_eq_Inr push_opt_str_def push_opt_bytes_def split: if_splits elim!: f_byte.onlyE f_bytes.onlyE)
qed

subsection \<open>The preimage of a map's hash\<close>

definition push_pair :: "bytes \<times> bytes \<Rightarrow> bytes" where
  "push_pair kv = (case kv of (k, v) \<Rightarrow> push_bytes k @ push_bytes v)"

definition encode_pairs :: "(bytes, bytes) btree \<Rightarrow> bytes" where
  "encode_pairs m = to_le64 (of_nat (length m)) @ concat (map push_pair m)"

definition pairs_fit :: "(bytes \<times> bytes) list \<Rightarrow> bool" where
  "pairs_fit m \<longleftrightarrow> length m < 2 ^ 64 \<and> (\<forall>(k, v) \<in> set m. length k < 2 ^ 64 \<and> length v < 2 ^ 64)"

text \<open>Two maps with one preimage are one map, so a root commits to the whole map.\<close>

lemma push_pair_inj:
  assumes "push_pair (k, v) @ s = push_pair (k', v') @ t" "length k < 2 ^ 64" "length v < 2 ^ 64" "length k' < 2 ^ 64" "length v' < 2 ^ 64"
  shows "k = k' \<and> v = v' \<and> s = t"
proof -
  let ?n = "2 ^ 64 - 1 :: nat"
  have ok: "field_ok ?n k" "field_ok ?n v" "field_ok ?n k'" "field_ok ?n v'" using assms by (simp_all add: field_ok_def)
  have "k = k' \<and> push_bytes v @ s = push_bytes v' @ t"
    using f_bytes.enc_prefix_free [OF ok(1,3), of "push_bytes v @ s" "push_bytes v' @ t"] assms(1) by (simp add: push_pair_def)
  then show ?thesis using f_bytes.enc_prefix_free [OF ok(2,4)] by blast
qed

lemma encode_pairs_inj:
  assumes "encode_pairs m = encode_pairs m'" "pairs_fit m" "pairs_fit m'"
  shows "m = m'"
proof -
  have le: "to_le64 (of_nat (length m)) = to_le64 (of_nat (length m'))" and cat: "concat (map push_pair m) = concat (map push_pair m')"
    using assms(1) by (simp_all add: encode_pairs_def)
  have "(of_nat (length m) :: u64) = of_nat (length m')"
    using f_u64.enc_prefix_free [OF TrueI TrueI, of _ "[]" _ "[]"] le by blast
  then have "unat (of_nat (length m) :: u64) = unat (of_nat (length m') :: u64)" by simp
  then have "length m = length m'" using assms(2,3) by (simp add: pairs_fit_def unat_of_nat)
  then show ?thesis using cat assms(2,3) unfolding pairs_fit_def
  proof (induction m m' rule: list_induct2)
    case (Cons kv m kv' m')
    obtain k v k' v' where kv: "kv = (k, v)" "kv' = (k', v')" by fastforce
    then have "k = k' \<and> v = v' \<and> concat (map push_pair m) = concat (map push_pair m')"
      using Cons.prems by (intro push_pair_inj) auto
    then show ?case using Cons kv by auto
  qed simp
qed

subsection \<open>The genesis configuration\<close>

type_synonym params = "(rstring \<times> bytes) list"

fun increasing :: "rstring option \<Rightarrow> params \<Rightarrow> bool" where
  "increasing prev [] = True"
| "increasing prev ((k, v) # ps) = ((case prev of None \<Rightarrow> True | Some p \<Rightarrow> p < k) \<and> increasing (Some k) ps)"

text \<open>The assertion on the keys is a panic, \<open>None\<close>.\<close>

definition encode_config :: "params \<Rightarrow> bytes option" where
  "encode_config ps =
     (if increasing None ps then Some (to_le64 (of_nat (length ps)) @ concat (map push_pair ps)) else None)"

fun rd_params :: "nat \<Rightarrow> rstring option \<Rightarrow> cursor \<Rightarrow> (params \<times> cursor) sdk_res" where
  "rd_params 0 prev c = Inr ([], c)"
| "rd_params (Suc n) prev c =
     rbind (cu_string (str ''genesis-config key'') c) (\<lambda>(key, c).
     if (case prev of None \<Rightarrow> False | Some p \<Rightarrow> p \<ge> key) then Inl KeysNotIncreasing
     else rbind (cu_bytes (str ''genesis-config value'') c) (\<lambda>(val, c).
     rbind (rd_params n (Some key) c) (\<lambda>(ps, c). Inr ((key, val) # ps, c))))"

definition decode_config :: "bytes \<Rightarrow> params sdk_res" where
  "decode_config bs =
     rbind (cu_u64 (str ''genesis-config parameter count'') (cursor_new bs)) (\<lambda>(count, c).
     rbind (cu_bound count 16 (str ''genesis-config parameter'') c) (\<lambda>_.
     rbind (rd_params (unat count) None c) (\<lambda>(ps, c).
     rbind (cu_finish (str ''genesis-config'') c) (\<lambda>_. Inr ps))))"

definition config_find :: "params \<Rightarrow> rstring \<Rightarrow> bytes option" where
  "config_find ps key = map_option snd (List.find (\<lambda>(k, _). k = key) ps)"

datatype time_unit = HeightUnit | MillisUnit

definition time_encode :: "time_unit \<Rightarrow> bytes" where
  "time_encode u = (case u of HeightUnit \<Rightarrow> str ''height'' | MillisUnit \<Rightarrow> str ''millis'')"

definition time_decode :: "bytes \<Rightarrow> time_unit sdk_res" where
  "time_decode bs = (if bs = str ''height'' then Inr HeightUnit
     else if bs = str ''millis'' then Inr MillisUnit else Inl (BadTimeUnit bs))"

definition per_second :: "time_unit \<Rightarrow> u64" where
  "per_second u = (case u of HeightUnit \<Rightarrow> 1 | MillisUnit \<Rightarrow> 1000)"

lemma time_decode_iff: "time_decode bs = Inr u \<longleftrightarrow> bs = time_encode u"
  by (cases u) (auto simp: time_decode_def time_encode_def)

definition param_ok :: "nat \<Rightarrow> rstring \<times> bytes \<Rightarrow> bool" where
  "param_ok n kv \<longleftrightarrow> field_ok n (fst kv) \<and> utf8 (fst kv) \<and> field_ok n (snd kv)"

interpretation f_params: field_codec "rd_params k prev" "\<lambda>ps. concat (map push_pair ps)"
  "\<lambda>n ps. length ps = k \<and> increasing prev ps \<and> list_all (param_ok n) ps" for k prev
proof
  fix n ps t
  show "rd_params k prev (cur n (concat (map push_pair ps) @ t)) = Inr (ps, cur n t)"
    if "length ps = k \<and> increasing prev ps \<and> list_all (param_ok n) ps"
    using that
  proof (induction ps arbitrary: k prev)
    case (Cons kv ps)
    obtain key val where kv: "kv = (key, val)" by (cases kv)
    obtain m where m: "k = Suc m" using Cons.prems by (cases k) auto
    have ok: "field_ok n key" "utf8 key" "field_ok n val" using Cons.prems kv by (simp_all add: param_ok_def)
    have string: "cu_string w (cur n (push_bytes key @ u)) = Inr (key, cur n u)" for w u
      using f_string.reads [where x = key and n = n] ok by (simp add: push_str_def)
    have "\<not> (case prev of None \<Rightarrow> False | Some p \<Rightarrow> p \<ge> key)" using Cons.prems kv by (auto split: option.splits)
    then show ?case
      using Cons.IH [of m "Some key"] Cons.prems ok kv
      by (simp add: m push_pair_def string f_bytes.reads)
  qed simp
next
  fix n bs ps c
  show "\<exists>t. (length ps = k \<and> increasing prev ps \<and> list_all (param_ok n) ps) \<and> bs = concat (map push_pair ps) @ t \<and> c = cur n t"
    if "rd_params k prev (cur n bs) = Inr (ps, c)"
    using that
  proof (induction k arbitrary: prev bs ps)
    case (Suc k)
    from Suc.prems obtain key c1 where key: "cu_string (str ''genesis-config key'') (cur n bs) = Inr (key, c1)"
      unfolding rd_params.simps rbind_eq_Inr by auto
    from f_string.onlyE [OF key] obtain t1 where t1: "field_ok n key" "utf8 key" "bs = push_bytes key @ t1" "c1 = cur n t1"
      by (auto simp: push_str_def)
    have less: "case prev of None \<Rightarrow> True | Some p \<Rightarrow> p < key"
      using Suc.prems key unfolding rd_params.simps by (auto split: option.splits if_splits)
    from Suc.prems key obtain val c2 ps' where v: "cu_bytes (str ''genesis-config value'') (cur n t1) = Inr (val, c2)"
      and rest: "rd_params k (Some key) c2 = Inr (ps', c)" "ps = (key, val) # ps'"
      unfolding rd_params.simps t1(4) by (auto simp: rbind_eq_Inr split: if_splits)
    from f_bytes.onlyE [OF v] obtain t2 where t2: "field_ok n val" "t1 = push_bytes val @ t2" "c2 = cur n t2" by blast
    from Suc.IH [OF rest(1) [unfolded t2(3)]] show ?case
      using t1 t2 less rest(2) by (auto simp: push_pair_def param_ok_def)
  qed simp
qed

definition params_fit :: "params \<Rightarrow> bool" where
  "params_fit ps \<longleftrightarrow> length ps < 2 ^ 64 \<and> (\<forall>(k, v) \<in> set ps. utf8 k \<and> length k < 2 ^ 64 \<and> length v < 2 ^ 64)"

lemma length_pairs: "16 * length ps \<le> length (concat (map push_pair ps))"
proof (induction ps)
  case (Cons kv ps)
  then show ?case by (cases kv) (simp add: push_pair_def push_bytes_def)
qed simp

lemma decode_config_iff: "decode_config bs = Inr ps \<longleftrightarrow> encode_config ps = Some bs \<and> params_fit ps"
proof -
  define n :: nat where "n = 2 ^ 64 - 1"
  have new: "cursor_new bs = cur n bs" for bs by (simp add: cursor_new_def n_def)
  have fit: "list_all (param_ok n) ps \<longleftrightarrow> (\<forall>(k, v) \<in> set ps. utf8 k \<and> length k < 2 ^ 64 \<and> length v < 2 ^ 64)" for ps
    by (auto simp: list_all_iff param_ok_def field_ok_def n_def)
  show ?thesis
  proof
    assume d: "decode_config bs = Inr ps"
    then obtain count c where c: "cu_u64 (str ''genesis-config parameter count'') (cur n bs) = Inr (count, c)"
      unfolding decode_config_def new by (auto simp: rbind_eq_Inr)
    from f_u64.onlyE [OF c] obtain t where t: "bs = to_le64 count @ t" "c = cur n t" by blast
    obtain c2 where p: "rd_params (unat count) None (cur n t) = Inr (ps, c2)" "cu_buf c2 = []"
      using d c t(2) unfolding decode_config_def new
      by (auto simp: rbind_eq_Inr cu_finish_def split: if_splits)
    from f_params.onlyE [OF p(1)] obtain u where u: "length ps = unat count" "increasing None ps" "list_all (param_ok n) ps"
      "t = concat (map push_pair ps) @ u" "c2 = cur n u" by blast
    have "length ps < 2 ^ 64" using u(1) unsigned_less [of count] by simp
    moreover have "of_nat (length ps) = count" using u(1) by simp
    ultimately show "encode_config ps = Some bs \<and> params_fit ps"
      using u t p(2) fit by (simp add: encode_config_def params_fit_def)
  next
    assume e: "encode_config ps = Some bs \<and> params_fit ps"
    let ?c = "of_nat (length ps) :: u64"
    have len: "unat ?c = length ps" using e by (simp add: params_fit_def unat_of_nat)
    have inc: "increasing None ps" and bs: "bs = to_le64 ?c @ concat (map push_pair ps)"
      using e by (auto simp: encode_config_def split: if_splits)
    have rd: "rd_params (length ps) None (cur n (concat (map push_pair ps))) = Inr (ps, cur n [])"
      using f_params.reads [where n = n and x = ps and t = "[]" and k = "length ps" and prev = None] inc e fit by (simp add: params_fit_def)
    have "\<not> length ps > length (concat (map push_pair ps)) div 16" using length_pairs [of ps] by simp
    moreover have "unat (max 16 (1 :: u64)) = 16" by code_simp
    ultimately have bound: "cu_bound ?c 16 w (cur n (concat (map push_pair ps))) = Inr ()" for w
      using len by (simp add: cu_bound_def)
    show "decode_config bs = Inr ps"
      unfolding decode_config_def new bs f_u64.reads [OF TrueI] by (simp add: bound len rd cu_finish_def)
  qed
qed

end
