(* ===== verification/Staged_Store.thy ===== *)
theory Staged_Store
  imports Sdk_Codec
begin

text \<open>
  crates/kernel/sdk/src/staged_store.rs: the overlay every store-backed module keeps in front of an
  authenticated store, with the trait \<open>MerkleStore\<close> and the error of crates/kernel/sdk/src/lib.rs
  and the in-memory implementor \<open>MemStore\<close> of crates/kernel/sdk-testkit. SHA-256 is the parameter
  \<open>H\<close>. A trait is the record of its methods over the implementor's state, a method taking
  \<open>&mut self\<close> returns the state with its result; awaiting is sequencing.

  What the overlay relies on is the locale \<open>merkle_store\<close>: a read that succeeds returns the view,
  a batch that succeeds has applied its writes in order. What it promises is proved once there: a
  block of edits is read back before the commit and lands whole with it.
\<close>

subsection \<open>The trait\<close>

datatype module_error =
    UnknownModule rstring
  | SelfQuery
  | QueryUnsupported
  | SyncUnsupported
  | SwapUnsupported
  | BudgetExceeded
  | ModuleFault rstring

type_synonym 'a mres = "module_error + 'a"

record sync_point =
  sy_root :: bytes
  sy_start :: u64
  sy_op_count :: u64

datatype sync_handle =
    Stateless
  | SnapshotBytes bytes
  | ResolverBacked rstring rstring
  | Unsupported rstring

type_synonym batch = "(bytes \<times> bytes option) list"

record 's merkle_ops =
  mk_get :: "'s \<Rightarrow> bytes \<Rightarrow> bytes option mres"
  mk_prefetch :: "'s \<Rightarrow> bytes list \<Rightarrow> unit mres"
  mk_get_committed :: "'s \<Rightarrow> bytes \<Rightarrow> bytes option mres"
  mk_commit_batch :: "batch \<Rightarrow> 's \<Rightarrow> unit mres \<times> 's"
  mk_root :: "'s \<Rightarrow> bytes"
  mk_sync_target :: "'s \<Rightarrow> sync_point mres"
  mk_serve_sync :: "'s \<Rightarrow> bytes \<Rightarrow> bytes mres"

text \<open>\<open>verify_snapshot_root\<close>: a restored module must recompute the root it was sent.\<close>

definition verify_snapshot_root :: "rstring \<Rightarrow> bytes \<Rightarrow> bytes \<Rightarrow> unit mres" where
  "verify_snapshot_root message actual expected = ensure (actual = expected) (ModuleFault message)"

subsection \<open>The overlay\<close>

type_synonym overlay = "(bytes, bytes option) btree"

record 's staged_store =
  sg_store :: 's
  sg_pending :: overlay

definition staged_new :: "'s \<Rightarrow> 's staged_store" where
  "staged_new st = \<lparr>sg_store = st, sg_pending = []\<rparr>"

definition store_key :: "(bytes \<Rightarrow> bytes) \<Rightarrow> bytes \<Rightarrow> bytes" where
  "store_key H key = H key"

definition staged_get :: "(bytes \<Rightarrow> bytes) \<Rightarrow> 's merkle_ops \<Rightarrow> 's staged_store \<Rightarrow> bytes \<Rightarrow> bytes option mres" where
  "staged_get H ops s key = (case bt_get (sg_pending s) key of
     Some w \<Rightarrow> Inr w
   | None \<Rightarrow> mk_get ops (sg_store s) (store_key H key))"

definition staged_prefetch :: "(bytes \<Rightarrow> bytes) \<Rightarrow> 's merkle_ops \<Rightarrow> 's staged_store \<Rightarrow> bytes list \<Rightarrow> unit mres" where
  "staged_prefetch H ops s ks =
     mk_prefetch ops (sg_store s) (map (store_key H) (filter (\<lambda>key. \<not> bt_has (sg_pending s) key) ks))"

definition staged_get_committed :: "(bytes \<Rightarrow> bytes) \<Rightarrow> 's merkle_ops \<Rightarrow> 's staged_store \<Rightarrow> bytes \<Rightarrow> bytes option mres" where
  "staged_get_committed H ops s key = mk_get_committed ops (sg_store s) (store_key H key)"

definition stage :: "bytes \<Rightarrow> bytes \<Rightarrow> 's staged_store \<Rightarrow> 's staged_store" where
  "stage key v s = s\<lparr>sg_pending := bt_insert key (Some v) (sg_pending s)\<rparr>"

definition staged_delete :: "bytes \<Rightarrow> 's staged_store \<Rightarrow> 's staged_store" where
  "staged_delete key s = s\<lparr>sg_pending := bt_insert key None (sg_pending s)\<rparr>"

definition checkpoint :: "'s staged_store \<Rightarrow> overlay" where
  "checkpoint s = sg_pending s"

definition restore :: "overlay \<Rightarrow> 's staged_store \<Rightarrow> 's staged_store" where
  "restore m s = s\<lparr>sg_pending := m\<rparr>"

definition staged_writes :: "'s staged_store \<Rightarrow> overlay" where
  "staged_writes s = sg_pending s"

definition staged_is_empty :: "'s staged_store \<Rightarrow> bool" where
  "staged_is_empty s \<longleftrightarrow> sg_pending s = []"

definition hashed_batch :: "(bytes \<Rightarrow> bytes) \<Rightarrow> overlay \<Rightarrow> batch" where
  "hashed_batch H m = map (\<lambda>(key, v). (store_key H key, v)) m"

definition staged_commit :: "(bytes \<Rightarrow> bytes) \<Rightarrow> 's merkle_ops \<Rightarrow> 's staged_store \<Rightarrow> unit mres \<times> 's staged_store" where
  "staged_commit H ops s =
     (if sg_pending s = [] then (Inr (), s)
      else (case mk_commit_batch ops (hashed_batch H (sg_pending s)) (sg_store s) of
              (Inl e, st) \<Rightarrow> (Inl e, s\<lparr>sg_store := st\<rparr>)
            | (Inr _, st) \<Rightarrow> (Inr (), \<lparr>sg_store = st, sg_pending = []\<rparr>)))"

definition staged_abort :: "'s staged_store \<Rightarrow> 's staged_store" where
  "staged_abort s = s\<lparr>sg_pending := []\<rparr>"

definition staged_root :: "'s merkle_ops \<Rightarrow> 's staged_store \<Rightarrow> bytes" where
  "staged_root ops s = mk_root ops (sg_store s)"

definition state_sync_handle :: "'s staged_store \<Rightarrow> sync_handle mres" where
  "state_sync_handle s = Inr (ResolverBacked (str ''qmdb'')
     (str ''serve_sync answers qmdb op-range requests (statesync wire)''))"

definition staged_serve_sync :: "'s merkle_ops \<Rightarrow> 's staged_store \<Rightarrow> bytes \<Rightarrow> bytes mres" where
  "staged_serve_sync ops s req = mk_serve_sync ops (sg_store s) req"

definition staged_sync_target :: "'s merkle_ops \<Rightarrow> 's staged_store \<Rightarrow> sync_point mres" where
  "staged_sync_target ops s = mk_sync_target ops (sg_store s)"

subsection \<open>The in-memory store\<close>

type_synonym map_store = "(bytes, bytes) btree"

definition map_get :: "map_store \<Rightarrow> bytes \<Rightarrow> bytes option mres" where
  "map_get m key = Inr (bt_get m key)"

text \<open>The trait's defaults.\<close>

definition map_prefetch :: "map_store \<Rightarrow> bytes list \<Rightarrow> unit mres" where
  "map_prefetch m ks = Inr ()"

definition map_get_committed :: "map_store \<Rightarrow> bytes \<Rightarrow> bytes option mres" where
  "map_get_committed m key = map_get m key"

fun map_commit_batch :: "batch \<Rightarrow> map_store \<Rightarrow> unit mres \<times> map_store" where
  "map_commit_batch [] m = (Inr (), m)"
| "map_commit_batch ((key, v) # ws) m =
     map_commit_batch ws (case v of Some x \<Rightarrow> bt_insert key x m | None \<Rightarrow> bt_remove key m)"

definition map_root :: "(bytes \<Rightarrow> bytes) \<Rightarrow> map_store \<Rightarrow> bytes" where
  "map_root H m = H (encode_pairs m)"

definition map_sync_target :: "map_store \<Rightarrow> sync_point mres" where
  "map_sync_target m = Inl (ModuleFault (str ''MerkleStore::sync_target is unsupported on MemStore''))"

definition map_serve_sync :: "map_store \<Rightarrow> bytes \<Rightarrow> bytes mres" where
  "map_serve_sync m req = Inl (ModuleFault (str ''MerkleStore::serve_sync is unsupported on MemStore''))"

definition map_ops :: "(bytes \<Rightarrow> bytes) \<Rightarrow> map_store merkle_ops" where
  "map_ops H = \<lparr>mk_get = map_get, mk_prefetch = map_prefetch, mk_get_committed = map_get_committed,
     mk_commit_batch = map_commit_batch, mk_root = map_root H, mk_sync_target = map_sync_target,
     mk_serve_sync = map_serve_sync\<rparr>"

subsection \<open>Edits of a block and what they mean\<close>

datatype edit = Stage bytes bytes | Delete bytes

fun run_edit :: "edit \<Rightarrow> 's staged_store \<Rightarrow> 's staged_store" where
  "run_edit (Stage key v) s = stage key v s"
| "run_edit (Delete key) s = staged_delete key s"

text \<open>The value of a logical key after a list of edits on a map of logical keys.\<close>

fun edited :: "edit list \<Rightarrow> bytes \<Rightarrow> bytes option \<Rightarrow> bytes option" where
  "edited [] key old = old"
| "edited (Stage key' v # es) key old = edited es key (if key = key' then Some v else old)"
| "edited (Delete key' # es) key old = edited es key (if key = key' then None else old)"

fun edit_key :: "edit \<Rightarrow> bytes" where
  "edit_key (Stage key v) = key"
| "edit_key (Delete key) = key"

text \<open>What a batch does to a view of the hashed keys.\<close>

fun apply_batch :: "batch \<Rightarrow> (bytes \<Rightarrow> bytes option) \<Rightarrow> bytes \<Rightarrow> bytes option" where
  "apply_batch [] V = V"
| "apply_batch ((key, v) # ws) V = apply_batch ws (V(key := v))"

text \<open>What a read through the overlay sees.\<close>

definition seen :: "(bytes \<Rightarrow> bytes) \<Rightarrow> ('s \<Rightarrow> bytes \<Rightarrow> bytes option) \<Rightarrow> 's staged_store \<Rightarrow> bytes \<Rightarrow> bytes option" where
  "seen H view s key = (case bt_get (sg_pending s) key of Some w \<Rightarrow> w | None \<Rightarrow> view (sg_store s) (store_key H key))"

lemma run_edits_store [simp]: "sg_store (fold run_edit es s) = sg_store s"
proof (induction es arbitrary: s)
  case (Cons e es)
  then show ?case by (cases e) (simp_all add: stage_def staged_delete_def)
qed simp

lemma run_edits_wf: "bt_wf (sg_pending s) \<Longrightarrow> bt_wf (sg_pending (fold run_edit es s))"
proof (induction es arbitrary: s)
  case (Cons e es)
  then show ?case by (cases e) (simp_all add: stage_def staged_delete_def bt_wf_insert)
qed simp

lemma run_edits_keys:
  "fst ` set (sg_pending (fold run_edit es s)) = fst ` set (sg_pending s) \<union> edit_key ` set es"
proof (induction es arbitrary: s)
  case (Cons e es)
  then show ?case by (cases e) (simp_all add: stage_def staged_delete_def keys_bt_insert)
qed simp

lemma seen_run_edits: "seen H view (fold run_edit es s) key = edited es key (seen H view s key)"
proof (induction es arbitrary: s)
  case (Cons e es)
  have "seen H view (run_edit e s) key = edited [e] key (seen H view s key)"
    by (cases e) (simp_all add: seen_def stage_def staged_delete_def bt_get_insert split: option.split)
  then show ?case using Cons [of "run_edit e s"] by (cases e) simp_all
qed simp

lemma apply_batch_other: "key \<notin> fst ` set ws \<Longrightarrow> apply_batch ws V key = V key"
  by (induction ws arbitrary: V) auto

lemma apply_batch_mem: "distinct (map fst ws) \<Longrightarrow> (key, v) \<in> set ws \<Longrightarrow> apply_batch ws V key = v"
proof (induction ws arbitrary: V)
  case (Cons w ws)
  then show ?case
    by (cases w) (force simp: apply_batch_other)
qed simp

text \<open>Committing an overlay under hashed keys writes to each slot what the overlay showed for its
  logical key, as long as no two keys in play hash alike.\<close>

lemma hashed_keys: "map fst (hashed_batch H m) = map H (map fst m)"
  by (simp add: hashed_batch_def comp_def case_prod_beta store_key_def)

lemma hashed_mem: "(key, v) \<in> set m \<Longrightarrow> (store_key H key, v) \<in> set (hashed_batch H m)"
  unfolding hashed_batch_def set_map by (rule image_eqI) auto

lemma apply_overlay:
  assumes wf: "bt_wf m" and inj: "inj_on H (insert key (fst ` set m))"
  shows "apply_batch (hashed_batch H m) V (store_key H key) =
    (case bt_get m key of Some w \<Rightarrow> w | None \<Rightarrow> V (store_key H key))"
proof (cases "bt_get m key")
  case None
  then have absent: "key \<notin> fst ` set m" by (simp add: bt_get_None_iff)
  have "H key \<notin> H ` fst ` set m"
  proof
    assume "H key \<in> H ` fst ` set m"
    then obtain k where "k \<in> fst ` set m" "H key = H k" by blast
    then show False using inj_onD [OF inj, of key k] absent by simp
  qed
  then have "store_key H key \<notin> set (map fst (hashed_batch H m))"
    by (simp add: hashed_keys store_key_def image_image)
  then show ?thesis using None by (simp add: apply_batch_other)
next
  case (Some w)
  have "distinct (map fst (hashed_batch H m))"
    unfolding hashed_keys distinct_map [of H]
    using bt_wf_distinct [OF wf] inj_on_subset [OF inj subset_insertI] by simp
  from apply_batch_mem [OF this hashed_mem [OF bt_get_Some_mem [OF Some]]] show ?thesis
    by (simp add: Some)
qed

subsection \<open>The contract\<close>

locale merkle_store =
  fixes ops :: "'s merkle_ops"
    and view :: "'s \<Rightarrow> bytes \<Rightarrow> bytes option"
    and valid :: "'s \<Rightarrow> bool"
  assumes get_law: "valid st \<Longrightarrow> mk_get ops st key = Inr v \<Longrightarrow> v = view st key"
    and committed_law: "valid st \<Longrightarrow> mk_get_committed ops st key = Inr v \<Longrightarrow> v = view st key"
    and batch_law: "valid st \<Longrightarrow> mk_commit_batch ops ws st = (Inr u, st') \<Longrightarrow>
      valid st' \<and> view st' = apply_batch ws (view st)"
begin

text \<open>Reads through the overlay see the edits of the block, committed reads do not.\<close>

lemma get_seen: "valid (sg_store s) \<Longrightarrow> staged_get H ops s key = Inr v \<Longrightarrow> v = seen H view s key"
  by (auto simp: staged_get_def seen_def split: option.splits dest: get_law)

lemma get_committed_view:
  "valid (sg_store s) \<Longrightarrow> staged_get_committed H ops s key = Inr v \<Longrightarrow> v = view (sg_store s) (store_key H key)"
  by (auto simp: staged_get_committed_def dest: committed_law)

text \<open>A commit that succeeds empties the overlay and changes no read.\<close>

lemma commit_keeps_reads:
  assumes "valid (sg_store s)" "bt_wf (sg_pending s)" "staged_commit H ops s = (Inr u, s')"
  shows "valid (sg_store s')" "sg_pending s' = []"
    and "inj_on H (insert key (fst ` set (sg_pending s))) \<Longrightarrow>
      view (sg_store s') (store_key H key) = seen H view s key"
proof -
  have step: "valid (sg_store s') \<and> sg_pending s' = [] \<and>
    view (sg_store s') = apply_batch (hashed_batch H (sg_pending s)) (view (sg_store s))"
  proof (cases "sg_pending s = []")
    case True
    then show ?thesis using assms by (simp add: staged_commit_def hashed_batch_def)
  next
    case False
    then show ?thesis using assms(3) batch_law [OF assms(1)]
      by (auto simp: staged_commit_def split: prod.splits sum.splits)
  qed
  then show "valid (sg_store s')" "sg_pending s' = []" by simp_all
  assume "inj_on H (insert key (fst ` set (sg_pending s)))"
  then show "view (sg_store s') (store_key H key) = seen H view s key"
    using step apply_overlay [OF assms(2)] by (simp add: seen_def)
qed

lemma block_of_edits:
  assumes "valid (sg_store s)" "sg_pending s = []" "inj_on H (insert key (edit_key ` set es))"
    and "staged_commit H ops (fold run_edit es s) = (Inr u, s')"
  shows "view (sg_store s') (store_key H key) = edited es key (view (sg_store s) (store_key H key))"
proof -
  have "view (sg_store s') (store_key H key) = seen H view (fold run_edit es s) key"
  proof (rule commit_keeps_reads(3) [OF _ _ assms(4)])
    have "fst ` set (sg_pending (fold run_edit es s)) = edit_key ` set es"
      by (simp add: run_edits_keys assms(2))
    then show "inj_on H (insert key (fst ` set (sg_pending (fold run_edit es s))))"
      using assms(3) by argo
  qed (simp_all add: assms run_edits_wf)
  then show ?thesis using assms(2) by (simp add: seen_run_edits) (simp add: seen_def)
qed

end

lemma map_batch_view:
  "bt_wf m \<Longrightarrow> map_commit_batch ws m = (r, m') \<Longrightarrow> bt_wf m' \<and> bt_get m' = apply_batch ws (bt_get m)"
proof (induction ws arbitrary: m)
  case (Cons w ws)
  obtain key v where w: "w = (key, v)" by fastforce
  let ?m = "case v of Some x \<Rightarrow> bt_insert key x m | None \<Rightarrow> bt_remove key m"
  have wf: "bt_wf ?m" using Cons.prems(1) by (simp add: bt_wf_insert bt_wf_remove split: option.split)
  have upd: "bt_get ?m = (bt_get m)(key := v)"
    using Cons.prems(1) by (auto simp: fun_eq_iff bt_get_insert bt_get_remove split: option.split)
  have "map_commit_batch ws ?m = (r, m')" using Cons.prems(2) by (simp add: w)
  from Cons.IH [OF wf this] show ?case unfolding w apply_batch.simps upd .
qed auto

lemma map_get_law: "mk_get (map_ops H) st key = Inr v \<Longrightarrow> v = bt_get st key"
  unfolding map_ops_def merkle_ops.simps map_get_def by (rule sym) (rule sum.inject(2) [THEN iffD1])

lemma map_committed_law: "mk_get_committed (map_ops H) st key = Inr v \<Longrightarrow> v = bt_get st key"
  unfolding map_ops_def merkle_ops.simps map_get_committed_def map_get_def by (rule sym) (rule sum.inject(2) [THEN iffD1])

lemma map_batch_law:
  "bt_wf st \<Longrightarrow> mk_commit_batch (map_ops H) ws st = (Inr u, st') \<Longrightarrow> bt_wf st' \<and> bt_get st' = apply_batch ws (bt_get st)"
  unfolding map_ops_def merkle_ops.simps by (rule map_batch_view)

lemma map_store_contract: "merkle_store (map_ops H) bt_get bt_wf"
proof (rule merkle_store.intro)
  fix st key v assume "mk_get (map_ops H) st key = Inr v"
  then show "v = bt_get st key" by (rule map_get_law)
next
  fix st key v assume "mk_get_committed (map_ops H) st key = Inr v"
  then show "v = bt_get st key" by (rule map_committed_law)
next
  fix st ws u st' assume "bt_wf st" "mk_commit_batch (map_ops H) ws st = (Inr u, st')"
  then show "bt_wf st' \<and> bt_get st' = apply_batch ws (bt_get st)" by (rule map_batch_law)
qed

interpretation mems: merkle_store "map_ops H" bt_get bt_wf for H
  by (rule map_store_contract)

text \<open>The root of the in-memory store commits to the whole map.\<close>

lemma map_root_inj:
  assumes "map_root H m = map_root H m'" "inj_on H {encode_pairs m, encode_pairs m'}" "pairs_fit m" "pairs_fit m'"
  shows "m = m'"
proof (rule encode_pairs_inj [OF _ assms(3,4)])
  show "encode_pairs m = encode_pairs m'"
    using inj_onD [OF assms(2)] assms(1) unfolding map_root_def by blast
qed

end
