(* ===== verification/Blob_Store.thy ===== *)
theory Blob_Store
  imports File_System Text_Format "HOL-Library.Multiset"
begin

text \<open>
  crates/kernel/blobstore/src/lib.rs: the node-local content-addressed byte store. A \<open>BlobStore\<close> keeps
  blobs in a memory map and, when it has a root, in files \<open>root/<hex>\<close>; a blob that is on disk is only
  cached in memory, in a queue that evicts the oldest beyond a byte budget. SHA-256 is the parameter
  \<open>H\<close> and the process id is the parameter \<open>pid\<close>. File calls are those of File_System, so each may fail.

  \<open>blob_ok\<close> is the well-formedness of the memory side. It is kept by every operation whatever the disk
  does. The contract of the trait \<open>Blobs\<close> is the locale \<open>blobs\<close>, interpreted on the two implementors.
\<close>

subsection \<open>State\<close>

definition CACHE_BUDGET_BYTES :: nat where [caps]: "CACHE_BUDGET_BYTES = 64 * 1024 * 1024"
definition LARGE_BLOB_CACHE_BYTES :: nat where [caps]: "LARGE_BLOB_CACHE_BYTES = 4 * 1024 * 1024"

record blob_store =
  bs_chunks :: "bytes \<Rightarrow> bytes option"
  bs_order :: "bytes list"
  bs_cached :: nat
  bs_root :: "fpath option"
  bs_staging :: "bytes set"

definition blob_new :: "fpath option \<Rightarrow> blob_store" where
  "blob_new root = \<lparr>bs_chunks = \<lambda>_. None, bs_order = [], bs_cached = 0, bs_root = root, bs_staging = {}\<rparr>"

text \<open>A first-and-every-hundredth counter for a fault that repeats.\<close>

definition latch_hit :: "u64 \<Rightarrow> u64 option \<times> u64" where
  "latch_hit seen = (let n = seen + 1 in (if n = 1 \<or> n mod 100 = 0 then Some n else None, n))"

definition digest_prefix :: "bytes \<Rightarrow> rstring" where
  "digest_prefix digest = take 16 (to_hex digest)"

subsection \<open>The bounded cache\<close>

fun evict :: "(bytes \<Rightarrow> bytes option) \<Rightarrow> nat \<Rightarrow> bytes list \<Rightarrow> (bytes \<Rightarrow> bytes option) \<times> nat \<times> bytes list" where
  "evict chunks n [] = (chunks, n, [])"
| "evict chunks n (oldest # queue) =
     (if n > CACHE_BUDGET_BYTES
      then (case chunks oldest of
              Some evicted \<Rightarrow> evict (chunks(oldest := None)) (n - length evicted) queue
            | None \<Rightarrow> evict chunks n queue)
      else (chunks, n, oldest # queue))"

definition blob_cache :: "bytes \<Rightarrow> bytes \<Rightarrow> blob_store \<Rightarrow> blob_store" where
  "blob_cache digest bs s =
     (if bs_chunks s digest \<noteq> None then s
      else let (chunks, n, queue) =
             evict ((bs_chunks s)(digest := Some bs)) (bs_cached s + length bs) (bs_order s @ [digest])
           in s\<lparr>bs_chunks := chunks, bs_cached := n, bs_order := queue\<rparr>)"

subsection \<open>Disk\<close>

definition write_through :: "rstring \<Rightarrow> fpath \<Rightarrow> bytes \<Rightarrow> bytes \<Rightarrow> (io_error, unit) io" where
  "write_through pid root digest bs =
     (let tmp = root @ [str ''.tmp-'' @ to_hex digest @ str ''-'' @ pid]; dest = root @ [to_hex digest] in
      iobind (iobind (fs_create tmp) (\<lambda>_. fs_write_all tmp bs)) (\<lambda>_.
      iobind (iotry (fs_rename tmp dest)) (\<lambda>r. case r of
        Inr _ \<Rightarrow> ioret ()
      | Inl e \<Rightarrow> iobind (iotry (fs_remove_file tmp)) (\<lambda>_. iofail e))))"

definition disk_chunk :: "(bytes \<Rightarrow> bytes) \<Rightarrow> bytes \<Rightarrow> blob_store \<Rightarrow> ('e, bytes option) io" where
  "disk_chunk H digest s = (case bs_root s of
     None \<Rightarrow> ioret None
   | Some root \<Rightarrow> iobind (iotry (fs_read (root @ [to_hex digest]))) (\<lambda>r. case r of
       Inl _ \<Rightarrow> ioret None
     | Inr bs \<Rightarrow> ioret (if H bs \<noteq> digest then None else Some bs)))"

subsection \<open>Operations\<close>

definition keep_in_memory :: "bytes \<Rightarrow> bytes \<Rightarrow> blob_store \<Rightarrow> blob_store" where
  "keep_in_memory digest bs s = s\<lparr>bs_chunks := (bs_chunks s)(digest := Some bs)\<rparr>"

definition put_chunk :: "(bytes \<Rightarrow> bytes) \<Rightarrow> rstring \<Rightarrow> bytes \<Rightarrow> blob_store \<Rightarrow> ('e, bytes \<times> blob_store) io" where
  "put_chunk H pid bs s =
     (let digest = H bs in
      case bs_root s of
        None \<Rightarrow> ioret (digest, keep_in_memory digest bs s)
      | Some root \<Rightarrow> iobind (iotry (write_through pid root digest bs)) (\<lambda>r. case r of
          Inr _ \<Rightarrow> ioret (digest, if length bs > LARGE_BLOB_CACHE_BYTES then s else blob_cache digest bs s)
        | Inl _ \<Rightarrow> ioret (digest, keep_in_memory digest bs s)))"

definition get_chunk :: "(bytes \<Rightarrow> bytes) \<Rightarrow> bytes \<Rightarrow> blob_store \<Rightarrow> ('e, bytes option \<times> blob_store) io" where
  "get_chunk H digest s = (case bs_chunks s digest of
     Some bs \<Rightarrow> ioret (Some bs, s)
   | None \<Rightarrow> iobind (disk_chunk H digest s) (\<lambda>r. case r of
       None \<Rightarrow> ioret (None, s)
     | Some bs \<Rightarrow> ioret (Some bs, if length bs \<le> LARGE_BLOB_CACHE_BYTES then blob_cache digest bs s else s)))"

definition chunk_len :: "bytes \<Rightarrow> blob_store \<Rightarrow> ('e, nat option) io" where
  "chunk_len digest s = (case bs_chunks s digest of
     Some bs \<Rightarrow> ioret (Some (length bs))
   | None \<Rightarrow> (case bs_root s of
       None \<Rightarrow> ioret None
     | Some root \<Rightarrow> iobind (iotry (fs_len (root @ [to_hex digest]))) (\<lambda>r. case r of
         Inl _ \<Rightarrow> ioret None
       | Inr n \<Rightarrow> ioret (Some n))))"

text \<open>Seeking and \<open>read_exact\<close> of a window; a file that has become shorter is an error.\<close>

definition fs_read_at :: "fpath \<Rightarrow> nat \<Rightarrow> nat \<Rightarrow> (io_error, bytes) io" where
  "fs_read_at p offset n = call (\<lambda>d. case at_path d p of
     Some (FileE b) \<Rightarrow> (if offset + n \<le> length b then Inr (take n (drop offset b)) else Inl OtherIo, d)
   | Some DirE \<Rightarrow> (Inl OtherIo, d)
   | None \<Rightarrow> (Inl NotFound, d)) untorn"

text \<open>The window of a blob in memory; \<open>saturating_add\<close> never passes the end it is capped at.\<close>

definition window :: "nat \<Rightarrow> nat \<Rightarrow> bytes \<Rightarrow> bytes option" where
  "window offset n bs =
     (if offset > length bs then None else Some (take (min (offset + n) (length bs) - offset) (drop offset bs)))"

definition blob_read_range :: "bytes \<Rightarrow> nat \<Rightarrow> nat \<Rightarrow> blob_store \<Rightarrow> ('e, bytes option) io" where
  "blob_read_range digest offset n s = (case bs_chunks s digest of
     Some bs \<Rightarrow> ioret (window offset n bs)
   | None \<Rightarrow> (case bs_root s of
       None \<Rightarrow> ioret None
     | Some root \<Rightarrow> let path = root @ [to_hex digest] in
         iobind (iotry (iobind (fs_open path) (\<lambda>_. fs_len path))) (\<lambda>r. case r of
           Inl _ \<Rightarrow> ioret None
         | Inr whole \<Rightarrow>
             if offset > whole then ioret None
             else iobind (iotry (fs_read_at path offset (min n (whole - offset)))) (\<lambda>r. case r of
               Inl _ \<Rightarrow> ioret None
             | Inr bs \<Rightarrow> ioret (Some bs)))))"

definition has_chunk :: "bytes \<Rightarrow> blob_store \<Rightarrow> ('e, bool) io" where
  "has_chunk digest s = iobind (chunk_len digest s) (\<lambda>r. ioret (r \<noteq> None))"

text \<open>Only a queued blob was counted. \<open>remove_file\<close> is best-effort.\<close>

definition forget_memory :: "bytes \<Rightarrow> blob_store \<Rightarrow> blob_store" where
  "forget_memory digest s = (case bs_chunks s digest of
     None \<Rightarrow> s
   | Some bs \<Rightarrow>
       let s' = s\<lparr>bs_chunks := (bs_chunks s)(digest := None)\<rparr> in
       if digest \<in> set (bs_order s)
       then s'\<lparr>bs_order := remove1 digest (bs_order s), bs_cached := bs_cached s - length bs\<rparr>
       else s')"

definition forget :: "bytes \<Rightarrow> blob_store \<Rightarrow> ('e, blob_store) io" where
  "forget digest s = (case bs_root s of
     None \<Rightarrow> ioret (forget_memory digest s)
   | Some root \<Rightarrow> iobind (iotry (fs_remove_file (root @ [to_hex digest]))) (\<lambda>_. ioret (forget_memory digest s)))"

definition has_verified_chunk :: "(bytes \<Rightarrow> bytes) \<Rightarrow> bytes \<Rightarrow> blob_store \<Rightarrow> ('e, bool \<times> blob_store) io" where
  "has_verified_chunk H digest s =
     (if bs_chunks s digest \<noteq> None then ioret (True, s)
      else iobind (disk_chunk H digest s) (\<lambda>r.
        if r \<noteq> None then ioret (True, s)
        else iobind (chunk_len digest s) (\<lambda>len.
          if len \<noteq> None then iobind (forget digest s) (\<lambda>s'. ioret (False, s'))
          else ioret (False, s))))"

subsection \<open>The memory side is well-formed\<close>

definition cache_total :: "(bytes \<Rightarrow> bytes option) \<Rightarrow> bytes list \<Rightarrow> nat" where
  "cache_total chunks queue = sum_list (map (\<lambda>d. length (the (chunks d))) queue)"

text \<open>
  Every resident blob hashes to its key; the queue names resident blobs, each once, none above the
  cache's size limit; the counter is the bytes of the queued blobs, within the budget.
\<close>

definition queue_ok :: "(bytes \<Rightarrow> bytes option) \<Rightarrow> nat \<Rightarrow> bytes list \<Rightarrow> bool" where
  "queue_ok chunks n queue \<longleftrightarrow> distinct queue \<and> n = cache_total chunks queue \<and>
     (\<forall>d \<in> set queue. \<exists>b. chunks d = Some b \<and> length b \<le> LARGE_BLOB_CACHE_BYTES)"

definition keyed :: "(bytes \<Rightarrow> bytes) \<Rightarrow> (bytes \<Rightarrow> bytes option) \<Rightarrow> bool" where
  "keyed H chunks \<longleftrightarrow> (\<forall>d b. chunks d = Some b \<longrightarrow> H b = d)"

definition blob_ok :: "(bytes \<Rightarrow> bytes) \<Rightarrow> blob_store \<Rightarrow> bool" where
  "blob_ok H s \<longleftrightarrow> keyed H (bs_chunks s) \<and>
     queue_ok (bs_chunks s) (bs_cached s) (bs_order s) \<and> bs_cached s \<le> CACHE_BUDGET_BYTES"

lemma blob_ok_new: "blob_ok H (blob_new root)"
  by (simp add: blob_ok_def blob_new_def queue_ok_def cache_total_def keyed_def)

lemma keyed_upd: "keyed H chunks \<Longrightarrow> keyed H (chunks(H b := Some b))" "keyed H chunks \<Longrightarrow> keyed H (chunks(d := None))"
  unfolding keyed_def by (metis fun_upd_apply option.sel) (metis fun_upd_apply option.distinct(1))

lemma keyed_sub:
  assumes "keyed H chunks" "chunks' \<subseteq>\<^sub>m chunks"
  shows "keyed H chunks'"
  unfolding keyed_def
proof (intro allI impI)
  fix d b
  assume "chunks' d = Some b"
  moreover from this have "d \<in> dom chunks'" by (rule domI)
  with assms(2) have "chunks' d = chunks d" unfolding map_le_def by (rule bspec)
  ultimately have "chunks d = Some b" by argo
  then show "H b = d" using assms(1) unfolding keyed_def by blast
qed

lemma cache_total_upd: "d \<notin> set queue \<Longrightarrow> cache_total (chunks(d := x)) queue = cache_total chunks queue"
  unfolding cache_total_def by (rule arg_cong [of _ _ sum_list]) (auto intro!: map_cong)

lemma cache_total_Cons: "cache_total chunks (d # queue) = length (the (chunks d)) + cache_total chunks queue"
  by (simp add: cache_total_def)

lemma cache_total_append: "cache_total chunks (p @ q) = cache_total chunks p + cache_total chunks q"
  by (simp add: cache_total_def)

lemma queue_ok_tl:
  assumes "queue_ok chunks n (d # queue)" "chunks d = Some b"
  shows "queue_ok (chunks(d := None)) (n - length b) queue"
  using assms by (auto simp: queue_ok_def cache_total_upd cache_total_Cons)

lemma evict_ok:
  assumes "queue_ok chunks n queue" "evict chunks n queue = (chunks', n', queue')"
  shows "queue_ok chunks' n' queue' \<and> n' \<le> CACHE_BUDGET_BYTES \<and> chunks' \<subseteq>\<^sub>m chunks \<and>
    (\<forall>d. d \<notin> set queue \<longrightarrow> chunks' d = chunks d)"
  using assms
proof (induction chunks n queue rule: evict.induct)
  case (1 chunks n)
  then show ?case by (simp add: queue_ok_def cache_total_def)
next
  case (2 chunks n oldest queue)
  obtain b where b: "chunks oldest = Some b" using 2(3) by (auto simp: queue_ok_def)
  show ?case
  proof (cases "n > CACHE_BUDGET_BYTES")
    case True
    then have "evict (chunks(oldest := None)) (n - length b) queue = (chunks', n', queue')"
      using 2(4) b by simp
    note ih = 2(2) [OF True b queue_ok_tl [OF 2(3) b] this]
    have "chunks' \<subseteq>\<^sub>m chunks"
      by (rule map_le_trans [OF _ upd_None_map_le]) (use ih in \<open>rule conjunct1 [OF conjunct2 [OF conjunct2]]\<close>)
    moreover have "chunks' d = chunks d" if "d \<notin> set (oldest # queue)" for d
    proof -
      have "chunks' d = (chunks(oldest := None)) d" using ih that unfolding set_simps by blast
      then show ?thesis using that by simp
    qed
    ultimately show ?thesis using ih by blast
  next
    case False
    then have "chunks' = chunks \<and> n' = n \<and> queue' = oldest # queue" using 2(4) by simp
    then show ?thesis using 2(3) False by simp
  qed
qed

text \<open>The blob just cached is never the one evicted: it is last in the queue and fits on its own.\<close>

lemma evict_last:
  assumes "queue_ok chunks n (queue @ [d])" "evict chunks n (queue @ [d]) = (chunks', n', queue')"
  shows "chunks' d = chunks d"
  using assms
proof (induction queue arbitrary: chunks n)
  case Nil
  then obtain b where "chunks d = Some b" "n = length b" "length b \<le> LARGE_BLOB_CACHE_BYTES"
    by (auto simp: queue_ok_def cache_total_def)
  then show ?case using Nil(2) by (auto simp: caps split: if_splits)
next
  case (Cons a queue)
  obtain b where b: "chunks a = Some b" using Cons(2) by (auto simp: queue_ok_def)
  show ?case
  proof (cases "n > CACHE_BUDGET_BYTES")
    case True
    then have ev: "evict (chunks(a := None)) (n - length b) (queue @ [d]) = (chunks', n', queue')"
      using Cons(3) b by simp
    have "queue_ok chunks n (a # (queue @ [d]))" using Cons(2) by simp
    from Cons.IH [OF queue_ok_tl [OF this b] ev] show ?thesis using Cons(2) by (auto simp: queue_ok_def)
  next
    case False
    then show ?thesis using Cons(3) by auto
  qed
qed

text \<open>Blobs whose only copy is memory are the resident ones outside the queue.\<close>

definition memory_only :: "blob_store \<Rightarrow> bytes \<Rightarrow> bytes \<Rightarrow> bool" where
  "memory_only s d b \<longleftrightarrow> bs_chunks s d = Some b \<and> d \<notin> set (bs_order s)"

lemma evict_queue: "evict chunks n queue = (chunks', n', queue') \<Longrightarrow> set queue' \<subseteq> set queue"
  by (induction chunks n queue rule: evict.induct) (auto split: if_splits option.splits)

lemma blob_cache_ok:
  assumes ok: "blob_ok H s" and b: "H bs = d" "length bs \<le> LARGE_BLOB_CACHE_BYTES"
  shows "blob_ok H (blob_cache d bs s)"
    and "bs_chunks (blob_cache d bs s) d \<noteq> None"
    and "memory_only s k x \<Longrightarrow> memory_only (blob_cache d bs s) k x"
    and "bs_root (blob_cache d bs s) = bs_root s" "bs_staging (blob_cache d bs s) = bs_staging s"
proof -
  define chunks where "chunks = (bs_chunks s)(d := Some bs)"
  obtain c n q where ev: "evict chunks (bs_cached s + length bs) (bs_order s @ [d]) = (c, n, q)"
    by (metis prod_cases3)
  have "blob_ok H (blob_cache d bs s) \<and> bs_chunks (blob_cache d bs s) d \<noteq> None \<and>
    (memory_only s k x \<longrightarrow> memory_only (blob_cache d bs s) k x) \<and>
    bs_root (blob_cache d bs s) = bs_root s \<and> bs_staging (blob_cache d bs s) = bs_staging s" for k x
  proof (cases "bs_chunks s d = None")
    case False
    then show ?thesis using ok by (simp add: blob_cache_def)
  next
    case True
    then have eq: "blob_cache d bs s = s\<lparr>bs_chunks := c, bs_cached := n, bs_order := q\<rparr>"
      using ev by (simp add: blob_cache_def chunks_def)
    have fresh: "d \<notin> set (bs_order s)" using ok True by (auto simp: blob_ok_def queue_ok_def)
    have "cache_total chunks (bs_order s @ [d]) = bs_cached s + length bs"
      using ok fresh unfolding cache_total_append chunks_def cache_total_upd [OF fresh]
      by (simp add: blob_ok_def queue_ok_def cache_total_def)
    then have "queue_ok chunks (bs_cached s + length bs) (bs_order s @ [d])"
      using ok b(2) fresh by (auto simp: blob_ok_def queue_ok_def chunks_def)
    note out = evict_ok [OF this ev] evict_last [OF this ev] evict_queue [OF ev]
    have "keyed H chunks" unfolding chunks_def b(1) [symmetric] by (rule keyed_upd) (use ok in \<open>simp add: blob_ok_def\<close>)
    then have "keyed H c" using keyed_sub out(1) by blast
    then have "blob_ok H (blob_cache d bs s)" using out(1) by (simp add: eq blob_ok_def)
    moreover have "memory_only (blob_cache d bs s) k x" if "memory_only s k x"
    proof -
      have "k \<noteq> d" "k \<notin> set (bs_order s)" "bs_chunks s k = Some x"
        using that True by (auto simp: memory_only_def)
      then show ?thesis using out(1,3) by (auto simp: memory_only_def eq chunks_def)
    qed
    ultimately show ?thesis using out(2) by (simp add: eq chunks_def)
  qed
  then show "blob_ok H (blob_cache d bs s)" "bs_chunks (blob_cache d bs s) d \<noteq> None"
    "memory_only s k x \<Longrightarrow> memory_only (blob_cache d bs s) k x"
    "bs_root (blob_cache d bs s) = bs_root s" "bs_staging (blob_cache d bs s) = bs_staging s"
    by blast+
qed

text \<open>Collision resistance, as it is used: a resident blob with the digest of another is that blob.\<close>

definition no_clash :: "(bytes \<Rightarrow> bytes) \<Rightarrow> blob_store \<Rightarrow> bytes \<Rightarrow> bool" where
  "no_clash H s bs \<longleftrightarrow> (\<forall>b. bs_chunks s (H bs) = Some b \<longrightarrow> b = bs)"

lemma keep_in_memory_ok:
  assumes ok: "blob_ok H s" and "no_clash H s bs"
  shows "blob_ok H (keep_in_memory (H bs) bs s)"
proof (cases "H bs \<in> set (bs_order s)")
  case True
  then have "bs_chunks s (H bs) = Some bs" using assms by (auto simp: blob_ok_def queue_ok_def no_clash_def)
  then have "keep_in_memory (H bs) bs s = s" by (simp add: keep_in_memory_def fun_upd_idem)
  then show ?thesis using ok by simp
next
  case False
  then show ?thesis using ok keyed_upd(1) [of H "bs_chunks s" bs]
    by (auto simp: keep_in_memory_def blob_ok_def queue_ok_def cache_total_upd)
qed

lemma queue_ok_perm:
  assumes "mset p = mset q"
  shows "queue_ok chunks n p = queue_ok chunks n q"
proof -
  have "cache_total chunks p = cache_total chunks q"
    unfolding cache_total_def sum_mset_sum_list [symmetric] mset_map assms ..
  then show ?thesis
    using mset_eq_setD [OF assms] mset_eq_imp_distinct_iff [OF assms] by (simp add: queue_ok_def)
qed

lemma forget_memory_ok:
  assumes ok: "blob_ok H s"
  shows "blob_ok H (forget_memory d s)" "bs_chunks (forget_memory d s) d = None"
    and "k \<noteq> d \<Longrightarrow> bs_chunks (forget_memory d s) k = bs_chunks s k"
proof -
  have "blob_ok H (forget_memory d s)"
  proof (cases "d \<in> set (bs_order s)")
    case True
    then obtain b where b: "bs_chunks s d = Some b" using ok by (auto simp: blob_ok_def queue_ok_def)
    have perm: "mset (d # remove1 d (bs_order s)) = mset (bs_order s)" using True by simp
    have "queue_ok (bs_chunks s) (bs_cached s) (d # remove1 d (bs_order s))"
      unfolding queue_ok_perm [OF perm] using ok by (simp add: blob_ok_def)
    from queue_ok_tl [OF this b] have "queue_ok ((bs_chunks s)(d := None)) (bs_cached s - length b) (remove1 d (bs_order s))" .
    then show ?thesis using ok True b keyed_upd(2) [of H "bs_chunks s" d]
      by (simp add: forget_memory_def Let_def blob_ok_def le_diff_conv)
  next
    case False
    have "queue_ok ((bs_chunks s)(d := None)) (bs_cached s) (bs_order s)"
      using ok False unfolding blob_ok_def queue_ok_def cache_total_upd [OF False] by auto
    then show ?thesis using ok False keyed_upd(2) [of H "bs_chunks s" d]
      by (simp add: forget_memory_def blob_ok_def split: option.split)
  qed
  then show "blob_ok H (forget_memory d s)" .
qed (auto simp: forget_memory_def Let_def split: option.splits)

subsection \<open>What every operation keeps\<close>

text \<open>An operation that cannot fail, and what its result satisfies whatever the calls do.\<close>

definition yields :: "('e, 'a) io \<Rightarrow> ('a \<Rightarrow> bool) \<Rightarrow> bool" where
  "yields m Q \<longleftrightarrow> (\<forall>d. \<exists>x d'. m d = (Inr x, d') \<and> Q x)"

lemma yields_ret: "Q x \<Longrightarrow> yields (ioret x) Q"
  by (simp add: yields_def ioret_def)

lemma yields_bind:
  assumes "yields m R" "\<And>x. R x \<Longrightarrow> yields (f x) Q"
  shows "yields (iobind m f) Q"
  unfolding yields_def
proof
  fix d
  obtain x d1 where "m d = (Inr x, d1)" "R x" using assms(1) unfolding yields_def by blast
  then show "\<exists>x d'. iobind m f d = (Inr x, d') \<and> Q x"
    using assms(2) unfolding yields_def by (simp add: iobind_def)
qed

lemma yields_try: "yields (iotry m) (\<lambda>_. True)"
  by (simp add: yields_def iotry_def split: prod.split)

lemma yields_try_bind: "(\<And>r. yields (f r) Q) \<Longrightarrow> yields (iobind (iotry m) f) Q"
  by (rule yields_bind [OF yields_try])

lemma yieldsD: "yields m Q \<Longrightarrow> m d = (Inr x, d') \<Longrightarrow> Q x"
  unfolding yields_def by (metis fst_conv sum.inject(2))

lemma yields_some: "yields m Q \<Longrightarrow> \<exists>x d'. m d = (Inr x, d')"
  unfolding yields_def by blast

lemma yields_weaken: "yields m Q \<Longrightarrow> (\<And>x. Q x \<Longrightarrow> R x) \<Longrightarrow> yields m R"
  unfolding yields_def by blast

lemma disk_chunk_yields: "yields (disk_chunk H d s) (\<lambda>r. \<forall>b. r = Some b \<longrightarrow> H b = d)"
  unfolding disk_chunk_def
  by (auto intro!: yields_ret yields_try_bind split: option.split sum.split)

definition same_slots :: "blob_store \<Rightarrow> blob_store \<Rightarrow> bool" where
  "same_slots s s' \<longleftrightarrow> bs_root s' = bs_root s \<and> bs_staging s' = bs_staging s"

lemma same_slots_refl [simp]: "same_slots s s" "same_slots s (keep_in_memory d b s)" "same_slots s (forget_memory d s)"
  by (auto simp: same_slots_def keep_in_memory_def forget_memory_def Let_def split: option.split)

lemma put_chunk_yields:
  assumes "blob_ok H s" "no_clash H s b"
  shows "yields (put_chunk H pid b s) (\<lambda>(d, s'). d = H b \<and> blob_ok H s' \<and> same_slots s s')"
proof -
  have mem: "blob_ok H (keep_in_memory (H b) b s)" by (rule keep_in_memory_ok [OF assms])
  have cached: "blob_ok H (blob_cache (H b) b s) \<and> same_slots s (blob_cache (H b) b s)" if "\<not> length b > LARGE_BLOB_CACHE_BYTES"
    using blob_cache_ok [OF assms(1) refl, of b] that by (simp add: same_slots_def)
  show ?thesis
    unfolding put_chunk_def Let_def
    using mem cached assms(1) by (auto intro!: yields_ret yields_try_bind split: option.split sum.split)
qed

lemma get_chunk_yields:
  assumes "blob_ok H s"
  shows "yields (get_chunk H d s) (\<lambda>(r, s'). blob_ok H s' \<and> same_slots s s' \<and> (\<forall>b. r = Some b \<longrightarrow> H b = d))"
proof (cases "bs_chunks s d")
  case None
  have "blob_ok H (blob_cache d b s) \<and> same_slots s (blob_cache d b s)"
    if "H b = d" "length b \<le> LARGE_BLOB_CACHE_BYTES" for b
    using blob_cache_ok [OF assms that] by (simp add: same_slots_def)
  then show ?thesis
    unfolding get_chunk_def None option.case
    by (intro yields_bind [OF disk_chunk_yields]) (use assms in \<open>auto intro!: yields_ret split: option.split\<close>)
next
  case (Some b)
  then have "H b = d" using assms unfolding blob_ok_def keyed_def by blast
  then show ?thesis unfolding get_chunk_def Some option.case by (intro yields_ret) (simp add: assms)
qed

lemma chunk_len_yields: "yields (chunk_len d s) (\<lambda>_. True)"
  unfolding chunk_len_def by (auto intro!: yields_ret yields_try_bind split: option.split sum.split)

lemma forget_yields:
  assumes "blob_ok H s"
  shows "yields (forget d s) (\<lambda>s'. blob_ok H s' \<and> same_slots s s')"
  unfolding forget_def using forget_memory_ok(1) [OF assms]
  by (auto intro!: yields_ret yields_try_bind split: option.split)

lemma has_verified_yields:
  assumes "blob_ok H s"
  shows "yields (has_verified_chunk H d s) (\<lambda>(r, s'). blob_ok H s' \<and> same_slots s s')"
proof -
  have "yields (iobind (forget d s) (\<lambda>s'. ioret (False, s'))) (\<lambda>(r, s'). blob_ok H s' \<and> same_slots s s')"
    by (rule yields_bind [OF forget_yields [OF assms]]) (auto intro: yields_ret)
  then show ?thesis
    unfolding has_verified_chunk_def using assms
    by (auto intro!: yields_ret yields_bind [OF disk_chunk_yields] yields_bind [OF chunk_len_yields])
qed

subsection \<open>A window is cut from the blob it names\<close>

text \<open>The bytes a store holds under a digest, verified or not: the resident blob, else the file's.\<close>

definition kept_blob :: "bytes \<Rightarrow> blob_store \<Rightarrow> disk \<Rightarrow> bytes option" where
  "kept_blob digest s d = (case bs_chunks s digest of
     Some b \<Rightarrow> Some b
   | None \<Rightarrow> (case bs_root s of
       None \<Rightarrow> None
     | Some root \<Rightarrow> (case at_path d (root @ [to_hex digest]) of Some (FileE b) \<Rightarrow> Some b | _ \<Rightarrow> None)))"

lemma call_quiet:
  assumes "\<And>e. snd (act e) = e" "\<And>e os. fst (act (e\<lparr>d_plan := os\<rparr>)) = fst (act e)"
  shows "at_path (snd (call act untorn d)) p = at_path d p"
    and "fst (call act untorn d) = Inr x \<Longrightarrow> fst (act d) = Inr x"
  using assms by (auto simp: call_def at_path_def split: list.splits outcome.splits)

lemma at_path_plan [simp]: "at_path (d\<lparr>d_plan := os\<rparr>) p = at_path d p"
  by (simp add: at_path_def)

lemma quiet_reads:
  "at_path (snd (fs_open p d)) q = at_path d q" "at_path (snd (fs_len p d)) q = at_path d q"
  "at_path (snd (fs_read_at p a n d)) q = at_path d q" "at_path (snd (fs_read p d)) q = at_path d q"
  unfolding fs_open_def fs_len_def fs_read_at_def fs_read_def
  by (rule call_quiet(1); simp split: option.split entry.split)+

lemma len_holds: "fs_len p d = (Inr n, d') \<Longrightarrow> \<exists>b. at_path d p = Some (FileE b) \<and> length b = n"
  by (auto simp: fs_len_def call_def split: list.splits outcome.splits option.splits entry.splits)

lemma read_at_holds: "fs_read_at p a n d = (Inr w, d') \<Longrightarrow> at_path d p = Some (FileE b) \<Longrightarrow> w = take n (drop a b)"
  by (auto simp: fs_read_at_def call_def split: list.splits outcome.splits if_splits)

lemma try_cases:
  assumes "iobind (iotry m) f d = (r, d')"
  obtains x d1 where "m d = (x, d1)" "f x d1 = (r, d')"
  using assms by (cases "m d") (simp add: iobind_def iotry_def)

lemma range_is_window:
  assumes "blob_read_range digest a n s d = (Inr (Some w) :: io_error + bytes option, d')"
  shows "\<exists>b. kept_blob digest s d = Some b \<and> window a n b = Some w"
proof (cases "bs_chunks s digest")
  case (Some b)
  then show ?thesis using assms by (simp add: blob_read_range_def kept_blob_def ioret_def)
next
  case None
  then obtain root where root: "bs_root s = Some root"
    using assms by (auto simp: blob_read_range_def ioret_def split: option.splits)
  define path where "path = root @ [to_hex digest]"
  have run: "blob_read_range digest a n s d =
    iobind (iotry (iobind (fs_open path) (\<lambda>_. fs_len path))) (\<lambda>x. case x of Inl _ \<Rightarrow> (ioret None :: (io_error, bytes option) io)
      | Inr whole \<Rightarrow> if a > whole then ioret None
        else iobind (iotry (fs_read_at path a (min n (whole - a)))) (\<lambda>r. case r of Inl _ \<Rightarrow> ioret None | Inr bs \<Rightarrow> ioret (Some bs))) d"
    unfolding path_def using None root by (simp add: blob_read_range_def Let_def)
  obtain x d1 where x: "iobind (fs_open path) (\<lambda>_. fs_len path) d = (x, d1)"
    and rest: "(case x of Inl _ \<Rightarrow> ioret None | Inr whole \<Rightarrow> if a > whole then ioret None
      else iobind (iotry (fs_read_at path a (min n (whole - a)))) (\<lambda>r. case r of Inl _ \<Rightarrow> ioret None | Inr bs \<Rightarrow> ioret (Some bs))) d1
      = (Inr (Some w) :: io_error + bytes option, d')"
    using assms unfolding run by (rule try_cases)
  obtain whole where whole: "x = Inr whole" "\<not> a > whole"
    using rest by (auto simp: ioret_def split: sum.splits if_splits)
  obtain u d0 where opened: "fs_open path d = (Inr u, d0)" "fs_len path d0 = (Inr whole, d1)"
    using x whole(1) by (auto simp: iobind_def split: prod.splits sum.splits)
  have same: "at_path d0 path = at_path d path" "at_path d1 path = at_path d path"
    using quiet_reads(1) [of path d path] quiet_reads(2) [of path d0 path] opened by simp_all
  obtain b where b: "at_path d path = Some (FileE b)" "length b = whole"
    using len_holds [OF opened(2)] same by auto
  have "iobind (iotry (fs_read_at path a (min n (whole - a)))) (\<lambda>r. case r of Inl _ \<Rightarrow> ioret None | Inr bs \<Rightarrow> ioret (Some bs)) d1
      = (Inr (Some w) :: io_error + bytes option, d')"
    using rest whole by simp
  then obtain y d2 where y: "fs_read_at path a (min n (whole - a)) d1 = (y, d2)"
      "(case y of Inl _ \<Rightarrow> ioret None | Inr bs \<Rightarrow> ioret (Some bs)) d2 = (Inr (Some w) :: io_error + bytes option, d')"
    by (rule try_cases)
  then have "y = Inr w" by (auto simp: ioret_def split: sum.splits)
  then have "w = take (min n (whole - a)) (drop a b)"
    using read_at_holds y(1) same(2) b(1) by simp
  moreover have "min (a + n) whole - a = min n (whole - a)" using whole(2) by linarith
  ultimately have "window a n b = Some w" using b(2) whole(2) by (simp add: window_def)
  then show ?thesis using None root b(1) by (simp add: kept_blob_def path_def)
qed

subsection \<open>The trait and its two implementors\<close>

record 's blobs_ops =
  bl_put :: "bytes \<Rightarrow> 's \<Rightarrow> bytes \<times> 's"
  bl_get :: "bytes \<Rightarrow> 's \<Rightarrow> bytes option \<times> 's"
  bl_has :: "bytes \<Rightarrow> 's \<Rightarrow> bool \<times> 's"
  bl_len :: "bytes \<Rightarrow> 's \<Rightarrow> nat option \<times> 's"
  bl_range :: "bytes \<Rightarrow> nat \<Rightarrow> nat \<Rightarrow> 's \<Rightarrow> bytes option \<times> 's"

text \<open>\<open>BlobHandle\<close>: each method runs its operation under the lock. The operations cannot fail.\<close>

type_synonym blob_handle = "blob_store \<times> disk"

definition locked :: "(blob_store \<Rightarrow> (io_error, 'a \<times> blob_store) io) \<Rightarrow> 'a \<Rightarrow> blob_handle \<Rightarrow> 'a \<times> blob_handle" where
  "locked m unreachable h = (case m (fst h) (snd h) of
     (Inr (x, s), d) \<Rightarrow> (x, (s, d))
   | (Inl _, d) \<Rightarrow> (unreachable, (fst h, d)))"

definition shared :: "(blob_store \<Rightarrow> (io_error, 'a) io) \<Rightarrow> 'a \<Rightarrow> blob_handle \<Rightarrow> 'a \<times> blob_handle" where
  "shared m unreachable = locked (\<lambda>s. iobind (m s) (\<lambda>x. ioret (x, s))) unreachable"

definition handle_ops :: "(bytes \<Rightarrow> bytes) \<Rightarrow> rstring \<Rightarrow> blob_handle blobs_ops" where
  "handle_ops H pid = \<lparr>bl_put = \<lambda>b. locked (put_chunk H pid b) [], bl_get = \<lambda>d. locked (get_chunk H d) None,
     bl_has = \<lambda>d. shared (has_chunk d) False, bl_len = \<lambda>d. shared (chunk_len d) None,
     bl_range = \<lambda>d a n. shared (blob_read_range d a n) None\<rparr>"

text \<open>\<open>MemBlobs\<close>, the arm for simulations.\<close>

type_synonym mem_blobs = "(bytes, bytes) btree"

definition sim_put :: "(bytes \<Rightarrow> bytes) \<Rightarrow> bytes \<Rightarrow> mem_blobs \<Rightarrow> bytes \<times> mem_blobs" where
  "sim_put H b m = (H b, bt_insert (H b) b m)"

definition sim_get :: "bytes \<Rightarrow> mem_blobs \<Rightarrow> bytes option \<times> mem_blobs" where
  "sim_get d m = (bt_get m d, m)"

definition sim_has :: "bytes \<Rightarrow> mem_blobs \<Rightarrow> bool \<times> mem_blobs" where
  "sim_has d m = (bt_has m d, m)"

definition sim_len :: "bytes \<Rightarrow> mem_blobs \<Rightarrow> nat option \<times> mem_blobs" where
  "sim_len d m = (map_option length (bt_get m d), m)"

definition sim_range :: "bytes \<Rightarrow> nat \<Rightarrow> nat \<Rightarrow> mem_blobs \<Rightarrow> bytes option \<times> mem_blobs" where
  "sim_range d a n m = (Option.bind (bt_get m d) (window a n), m)"

definition sim_ops :: "(bytes \<Rightarrow> bytes) \<Rightarrow> mem_blobs blobs_ops" where
  "sim_ops H = \<lparr>bl_put = sim_put H, bl_get = sim_get, bl_has = sim_has, bl_len = sim_len, bl_range = sim_range\<rparr>"

text \<open>
  What a user of a blob store relies on: a put answers with the digest, a get answers with bytes of the
  digest it was asked for. \<open>clear\<close> says that no blob the store holds collides with the one put.
\<close>

locale blobs =
  fixes H :: "bytes \<Rightarrow> bytes"
    and ops :: "'s blobs_ops"
    and valid :: "'s \<Rightarrow> bool"
    and clear :: "'s \<Rightarrow> bytes \<Rightarrow> bool"
  assumes put_law: "valid s \<Longrightarrow> clear s b \<Longrightarrow> bl_put ops b s = (d, s') \<Longrightarrow> d = H b \<and> valid s'"
    and get_law: "valid s \<Longrightarrow> bl_get ops d s = (r, s') \<Longrightarrow> valid s' \<and> (\<forall>b. r = Some b \<longrightarrow> H b = d)"
begin

text \<open>Whatever happens between, a get by the digest a put returned gives the bytes that were put or a miss.\<close>

lemma get_by_digest:
  assumes "valid s" "clear s b" "bl_put ops b s = (d, s')" and "valid t" "bl_get ops d t = (Some x, t')"
    and "inj_on H {b, x}"
  shows "x = b"
  using put_law [OF assms(1-3)] get_law [OF assms(4,5)] inj_onD [OF assms(6), of x b] by simp

end

lemma locked_run:
  assumes "yields (m (fst h)) Q" "locked m u h = (x, h')"
  shows "Q (x, fst h')"
proof -
  obtain y d where m: "m (fst h) (snd h) = (Inr y, d)" "Q y"
    using assms(1) unfolding yields_def by blast
  then show ?thesis using assms(2) by (cases y) (auto simp: locked_def)
qed

interpretation handle: blobs H "handle_ops H pid" "\<lambda>h. blob_ok H (fst h)" "\<lambda>h. no_clash H (fst h)" for H pid
proof
  fix h b d h'
  assume "blob_ok H (fst h)" "no_clash H (fst h) b" "bl_put (handle_ops H pid) b h = (d, h')"
  then show "d = H b \<and> blob_ok H (fst h')"
    using locked_run [OF put_chunk_yields] by (fastforce simp: handle_ops_def)
next
  fix h d r h'
  assume "blob_ok H (fst h)" "bl_get (handle_ops H pid) d h = (r, h')"
  then show "blob_ok H (fst h') \<and> (\<forall>b. r = Some b \<longrightarrow> H b = d)"
    using locked_run [OF get_chunk_yields] by (fastforce simp: handle_ops_def)
qed

interpretation sim: blobs H "sim_ops H" "\<lambda>m. keyed H (bt_get m)" "\<lambda>_ _. True" for H
proof
  fix m b d m'
  assume "keyed H (bt_get m)" "bl_put (sim_ops H) b m = (d, m')"
  moreover have "bt_get (bt_insert (H b) b m) = (bt_get m)(H b := Some b)" by (simp add: fun_eq_iff bt_get_insert)
  ultimately show "d = H b \<and> keyed H (bt_get m')"
    using keyed_upd(1) by (auto simp: sim_ops_def sim_put_def)
next
  fix m d r m'
  assume "keyed H (bt_get m)" "bl_get (sim_ops H) d m = (r, m')"
  then show "keyed H (bt_get m') \<and> (\<forall>b. r = Some b \<longrightarrow> H b = d)"
    unfolding sim_ops_def blobs_ops.simps sim_get_def keyed_def by blast
qed

end
