(* ===== verification/Blob_Staging.thy ===== *)
theory Blob_Staging
  imports Blob_Store
begin

text \<open>
  crates/kernel/blobstore/src/staging.rs: landing a large blob on disk without holding it in memory. A
  \<open>StagedBlob\<close> is the writer of the file \<open>root/staging/<hex>\<close> for one declared digest and length, and
  the set \<open>bs_staging\<close> of the store lets one writer per digest in. An \<open>IngestBlob\<close> takes bytes whose
  digest is not known before they end: sealing hashes the file, publishing renames it. An open file is
  its path, a writer appends at the end of it; the id, clock and counter in the name of an ingest are the
  parameter \<open>name\<close>. Lengths are natural numbers: no file and no buffer reaches \<open>2 ^ 63\<close> bytes, so
  \<open>written + bytes.len()\<close> does not wrap.

  Dropping a claim is written where the value goes out of scope: \<open>finish\<close> and \<open>abort\<close> consume the
  writer, \<open>drop_staged\<close> is the writer's task dying.
\<close>

subsection \<open>Calls\<close>

text \<open>Opening for writing without truncation, creating the file when it is missing; \<open>create_new\<close>;
  \<open>set_len(0)\<close>.\<close>

definition fresh_file :: "fpath \<Rightarrow> disk \<Rightarrow> disk" where
  "fresh_file p d = put_entry p (FileE []) UNIV (d\<lparr>d_unsynced := insert p (d_unsynced d)\<rparr>)"

definition fs_open_write :: "fpath \<Rightarrow> (io_error, unit) io" where
  "fs_open_write p = call (\<lambda>d.
     if \<not> is_dir d (butlast p) then (Inl NotFound, d)
     else (case at_path d p of
       None \<Rightarrow> (Inr (), fresh_file p d)
     | Some (FileE _) \<Rightarrow> (Inr (), d)
     | Some DirE \<Rightarrow> (Inl OtherIo, d))) untorn"

definition fs_create_new :: "fpath \<Rightarrow> (io_error, unit) io" where
  "fs_create_new p = call (\<lambda>d.
     if \<not> is_dir d (butlast p) then (Inl NotFound, d)
     else if at_path d p \<noteq> None then (Inl AlreadyExists, d)
     else (Inr (), fresh_file p d)) untorn"

definition fs_truncate :: "fpath \<Rightarrow> (io_error, unit) io" where
  "fs_truncate p = call (\<lambda>d. (Inr (), fresh_file p d)) untorn"

definition fs_is_file :: "fpath \<Rightarrow> (io_error, bool) io" where
  "fs_is_file p = call (\<lambda>d. case at_path d p of
     None \<Rightarrow> (Inl NotFound, d)
   | Some e \<Rightarrow> (Inr (e \<noteq> DirE), d)) untorn"

subsection \<open>Data\<close>

definition STAGING_RESUME_WINDOW :: nat where "STAGING_RESUME_WINDOW = 600"

datatype stage_error =
    StageLength nat nat
  | HashMismatch
  | AlreadyStaging
  | StageIo io_error

datatype sink = DiskSink fpath | MemorySink bytes

record staged_blob =
  st_digest :: bytes
  st_expected :: nat
  st_written :: nat
  st_sink :: sink

text \<open>\<open>?\<close> on an \<open>io::Result\<close>, through \<open>From<io::Error>\<close>.\<close>

definition stage_io :: "(io_error, 'a) io \<Rightarrow> (stage_error, 'a) io" where
  "stage_io m = iobind (iotry m) (\<lambda>r. case r of Inl e \<Rightarrow> iofail (StageIo e) | Inr x \<Rightarrow> ioret x)"

definition staging_dir :: "fpath \<Rightarrow> fpath" where
  "staging_dir root = root @ [str ''staging'']"

definition staging_path :: "fpath \<Rightarrow> bytes \<Rightarrow> fpath" where
  "staging_path root digest = staging_dir root @ [to_hex digest]"

subsection \<open>The claim\<close>

definition claim_staging :: "bytes \<Rightarrow> blob_store \<Rightarrow> bool \<times> blob_store" where
  "claim_staging digest s = (digest \<notin> bs_staging s, s\<lparr>bs_staging := insert digest (bs_staging s)\<rparr>)"

definition release_staging :: "bytes \<Rightarrow> blob_store \<Rightarrow> blob_store" where
  "release_staging digest s = s\<lparr>bs_staging := bs_staging s - {digest}\<rparr>"

definition staged_names :: "blob_store \<Rightarrow> rstring set" where
  "staged_names s = to_hex ` bs_staging s"

definition publish_staged :: "fpath \<Rightarrow> bytes \<Rightarrow> fpath \<Rightarrow> (io_error, unit) io" where
  "publish_staged root digest staged = fs_rename staged (root @ [to_hex digest])"

subsection \<open>A staged blob\<close>

definition open_slot :: "fpath option \<Rightarrow> bytes \<Rightarrow> nat \<Rightarrow> (stage_error, sink \<times> nat) io" where
  "open_slot root digest len = (case root of
     None \<Rightarrow> ioret (MemorySink [], 0)
   | Some root \<Rightarrow> let path = staging_path root digest in
       stage_io (
         iobind (fs_create_dir_all (staging_dir root)) (\<lambda>_.
         iobind (fs_open_write path) (\<lambda>_.
         iobind (fs_len path) (\<lambda>existing.
         if existing > len then iobind (fs_truncate path) (\<lambda>_. ioret (DiskSink path, 0))
         else ioret (DiskSink path, existing))))))"

definition stage_blob :: "bytes \<Rightarrow> nat \<Rightarrow> blob_store \<Rightarrow> (io_error, (stage_error + staged_blob) \<times> blob_store) io" where
  "stage_blob digest len s = (case claim_staging digest s of
     (False, s) \<Rightarrow> ioret (Inl AlreadyStaging, s)
   | (True, s) \<Rightarrow> iobind (iotry (open_slot (bs_root s) digest len)) (\<lambda>r. case r of
       Inl e \<Rightarrow> ioret (Inl e, release_staging digest s)
     | Inr (sink, written) \<Rightarrow>
         ioret (Inr \<lparr>st_digest = digest, st_expected = len, st_written = written, st_sink = sink\<rparr>, s)))"

definition sink_append :: "bytes \<Rightarrow> sink \<Rightarrow> (stage_error, sink) io" where
  "sink_append bs sink = (case sink of
     DiskSink path \<Rightarrow> iobind (stage_io (fs_write_all path bs)) (\<lambda>_. ioret sink)
   | MemorySink buf \<Rightarrow> ioret (MemorySink (buf @ bs)))"

definition staged_append :: "bytes \<Rightarrow> staged_blob \<Rightarrow> (stage_error, staged_blob) io" where
  "staged_append bs w =
     (let next = st_written w + length bs in
      if next > st_expected w then iofail (StageLength (st_expected w) next)
      else iobind (sink_append bs (st_sink w)) (\<lambda>sink. ioret (w\<lparr>st_sink := sink, st_written := next\<rparr>)))"

definition hash_whole_file :: "(bytes \<Rightarrow> bytes) \<Rightarrow> fpath \<Rightarrow> (stage_error, bytes \<times> nat) io" where
  "hash_whole_file H path = iobind (stage_io (fs_read path)) (\<lambda>bs. ioret (H bs, length bs))"

definition sink_hash :: "(bytes \<Rightarrow> bytes) \<Rightarrow> sink \<Rightarrow> (stage_error, bytes \<times> nat) io" where
  "sink_hash H sink = (case sink of
     DiskSink path \<Rightarrow> hash_whole_file H path
   | MemorySink buf \<Rightarrow> ioret (H buf, length buf))"

definition discard_sink :: "sink \<Rightarrow> ('e, unit) io" where
  "discard_sink sink = (case sink of
     DiskSink path \<Rightarrow> iobind (iotry (fs_remove_file path)) (\<lambda>_. ioret ())
   | MemorySink _ \<Rightarrow> ioret ())"

text \<open>A store without a root cannot have handed out a disk sink: \<open>publish_staged\<close> expects the root.\<close>

definition publish_sink :: "(bytes \<Rightarrow> bytes) \<Rightarrow> rstring \<Rightarrow> bytes \<Rightarrow> sink \<Rightarrow> blob_store \<Rightarrow> (stage_error, blob_store) io" where
  "publish_sink H pid digest sink s = (case sink of
     DiskSink path \<Rightarrow>
       iobind (stage_io (fs_sync_all path)) (\<lambda>_.
       case bs_root s of
         None \<Rightarrow> iofail (StageIo OtherIo)
       | Some root \<Rightarrow> iobind (stage_io (publish_staged root digest path)) (\<lambda>_. ioret s))
   | MemorySink buf \<Rightarrow> iobind (put_chunk H pid buf s) (\<lambda>(_, s'). ioret s'))"

definition verify_and_publish :: "(bytes \<Rightarrow> bytes) \<Rightarrow> rstring \<Rightarrow> staged_blob \<Rightarrow> blob_store \<Rightarrow> (stage_error, blob_store) io" where
  "verify_and_publish H pid w s =
     (if st_written w \<noteq> st_expected w then iofail (StageLength (st_expected w) (st_written w))
      else iobind (sink_hash H (st_sink w)) (\<lambda>(got, on_disk).
        if on_disk = st_expected w \<and> got = st_digest w then publish_sink H pid (st_digest w) (st_sink w) s
        else iobind (discard_sink (st_sink w)) (\<lambda>_. iofail HashMismatch)))"

definition staged_finish :: "(bytes \<Rightarrow> bytes) \<Rightarrow> rstring \<Rightarrow> staged_blob \<Rightarrow> blob_store \<Rightarrow>
    (io_error, (stage_error + bytes) \<times> blob_store) io" where
  "staged_finish H pid w s = iobind (iotry (verify_and_publish H pid w s)) (\<lambda>r. case r of
     Inl e \<Rightarrow> ioret (Inl e, release_staging (st_digest w) s)
   | Inr s' \<Rightarrow> ioret (Inr (st_digest w), release_staging (st_digest w) s'))"

definition staged_abort_blob :: "staged_blob \<Rightarrow> blob_store \<Rightarrow> (io_error, blob_store) io" where
  "staged_abort_blob w s = iobind (discard_sink (st_sink w)) (\<lambda>_. ioret (release_staging (st_digest w) s))"

definition drop_staged :: "staged_blob \<Rightarrow> blob_store \<Rightarrow> blob_store" where
  "drop_staged w s = release_staging (st_digest w) s"

subsection \<open>Sweeping abandoned partials\<close>

text \<open>\<open>age\<close> is the time since the modification of an entry, where the metadata and the clock give one.\<close>

fun sweep_entries :: "fpath \<Rightarrow> nat \<Rightarrow> (rstring \<Rightarrow> nat option) \<Rightarrow> rstring set \<Rightarrow> rstring list \<Rightarrow> nat \<Rightarrow> (io_error, nat) io" where
  "sweep_entries dir keep_within age live [] swept = ioret swept"
| "sweep_entries dir keep_within age live (name # names) swept =
     iobind (iotry (fs_is_file (dir @ [name]))) (\<lambda>meta. case meta of
       Inl _ \<Rightarrow> sweep_entries dir keep_within age live names swept
     | Inr is_file \<Rightarrow>
         if name \<in> live then sweep_entries dir keep_within age live names swept
         else if \<not> is_file \<or> \<not> (case age name of None \<Rightarrow> False | Some a \<Rightarrow> a \<ge> keep_within)
         then sweep_entries dir keep_within age live names swept
         else iobind (iotry (fs_remove_file (dir @ [name]))) (\<lambda>r.
           sweep_entries dir keep_within age live names (case r of Inr _ \<Rightarrow> swept + 1 | Inl _ \<Rightarrow> swept)))"

definition sweep_staging_dir :: "fpath \<Rightarrow> nat \<Rightarrow> (rstring \<Rightarrow> nat option) \<Rightarrow> rstring set \<Rightarrow> (io_error, nat) io" where
  "sweep_staging_dir root keep_within age live =
     iobind (iotry (fs_read_dir (staging_dir root))) (\<lambda>r. case r of
       Inl NotFound \<Rightarrow> ioret 0
     | Inl e \<Rightarrow> iofail e
     | Inr es \<Rightarrow> sweep_entries (staging_dir root) keep_within age live (map fst es) 0)"

definition sweep_staging :: "nat \<Rightarrow> (rstring \<Rightarrow> nat option) \<Rightarrow> blob_store \<Rightarrow> (io_error, nat) io" where
  "sweep_staging keep_within age s = (case bs_root s of
     None \<Rightarrow> ioret 0
   | Some root \<Rightarrow> sweep_staging_dir root keep_within age (staged_names s))"

definition blob_persistent :: "(rstring \<Rightarrow> nat option) \<Rightarrow> fpath \<Rightarrow> (io_error, blob_store) io" where
  "blob_persistent age root =
     iobind (fs_create_dir_all root) (\<lambda>_.
     iobind (iotry (sweep_staging_dir root STAGING_RESUME_WINDOW age {})) (\<lambda>_.
     ioret (blob_new (Some root))))"

subsection \<open>An ingest\<close>

record ingest_blob =
  in_sink :: "sink option"
  in_sealed :: "bytes option"
  in_written :: nat

definition ingest :: "rstring \<Rightarrow> blob_store \<Rightarrow> (stage_error, ingest_blob) io" where
  "ingest name s =
     iobind (case bs_root s of
         None \<Rightarrow> ioret (MemorySink [])
       | Some root \<Rightarrow> let path = staging_dir root @ [name] in
           stage_io (iobind (fs_create_dir_all (staging_dir root)) (\<lambda>_.
             iobind (fs_create_new path) (\<lambda>_. ioret (DiskSink path)))))
       (\<lambda>sink. ioret \<lparr>in_sink = Some sink, in_sealed = None, in_written = 0\<rparr>)"

definition ingest_append :: "bytes \<Rightarrow> ingest_blob \<Rightarrow> (stage_error, ingest_blob) io" where
  "ingest_append bs g = (case in_sink g of
     None \<Rightarrow> iofail (StageIo OtherIo)
   | Some sink \<Rightarrow> iobind (sink_append bs sink) (\<lambda>sink'.
       ioret (g\<lparr>in_sink := Some sink', in_written := in_written g + length bs\<rparr>)))"

definition ingest_seal :: "(bytes \<Rightarrow> bytes) \<Rightarrow> ingest_blob \<Rightarrow> (stage_error, bytes \<times> ingest_blob) io" where
  "ingest_seal H g = (case in_sink g of
     None \<Rightarrow> iofail (StageIo OtherIo)
   | Some sink \<Rightarrow> iobind (sink_hash H sink) (\<lambda>(digest, _). ioret (digest, g\<lparr>in_sealed := Some digest\<rparr>)))"

text \<open>\<open>publish\<close> takes the sink whatever follows, so nothing is left for the drop to remove.\<close>

definition ingest_publish :: "(bytes \<Rightarrow> bytes) \<Rightarrow> rstring \<Rightarrow> ingest_blob \<Rightarrow> blob_store \<Rightarrow> (stage_error, bytes \<times> blob_store) io" where
  "ingest_publish H pid g s = (case (in_sink g, in_sealed g) of
     (Some sink, Some digest) \<Rightarrow> iobind (publish_sink H pid digest sink s) (\<lambda>s'. ioret (digest, s'))
   | _ \<Rightarrow> iofail (StageIo OtherIo))"

definition ingest_drop :: "ingest_blob \<Rightarrow> ('e, unit) io" where
  "ingest_drop g = (case in_sink g of Some sink \<Rightarrow> discard_sink sink | None \<Rightarrow> ioret ())"

subsection \<open>The states a store can reach\<close>

text \<open>
  One step is one call on the store, on a disk that may have changed in any way since the last call and
  whose calls may fail. The list holds the live writers. The only thing asked of a step is that the blob
  it puts does not collide with another resident one.
\<close>

definition sink_clear :: "(bytes \<Rightarrow> bytes) \<Rightarrow> blob_store \<Rightarrow> sink \<Rightarrow> bool" where
  "sink_clear H s sink = (case sink of DiskSink _ \<Rightarrow> True | MemorySink buf \<Rightarrow> no_clash H s buf)"

inductive blob_reach :: "(bytes \<Rightarrow> bytes) \<Rightarrow> rstring \<Rightarrow> blob_store \<Rightarrow> staged_blob list \<Rightarrow> bool"
  for H pid where
  start: "blob_reach H pid (blob_new root) []"
| put: "blob_reach H pid s ws \<Longrightarrow> no_clash H s b \<Longrightarrow> put_chunk H pid b s d = (Inr (x, s') :: io_error + _, d') \<Longrightarrow> blob_reach H pid s' ws"
| get: "blob_reach H pid s ws \<Longrightarrow> get_chunk H k s d = (Inr (r, s') :: io_error + _, d') \<Longrightarrow> blob_reach H pid s' ws"
| verify: "blob_reach H pid s ws \<Longrightarrow> has_verified_chunk H k s d = (Inr (v, s') :: io_error + _, d') \<Longrightarrow> blob_reach H pid s' ws"
| forget: "blob_reach H pid s ws \<Longrightarrow> forget k s d = (Inr s' :: io_error + _, d') \<Longrightarrow> blob_reach H pid s' ws"
| stage: "blob_reach H pid s ws \<Longrightarrow> stage_blob k len s d = (Inr (r, s'), d') \<Longrightarrow>
    blob_reach H pid s' (case r of Inl e \<Rightarrow> ws | Inr w \<Rightarrow> w # ws)"
| append: "blob_reach H pid s (us @ w # ws) \<Longrightarrow> staged_append b w d = (Inr w', d') \<Longrightarrow> blob_reach H pid s (us @ w' # ws)"
| finish: "blob_reach H pid s (us @ w # ws) \<Longrightarrow> sink_clear H s (st_sink w) \<Longrightarrow>
    staged_finish H pid w s d = (Inr (f, s'), d') \<Longrightarrow> blob_reach H pid s' (us @ ws)"
| abort: "blob_reach H pid s (us @ w # ws) \<Longrightarrow> staged_abort_blob w s d = (Inr s', d') \<Longrightarrow> blob_reach H pid s' (us @ ws)"
| dropped: "blob_reach H pid s (us @ w # ws) \<Longrightarrow> blob_reach H pid (drop_staged w s) (us @ ws)"
| publish: "blob_reach H pid s ws \<Longrightarrow> pred_option (sink_clear H s) (in_sink g) \<Longrightarrow>
    ingest_publish H pid g s d = (Inr (x, s'), d') \<Longrightarrow> blob_reach H pid s' ws"

text \<open>The slots taken are those of the live writers, one each, and no writer has passed its length.\<close>

definition writer_ok :: "staged_blob \<Rightarrow> bool" where
  "writer_ok w \<longleftrightarrow> st_written w \<le> st_expected w \<and>
     (case st_sink w of DiskSink _ \<Rightarrow> True | MemorySink buf \<Rightarrow> length buf = st_written w)"

definition writers_ok :: "blob_store \<Rightarrow> staged_blob list \<Rightarrow> bool" where
  "writers_ok s ws \<longleftrightarrow> distinct (map st_digest ws) \<and> set (map st_digest ws) = bs_staging s \<and> (\<forall>w \<in> set ws. writer_ok w)"

lemma writers_ok_same: "same_slots s s' \<Longrightarrow> writers_ok s' ws = writers_ok s ws"
  by (simp add: writers_ok_def same_slots_def)

lemma writers_ok_release: "writers_ok s (us @ w # ws) \<Longrightarrow> writers_ok (release_staging (st_digest w) s) (us @ ws)"
  unfolding writers_ok_def release_staging_def by auto

lemma blob_ok_release [simp]: "blob_ok H (release_staging k s) = blob_ok H s"
  by (simp add: blob_ok_def release_staging_def)

lemma blob_ok_claim [simp]: "blob_ok H (s\<lparr>bs_staging := k\<rparr>) = blob_ok H s"
  by (simp add: blob_ok_def)

lemma stage_io_Inr: "stage_io m d = (Inr x, d') \<longleftrightarrow> m d = (Inr x, d')"
  by (auto simp: stage_io_def iobind_def iotry_def ioret_def iofail_def split: sum.splits prod.splits)

lemma bind_Inr: "iobind m f d = (Inr y, d') \<longleftrightarrow> (\<exists>x d1. m d = (Inr x, d1) \<and> f x d1 = (Inr y, d'))"
  by (auto simp: iobind_def split: sum.splits prod.splits)

lemma ret_Inr: "ioret x d = (Inr y, d') \<longleftrightarrow> y = x \<and> d' = d"
  by (auto simp: ioret_def)

lemma fail_Inr: "iofail e d \<noteq> (Inr y, d')"
  by (simp add: iofail_def)

lemmas run_Inr = bind_Inr ret_Inr fail_Inr stage_io_Inr

lemma open_slot_ok:
  assumes "open_slot root k len d = (Inr (sink, n), d')"
  shows "n \<le> len \<and> (case sink of DiskSink _ \<Rightarrow> True | MemorySink buf \<Rightarrow> length buf = n)"
  using assms by (auto simp: open_slot_def Let_def run_Inr split: option.splits if_splits)

lemma stage_blob_ok:
  assumes "stage_blob k len s d = (Inr (r, s'), d')" "blob_ok H s" "writers_ok s ws"
  shows "blob_ok H s' \<and> writers_ok s' (case r of Inl e \<Rightarrow> ws | Inr w \<Rightarrow> w # ws)"
proof (cases "k \<in> bs_staging s")
  case True
  then have "r = Inl AlreadyStaging" "s' = s" using assms(1)
    by (auto simp: stage_blob_def claim_staging_def ioret_def insert_absorb)
  then show ?thesis using assms(2,3) by simp
next
  case False
  let ?s = "s\<lparr>bs_staging := insert k (bs_staging s)\<rparr>"
  obtain x d1 where x: "open_slot (bs_root s) k len d = (x, d1)" by fastforce
  show ?thesis
  proof (cases x)
    case (Inl e)
    then have "r = Inl e" "s' = release_staging k ?s"
      using assms(1) False x by (auto simp: stage_blob_def claim_staging_def iobind_def iotry_def ioret_def)
    moreover have "release_staging k ?s = s" using False by (simp add: release_staging_def)
    ultimately show ?thesis using assms(2,3) by simp
  next
    case (Inr y)
    obtain sink n where y: "y = (sink, n)" by fastforce
    have "r = Inr \<lparr>st_digest = k, st_expected = len, st_written = n, st_sink = sink\<rparr>" "s' = ?s"
      using assms(1) False x Inr y by (auto simp: stage_blob_def claim_staging_def iobind_def iotry_def ioret_def)
    moreover have "n \<le> len \<and> (case sink of DiskSink _ \<Rightarrow> True | MemorySink buf \<Rightarrow> length buf = n)"
      using open_slot_ok x Inr y by blast
    ultimately show ?thesis using assms(2,3) False by (cases sink) (auto simp: writers_ok_def writer_ok_def)
  qed
qed

lemma staged_append_ok:
  assumes "staged_append b w d = (Inr w', d')" "writer_ok w"
  shows "writer_ok w' \<and> st_digest w' = st_digest w \<and> st_expected w' = st_expected w"
  using assms
  by (auto simp: staged_append_def Let_def sink_append_def writer_ok_def run_Inr split: if_splits sink.splits)

lemma publish_sink_ok:
  assumes "publish_sink H pid k sink s d = (Inr s', d')" "blob_ok H s" "sink_clear H s sink"
  shows "blob_ok H s' \<and> same_slots s s'"
proof (cases sink)
  case (DiskSink path)
  then have "s' = s" using assms(1) by (auto simp: publish_sink_def run_Inr split: option.splits)
  then show ?thesis using assms(2) by simp
next
  case (MemorySink buf)
  then obtain x d1 where "put_chunk H pid buf s d = (Inr (x, s') :: stage_error + _, d1)"
    using assms(1) by (auto simp: publish_sink_def run_Inr)
  from yieldsD [OF put_chunk_yields this] show ?thesis
    using assms(2,3) MemorySink by (simp add: sink_clear_def)
qed

lemma verify_and_publish_ok:
  assumes "verify_and_publish H pid w s d = (Inr s', d')" "blob_ok H s" "sink_clear H s (st_sink w)"
  shows "blob_ok H s' \<and> same_slots s s'"
proof -
  obtain d1 where "publish_sink H pid (st_digest w) (st_sink w) s d1 = (Inr s', d')"
    using assms(1) by (auto simp: verify_and_publish_def run_Inr split: if_splits prod.splits)
  then show ?thesis using publish_sink_ok assms(2,3) by blast
qed

lemma staged_finish_ok:
  assumes "staged_finish H pid w s d = (Inr (f, s'), d')" "blob_ok H s" "sink_clear H s (st_sink w)"
    and "writers_ok s (us @ w # ws)"
  shows "blob_ok H s' \<and> writers_ok s' (us @ ws)"
proof -
  obtain r d1 where r: "verify_and_publish H pid w s d = (r, d1)" by fastforce
  have "\<exists>t. s' = release_staging (st_digest w) t \<and> blob_ok H t \<and> same_slots s t"
  proof (cases r)
    case (Inl e)
    then have "s' = release_staging (st_digest w) s"
      using assms(1) r by (simp add: staged_finish_def iobind_def iotry_def ioret_def)
    then show ?thesis using assms(2) same_slots_refl(1) by blast
  next
    case (Inr t)
    then have "s' = release_staging (st_digest w) t"
      using assms(1) r by (simp add: staged_finish_def iobind_def iotry_def ioret_def)
    then show ?thesis using verify_and_publish_ok assms(2,3) r Inr by blast
  qed
  then show ?thesis using writers_ok_release writers_ok_same assms(4) by (metis blob_ok_release)
qed

theorem reach_ok:
  assumes "blob_reach H pid s ws"
  shows "blob_ok H s \<and> writers_ok s ws"
  using assms
proof induction
  case (start root)
  have "writers_ok (blob_new root) []" by (simp add: writers_ok_def blob_new_def)
  then show ?case using blob_ok_new by blast
next
  case (put s ws b d x s' d')
  then show ?case using yieldsD [OF put_chunk_yields put(3)] writers_ok_same by auto
next
  case (get s ws k d r s' d')
  then show ?case using yieldsD [OF get_chunk_yields get(2)] writers_ok_same by auto
next
  case (verify s ws k d v s' d')
  then show ?case using yieldsD [OF has_verified_yields verify(2)] writers_ok_same by auto
next
  case (forget s ws k d s' d')
  then show ?case using yieldsD [OF forget_yields forget(2)] writers_ok_same by auto
next
  case (stage s ws k len d r s' d')
  then show ?case using stage_blob_ok by blast
next
  case (append s us w ws b d w' d')
  then show ?case using staged_append_ok [OF append(2)] by (auto simp: writers_ok_def)
next
  case (finish s us w ws d f s' d')
  then show ?case using staged_finish_ok [OF finish(3)] by blast
next
  case (abort s us w ws d s' d')
  then have "s' = release_staging (st_digest w) s" by (auto simp: staged_abort_blob_def run_Inr)
  then show ?case using abort writers_ok_release by auto
next
  case (dropped s us w ws)
  then show ?case using writers_ok_release by (auto simp: drop_staged_def)
next
  case (publish s ws g d x s' d')
  then obtain k sink d1 where "publish_sink H pid k sink s d = (Inr s', d1)" "in_sink g = Some sink"
    by (auto simp: ingest_publish_def run_Inr split: option.splits)
  then show ?case using publish_sink_ok publish writers_ok_same by fastforce
qed

subsection \<open>Nothing is addressable before it verifies\<close>

text \<open>A published file has the bytes that were hashed; a finish that fails leaves the name as it was.\<close>

lemma call_live:
  assumes "\<And>e. P e \<Longrightarrow> P (snd (act e))" "\<And>n e. P e \<Longrightarrow> P (torn n e)" "planless P" "P d"
  shows "P (snd (call act torn d))"
  using assms by (auto simp: call_def planless_def split: list.split outcome.split)

lemma at_path_simps [simp]:
  "at_path (d\<lparr>d_unsynced := u\<rparr>) p = at_path d p"
  "p \<noteq> [] \<Longrightarrow> at_path (put_entry p e ks d) p = Some e"
  "p \<noteq> q \<Longrightarrow> at_path (put_entry p e ks d) q = at_path d q"
  "p \<noteq> q \<Longrightarrow> at_path (drop_entry p d) q = at_path d q"
  by (simp_all add: at_path_def)

lemma sync_all_at: "at_path (snd (fs_sync_all p d)) q = at_path d q"
  unfolding fs_sync_all_def
  by (rule call_live [where P = "\<lambda>e. at_path e q = at_path d q"]) (simp_all add: planless_def)

lemma remove_other: "p \<noteq> q \<Longrightarrow> at_path (snd (fs_remove_file p d)) q = at_path d q"
  unfolding fs_remove_file_def
  by (rule call_live [where P = "\<lambda>e. at_path e q = at_path d q"]) (auto simp: planless_def split: option.split entry.split)

lemma rename_outcome:
  assumes "fs_rename s t d = (r, d')" "s \<noteq> t" "t \<noteq> []"
  shows "case r of Inl _ \<Rightarrow> at_path d' t = at_path d t
    | Inr _ \<Rightarrow> (\<exists>b. at_path d s = Some (FileE b) \<and> at_path d' t = Some (FileE b))"
  using assms
  by (auto simp: fs_rename_def call_def named_entry_def split: list.splits outcome.splits option.splits entry.splits if_splits)

lemma read_holds: "fs_read p d = (Inr b, d') \<Longrightarrow> at_path d p = Some (FileE b)"
  by (auto simp: fs_read_def call_def split: list.splits outcome.splits option.splits entry.splits)

definition published_path :: "fpath \<Rightarrow> bytes \<Rightarrow> fpath" where
  "published_path root k = root @ [to_hex k]"

text \<open>A file below \<open>staging\<close> is never the published name.\<close>

lemma staging_apart [simp]: "staging_dir root @ [name] \<noteq> published_path root k" "published_path root k \<noteq> []"
  by (auto simp: staging_dir_def published_path_def)

lemma stage_io_outcome: "stage_io m d = (r, d') \<Longrightarrow> \<exists>x. m d = (x, d') \<and> (r = (case x of Inl e \<Rightarrow> Inl (StageIo e) | Inr y \<Rightarrow> Inr y))"
  by (cases "m d") (auto simp: stage_io_def iobind_def iotry_def ioret_def iofail_def split: sum.splits)

lemma publish_disk:
  assumes "publish_sink H pid k (DiskSink p) s d = (r, d')" "bs_root s = Some root"
    and p: "p = staging_dir root @ [name]" and b: "at_path d p = Some (FileE b)"
  shows "case r of Inl _ \<Rightarrow> at_path d' (published_path root k) = at_path d (published_path root k)
    | Inr s' \<Rightarrow> at_path d' (published_path root k) = Some (FileE b) \<and> s' = s"
proof -
  obtain x d1 where x: "stage_io (fs_sync_all p) d = (x, d1)" by fastforce
  then have same: "at_path d1 q = at_path d q" for q
    using stage_io_outcome [OF x] sync_all_at [of p d q] by auto
  show ?thesis
  proof (cases x)
    case (Inl e)
    then have "d' = d1" "r = Inl e" using assms(1) x by (auto simp: publish_sink_def iobind_def)
    then show ?thesis using same by simp
  next
    case (Inr u)
    obtain y d2 where y: "stage_io (publish_staged root k p) d1 = (y, d2)" by fastforce
    then obtain z where z: "fs_rename p (published_path root k) d1 = (z, d2)"
      "y = (case z of Inl e \<Rightarrow> Inl (StageIo e) | Inr v \<Rightarrow> Inr v)"
      using stage_io_outcome [OF y] by (auto simp: publish_staged_def published_path_def)
    have out: "d' = d2" "r = (case z of Inl e \<Rightarrow> Inl (StageIo e) | Inr v \<Rightarrow> Inr s)"
      using assms(1,2) x Inr y z(2) by (auto simp: publish_sink_def iobind_def ioret_def split: sum.splits)
    have "p \<noteq> published_path root k" unfolding p by simp
    from rename_outcome [OF z(1) this] show ?thesis
      using out same b by (cases z) auto
  qed
qed

lemma discard_other: "p \<noteq> q \<Longrightarrow> discard_sink (DiskSink p) d = (r, d') \<Longrightarrow> at_path d' q = at_path d q"
  using remove_other [of p q d] by (auto simp: discard_sink_def iobind_def iotry_def ioret_def split: prod.splits)

lemma hash_file_outcome:
  assumes "sink_hash H (DiskSink p) d = (r, d')"
  shows "at_path d' q = at_path d q"
    and "r = Inr (got, n) \<Longrightarrow> \<exists>b. at_path d p = Some (FileE b) \<and> got = H b \<and> n = length b"
proof -
  obtain x d1 where x: "stage_io (fs_read p) d = (x, d1)" by fastforce
  obtain y where y: "fs_read p d = (y, d1)" "x = (case y of Inl e \<Rightarrow> Inl (StageIo e) | Inr b \<Rightarrow> Inr b)"
    using stage_io_outcome [OF x] by blast
  have r: "d' = d1" "r = (case y of Inl e \<Rightarrow> Inl (StageIo e) | Inr b \<Rightarrow> Inr (H b, length b))"
    using assms x y(2) by (auto simp: sink_hash_def hash_whole_file_def iobind_def ioret_def split: sum.splits)
  show "at_path d' q = at_path d q" using quiet_reads(4) [of p d q] y(1) r(1) by simp
  show "r = Inr (got, n) \<Longrightarrow> \<exists>b. at_path d p = Some (FileE b) \<and> got = H b \<and> n = length b"
    using r(2) read_holds y(1) by (auto split: sum.splits)
qed

lemma verify_and_publish_disk:
  assumes run: "verify_and_publish H pid w s d = (r, d')" and root: "bs_root s = Some root"
    and sink: "st_sink w = DiskSink (staging_dir root @ [name])"
  shows "case r of Inl _ \<Rightarrow> at_path d' (published_path root (st_digest w)) = at_path d (published_path root (st_digest w))
    | Inr s' \<Rightarrow> s' = s \<and> (\<exists>b. at_path d' (published_path root (st_digest w)) = Some (FileE b) \<and>
        H b = st_digest w \<and> length b = st_expected w)"
proof (cases "st_written w = st_expected w")
  case False
  then show ?thesis using run by (auto simp: verify_and_publish_def iofail_def)
next
  case True
  let ?p = "staging_dir root @ [name]" and ?q = "published_path root (st_digest w)"
  obtain x d1 where x: "sink_hash H (DiskSink ?p) d = (x, d1)" by fastforce
  note same = hash_file_outcome(1) [OF x]
  show ?thesis
  proof (cases x)
    case (Inl e)
    then have "r = Inl e" "d' = d1" using run True sink x by (auto simp: verify_and_publish_def iobind_def)
    then show ?thesis using same by simp
  next
    case (Inr y)
    obtain got n where y: "y = (got, n)" by fastforce
    obtain b where b: "at_path d ?p = Some (FileE b)" "got = H b" "n = length b"
      using hash_file_outcome(2) [OF x] Inr y by blast
    show ?thesis
    proof (cases "n = st_expected w \<and> got = st_digest w")
      case True
      then have pub: "publish_sink H pid (st_digest w) (DiskSink ?p) s d1 = (r, d')"
        using run \<open>st_written w = _\<close> sink x Inr y by (auto simp: verify_and_publish_def iobind_def)
      have "at_path d1 ?p = Some (FileE b)" using same b(1) by simp
      from publish_disk [OF pub root refl this] show ?thesis
        using True b same by (auto split: sum.splits)
    next
      case False
      then have "iobind (discard_sink (DiskSink ?p)) (\<lambda>_. iofail HashMismatch) d1 = (r, d')"
        using run \<open>st_written w = _\<close> sink x Inr y by (auto simp: verify_and_publish_def iobind_def)
      moreover obtain z d2 where z: "discard_sink (DiskSink ?p) d1 = (z :: stage_error + unit, d2)" by fastforce
      ultimately have "d' = d2" "\<exists>e. r = Inl e" by (auto simp: iobind_def iofail_def split: sum.splits)
      then show ?thesis using discard_other [OF _ z] same by auto
    qed
  qed
qed

lemma seal_then_publish:
  assumes "in_sink g = Some (DiskSink (staging_dir root @ [name]))" "bs_root s = Some root"
    and "ingest_seal H g d = (Inr (k, g'), d1)" "ingest_publish H pid g' s d1 = (Inr (k', s'), d')"
  shows "k' = k \<and> (\<exists>b. at_path d (staging_dir root @ [name]) = Some (FileE b) \<and> H b = k \<and>
    at_path d' (published_path root k) = Some (FileE b))"
proof -
  let ?p = "staging_dir root @ [name]"
  obtain n where h: "sink_hash H (DiskSink ?p) d = (Inr (k, n), d1)" "g' = g\<lparr>in_sealed := Some k\<rparr>"
    using assms(1,3) by (auto simp: ingest_seal_def run_Inr)
  obtain b where b: "at_path d ?p = Some (FileE b)" "k = H b"
    using hash_file_outcome(2) [OF h(1) refl] by blast
  have "k' = k" and pub: "publish_sink H pid k (DiskSink ?p) s d1 = (Inr s', d')"
    using assms(1,4) h(2) by (auto simp: ingest_publish_def run_Inr)
  moreover have "at_path d1 ?p = Some (FileE b)" using hash_file_outcome(1) [OF h(1)] b(1) by simp
  ultimately show ?thesis using publish_disk [OF pub assms(2) refl] b by auto
qed

text \<open>An append does not take back the seal, so what is published then is not what was sealed.\<close>

lemma write_all_holds:
  assumes "fs_write_all p bs d = (Inr u, d')" "at_path d p = Some (FileE a)" "p \<noteq> []"
  shows "at_path d' p = Some (FileE (a @ bs))"
  using assms by (auto simp: fs_write_all_def call_def fs_append_def split: list.splits outcome.splits)

lemma append_after_seal:
  assumes "in_sink g = Some (DiskSink p)" "p = staging_dir root @ [name]" "in_sealed g = Some k" "bs_root s = Some root"
    and "at_path d p = Some (FileE a)"
    and "ingest_append b g d = (Inr g', d1)" "ingest_publish H pid g' s d1 = (Inr (k', s'), d')"
  shows "k' = k \<and> at_path d' (published_path root k) = Some (FileE (a @ b))"
proof -
  obtain u where w: "fs_write_all p b d = (Inr u, d1)" "g' = g\<lparr>in_sink := Some (DiskSink p), in_written := in_written g + length b\<rparr>"
    using assms(1,6) by (auto simp: ingest_append_def sink_append_def run_Inr)
  have "at_path d1 p = Some (FileE (a @ b))"
    using write_all_holds [OF w(1) assms(5)] assms(2) by simp
  moreover have "k' = k" "publish_sink H pid k (DiskSink p) s d1 = (Inr s', d')"
    using assms(3,7) w(2) by (auto simp: ingest_publish_def run_Inr)
  ultimately show ?thesis using publish_disk [OF _ assms(4,2)] by fastforce
qed

end
