(* ===== verification/Blob_Scenario.thy ===== *)
theory Blob_Scenario
  imports Blob_Staging Disk_Scenario
begin

text \<open>A blob store on the directory \<open>m\<close>: one blob staged and finished, one ingest appended to after its
  seal, for the witnesses of the blob store.\<close>

abbreviation "blobs_at_mod \<equiv> blob_new (Some mod_dir)"

subsection \<open>A staged blob\<close>

definition slot_open where "slot_open = stage_blob (short_hash [1]) 1 blobs_at_mod clean_disk"
definition slot_full where "slot_full = staged_append [1] (projr (fst (projr (fst slot_open)))) (snd slot_open)"
definition slot_done where
  "slot_done = staged_finish short_hash [] (projr (fst slot_full)) (snd (projr (fst slot_open))) (snd slot_full)"

lemmas slot_calls = slot_open_def slot_full_def slot_done_def

lemma slot_writer: "st_sink (projr (fst slot_full)) = DiskSink (staging_path mod_dir (short_hash [1]))"
    "st_digest (projr (fst slot_full)) = short_hash [1]" "bs_root (snd (projr (fst slot_open))) = Some mod_dir"
  unfolding slot_calls by code_simp+

lemma slot_done_ok: "fst (projr (fst slot_done)) = Inr (short_hash [1])"
  unfolding slot_calls by code_simp

subsection \<open>An ingest that grows after its seal\<close>

definition grown_open where "grown_open = ingest [120] blobs_at_mod clean_disk"
definition grown_full where "grown_full = ingest_append [1] (projr (fst grown_open)) (snd grown_open)"
definition grown_sealed where "grown_sealed = ingest_seal short_hash (projr (fst grown_full)) (snd grown_full)"
definition grown_more where "grown_more = ingest_append [2] (snd (projr (fst grown_sealed))) (snd grown_sealed)"
definition grown_done where
  "grown_done = ingest_publish short_hash [] (projr (fst grown_more)) blobs_at_mod (snd grown_more)"

lemmas grown_calls = grown_open_def grown_full_def grown_sealed_def grown_more_def grown_done_def

lemma grown_ok: "\<not> isl (fst grown_full)" "\<not> isl (fst grown_sealed)" "\<not> isl (fst grown_more)" "\<not> isl (fst grown_done)"
    "in_sink (projr (fst grown_full)) = Some (DiskSink (staging_dir mod_dir @ [[120]]))"
    "fst (projr (fst grown_done)) = short_hash [1]"
  unfolding grown_calls by code_simp+

end
