(* ===== verification/Disk_Scratch.thy ===== *)
theory Disk_Scratch
  imports Disk_Commit
begin

text \<open>
  crates/duckfs/disk/src/scratch.rs: the scratch directory of a state sync. \<open>prepare\<close> carves it out beside
  the canonical directory and seeds its objects from every local store, \<open>promote\<close> is the only way into
  the canonical directory, \<open>sweep_stale\<close> removes what dead attempts left. A prefix that the code adds to
  the message of an error it passes on is left out.
\<close>

subsection \<open>Names\<close>

record sync_scratch =
  sx_canonical :: fpath
  sx_dir :: fpath

definition OBJECTS :: rstring where "OBJECTS = str ''objects''"
definition SCRATCH_A :: rstring where "SCRATCH_A = str ''_scratch_a''"

text \<open>\<open>file_name\<close> and \<open>to_str\<close> of the last component.\<close>

definition dir_name :: "fpath \<Rightarrow> rstring option" where
  "dir_name p = (if p = [] \<or> \<not> utf8 (last p) then None else Some (last p))"

definition attempt_dir :: "fpath \<Rightarrow> nat \<Rightarrow> fpath res" where
  "attempt_dir home attempt = (case dir_name home of
     None \<Rightarrow> Inl (DiskE ScratchNoName)
   | Some name \<Rightarrow> Inr (butlast home @ [name @ SCRATCH_A @ dec_nat attempt]))"

definition all_digits :: "rstring \<Rightarrow> bool" where
  "all_digits s \<longleftrightarrow> s \<noteq> [] \<and> list_all (\<lambda>b. 48 \<le> b \<and> b \<le> 57) s"

definition attempt_name :: "rstring \<Rightarrow> rstring \<Rightarrow> bool" where
  "attempt_name name n \<longleftrightarrow> utf8 n \<and> prefix (name @ SCRATCH_A) n \<and> all_digits (drop (length (name @ SCRATCH_A)) n)"

definition scratch_siblings :: "fpath \<Rightarrow> (io_error, fpath list) io" where
  "scratch_siblings home = (case dir_name home of
     None \<Rightarrow> ioret []
   | Some name \<Rightarrow> iobind (iotry (fs_read_dir (butlast home))) (\<lambda>r. case r of
       Inl NotFound \<Rightarrow> ioret []
     | Inl e \<Rightarrow> iofail e
     | Inr es \<Rightarrow> ioret (map (\<lambda>(n, _). butlast home @ [n]) (filter (\<lambda>(n, dir). dir \<and> attempt_name name n) es))))"

subsection \<open>Merging objects\<close>

text \<open>\<open>with_extension\<close> on a name without a dot.\<close>

definition copy_tmp :: "fpath \<Rightarrow> fpath" where
  "copy_tmp dst = butlast dst @ [last dst @ TMP]"

definition place_object :: "fpath \<Rightarrow> fpath \<Rightarrow> (err, unit) io" where
  "place_object src dst = iobind (iotry (fs_hard_link src dst)) (\<lambda>r. case r of
     Inr _ \<Rightarrow> ioret ()
   | Inl AlreadyExists \<Rightarrow> ioret ()
   | Inl _ \<Rightarrow> let tmp = copy_tmp dst in
       iobind (iomap_err (DiskE ScratchCopy) (fs_copy src tmp)) (\<lambda>_.
       iobind (iomap_err (DiskE ScratchFsync) (iobind (fs_open tmp) (\<lambda>_. fs_sync_all tmp))) (\<lambda>_.
       rename_or_clean (DiskE ScratchPublish) tmp dst)))"

text \<open>The walk hands each object file to \<open>f\<close>, which threads a state.\<close>

fun each_file :: "(rstring \<Rightarrow> rstring \<Rightarrow> fpath \<Rightarrow> 't \<Rightarrow> (err, 't) io) \<Rightarrow> fpath \<Rightarrow> rstring \<Rightarrow> (rstring \<times> bool) list \<Rightarrow> 't \<Rightarrow> (err, 't) io" where
  "each_file f p aa [] t = ioret t"
| "each_file f p aa ((rest, _) # es) t =
     (if \<not> utf8 rest \<or> length rest \<noteq> 62 \<or> from_hex_32 (aa @ rest) = None then each_file f p aa es t
      else iobind (f aa rest (p @ [rest]) t) (\<lambda>t'. each_file f p aa es t'))"

fun each_fan :: "(rstring \<Rightarrow> rstring \<Rightarrow> fpath \<Rightarrow> 't \<Rightarrow> (err, 't) io) \<Rightarrow> fpath \<Rightarrow> (rstring \<times> bool) list \<Rightarrow> 't \<Rightarrow> (err, 't) io" where
  "each_fan f src [] t = ioret t"
| "each_fan f src ((aa, sub) # es) t =
     (if \<not> (utf8 aa \<and> length aa = 2) \<or> \<not> sub then each_fan f src es t
      else iobind (iomap_err (DiskE ScratchWalk) (fs_read_dir (src @ [aa]))) (\<lambda>entries.
        iobind (each_file f (src @ [aa]) aa entries t) (\<lambda>t'. each_fan f src es t')))"

definition for_each_object :: "fpath \<Rightarrow> (rstring \<Rightarrow> rstring \<Rightarrow> fpath \<Rightarrow> 't \<Rightarrow> (err, 't) io) \<Rightarrow> 't \<Rightarrow> (err, 't) io" where
  "for_each_object src f t = iobind (iotry (fs_read_dir src)) (\<lambda>r. case r of
     Inl NotFound \<Rightarrow> ioret t
   | Inl _ \<Rightarrow> iofail (DiskE ScratchWalk)
   | Inr es \<Rightarrow> each_fan f src es t)"

definition merge_one :: "fpath \<Rightarrow> rstring \<Rightarrow> rstring \<Rightarrow> fpath \<Rightarrow> fpath list \<Rightarrow> (err, fpath list) io" where
  "merge_one dst aa rest src_path touched =
     (let sub = dst @ [aa]; dst_path = sub @ [rest] in
      iobind (fs_exists dst_path) (\<lambda>there.
      if there then ioret touched
      else iobind (iomap_err (DiskE ScratchMkdir) (fs_create_dir_all sub)) (\<lambda>_.
        iobind (place_object src_path dst_path) (\<lambda>_.
        ioret (insort_insert sub touched)))))"

definition merge_objects :: "fpath \<Rightarrow> fpath \<Rightarrow> (err, fpath list) io" where
  "merge_objects src dst = for_each_object src (merge_one dst) []"

subsection \<open>The lifecycle\<close>

text \<open>Each stale scratch is merged, then removed as well as it can be.\<close>

definition absorb :: "fpath \<Rightarrow> fpath \<Rightarrow> (err, unit) io" where
  "absorb dst s = iobind (merge_objects (s @ [OBJECTS]) dst) (\<lambda>_.
     iobind (iotry (fs_remove_dir_all s)) (\<lambda>_. ioret ()))"

definition scratch_prepare :: "fpath \<Rightarrow> nat \<Rightarrow> (err, sync_scratch) io" where
  "scratch_prepare home attempt = (case attempt_dir home attempt of
     Inl e \<Rightarrow> iofail e
   | Inr dir \<Rightarrow>
       iobind (iomap_err (DiskE ScratchEnumerate) (scratch_siblings home)) (\<lambda>siblings.
       let stale = filter (\<lambda>p. p \<noteq> dir) siblings in
       iobind (iomap_err (DiskE ScratchCreate) (fs_create_dir_all (dir @ [OBJECTS]))) (\<lambda>_.
       iobind (iotry (fs_remove_file (refs_path dir))) (\<lambda>r.
       if (case r of Inr _ \<Rightarrow> False | Inl e \<Rightarrow> e \<noteq> NotFound) then iofail (DiskE ScratchClearRefs)
       else iobind (merge_objects (home @ [OBJECTS]) (dir @ [OBJECTS])) (\<lambda>_.
         iobind (ioeach (absorb (dir @ [OBJECTS])) stale) (\<lambda>_.
         ioret \<lparr>sx_canonical = home, sx_dir = dir\<rparr>))))))"

definition load_scratch :: "(bytes \<Rightarrow> object_id) \<Rightarrow> fpath \<Rightarrow> (err, refs \<times> u64 \<times> u64) io" where
  "load_scratch H dir =
     iobind (disk_refs_open dir) (\<lambda>p.
     iobind (disk_refs_load H p) (\<lambda>x. case x of
       None \<Rightarrow> iofail (DiskE PromoteNoRefs)
     | Some loaded \<Rightarrow> ioret loaded))"

definition sync_touched :: "fpath \<Rightarrow> fpath list \<Rightarrow> (err, unit) io" where
  "sync_touched odb touched =
     (if touched = [] then ioret ()
      else iobind (ioeach fsync_dir touched) (\<lambda>_. fsync_dir odb))"

definition scratch_promote :: "(bytes \<Rightarrow> object_id) \<Rightarrow> object_id \<Rightarrow> sync_scratch \<Rightarrow> (err, unit) io" where
  "scratch_promote H expected_root sc =
     iobind (load_scratch H (sx_dir sc)) (\<lambda>(refs, height, gc_watermark).
     let got = root_bytes H refs in
     if got \<noteq> expected_root then iofail (DiskE (PromoteRoot got expected_root))
     else let canonical_odb = sx_canonical sc @ [OBJECTS] in
       iobind (merge_objects (sx_dir sc @ [OBJECTS]) canonical_odb) (\<lambda>touched.
       iobind (sync_touched canonical_odb touched) (\<lambda>_.
       iobind (disk_refs_open (sx_canonical sc)) (\<lambda>dir.
       iobind (disk_refs_save H refs height gc_watermark dir) (\<lambda>_.
       iobind (iotry (fs_remove_dir_all (sx_dir sc))) (\<lambda>_. ioret ()))))))"

definition sweep_stale :: "fpath \<Rightarrow> (err, unit) io" where
  "sweep_stale home = iobind (iotry (scratch_siblings home)) (\<lambda>r. case r of
     Inl _ \<Rightarrow> ioret ()
   | Inr stale \<Rightarrow> ioeach (\<lambda>dir. iobind (iotry (fs_remove_dir_all dir)) (\<lambda>_. ioret ())) stale)"

end
