(* ===== verification/Scratch_Merge.thy ===== *)
theory Scratch_Merge
  imports Disk_Scratch Disk_Restart
begin

text \<open>
  What the merge of one object directory into another guarantees, however its calls turn out: the
  destination keeps its invariant, and a merge that reports success has brought every object over.
\<close>

subsection \<open>Placing an object\<close>

text \<open>What a step of the merge starts from: the source is a file outside the store with the bytes of object \<open>i\<close>.\<close>

definition placing :: "(bytes \<Rightarrow> object_id) \<Rightarrow> fpath \<Rightarrow> disk \<Rightarrow> fpath set \<Rightarrow> object_id \<Rightarrow> fpath \<Rightarrow> bytes \<Rightarrow> disk \<Rightarrow> bool" where
  "placing H dir d0 D i s raw d \<longleftrightarrow> advances H dir d0 D d \<and> is_dir d (fan dir i) \<and> writing s raw d"

definition placed :: "(bytes \<Rightarrow> object_id) \<Rightarrow> fpath \<Rightarrow> disk \<Rightarrow> fpath set \<Rightarrow> object_id \<Rightarrow> disk \<Rightarrow> bool" where
  "placed H dir d0 D i d \<longleftrightarrow> advances H dir d0 (insert (fan dir i) D) d \<and> present_at dir d i"

lemma planless_placing: "planless (placing H dir d0 D i s raw)"
  using planless_advances [of H dir d0 D] by (simp add: planless_def placing_def is_dir_def at_path_def writing_def)

lemma placing_tmp_only:
  assumes "tmp_only d d'" "clean_path dir" "\<not> tmp_path s" "placing H dir d0 D i s raw d"
  shows "placing H dir d0 D i s raw d'"
proof -
  have "bt_get (d_live d') p = bt_get (d_live d) p" if "\<not> tmp_path p" for p
    using assms(1) that by (simp add: only_def)
  then show ?thesis
    using assms(3,4) advances_tmp_only [OF assms(1,2), of H d0 D]
    by (simp add: placing_def is_dir_def at_path_def writing_def)
qed

lemma copy_tmp_path: "tmp_path (copy_tmp (opath dir i))" "copy_tmp (opath dir i) \<noteq> []"
  by (simp_all add: copy_tmp_def tmp_path_def suffix_def)

lemma link_triple:
  assumes src: "\<not> tmp_path s" "s \<noteq> []" and ok: "intact_object H i raw" "clean_path dir"
  shows "triple (placing H dir d0 D i s raw) (fs_hard_link s (opath dir i)) (\<lambda>_. placed H dir d0 D i)
    (\<lambda>e. if e = AlreadyExists then placed H dir d0 D i else placing H dir d0 D i s raw)"
  unfolding fs_hard_link_def
proof (rule triple_call [OF planless_placing])
  fix d
  assume P: "placing H dir d0 D i s raw d"
  then have adv: "advances H dir d0 D d" and fan: "is_dir d (fan dir i)" and w: "writing s raw d"
    by (simp_all add: placing_def)
  have "s \<notin> d_unsynced d" using adv src(1) by (auto simp: advances_def odb_inv_def)
  note link = advances_link [OF adv w this ok(1) fan ok(2)]
  have at: "at_path d s = Some (FileE raw)" using w src(2) by (simp add: at_path_def writing_def)
  show "case case at_path d s of
        None \<Rightarrow> (Inl NotFound, d)
      | Some (FileE b) \<Rightarrow> if at_path d (opath dir i) \<noteq> None then (Inl AlreadyExists, d)
          else if \<not> is_dir d (butlast (opath dir i)) then (Inl NotFound, d)
          else (Inr (), named_entry s (FileE b) (opath dir i) d)
      | Some DirE \<Rightarrow> (Inl OtherIo, d) of
      (Inr x, d') \<Rightarrow> placed H dir d0 D i d'
    | (Inl e, d') \<Rightarrow> (if e = AlreadyExists then placed H dir d0 D i else placing H dir d0 D i s raw) d'"
  proof (cases "at_path d (opath dir i)")
    case None
    then show ?thesis using at fan link by (simp add: placed_def)
  next
    case (Some e)
    then have "placed H dir d0 D i d"
      using advances_mono [OF adv, of "insert (fan dir i) D"] by (auto simp: placed_def present_at_def at_path_def)
    then show ?thesis using Some at by simp
  qed
qed auto

lemma copy_triple:
  assumes src: "\<not> tmp_path s" "s \<noteq> []" and ok: "clean_path dir" and t: "tmp_path tmp"
  shows "triple (placing H dir d0 D i s raw) (fs_copy s tmp)
    (\<lambda>_ d. placing H dir d0 D i s raw d \<and> writing tmp raw d) (\<lambda>_. placing H dir d0 D i s raw)"
proof -
  let ?P = "placing H dir d0 D i s raw"
  have put: "?P (fs_write_file tmp b d)" if "?P d" for b d
    unfolding fs_write_file_def by (rule placing_tmp_only [OF tmp_only_put [OF t] ok src(1) that]) simp
  have at: "at_path d s = Some (FileE raw)" if "?P d" for d
    using that src(2) by (simp add: at_path_def placing_def writing_def)
  have w: "writing tmp b (fs_write_file tmp b d)" for b d by (simp add: writing_def fs_write_file_def)
  show ?thesis
    unfolding fs_copy_def [abs_def]
  proof (rule triple_call [OF planless_placing])
    fix d
    assume P: "?P d"
    show "case case at_path d s of
          None \<Rightarrow> (Inl NotFound, d)
        | Some (FileE b) \<Rightarrow> if \<not> is_dir d (butlast tmp) then (Inl NotFound, d)
            else if is_dir d tmp then (Inl OtherIo, d) else (Inr (), fs_write_file tmp b d)
        | Some DirE \<Rightarrow> (Inl OtherIo, d) of
        (Inr x, d') \<Rightarrow> ?P d' \<and> writing tmp raw d' | (Inl e, d') \<Rightarrow> ?P d'"
      using P put [OF P, of raw] w [of raw d] by (simp add: at [OF P])
    show "?P (case at_path d s of
          Some (FileE b) \<Rightarrow> if is_dir d (butlast tmp) \<and> \<not> is_dir d tmp then fs_write_file tmp (take n b) d else d
        | _ \<Rightarrow> d)" for n
      using P put [OF P, of "take n raw"] by (simp add: at [OF P])
    show "?P d" by (rule P)
  qed
qed

lemma place_triple:
  assumes src: "\<not> tmp_path s" "s \<noteq> []" and ok: "intact_object H i raw" "clean_path dir"
  shows "triple (placing H dir d0 D i s raw) (place_object s (opath dir i)) (\<lambda>_. placed H dir d0 D i)
    (\<lambda>_. advances H dir d0 D)"
proof -
  let ?P = "placing H dir d0 D i s raw" and ?Q = "placed H dir d0 D i" and ?A = "advances H dir d0 D"
  define tmp where "tmp = copy_tmp (opath dir i)"
  have t: "tmp_path tmp" by (simp add: tmp_def copy_tmp_path)
  have PA: "?A d" if "?P d" for d using that by (simp add: placing_def)
  note st = placing_tmp_only [OF _ ok(2) src(1)]
  note steps = tmp_triples [OF t planless_placing st]
  have pw: "planless (\<lambda>d. ?P d \<and> writing tmp raw d)"
    using planless_placing [of H dir d0 D i s raw] by (simp add: planless_def writing_def)
  have opened: "triple (\<lambda>d. ?P d \<and> writing tmp raw d) (fs_open tmp) (\<lambda>_ d. ?P d \<and> writing tmp raw d) (\<lambda>_. ?A)"
    unfolding fs_open_def by (rule triple_read [OF pw]) (auto simp: PA)
  have synced: "triple (\<lambda>d. ?P d \<and> writing tmp raw d) (iomap_err (DiskE ScratchFsync) (iobind (fs_open tmp) (\<lambda>_. fs_sync_all tmp)))
      (\<lambda>_ d. ?P d \<and> writing tmp raw d \<and> tmp \<notin> d_unsynced d) (\<lambda>_. ?A)"
    by (rule triple_map_err, rule triple_bind [OF opened], rule triple_conseq [OF steps(3)]) (auto simp: PA)
  have named: "triple (\<lambda>d. ?P d \<and> writing tmp raw d \<and> tmp \<notin> d_unsynced d) (rename_or_clean (DiskE ScratchPublish) tmp (opath dir i))
      (\<lambda>_. ?Q) (\<lambda>_. ?A)"
    by (rule triple_conseq [OF publish_object [OF t ok]]) (auto simp: placing_def placed_def)
  have copied: "triple ?P (iobind (iomap_err (DiskE ScratchCopy) (fs_copy s tmp)) (\<lambda>_.
      iobind (iomap_err (DiskE ScratchFsync) (iobind (fs_open tmp) (\<lambda>_. fs_sync_all tmp))) (\<lambda>_.
      rename_or_clean (DiskE ScratchPublish) tmp (opath dir i)))) (\<lambda>_. ?Q) (\<lambda>_. ?A)"
    apply (rule triple_bind [where R = "\<lambda>_ d. ?P d \<and> writing tmp raw d"])
     apply (rule triple_map_err, rule triple_conseq [OF copy_triple [OF src ok(2) t]], simp, simp, erule PA)
    apply (rule triple_bind [OF synced])
    apply (rule named)
    done
  show ?thesis
    unfolding place_object_def Let_def tmp_def [symmetric]
  proof (rule triple_bind [OF triple_try])
    let ?R = "\<lambda>r. case r of Inr _ \<Rightarrow> ?Q | Inl e \<Rightarrow> if e = AlreadyExists then ?Q else ?P"
    show "triple ?P (fs_hard_link s (opath dir i)) (\<lambda>x. ?R (Inr x)) (\<lambda>e. ?R (Inl e))"
      using link_triple [OF src ok] by simp
    fix r :: "io_error + unit"
    have "triple ?Q (ioret ()) (\<lambda>_. ?Q) (\<lambda>_. ?A)" by (rule triple_ret)
    then show "triple (?R r) (case r of Inl AlreadyExists \<Rightarrow> ioret ()
        | Inl _ \<Rightarrow> iobind (iomap_err (DiskE ScratchCopy) (fs_copy s tmp)) (\<lambda>_.
            iobind (iomap_err (DiskE ScratchFsync) (iobind (fs_open tmp) (\<lambda>_. fs_sync_all tmp))) (\<lambda>_.
            rename_or_clean (DiskE ScratchPublish) tmp (opath dir i)))
        | Inr _ \<Rightarrow> ioret ()) (\<lambda>_. ?Q) (\<lambda>_. ?A)"
      using copied by (auto split: sum.split io_error.split)
  qed
qed

subsection \<open>Merging\<close>

text \<open>A second object directory, apart from the destination, whose files hold the objects they name.\<close>

definition source :: "(bytes \<Rightarrow> object_id) \<Rightarrow> fpath \<Rightarrow> fpath \<Rightarrow> disk \<Rightarrow> bool" where
  "source H dst src d \<longleftrightarrow> (\<forall>i. apart dst (opath src i)) \<and>
     (\<forall>i e. length i = 32 \<longrightarrow> bt_get (d_live d) (opath src i) = Some e \<longrightarrow> intact_file H i e)"

lemma source_advances: "source H dst src d0 \<Longrightarrow> advances H dst d0 D d \<Longrightarrow> source H dst src d"
  by (simp add: source_def advances_def)

definition fan_list :: "fpath \<Rightarrow> fpath list \<Rightarrow> bool" where
  "fan_list dst t \<longleftrightarrow> (\<forall>p \<in> set t. \<exists>x. p = dst @ [x])"

lemma merge_one_advances:
  assumes run: "merge_one dst aa rest (src @ [aa] @ [rest]) t d = (r, d')"
    and inv: "odb_inv H dst (set t) d" and clean: "clean_path dst" and src: "source H dst src d"
    and i: "length aa = 2" "aa @ rest = to_hex i" "length i = 32" and there: "bt_get (d_live d) (src @ [aa] @ [rest]) \<noteq> None"
  shows "case r of Inr t' \<Rightarrow> advances H dst d (set t') d' \<and> present_at dst d' i \<and> (fan_list dst t \<longrightarrow> fan_list dst t')
    | Inl _ \<Rightarrow> advances H dst d (set t) d'"
proof -
  have hex: "aa = take 2 (to_hex i)" "rest = drop 2 (to_hex i)"
    using i(1,2) by (metis append_eq_conv_conj)+
  have paths: "src @ [aa] @ [rest] = opath src i" "dst @ [aa] = fan dst i" "fan dst i @ [rest] = opath dst i"
    by (simp_all add: hex opath_def fan_def)
  have ap: "apart dst (opath src i)" using src by (simp add: source_def)
  obtain raw where raw: "bt_get (d_live d) (opath src i) = Some (FileE raw)" "intact_object H i raw"
    using there src i(3) unfolding paths source_def intact_file_def by blast
  let ?s = "opath src i" and ?A = "advances H dst d (set t)"
  have st: "\<not> tmp_path ?s" "?s \<noteq> []" by simp_all
  have w: "writing ?s raw e" if "?A e" for e using that ap raw(1) by (simp add: advances_def writing_def)
  let ?Q = "\<lambda>t' e. advances H dst d (set t') e \<and> present_at dst e i \<and> (fan_list dst t \<longrightarrow> fan_list dst t')"
  let ?rest = "iobind (iomap_err (DiskE ScratchMkdir) (fs_create_dir_all (fan dst i))) (\<lambda>_.
    iobind (place_object ?s (opath dst i)) (\<lambda>_. ioret (insort_insert (fan dst i) t)))"
  have fresh: "triple ?A ?rest ?Q (\<lambda>_. ?A)"
    apply (rule triple_bind [where R = "\<lambda>_. placing H dst d (set t) i ?s raw"])
     apply (rule triple_map_err, rule triple_conseq [OF create_fan], assumption)
      apply (simp add: placing_def w, assumption)
    apply (rule triple_bind [OF place_triple [OF st raw(2) clean]])
    apply (rule triple_ret)
    apply (auto simp: placed_def set_insort_insert fan_list_def fan_def)
    done
  have skip: "triple (\<lambda>e. ?A e \<and> bt_get (d_live e) (opath dst i) \<noteq> None) (ioret t) ?Q (\<lambda>_. ?A)"
    by (rule triple_ret) (simp add: present_at_def)
  have "triple ?A (merge_one dst aa rest ?s t) ?Q (\<lambda>_. ?A)"
    unfolding merge_one_def Let_def paths
  proof (rule triple_bind [OF exists_triple [OF planless_advances]])
    show "opath dst i \<noteq> []" by simp
    show "triple (\<lambda>e. ?A e \<and> (x \<longrightarrow> bt_get (d_live e) (opath dst i) \<noteq> None)) (if x then ioret t else ?rest) ?Q (\<lambda>_. ?A)" for x
      using fresh skip by (cases x) simp_all
  qed
  from triple_run [OF this advances_refl [OF inv]] run show ?thesis unfolding paths by (cases r) auto
qed

text \<open>The state of a merge: what it has reached from the start, and the objects it has brought over.\<close>

definition merging :: "(bytes \<Rightarrow> object_id) \<Rightarrow> fpath \<Rightarrow> fpath \<Rightarrow> disk \<Rightarrow> fpath list \<Rightarrow> disk \<Rightarrow> bool" where
  "merging H dst src d0 t d \<longleftrightarrow> advances H dst d0 (set t) d \<and> fan_list dst t \<and> source H dst src d"

lemma merging_trans: "merging H dst src d0 t d \<Longrightarrow> merging H dst src d t' d' \<Longrightarrow> merging H dst src d0 t' d'"
  unfolding merging_def using advances_trans by blast

lemma merging_present: "merging H dst src d0 t d \<Longrightarrow> present_at dst d0 i \<Longrightarrow> present_at dst d i"
  by (simp add: merging_def advances_def)

lemma merging_inv: "merging H dst src d0 t d \<Longrightarrow> odb_inv H dst (set t) d \<and> fan_list dst t \<and> source H dst src d"
  by (simp add: merging_def advances_def)

lemma merging_source: "merging H dst src d0 t d \<Longrightarrow> source H dst src d0 \<Longrightarrow> bt_get (d_live d) (opath src i) = bt_get (d_live d0) (opath src i)"
  by (simp add: merging_def advances_def source_def)

abbreviation halted :: "(bytes \<Rightarrow> object_id) \<Rightarrow> fpath \<Rightarrow> disk \<Rightarrow> disk \<Rightarrow> bool" where
  "halted H dst d0 d \<equiv> advances H dst d0 UNIV d"

lemma halted_trans: "merging H dst src d0 t d \<Longrightarrow> halted H dst d d' \<Longrightarrow> halted H dst d0 d'"
  unfolding merging_def using advances_trans by blast

lemma from_hex_name: "from_hex_32 (aa @ rest) \<noteq> None \<Longrightarrow> \<exists>i. length i = 32 \<and> aa @ rest = to_hex i"
  using from_hex_32_iff by blast

text \<open>The object names of a fanout directory's listing are files there.\<close>

definition listed :: "fpath \<Rightarrow> rstring \<Rightarrow> (rstring \<times> bool) list \<Rightarrow> disk \<Rightarrow> bool" where
  "listed src aa es d \<longleftrightarrow> (\<forall>i rest b. length i = 32 \<and> aa @ rest = to_hex i \<and> (rest, b) \<in> set es \<longrightarrow>
     bt_get (d_live d) (opath src i) \<noteq> None)"

lemma listed_merging: "listed src aa es d0 \<Longrightarrow> merging H dst src d0 t d \<Longrightarrow> source H dst src d0 \<Longrightarrow> listed src aa es d"
  unfolding listed_def by (simp add: merging_source)

lemma split_hex: "length aa = 2 \<Longrightarrow> aa @ rest = to_hex i \<Longrightarrow> aa = take 2 (to_hex i) \<and> rest = drop 2 (to_hex i)"
  by (metis append_eq_conv_conj)

lemma each_file_merges:
  assumes clean: "clean_path dst" and aa: "length aa = 2"
  shows "each_file (merge_one dst) (src @ [aa]) aa es t d = (r, d') \<Longrightarrow> merging H dst src d t d \<Longrightarrow>
    listed src aa es d \<Longrightarrow>
    case r of Inl _ \<Rightarrow> halted H dst d d'
    | Inr t' \<Rightarrow> merging H dst src d t' d' \<and>
        (\<forall>i rest b. length i = 32 \<and> aa @ rest = to_hex i \<and> (rest, b) \<in> set es \<longrightarrow> present_at dst d' i)"
proof (induction es arbitrary: t d)
  case Nil
  then show ?case by (auto simp: ioret_def)
next
  case (Cons x es)
  obtain rest b where x: "x = (rest, b)" by fastforce
  show ?case
  proof (cases "\<not> utf8 rest \<or> length rest \<noteq> 62 \<or> from_hex_32 (aa @ rest) = None")
    case True
    have "aa @ rest \<noteq> to_hex i" if "length i = 32" for i
    proof
      assume eq: "aa @ rest = to_hex i"
      then have "rest = drop 2 (to_hex i)" using split_hex [OF aa] by blast
      then have "utf8 rest" using ascii_hex(2) [of 2 i] by simp
      moreover have "from_hex_32 (aa @ rest) \<noteq> None" unfolding eq using that from_hex_32_iff by blast
      moreover have "length rest = 62" using arg_cong [OF eq, of length] aa that by simp
      ultimately show False using True by simp
    qed
    moreover have "each_file (merge_one dst) (src @ [aa]) aa es t d = (r, d')" using Cons.prems(1) True x by auto
    moreover have "listed src aa es d" using Cons.prems(3) by (auto simp: listed_def)
    ultimately show ?thesis using Cons.IH [OF _ Cons.prems(2)] x by (auto split: sum.splits)
  next
    case False
    then obtain i where i: "length i = 32" "aa @ rest = to_hex i" using from_hex_name by blast
    obtain q d1 where q: "merge_one dst aa rest (src @ [aa] @ [rest]) t d = (q, d1)" by fastforce
    have "src @ [aa] @ [rest] = opath src i" using split_hex [OF aa i(2)] by (simp add: opath_def)
    then have there: "bt_get (d_live d) (src @ [aa] @ [rest]) \<noteq> None"
      using Cons.prems(3) x i unfolding listed_def by (metis list.set_intros(1))
    note m = merging_inv [OF Cons.prems(2)]
    note one = merge_one_advances [OF q _ clean _ aa i(2,1) there, of H] 
    show ?thesis
    proof (cases q)
      case (Inl e)
      then have "r = Inl e" "d' = d1" using Cons.prems(1) False x q by (auto simp: iobind_def)
      moreover have "advances H dst d (set t) d1" using one m Inl by simp
      ultimately show ?thesis using advances_mono by simp
    next
      case (Inr t1)
      have rest1: "each_file (merge_one dst) (src @ [aa]) aa es t1 d1 = (r, d')"
        using Cons.prems(1) False x q Inr by (auto simp: iobind_def)
      have adv: "advances H dst d (set t1) d1" "present_at dst d1 i" "fan_list dst t1"
        using one m Inr by auto
      have m1: "merging H dst src d t1 d1"
        using adv source_advances m by (auto simp: merging_def)
      have m1': "merging H dst src d1 t1 d1"
        using merging_inv [OF m1] advances_refl by (auto simp: merging_def)
      have "listed src aa es d" using Cons.prems(3) by (auto simp: listed_def)
      then have th1: "listed src aa es d1" using listed_merging [OF _ m1] m by blast
      note two = Cons.IH [OF rest1 m1' th1]
      show ?thesis
      proof (cases r)
        case (Inl e)
        then show ?thesis using two halted_trans [OF m1] by simp
      next
        case y: (Inr t2)
        then have m2: "merging H dst src d1 t2 d'" using two by simp
        have "present_at dst d' i" using merging_present [OF m2 adv(2)] .
        moreover have "to_hex j = aa @ rest \<Longrightarrow> j = i" for j using i(2) to_hex_inj by metis
        ultimately show ?thesis using y two merging_trans [OF m1 m2] x by auto
      qed
    qed
  qed
qed

lemma read_dir_live:
  assumes "fs_read_dir p d = (Inr es, d1)"
  shows "is_dir d p" "\<exists>os. d1 = d\<lparr>d_plan := os\<rparr>"
    and "(n, b) \<in> set es \<Longrightarrow> bt_get (d_live d) (p @ [n]) \<noteq> None"
    and "bt_get (d_live d) (p @ [n]) = Some e \<Longrightarrow> (n, e = DirE) \<in> set es"
proof -
  let ?es = "map (\<lambda>(q, e). (last q, e = DirE)) (filter (\<lambda>(q, _). q \<noteq> [] \<and> butlast q = p) (d_live d))"
  have es: "es = ?es \<and> is_dir d p \<and> (\<exists>os. d1 = d\<lparr>d_plan := os\<rparr>)"
    using assms by (auto simp: fs_read_dir_def call_def is_dir_def at_path_def split: list.splits outcome.splits if_splits
        intro: exI [of _ "d_plan d"])
  then show "is_dir d p" "\<exists>os. d1 = d\<lparr>d_plan := os\<rparr>" by blast+
  show "bt_get (d_live d) (p @ [n]) \<noteq> None" if nb: "(n, b) \<in> set es"
  proof -
    obtain q e where "(q, e) \<in> set (d_live d)" "q \<noteq> []" "butlast q = p" "n = last q" using nb es by auto
    moreover from this have "p @ [n] = q" by (metis append_butlast_last_id)
    moreover from calculation(1) have "q \<in> fst ` set (d_live d)" by (rule image_eqI [rotated]) simp
    ultimately show ?thesis unfolding bt_get_None_iff by metis
  qed
  show "(n, e = DirE) \<in> set es" if "bt_get (d_live d) (p @ [n]) = Some e"
    using bt_get_Some_mem [OF that] es by (force intro: rev_image_eqI)
qed

lemma listed_read:
  assumes "fs_read_dir (src @ [aa]) d = (Inr es, d1)" "length aa = 2"
  shows "listed src aa es d1"
    and "length i = 32 \<Longrightarrow> take 2 (to_hex i) = aa \<Longrightarrow> present_at src d i \<Longrightarrow> \<exists>b. (drop 2 (to_hex i), b) \<in> set es"
proof -
  note live = read_dir_live [OF assms(1)]
  have path: "opath src i = (src @ [aa]) @ [rest]" if "aa @ rest = to_hex i" for i rest
    using split_hex [OF assms(2) that] by (simp add: opath_def)
  show "listed src aa es d1"
    unfolding listed_def
  proof (intro allI impI, elim conjE)
    fix i rest b
    assume "aa @ rest = to_hex i" "(rest, b) \<in> set es"
    then have "bt_get (d_live d) (opath src i) \<noteq> None" using live(3) path by simp
    moreover have "d_live d1 = d_live d" using live(2) by auto
    ultimately show "bt_get (d_live d1) (opath src i) \<noteq> None" by simp
  qed
  show "\<exists>b. (drop 2 (to_hex i), b) \<in> set es" if "length i = 32" "take 2 (to_hex i) = aa" "present_at src d i"
  proof -
    have "opath src i = (src @ [aa]) @ [drop 2 (to_hex i)]" using that(2) by (simp add: opath_def)
    then show ?thesis using that(3) live(4) [of "drop 2 (to_hex i)"] unfolding present_at_def by auto
  qed
qed

lemma merging_plan: "merging H dst src d t d \<Longrightarrow> merging H dst src d t (d\<lparr>d_plan := os\<rparr>)"
proof -
  assume m: "merging H dst src d t d"
  have "advances H dst d (set t) (d\<lparr>d_plan := os\<rparr>) = advances H dst d (set t) d"
    using planless_advances unfolding planless_def by blast
  moreover have "source H dst src (d\<lparr>d_plan := os\<rparr>) = source H dst src d" by (simp add: source_def)
  ultimately show ?thesis using m unfolding merging_def by blast
qed

lemma merging_restart:
  assumes "merging H dst src d0 t d"
  shows "merging H dst src d t d"
  using merging_inv [OF assms] advances_refl [of H dst "set t" d] unfolding merging_def by blast

lemma merging_src_present: "merging H dst src d0 t d \<Longrightarrow> source H dst src d0 \<Longrightarrow> present_at src d i = present_at src d0 i"
  by (simp add: present_at_def merging_source)

lemma each_fan_merges:
  assumes clean: "clean_path dst"
  shows "each_fan (merge_one dst) src es t d = (r, d') \<Longrightarrow> merging H dst src d t d \<Longrightarrow>
    case r of Inl _ \<Rightarrow> halted H dst d d'
    | Inr t' \<Rightarrow> merging H dst src d t' d' \<and>
        (\<forall>i. length i = 32 \<and> (take 2 (to_hex i), True) \<in> set es \<and> present_at src d i \<longrightarrow> present_at dst d' i)"
proof (induction es arbitrary: t d)
  case Nil
  then show ?case by (auto simp: ioret_def)
next
  case (Cons x es)
  obtain aa sub where x: "x = (aa, sub)" by fastforce
  show ?case
  proof (cases "\<not> (utf8 aa \<and> length aa = 2) \<or> \<not> sub")
    case True
    have "(take 2 (to_hex i), True) \<noteq> (aa, sub)" if "length i = 32" for i
      using True that ascii_hex(1) [of 2 i] by auto
    moreover have "each_fan (merge_one dst) src es t d = (r, d')" using Cons.prems(1) True x by auto
    ultimately show ?thesis using Cons.IH [OF _ Cons.prems(2)] x by (auto split: sum.splits)
  next
    case False
    then have aa: "length aa = 2" by simp
    obtain q d1 where q: "fs_read_dir (src @ [aa]) d = (q, d1)" by fastforce
    have "\<exists>os. d1 = d\<lparr>d_plan := os\<rparr>"
      using q by (auto simp: fs_read_dir_def call_def split: list.splits outcome.splits if_splits intro: exI [of _ "d_plan d"])
    then have m1: "merging H dst src d t d1" using merging_plan [OF Cons.prems(2)] by blast
    show ?thesis
    proof (cases q)
      case (Inl e)
      then have "d' = d1 \<and> (\<exists>e. r = Inl e)"
        using Cons.prems(1) False x q by (auto simp: iobind_def iomap_err_def)
      then show ?thesis using m1 advances_mono [of H dst d "set t" d1 UNIV] by (auto simp: merging_def)
    next
      case (Inr entries)
      obtain y d2 where y: "each_file (merge_one dst) (src @ [aa]) aa entries t d1 = (y, d2)" by fastforce
      note read = listed_read [OF q [unfolded Inr] aa]
      note files = each_file_merges [OF clean aa y merging_restart [OF m1] read(1)]
      show ?thesis
      proof (cases y)
        case (Inl e)
        then have "d' = d2 \<and> r = Inl e"
          using Cons.prems(1) False x q Inr y by (auto simp: iobind_def iomap_err_def)
        then show ?thesis using files Inl halted_trans [OF m1] by simp
      next
        case z: (Inr t1)
        have rest: "each_fan (merge_one dst) src es t1 d2 = (r, d')"
          using Cons.prems(1) False x q Inr y z by (auto simp: iobind_def iomap_err_def)
        have m2: "merging H dst src d1 t1 d2" using files z by simp
        have m02: "merging H dst src d t1 d2" by (rule merging_trans [OF m1 m2])
        have src: "source H dst src d" using merging_inv [OF Cons.prems(2)] by simp
        note two = Cons.IH [OF rest merging_restart [OF m2]]
        have here: "present_at dst d2 i" if i: "length i = 32" "take 2 (to_hex i) = aa" "present_at src d i" for i
        proof -
          obtain b where "(drop 2 (to_hex i), b) \<in> set entries" using read(2) [OF i] by blast
          moreover have "aa @ drop 2 (to_hex i) = to_hex i" using i(2) by (metis append_take_drop_id)
          ultimately show ?thesis using files z i(1) by auto
        qed
        show ?thesis
        proof (cases r)
          case (Inl e)
          then show ?thesis using two halted_trans [OF m02] by simp
        next
          case w: (Inr t2)
          then have m3: "merging H dst src d2 t2 d'" using two by simp
          have "present_at dst d' i" if "length i = 32" "(take 2 (to_hex i), True) \<in> set (x # es)" "present_at src d i" for i
          proof (cases "take 2 (to_hex i) = aa")
            case True
            then show ?thesis using merging_present [OF m3] here that by blast
          next
            case False
            then have "(take 2 (to_hex i), True) \<in> set es" using that(2) x by simp
            moreover have "present_at src d2 i" using that(3) merging_src_present [OF m02 src] by simp
            ultimately show ?thesis using two w that(1) by simp
          qed
          then show ?thesis using w merging_trans [OF m02 m3] by simp
        qed
      qed
    qed
  qed
qed

lemma merge_objects_merges:
  assumes run: "merge_objects src dst d = (r, d')" and inv: "odb_inv H dst {} d" "clean_path dst" "source H dst src d"
    and there: "is_dir d src"
  shows "case r of Inl _ \<Rightarrow> halted H dst d d'
    | Inr t \<Rightarrow> merging H dst src d t d' \<and>
        (\<forall>i. length i = 32 \<and> is_dir d (fan src i) \<and> present_at src d i \<longrightarrow> present_at dst d' i)"
proof -
  have m: "merging H dst src d [] d" using inv advances_refl by (simp add: merging_def fan_list_def)
  obtain q d1 where q: "fs_read_dir src d = (q, d1)" by fastforce
  have d1: "\<exists>os. d1 = d\<lparr>d_plan := os\<rparr>" and nf: "q \<noteq> Inl NotFound"
    using q there by (auto simp: fs_read_dir_def call_def is_dir_def at_path_def split: list.splits outcome.splits if_splits
        intro: exI [of _ "d_plan d"])
  then have m1: "merging H dst src d [] d1" using merging_plan [OF m] by blast
  show ?thesis
  proof (cases q)
    case (Inl e)
    then have "r = Inl (DiskE ScratchWalk)" "d' = d1"
      using run q nf by (auto simp: merge_objects_def for_each_object_def iofail_def split: io_error.splits)
    then show ?thesis using m1 advances_mono [of H dst d "{}" d1 UNIV] by (simp add: merging_def)
  next
    case (Inr es)
    then have "each_fan (merge_one dst) src es [] d1 = (r, d')"
      using run q by (simp add: merge_objects_def for_each_object_def)
    note fans = each_fan_merges [OF inv(2) this merging_restart [OF m1]]
    have "(take 2 (to_hex i), True) \<in> set es" if "is_dir d (fan src i)" for i
      using read_dir_live(4) [OF q [unfolded Inr], of "take 2 (to_hex i)" DirE] that
      by (simp add: is_dir_def at_path_def fan_def)
    moreover have "present_at src d1 i = present_at src d i" for i using d1 by (auto simp: present_at_def)
    ultimately show ?thesis
      using fans merging_trans [OF m1] halted_trans [OF m1] by (cases r) auto
  qed
qed

end
