(* ===== verification/Scratch_Promote.thy ===== *)
theory Scratch_Promote
  imports Scratch_Merge
begin

text \<open>
  Promotion replaces the refs of the canonical directory only after the objects they can name are durable
  there; preparing and sweeping a scratch, and a promotion whose root does not match, leave it untouched.
\<close>

subsection \<open>Promotion\<close>

abbreviation odb_of :: "fpath \<Rightarrow> fpath" where "odb_of p \<equiv> p @ [OBJECTS]"

text \<open>
  What promotion finds: the canonical store is intact and synced, the scratch is a directory of the same
  depth beside it, and the scratch's objects are the ones their names say.
\<close>

definition scratch_ready :: "(bytes \<Rightarrow> object_id) \<Rightarrow> sync_scratch \<Rightarrow> disk \<Rightarrow> bool" where
  "scratch_ready H sc d \<longleftrightarrow> odb_inv H (odb_of (sx_canonical sc)) {} d \<and> clean_path (odb_of (sx_canonical sc)) \<and>
     length (sx_dir sc) = length (sx_canonical sc) \<and> sx_dir sc \<noteq> sx_canonical sc \<and>
     (\<forall>n \<le> length (sx_dir sc). is_dir d (take n (sx_dir sc))) \<and> is_dir d (odb_of (sx_dir sc)) \<and>
     (\<forall>i e. length i = 32 \<longrightarrow> bt_get (d_live d) (opath (odb_of (sx_dir sc)) i) = Some e \<longrightarrow>
        intact_file H i e \<and> is_dir d (fan (odb_of (sx_dir sc)) i))"

definition replanned :: "disk \<Rightarrow> disk \<Rightarrow> bool" where
  "replanned d d' \<longleftrightarrow> (\<exists>os. d' = d\<lparr>d_plan := os\<rparr>)"

lemma replanned_triple:
  assumes "\<And>e. replanned d e \<Longrightarrow> snd (act e) = e" "\<And>e x. replanned d e \<Longrightarrow> fst (act e) = Inr x \<Longrightarrow> Q x"
  shows "triple (replanned d) (call act untorn) (\<lambda>x e. replanned d e \<and> Q x) (\<lambda>_. replanned d)"
proof (rule triple_read)
  show "planless (replanned d)" unfolding planless_def replanned_def by (metis disk.cases_scheme disk.update_convs(4))
qed (use assms in auto)

lemma at_replanned [simp]: "replanned d e \<Longrightarrow> at_path e p = at_path d p" "replanned d e \<Longrightarrow> is_dir e p = is_dir d p"
  by (auto simp: replanned_def at_path_def is_dir_def)

lemma mkdir_triple:
  assumes "planless I" "\<And>d n. I d \<Longrightarrow> n \<le> length p \<Longrightarrow> is_dir d (take n p)"
  shows "triple I (fs_create_dir_all p) (\<lambda>_. I) (\<lambda>_. I)"
  unfolding fs_create_dir_all_def
proof (rule triple_call [OF assms(1)])
  fix d
  assume d: "I d"
  have mk: "make_dirs [] (take n p) d = (Inr (), d)" for n
    by (rule mkdir_rooted) (use assms(2) [OF d] in \<open>simp add: min_def split: if_splits\<close>)
  show "case make_dirs [] p d of (Inr x, d') \<Rightarrow> I d' | (Inl e, d') \<Rightarrow> I d'"
    using mk [of "length p"] d by simp
  show "I (snd (make_dirs [] (take n p) d))" for n using mk [of n] d by simp
qed

lemma load_scratch_triple:
  assumes "\<And>n. n \<le> length dir \<Longrightarrow> is_dir d (take n dir)"
  shows "triple (replanned d) (load_scratch H dir)
    (\<lambda>x e. replanned d e \<and> (\<exists>raw. at_path d (refs_path dir) = Some (FileE raw) \<and> decode_envelope H raw = Inr x))
    (\<lambda>_. replanned d)"
proof -
  have pl: "planless (replanned d)" unfolding planless_def replanned_def by (metis disk.cases_scheme disk.update_convs(4))
  have opened: "triple (replanned d) (disk_refs_open dir) (\<lambda>p e. replanned d e \<and> p = dir) (\<lambda>_. replanned d)"
    unfolding disk_refs_open_def
    by (rule triple_bind [where R = "\<lambda>_. replanned d"], rule triple_map_err, rule mkdir_triple [OF pl])
       (use assms in \<open>auto intro: triple_ret\<close>)
  let ?Q = "\<lambda>x. case x of None \<Rightarrow> True | Some y \<Rightarrow> (\<exists>raw. at_path d (refs_path dir) = Some (FileE raw) \<and> decode_envelope H raw = Inr y)"
  have rd: "triple (replanned d) (fs_read (refs_path dir)) (\<lambda>raw e. replanned d e \<and> at_path d (refs_path dir) = Some (FileE raw)) (\<lambda>_. replanned d)"
    unfolding fs_read_def by (rule replanned_triple) (auto split: option.splits entry.splits)
  have loaded: "triple (replanned d) (disk_refs_load H dir) (\<lambda>x e. replanned d e \<and> ?Q x) (\<lambda>_. replanned d)"
    unfolding disk_refs_load_def
  proof (rule triple_bind [OF triple_try])
    let ?R = "\<lambda>r e. replanned d e \<and> (\<forall>raw. r = Inr raw \<longrightarrow> at_path d (refs_path dir) = Some (FileE raw))"
    show "triple (replanned d) (fs_read (refs_path dir)) (\<lambda>raw. ?R (Inr raw)) (\<lambda>e. ?R (Inl e))"
      by (rule triple_conseq [OF rd]) auto
    show "triple (?R r) (case r of Inl NotFound \<Rightarrow> ioret None | Inl _ \<Rightarrow> iofail (DiskE RefsLoadFailed)
        | Inr raw \<Rightarrow> iobind (iolift (decode_envelope H raw)) (\<lambda>x. ioret (Some x))) (\<lambda>x e. replanned d e \<and> ?Q x) (\<lambda>_. replanned d)"
      for r :: "io_error + bytes"
      by (auto simp: triple_def iobind_def iolift_def ioret_def iofail_def split: sum.split io_error.split)
  qed
  show ?thesis
    unfolding load_scratch_def
  proof (rule triple_bind [OF opened])
    fix p
    have "triple (replanned d) (iobind (disk_refs_load H dir) (\<lambda>x. case x of None \<Rightarrow> iofail (DiskE PromoteNoRefs) | Some loaded \<Rightarrow> ioret loaded))
      (\<lambda>x e. replanned d e \<and> (\<exists>raw. at_path d (refs_path dir) = Some (FileE raw) \<and> decode_envelope H raw = Inr x)) (\<lambda>_. replanned d)"
      by (rule triple_bind [OF loaded]) (auto simp: triple_def ioret_def iofail_def split: option.split)
    then show "triple (\<lambda>e. replanned d e \<and> p = dir) (iobind (disk_refs_load H p) (\<lambda>x. case x of None \<Rightarrow> iofail (DiskE PromoteNoRefs) | Some loaded \<Rightarrow> ioret loaded))
      (\<lambda>x e. replanned d e \<and> (\<exists>raw. at_path d (refs_path dir) = Some (FileE raw) \<and> decode_envelope H raw = Inr x)) (\<lambda>_. replanned d)"
      by (auto simp: triple_def)
  qed
qed

lemma sync_touched_triple:
  assumes "fan_list odb t"
  shows "triple (advances H odb d0 (set t)) (sync_touched odb t) (\<lambda>_. advances H odb d0 {}) (\<lambda>_. advances H odb d0 (set t))"
proof -
  let ?ds = "\<lparr>ds_dir = odb, ds_dirty = t\<rparr>"
  have eq: "disk_sync_dirs_io ?ds = iobind (sync_touched odb t) (\<lambda>_. ioret \<lparr>ds_dir = odb, ds_dirty = []\<rparr>)"
    by (auto simp: disk_sync_dirs_io_def sync_touched_def fun_eq_iff iobind_def ioret_def split: sum.split prod.split)
  have sync: "triple (advances H odb d0 (set t)) (disk_sync_dirs_io ?ds) (\<lambda>ds' d. advances H odb d0 {} d) (\<lambda>_. advances H odb d0 (set t))"
    by (rule triple_conseq [OF sync_dirs_triple [of ?ds]]) (use assms in \<open>simp_all add: fan_list_def\<close>)
  show ?thesis
    using sync unfolding eq triple_def by (fastforce simp: iobind_def ioret_def split: sum.splits prod.splits)
qed

text \<open>Removing the spent scratch touches no path of the canonical directory.\<close>

lemma drops_only:
  "\<forall>p \<in> set ps. T p \<Longrightarrow> only T d (fold drop_entry ps d)"
proof (induction ps arbitrary: d)
  case Nil
  show ?case by (simp add: tmp_only_refl)
next
  case (Cons p ps)
  have "only T d (drop_entry p d)" using Cons.prems by (auto simp: only_def)
  then show ?case using Cons.IH [of "drop_entry p d"] Cons.prems only_trans by fastforce
qed

lemma remove_scratch_triple:
  assumes "length p = length r" "p \<noteq> r" "dir = odb_of r"
  shows "triple (saving H dir r S ks) (fs_remove_dir_all p) (\<lambda>_. saving H dir r S ks) (\<lambda>_. saving H dir r S ks)"
proof -
  let ?T = "\<lambda>q. take (length p) q = p"
  have "\<not> ?T (r @ s)" for s using assms(1,2) by simp
  then have under: "\<not> ?T (opath dir i)" "\<not> ?T (fan dir i)" "\<not> ?T (refs_path r)" for i
    unfolding opath_def fan_def refs_path_def assms(3) append_assoc by blast+
  have "\<not> ?T (take n dir)" for n
  proof (cases "length r \<le> n")
    case True
    then have "take n dir = r @ take (n - length r) [OBJECTS]" by (simp add: assms(3))
    then show ?thesis using \<open>\<And>s. \<not> ?T (r @ s)\<close> by presburger
  next
    case False
    then have "length (take (length p) (take n dir)) < length p" using assms(1) by simp
    then show ?thesis by (metis nat_neq_iff)
  qed
  then have un: "unused ?T dir" using under by (simp add: unused_def)
  have st: "saving H dir r S ks (fold drop_entry ps d)" if "saving H dir r S ks d" "\<forall>q \<in> set ps. ?T q" for ps d
  proof (rule saving_only [OF drops_only un that(1)])
    show "\<forall>q \<in> set ps. ?T q" by (rule that(2))
    show "d_kept (fold drop_entry ps d) (refs_path r) \<subseteq> ks"
      using drops_only [OF that(2), of d] under(3) that(1) by (simp add: only_def saving_def)
  qed
  show ?thesis
    unfolding fs_remove_dir_all_def
    by (rule triple_call [OF planless_saving]) (auto intro!: st dest: in_set_takeD)
qed

lemma saving_rooted: "saving H (odb_of r) r S ks d \<Longrightarrow> n \<le> length r \<Longrightarrow> is_dir d (take n r)"
  using odb_dirs [of H "odb_of r" "{}" d n] by (simp add: saving_def is_dir_def)

lemma install_triple:
  assumes "clean_path (odb_of r)" "length p = length r" "p \<noteq> r"
  shows "triple (saving H (odb_of r) r S ks)
    (iobind (disk_refs_open r) (\<lambda>dir. iobind (disk_refs_save H R h w dir) (\<lambda>_. iobind (iotry (fs_remove_dir_all p)) (\<lambda>_. ioret ()))))
    (\<lambda>_. saving H (odb_of r) r S {Some (FileE (encode_envelope H R h w))})
    (\<lambda>_. saving H (odb_of r) r S (insert (Some (FileE (encode_envelope H R h w))) ks))"
proof -
  let ?I = "saving H (odb_of r) r S" and ?new = "Some (FileE (encode_envelope H R h w))"
  have name: "OBJECTS \<noteq> str ''refs''" by (simp add: OBJECTS_def)
  have weak: "?I (insert ?new ks) d" if "?I ks d" for d using that by (auto simp: saving_def)
  have opened: "triple (?I ks) (disk_refs_open r) (\<lambda>dir d. ?I ks d \<and> dir = r) (\<lambda>_. ?I (insert ?new ks))"
    unfolding disk_refs_open_def
    apply (rule triple_bind [where R = "\<lambda>_. ?I ks"])
     apply (rule triple_map_err, rule triple_conseq [OF mkdir_triple [OF planless_saving]])
        apply (erule saving_rooted, assumption, assumption, assumption, erule weak)
    apply (rule triple_ret, simp)
    done
  have gone: "triple (?I {?new}) (iobind (iotry (fs_remove_dir_all p)) (\<lambda>_. ioret ())) (\<lambda>_. ?I {?new}) (\<lambda>_. ?I (insert ?new ks))"
    by (rule triple_bind [where R = "\<lambda>_. ?I {?new}", OF triple_try [OF remove_scratch_triple [OF assms(2,3) refl]]])
       (rule triple_ret)
  have saved: "triple (?I ks) (iobind (disk_refs_save H R h w r) (\<lambda>_. iobind (iotry (fs_remove_dir_all p)) (\<lambda>_. ioret ())))
      (\<lambda>_. ?I {?new}) (\<lambda>_. ?I (insert ?new ks))"
    by (rule triple_bind [OF save_triple [OF refl name assms(1)] gone])
  show ?thesis
    by (rule triple_bind [OF opened]) (use saved in \<open>auto simp: triple_def\<close>)
qed

lemma scratch_source:
  assumes "scratch_ready H sc d"
  shows "source H (odb_of (sx_canonical sc)) (odb_of (sx_dir sc)) d"
proof -
  let ?c = "sx_canonical sc" and ?x = "sx_dir sc"
  have sep: "length ?x = length ?c" "?x \<noteq> ?c" using assms by (simp_all add: scratch_ready_def)
  have "apart (odb_of ?c) (opath (odb_of ?x) i)" for i
  proof -
    have "opath (odb_of ?x) i \<noteq> odb_of ?c @ s" for s
      using sep by (simp add: opath_def)
    then show ?thesis by (simp add: apart_def)
  qed
  then show ?thesis using assms by (simp add: source_def scratch_ready_def)
qed

text \<open>What a promotion can do to the canonical directory, however its calls turn out.\<close>

definition promotes :: "(bytes \<Rightarrow> object_id) \<Rightarrow> object_id \<Rightarrow> sync_scratch \<Rightarrow> disk \<Rightarrow> bool \<Rightarrow> disk \<Rightarrow> bool" where
  "promotes H root sc d done d' \<longleftrightarrow> (\<exists>raw R h w.
     at_path d (refs_path (sx_dir sc)) = Some (FileE raw) \<and> decode_envelope H raw = Inr (R, h, w) \<and> root_bytes H R = root \<and>
     (\<forall>i. length i = 32 \<and> present_at (odb_of (sx_dir sc)) d i \<longrightarrow> sure H (odb_of (sx_canonical sc)) d' i) \<and>
     d_kept d' (refs_path (sx_canonical sc)) \<subseteq>
       (if done then {} else d_kept d (refs_path (sx_canonical sc))) \<union> {Some (FileE (encode_envelope H R h w))})"

lemma promote_outcome:
  assumes ready: "scratch_ready H sc d" and run: "scratch_promote H root sc d = (res, d')"
  defines "odb \<equiv> odb_of (sx_canonical sc)" and "refs \<equiv> refs_path (sx_canonical sc)"
  shows "odb_inv H odb UNIV d' \<and> (\<forall>i. sure H odb d i \<longrightarrow> sure H odb d' i) \<and>
    (d_kept d' refs = d_kept d refs \<and> res \<noteq> Inr () \<or> promotes H root sc d (res = Inr ()) d')"
proof -
  let ?c = "sx_canonical sc" and ?x = "sx_dir sc"
  have r: "odb_inv H odb {} d" "clean_path odb" "length ?x = length ?c" "?x \<noteq> ?c"
      "\<And>n. n \<le> length ?x \<Longrightarrow> is_dir d (take n ?x)" "is_dir d (odb_of ?x)"
      "\<And>i e. length i = 32 \<Longrightarrow> bt_get (d_live d) (opath (odb_of ?x) i) = Some e \<Longrightarrow> is_dir d (fan (odb_of ?x) i)"
    using ready unfolding scratch_ready_def odb_def by blast+
  have src: "source H odb (odb_of ?x) d" using scratch_source [OF ready] by (simp add: odb_def)
  have md: "module_dir ?c odb" using r(2) by (simp add: module_dir_def odb_def OBJECTS_def)
  obtain l d1 where l: "load_scratch H ?x d = (l, d1)" by fastforce
  have "replanned d d" unfolding replanned_def by (metis disk.surjective disk.update_convs(4))
  note load = triple_run [OF load_scratch_triple [OF r(5)] this l]
  then have "replanned d d1" by (cases l) auto
  then obtain os where d1: "d1 = d\<lparr>d_plan := os\<rparr>" unfolding replanned_def by blast
  have same: "odb_inv H odb {} d1" "\<And>i. sure H odb d1 i = sure H odb d i" "d_kept d1 refs = d_kept d refs"
      "is_dir d1 (odb_of ?x)" "source H odb (odb_of ?x) d1"
    using r(1,6) src by (simp_all add: d1 source_def is_dir_def at_path_def)
  have univ: "odb_inv H odb UNIV e" if "odb_inv H odb D e" for D e using that unfolding odb_inv_def by blast
  show ?thesis
  proof (cases l)
    case (Inl e)
    then have "res = Inl e" "d' = d1" using run l by (auto simp: scratch_promote_def iobind_def)
    then show ?thesis using same univ by simp
  next
    case (Inr x)
    obtain R h w where x: "x = (R, h, w)" by (metis prod_cases3)
    obtain raw where raw: "at_path d (refs_path ?x) = Some (FileE raw)" "decode_envelope H raw = Inr (R, h, w)"
      using load Inr x by auto
    show ?thesis
    proof (cases "root_bytes H R = root")
      case False
      then have "res \<noteq> Inr ()" "d' = d1" using run l Inr x by (auto simp: scratch_promote_def iobind_def iofail_def Let_def)
      then show ?thesis using same univ by simp
    next
      case root: True
      obtain m d2 where m: "merge_objects (odb_of ?x) odb d1 = (m, d2)" by fastforce
      note merge = merge_objects_merges [OF m same(1) r(2) same(5,4)]
      show ?thesis
      proof (cases m)
        case (Inl e)
        then have "res = Inl e" "d' = d2"
          using run l Inr x root m by (auto simp: scratch_promote_def iobind_def Let_def odb_def)
        moreover have "advances H odb d1 UNIV d2" using merge Inl by simp
        ultimately show ?thesis using same apart_refs [OF md] by (simp add: advances_def refs_def)
      next
        case (Inr t)
        have mt: "merging H odb (odb_of ?x) d1 t d2"
          and got: "\<And>i. length i = 32 \<Longrightarrow> is_dir d1 (fan (odb_of ?x) i) \<Longrightarrow> present_at (odb_of ?x) d1 i \<Longrightarrow> present_at odb d2 i"
          using merge Inr by auto
        obtain y d3 where y: "sync_touched odb t d2 = (y, d3)" by fastforce
        have "fan_list odb t" "advances H odb d1 (set t) d2" using mt by (simp_all add: merging_def)
        note sync = triple_run [OF sync_touched_triple [OF this(1)] this(2) y]
        note sync2 = triple_run [OF sync_touched_triple [OF \<open>fan_list odb t\<close>] advances_refl y]
        have inv2: "odb_inv H odb (set t) d2" using mt by (simp add: merging_def advances_def)
        show ?thesis
        proof (cases y)
          case (Inl e)
          then have "res = Inl e" "d' = d3"
            using run l \<open>l = Inr x\<close> x root m Inr y by (auto simp: scratch_promote_def iobind_def Let_def odb_def)
          moreover have "advances H odb d1 (set t) d3" using sync Inl by simp
          moreover have "odb_inv H odb UNIV d3" using calculation(3) univ unfolding advances_def by blast
          ultimately show ?thesis using same apart_refs [OF md] by (simp add: advances_def refs_def)
        next
          case z: (Inr u)
          let ?new = "Some (FileE (encode_envelope H R h w))"
          have adv: "advances H odb d1 {} d3" using sync z by simp
          have keep: "present_at odb d3 i" if "present_at odb d2 i" for i
            using sync2 [OF inv2] z that by (simp add: advances_def)
          have refs3: "d_kept d3 refs = d_kept d refs" using adv same(3) apart_refs [OF md] by (simp add: advances_def refs_def)
          let ?S = "{i. sure H odb d3 i}"
          have sv: "saving H odb ?c ?S (d_kept d refs) d3"
            using adv refs3 by (simp add: saving_def advances_def refs_def)
          have fin: "iobind (disk_refs_open ?c) (\<lambda>dir. iobind (disk_refs_save H R h w dir)
              (\<lambda>_. iobind (iotry (fs_remove_dir_all ?x)) (\<lambda>_. ioret ()))) d3 = (res, d')"
            using run l \<open>l = Inr x\<close> x root m Inr y z by (auto simp: scratch_promote_def iobind_def Let_def odb_def)
          have st: "case res of Inr _ \<Rightarrow> saving H odb ?c ?S {?new} d' | Inl _ \<Rightarrow> saving H odb ?c ?S (insert ?new (d_kept d refs)) d'"
            using triple_run [OF install_triple [OF r(2) [unfolded odb_def] r(3,4)] sv [unfolded odb_def] fin] unfolding odb_def .
          then have fin': "odb_inv H odb {} d'" "\<And>i. sure H odb d3 i \<Longrightarrow> sure H odb d' i"
              "d_kept d' refs \<subseteq> (if res = Inr () then {} else d_kept d refs) \<union> {?new}"
            by (cases res; auto simp: saving_def refs_def)+
          have up: "sure H odb d' i" if "sure H odb d i" for i
            using that same(2) adv fin'(2) by (simp add: advances_def)
          have brought: "sure H odb d' i" if i: "length i = 32" "present_at (odb_of ?x) d i" for i
          proof -
            have "is_dir d1 (fan (odb_of ?x) i)" using r(7) i by (auto simp: present_at_def d1 is_dir_def at_path_def)
            moreover have "present_at (odb_of ?x) d1 i" using i(2) by (simp add: present_at_def d1)
            ultimately have "present_at odb d3 i" using got keep i(1) by blast
            then have "sure H odb d3 i" using adv i(1) by (auto simp: advances_def odb_inv_def present_at_def)
            then show ?thesis by (rule fin'(2))
          qed
          have "promotes H root sc d (res = Inr ()) d'"
            unfolding promotes_def using raw root brought fin'(3) unfolding odb_def refs_def by blast
          then show ?thesis using univ [OF fin'(1)] up by blast
        qed
      qed
    qed
  qed
qed

lemma promote_wrong_root:
  assumes "\<And>n. n \<le> length (sx_dir sc) \<Longrightarrow> is_dir d (take n (sx_dir sc))"
    and "\<And>raw R h w. at_path d (refs_path (sx_dir sc)) = Some (FileE raw) \<Longrightarrow> decode_envelope H raw = Inr (R, h, w) \<Longrightarrow> root_bytes H R \<noteq> root"
    and run: "scratch_promote H root sc d = (res, d')"
  shows "res \<noteq> Inr () \<and> replanned d d'"
proof -
  obtain l d1 where l: "load_scratch H (sx_dir sc) d = (l, d1)" by fastforce
  have "replanned d d" unfolding replanned_def by (metis disk.surjective disk.update_convs(4))
  note load = triple_run [OF load_scratch_triple [OF assms(1)] this l]
  show ?thesis
  proof (cases l)
    case (Inl e)
    then show ?thesis using run l load by (auto simp: scratch_promote_def iobind_def)
  next
    case (Inr x)
    obtain R h w where x: "x = (R, h, w)" by (metis prod_cases3)
    then have "root_bytes H R \<noteq> root" using load Inr assms(2) by auto
    then show ?thesis using run l load Inr x by (auto simp: scratch_promote_def iobind_def iofail_def Let_def)
  qed
qed

subsection \<open>Outside promotion the canonical directory is not touched\<close>

definition untouched :: "fpath \<Rightarrow> disk \<Rightarrow> disk \<Rightarrow> bool" where
  "untouched c d0 d \<longleftrightarrow> (\<forall>p. prefix c p \<longrightarrow> bt_get (d_live d) p = bt_get (d_live d0) p \<and> d_kept d p = d_kept d0 p)"

abbreviation leaves :: "fpath \<Rightarrow> disk \<Rightarrow> ('e, 'a) io \<Rightarrow> bool" where
  "leaves c d0 m \<equiv> triple (untouched c d0) m (\<lambda>_. untouched c d0) (\<lambda>_. untouched c d0)"

lemma planless_untouched: "planless (untouched c d0)"
  by (simp add: planless_def untouched_def)

lemma untouched_entry:
  "\<not> prefix c p \<Longrightarrow> untouched c d0 (put_entry p e ks d) = untouched c d0 d"
  "\<not> prefix c p \<Longrightarrow> untouched c d0 (drop_entry p d) = untouched c d0 d"
  "untouched c d0 (d\<lparr>d_unsynced := u\<rparr>) = untouched c d0 d"
  by (auto simp: untouched_def)

lemma leaves_call:
  assumes "\<And>d. untouched c d0 d \<Longrightarrow> untouched c d0 (snd (act d))" "\<And>n d. untouched c d0 d \<Longrightarrow> untouched c d0 (torn n d)"
  shows "leaves c d0 (call act torn)"
proof (rule triple_call [OF planless_untouched])
  show "case act d of (Inr x, d') \<Rightarrow> untouched c d0 d' | (Inl e, d') \<Rightarrow> untouched c d0 d'" if "untouched c d0 d" for d
    using assms(1) [OF that] by (auto split: prod.split sum.split)
qed (rule assms(2))

lemma leaves_reads:
  "leaves c d0 (fs_read_dir p)" "leaves c d0 (fs_open p)" "leaves c d0 (fs_exists p)"
proof -
  show "leaves c d0 (fs_read_dir p)" "leaves c d0 (fs_open p)"
    unfolding fs_read_dir_def fs_open_def by (rule leaves_call; simp)+
  show "leaves c d0 (fs_exists p)"
    unfolding fs_exists_def
    by (rule triple_bind [where R = "\<lambda>_. untouched c d0", OF triple_try]; (rule leaves_call triple_ret; simp)?)
qed

lemma leaves_writes:
  assumes "\<not> prefix c p"
  shows "leaves c d0 (fs_sync_all p)" "leaves c d0 (fs_remove_file p)" "leaves c d0 (fs_copy s p)" "leaves c d0 (fs_hard_link s p)"
    and "\<not> prefix c s \<Longrightarrow> leaves c d0 (fs_rename s p)"
proof -
  note u = untouched_entry(1,2) [OF assms] untouched_entry(3)
  show "leaves c d0 (fs_sync_all p)" unfolding fs_sync_all_def by (rule leaves_call) (simp_all add: u)
  show "leaves c d0 (fs_remove_file p)" unfolding fs_remove_file_def
    by (rule leaves_call) (simp_all add: u split: option.split entry.split)
  show "leaves c d0 (fs_copy s p)" unfolding fs_copy_def [abs_def] fs_write_file_def
    by (rule leaves_call) (simp_all add: u split: option.split entry.split)
  show "leaves c d0 (fs_hard_link s p)" unfolding fs_hard_link_def named_entry_def
    by (rule leaves_call) (simp_all add: u split: option.split entry.split)
  show "leaves c d0 (fs_rename s p)" if "\<not> prefix c s" unfolding fs_rename_def named_entry_def
    by (rule leaves_call) (simp_all add: u untouched_entry(2) [OF that] split: option.split entry.split)
qed

lemma leaves_bind: "leaves c d0 m \<Longrightarrow> (\<And>x. leaves c d0 (f x)) \<Longrightarrow> leaves c d0 (iobind m f)"
  by (rule triple_bind [where R = "\<lambda>_. untouched c d0"])

lemma leaves_try: "leaves c d0 m \<Longrightarrow> leaves c d0 (iotry m)"
  by (rule triple_try)

lemma leaves_map_err: "leaves c d0 m \<Longrightarrow> leaves c d0 (iomap_err e m)"
  by (rule triple_map_err)

lemma leaves_ret: "leaves c d0 (ioret x)" "leaves c d0 (iofail e)"
  unfolding triple_def by (simp_all add: ioret_def iofail_def)

lemmas leaves_intros = leaves_bind leaves_try leaves_map_err leaves_ret leaves_reads leaves_writes

text \<open>A directory beside \<open>c\<close>: nothing at or under it, and nothing above it, is under \<open>c\<close>.\<close>

definition beside :: "fpath \<Rightarrow> fpath \<Rightarrow> bool" where
  "beside c p \<longleftrightarrow> length p = length c \<and> p \<noteq> c"

lemma beside_prefix: "beside c p \<Longrightarrow> \<not> prefix c (p @ s)"
  by (auto simp: beside_def prefix_def append_eq_append_conv2)

lemma beside_take:
  assumes "beside c p"
  shows "\<not> prefix c (take n (p @ s))"
proof
  assume pre: "prefix c (take n (p @ s))"
  then have "length c \<le> n" using prefix_length_le [OF pre] by (simp only: length_take)
  then have "take n (p @ s) = p @ take (n - length p) s" using assms by (simp add: beside_def)
  then show False using beside_prefix [OF assms] pre by metis
qed

lemma make_dirs_untouched:
  "(\<And>n. \<not> prefix c (pre @ take n p) \<or> n = 0) \<Longrightarrow> untouched c d0 d \<Longrightarrow> untouched c d0 (snd (make_dirs pre p d))"
proof (induction p arbitrary: pre d)
  case (Cons s p)
  have here: "\<not> prefix c (pre @ [s])" using Cons.prems(1) [of 1] by simp
  have later: "\<not> prefix c ((pre @ [s]) @ take n p) \<or> n = 0" for n using Cons.prems(1) [of "Suc n"] by simp
  show ?case
    using Cons.IH [OF later] Cons.prems(2) untouched_entry(1) [OF here]
    by (simp add: Let_def split: option.split entry.split)
qed simp

lemma leaves_mkdir:
  assumes "beside c p"
  shows "leaves c d0 (fs_create_dir_all (p @ s))"
proof -
  have "untouched c d0 (snd (make_dirs [] (take m (p @ s)) d))" if "untouched c d0 d" for m d
    by (rule make_dirs_untouched [OF _ that]) (simp only: append_Nil take_take beside_take [OF assms], simp)
  from this [of _ "length (p @ s)"] this show ?thesis
    unfolding fs_create_dir_all_def by (intro leaves_call) (simp_all only: take_all order_refl)
qed

lemma leaves_remove_dir:
  assumes "beside c p"
  shows "leaves c d0 (fs_remove_dir_all p)"
proof -
  have "untouched c d0 (fold drop_entry ps d)" if "untouched c d0 d" "\<forall>q \<in> set ps. take (length p) q = p" for ps d
    using that
  proof (induction ps arbitrary: d)
    case (Cons q ps)
    have "q = p @ drop (length p) q" using Cons.prems(2) by (metis append_take_drop_id list.set_intros(1))
    then have "\<not> prefix c q" using beside_prefix [OF assms] by metis
    then show ?case using Cons untouched_entry(2) by simp
  qed simp
  note gone = this
  show ?thesis
    unfolding fs_remove_dir_all_def
  proof (rule leaves_call)
    show "untouched c d0 (fold drop_entry (take n (filter (\<lambda>q. take (length p) q = p) (map fst (d_live d)))) d)"
      if "untouched c d0 d" for n d
      by (rule gone [OF that]) (auto dest: in_set_takeD)
  qed (simp add: gone)
qed

lemma leaves_rename_or_clean: "\<not> prefix c s \<Longrightarrow> \<not> prefix c p \<Longrightarrow> leaves c d0 (rename_or_clean e s p)"
  unfolding rename_or_clean_def by (intro leaves_intros) (auto intro!: leaves_intros split: sum.split)

lemma leaves_merge:
  assumes "beside c p"
  shows "leaves c d0 (merge_objects src (p @ s))"
proof -
  have out: "\<not> prefix c ((p @ s) @ x)" for x using beside_prefix [OF assms] by simp
  have place: "leaves c d0 (place_object q ((p @ s) @ [aa] @ [rest]))" for q aa rest
  proof -
    have "\<not> prefix c (copy_tmp ((p @ s) @ [aa] @ [rest]))" using out [of "[aa] @ [rest @ TMP]"] by (simp add: copy_tmp_def butlast_append)
    then show ?thesis unfolding place_object_def Let_def
      using out by (auto intro!: leaves_intros leaves_rename_or_clean split: sum.split io_error.split)
  qed
  have one: "leaves c d0 (merge_one (p @ s) aa rest q t)" for aa rest q t
    unfolding merge_one_def Let_def
    using place [of q aa rest] leaves_mkdir [OF assms, of _ "s @ [aa]"]
    by (auto intro!: leaves_intros)
  have files: "leaves c d0 (each_file (merge_one (p @ s)) q aa es t)" for q aa es t
    by (induction es arbitrary: t) (auto intro!: leaves_intros one)
  have fans: "leaves c d0 (each_fan (merge_one (p @ s)) src es t)" for es t
    by (induction es arbitrary: t) (auto intro!: leaves_intros files)
  show ?thesis
    unfolding merge_objects_def for_each_object_def
    by (intro leaves_intros) (auto intro!: leaves_intros fans split: sum.split io_error.split)
qed

lemma attempt_beside: "attempt_dir home n = Inr dir \<Longrightarrow> beside home dir"
proof -
  assume "attempt_dir home n = Inr dir"
  then have h: "home \<noteq> []" "dir = butlast home @ [last home @ SCRATCH_A @ dec_nat n]"
    by (auto simp: attempt_dir_def dir_name_def split: if_splits)
  moreover have "dir \<noteq> home"
  proof
    assume "dir = home"
    then have "last home @ SCRATCH_A @ dec_nat n = last home" using h(2) by (metis last_snoc)
    then show False by (simp add: SCRATCH_A_def)
  qed
  ultimately show "beside home dir" by (simp add: beside_def)
qed

lemma sibling_beside:
  assumes "dir_name home = Some name" "attempt_name name n"
  shows "beside home (butlast home @ [n])"
proof -
  have h: "home \<noteq> []" "name = last home" using assms(1) by (auto simp: dir_name_def split: if_splits)
  have "n \<noteq> last home" using assms(2) h(2) by (auto simp: attempt_name_def prefix_def SCRATCH_A_def)
  then have "butlast home @ [n] \<noteq> home" by (metis last_snoc)
  then show ?thesis using h(1) by (simp add: beside_def)
qed

lemma siblings_triple:
  "triple (untouched home d0) (scratch_siblings home) (\<lambda>xs d. untouched home d0 d \<and> (\<forall>p \<in> set xs. beside home p)) (\<lambda>_. untouched home d0)"
proof (cases "dir_name home")
  case None
  then show ?thesis by (simp add: scratch_siblings_def triple_def ioret_def)
next
  case (Some name)
  show ?thesis
    unfolding scratch_siblings_def Some option.case
  proof (rule triple_bind [OF leaves_try [OF leaves_reads(1)]])
    fix r :: "io_error + (rstring \<times> bool) list"
    show "triple (untouched home d0) (case r of Inl NotFound \<Rightarrow> ioret [] | Inl e \<Rightarrow> iofail e
        | Inr es \<Rightarrow> ioret (map (\<lambda>(n, _). butlast home @ [n]) (filter (\<lambda>(n, dir). dir \<and> attempt_name name n) es)))
      (\<lambda>xs d. untouched home d0 d \<and> (\<forall>p \<in> set xs. beside home p)) (\<lambda>_. untouched home d0)"
      using sibling_beside [OF Some] by (auto simp: triple_def ioret_def iofail_def split: sum.split io_error.split)
  qed
qed

lemma leaves_each: "(\<And>x. x \<in> set xs \<Longrightarrow> leaves c d0 (f x)) \<Longrightarrow> leaves c d0 (ioeach f xs)"
  by (rule triple_each)

lemma leaves_absorb:
  assumes "beside c p" "beside c s"
  shows "leaves c d0 (absorb (odb_of p) s)"
  unfolding absorb_def
  by (intro leaves_bind leaves_merge [OF assms(1)] leaves_try leaves_remove_dir [OF assms(2)] leaves_ret)

lemma prepare_leaves: "leaves home d0 (scratch_prepare home n)"
proof (cases "attempt_dir home n")
  case (Inl e)
  then show ?thesis by (simp add: scratch_prepare_def leaves_ret)
next
  case (Inr dir)
  note b = attempt_beside [OF Inr]
  have refs: "\<not> prefix home (refs_path dir)" using beside_prefix [OF b, of "[str ''refs'']"] unfolding refs_path_def .
  have rest: "leaves home d0 (iobind (iomap_err (DiskE ScratchCreate) (fs_create_dir_all (odb_of dir))) (\<lambda>_.
      iobind (iotry (fs_remove_file (refs_path dir))) (\<lambda>r.
      if (case r of Inr _ \<Rightarrow> False | Inl e \<Rightarrow> e \<noteq> NotFound) then iofail (DiskE ScratchClearRefs)
      else iobind (merge_objects (odb_of home) (odb_of dir)) (\<lambda>_.
        iobind (ioeach (absorb (odb_of dir)) stale) (\<lambda>_. ioret \<lparr>sx_canonical = home, sx_dir = dir\<rparr>)))))"
    if "\<forall>p \<in> set stale. beside home p" for stale
    by (intro leaves_bind leaves_map_err leaves_try leaves_mkdir [OF b] leaves_writes(2) [OF refs] leaves_merge [OF b]
        leaves_each leaves_absorb [OF b] leaves_ret triple_if) (use that in blast)
  show ?thesis
    unfolding scratch_prepare_def Inr sum.case Let_def
  proof (rule triple_bind [OF triple_map_err [OF siblings_triple]])
    fix siblings
    show "triple (\<lambda>d. untouched home d0 d \<and> (\<forall>p \<in> set siblings. beside home p))
      (iobind (iomap_err (DiskE ScratchCreate) (fs_create_dir_all (odb_of dir))) (\<lambda>_.
        iobind (iotry (fs_remove_file (refs_path dir))) (\<lambda>r.
        if (case r of Inr _ \<Rightarrow> False | Inl e \<Rightarrow> e \<noteq> NotFound) then iofail (DiskE ScratchClearRefs)
        else iobind (merge_objects (odb_of home) (odb_of dir)) (\<lambda>_.
          iobind (ioeach (absorb (odb_of dir)) (filter (\<lambda>p. p \<noteq> dir) siblings)) (\<lambda>_. ioret \<lparr>sx_canonical = home, sx_dir = dir\<rparr>)))))
      (\<lambda>_. untouched home d0) (\<lambda>_. untouched home d0)"
    proof (cases "\<forall>p \<in> set siblings. beside home p")
      case True
      then show ?thesis using rest [of "filter (\<lambda>p. p \<noteq> dir) siblings"] by simp
    next
      case False
      then show ?thesis by (auto simp: triple_def)
    qed
  qed
qed

lemma sweep_leaves: "leaves home d0 (sweep_stale home)"
  unfolding sweep_stale_def
proof (rule triple_bind [OF triple_try])
  let ?R = "\<lambda>r d. untouched home d0 d \<and> (\<forall>xs. r = Inr xs \<longrightarrow> (\<forall>p \<in> set xs. beside home p))"
  show "triple (untouched home d0) (scratch_siblings home) (\<lambda>xs. ?R (Inr xs)) (\<lambda>e. ?R (Inl e))"
    by (rule triple_conseq [OF siblings_triple]) auto
  fix r :: "io_error + fpath list"
  have each: "leaves home d0 (ioeach (\<lambda>dir. iobind (iotry (fs_remove_dir_all dir)) (\<lambda>_. ioret ())) xs)"
    if "\<forall>p \<in> set xs. beside home p" for xs
    by (intro leaves_each leaves_bind leaves_try leaves_remove_dir leaves_ret) (use that in blast)
  show "triple (?R r) (case r of Inl _ \<Rightarrow> ioret () | Inr stale \<Rightarrow> ioeach (\<lambda>dir. iobind (iotry (fs_remove_dir_all dir)) (\<lambda>_. ioret ())) stale)
      (\<lambda>_. untouched home d0) (\<lambda>_. untouched home d0)"
  proof (cases r)
    case (Inl e)
    then show ?thesis by (auto simp: triple_def ioret_def)
  next
    case (Inr xs)
    then show ?thesis using each [of xs] by (cases "\<forall>p \<in> set xs. beside home p") (auto simp: triple_def)
  qed
qed

lemma leaves_run: "leaves home d m \<Longrightarrow> untouched home d (snd (m d))"
  by (cases "m d"; cases "fst (m d)") (auto simp: triple_def untouched_def)

lemma replanned_untouched: "replanned d d' \<Longrightarrow> untouched home d d'"
  by (auto simp: replanned_def untouched_def)

end
