(* ===== verification/Scratch_Scenario.thy ===== *)
theory Scratch_Scenario
  imports Scratch_Promote Disk_Scenario
begin

text \<open>A canonical directory \<open>m\<close> without objects and a scratch \<open>n\<close> beside it that holds one object and the
  refs of a block, for the witnesses of the promotion.\<close>

abbreviation side_dir :: fpath where "side_dir \<equiv> [[110]]"

definition side :: sync_scratch where "side = \<lparr>sx_canonical = mod_dir, sx_dir = side_dir\<rparr>"

definition side_live :: "(fpath, entry) btree" where
  "side_live = [(mod_dir, DirE), (odb_of mod_dir, DirE), (side_dir, DirE), (odb_of side_dir, DirE),
     (fan (odb_of side_dir) one_object, DirE), (opath (odb_of side_dir) one_object, FileE [0, 1]),
     (refs_path side_dir, FileE (encode_envelope short_hash refs_default 1 0))]"

definition side_disk :: disk where "side_disk = settled side_live"

lemma side_get: "bt_get (d_live side_disk) p =
  (if p = mod_dir then Some DirE else if p = odb_of mod_dir then Some DirE
   else if p = side_dir then Some DirE else if p = odb_of side_dir then Some DirE
   else if p = fan (odb_of side_dir) one_object then Some DirE
   else if p = opath (odb_of side_dir) one_object then Some (FileE [0, 1])
   else if p = refs_path side_dir then Some (FileE (encode_envelope short_hash refs_default 1 0)) else None)"
  unfolding side_disk_def settled_def side_live_def disk.simps bt_get_Cons bt_get_Nil ..

lemma side_kept: "d_kept side_disk p = {bt_get (d_live side_disk) p}" "d_unsynced side_disk = {}" "d_plan side_disk = []"
  by (simp_all add: side_disk_def settled_def)

lemma clean_path_code: "clean_path dir \<longleftrightarrow> list_all (\<lambda>n. \<not> tmp_path (take n dir)) [1..<Suc (length dir)]"
  unfolding clean_path_def list_all_iff set_upt by (metis Suc_le_eq atLeastLessThan_iff less_Suc_eq_le One_nat_def)

lemma side_clean: "clean_path (odb_of mod_dir)"
  unfolding clean_path_code by code_simp

lemma side_paths: "opath (odb_of mod_dir) i = p \<Longrightarrow> bt_get (d_live side_disk) p = None"
proof -
  assume p: "opath (odb_of mod_dir) i = p"
  then have "length p = 4" "hd p = [109]" by (auto simp: opath_def)
  then show ?thesis unfolding side_get by (auto simp: opath_def fan_def refs_path_def)
qed

lemma side_object: "bt_get (d_live side_disk) (opath (odb_of side_dir) i) = Some e \<Longrightarrow> i = one_object \<and> e = FileE [0, 1]"
proof -
  assume e: "bt_get (d_live side_disk) (opath (odb_of side_dir) i) = Some e"
  have "length (opath (odb_of side_dir) i) = 4" by (simp add: opath_def)
  then have "opath (odb_of side_dir) i \<notin> {mod_dir, odb_of mod_dir, side_dir, odb_of side_dir, fan (odb_of side_dir) one_object}"
    "opath (odb_of side_dir) i \<noteq> refs_path side_dir"
    by (auto simp: fan_def refs_path_def)
  then show ?thesis using e unfolding side_get opath_inj by (auto split: if_splits)
qed

lemma side_holds: "bt_get (d_live side_disk) (opath (odb_of side_dir) one_object) = Some (FileE [0, 1])"
proof -
  have "length (opath (odb_of side_dir) one_object) = 4" by (simp add: opath_def)
  then have "opath (odb_of side_dir) one_object \<notin> {mod_dir, odb_of mod_dir, side_dir, odb_of side_dir, fan (odb_of side_dir) one_object}"
    by (auto simp: fan_def)
  then show ?thesis unfolding side_get by simp
qed

lemma side_dirs: "p \<in> {mod_dir, odb_of mod_dir, side_dir, odb_of side_dir, fan (odb_of side_dir) one_object} \<Longrightarrow> is_dir side_disk p"
  by (elim insertE emptyE) (simp_all add: is_dir_def at_path_def side_get)



lemma side_ready: "scratch_ready short_hash side side_disk"
proof -
  have "d_kept side_disk (take n (odb_of mod_dir)) = {Some DirE}" if "0 < n" "n \<le> length (odb_of mod_dir)" for n
  proof -
    have "take n (odb_of mod_dir) \<in> {mod_dir, odb_of mod_dir}" using that by (cases n; cases "n - 1") auto
    then show ?thesis unfolding side_kept by (elim insertE emptyE) (simp_all add: side_get)
  qed
  then have "anchored (odb_of mod_dir) side_disk" by (simp add: anchored_def)
  moreover have "bt_get (d_live side_disk) (opath (odb_of mod_dir) i) = None" for i using side_paths by blast
  moreover have "sane side_disk" by (simp add: sane_def side_kept)
  ultimately have inv: "odb_inv short_hash (odb_of mod_dir) {} side_disk" by (simp add: odb_inv_def side_kept)
  have intact: "intact_file short_hash one_object (FileE [0, 1])"
    unfolding intact_file_def by (intro exI conjI) (rule refl, code_simp)
  have up: "is_dir side_disk (take n side_dir)" if "n \<le> length side_dir" for n
    using that side_dirs [of side_dir] by (cases n) (simp_all add: is_dir_def at_path_def)
  have objects: "intact_file short_hash i e \<and> is_dir side_disk (fan (odb_of side_dir) i)"
    if "bt_get (d_live side_disk) (opath (odb_of side_dir) i) = Some e" for i e
    using side_object [OF that] intact side_dirs by (elim conjE) (simp only:, blast)
  show ?thesis
    unfolding scratch_ready_def side_def sync_scratch.select_convs
  proof (intro conjI allI impI)
    show "is_dir side_disk (odb_of side_dir)" using side_dirs by blast
    show "length side_dir = length mod_dir" "side_dir \<noteq> mod_dir" by simp_all
  qed (use inv side_clean up objects in blast)+
qed

text \<open>The promotion, call by call.\<close>

abbreviation "side_root \<equiv> root_bytes short_hash refs_default"

definition merged_side where "merged_side = merge_objects (odb_of side_dir) (odb_of mod_dir) side_disk"
definition synced_side where "synced_side = sync_touched (odb_of mod_dir) (projr (fst merged_side)) (snd merged_side)"
definition opened_side where "opened_side = disk_refs_open mod_dir (snd synced_side)"
definition saved_side where "saved_side = disk_refs_save short_hash refs_default 1 0 mod_dir (snd opened_side)"

lemmas side_calls = merged_side_def synced_side_def opened_side_def saved_side_def

lemma side_refs: "bt_get (d_live side_disk) (refs_path side_dir) = Some (FileE (encode_envelope short_hash refs_default 1 0))"
  unfolding side_get by (simp add: refs_path_def fan_def opath_def OBJECTS_def str_def)

lemma side_opened: "disk_refs_open side_dir side_disk = (Inr side_dir, side_disk)"
proof -
  have "bt_get (d_live side_disk) side_dir = Some DirE" unfolding side_get by simp
  then have "fs_create_dir_all side_dir side_disk = (Inr () :: io_error + _, side_disk)"
    by (simp add: fs_create_dir_all_def calm_call [OF side_kept(3)] Let_def at_path_def)
  then show ?thesis by (simp add: disk_refs_open_def iobind_def iomap_err_def)
qed

lemma side_load: "load_scratch short_hash side_dir side_disk = (Inr (refs_default, 1, 0), side_disk)"
proof -
  have "refs_path side_dir \<noteq> []" by (simp add: refs_path_def)
  then have "fs_read (refs_path side_dir) side_disk =
      (Inr (encode_envelope short_hash refs_default 1 0) :: io_error + _, side_disk)"
    by (simp add: fs_read_calm [OF side_kept(3)] side_refs)
  then have "disk_refs_load short_hash side_dir side_disk = (Inr (Some (refs_default, 1, 0)), side_disk)"
    unfolding disk_refs_load_def iobind_iotry
    by (simp add: envelope_roundtrip [OF fits_default]) (simp add: iobind_def iolift_def)
  then show ?thesis by (simp add: load_scratch_def iobind_def side_opened)
qed

lemma side_merge: "\<not> isl (fst merged_side)"
  unfolding side_calls by code_simp

lemma side_sync: "\<not> isl (fst synced_side)"
  unfolding side_calls by code_simp

lemma side_open: "fst opened_side = Inr mod_dir"
  unfolding side_calls by code_simp

lemma side_save: "\<not> isl (fst saved_side)"
  unfolding side_calls by code_simp

lemma ran: "\<not> isl (fst r) \<Longrightarrow> r = (Inr (projr (fst r)), snd r)"
  by (cases r) auto

lemma promoted: "\<exists>d'. scratch_promote short_hash side_root side side_disk = (Inr (), d')"
proof -
  have merged: "merge_objects (odb_of side_dir) (odb_of mod_dir) side_disk = (Inr (projr (fst merged_side)), snd merged_side)"
    using ran [OF side_merge] unfolding merged_side_def .
  have synced: "sync_touched (odb_of mod_dir) (projr (fst merged_side)) (snd merged_side) = (Inr (), snd synced_side)"
    using ran [OF side_sync] unfolding synced_side_def by simp
  have opened: "disk_refs_open mod_dir (snd synced_side) = (Inr mod_dir, snd opened_side)"
    using side_open opened_side_def by (metis prod.collapse)
  have saved: "disk_refs_save short_hash refs_default 1 0 mod_dir (snd opened_side) = (Inr (), snd saved_side)"
    using ran [OF side_save] unfolding saved_side_def by simp
  have "scratch_promote short_hash side_root side side_disk =
      iobind (iotry (fs_remove_dir_all side_dir)) (\<lambda>_. ioret ()) (snd saved_side)"
    unfolding scratch_promote_def side_def sync_scratch.select_convs iobind_def [of "load_scratch short_hash side_dir"] side_load
    unfolding prod.case sum.case Let_def iobind_def [of "merge_objects (odb_of side_dir) (odb_of mod_dir)"] merged
      iobind_def [of "sync_touched (odb_of mod_dir) (projr (fst merged_side))"]
    by (simp add: iobind_def opened saved merged [simplified] synced [simplified])
  then show ?thesis by simp
qed

end
