(* ===== verification/Module_Artifact.thy ===== *)
theory Module_Artifact
  imports Paths "HOL-Library.Sublist"
begin

text \<open>
  crates/kernel/module-artifact/src/lib.rs: the frame of a deployable unit. \<open>decode\<close> reads it field by
  field from the front of the bytes left, every length before its payload, and refuses what is not the
  one canonical encoding of a valid artifact: \<open>artifact_frame\<close> is the layout it reads. The encoder is the
  derived Borsh serializer, a parameter; borrowed and owned artifacts are one type.

  A reader is the locale \<open>take_codec\<close>: it succeeds exactly on the written form of an admissible value.
\<close>

subsection \<open>Data\<close>

definition MAX_ARTIFACT_BYTES :: nat where "MAX_ARTIFACT_BYTES = 16 * 1024 * 1024"
definition MAX_VIEW_ASSETS :: nat where "MAX_VIEW_ASSETS = 4096"
definition MAX_ASSET_PATH_BYTES :: nat where "MAX_ASSET_PATH_BYTES = 1024"
definition MAX_ARTIFACT_LANES :: nat where "MAX_ARTIFACT_LANES = 8"
definition MAX_LANE_NAME_BYTES :: nat where "MAX_LANE_NAME_BYTES = 32"

datatype lane_pacing = PacingShared | PacingLocal u64 u64

record lane_stream =
  ls_pacing :: lane_pacing
  ls_accept_backlog :: u32

record lane_decl =
  ld_id :: byte
  ld_name :: rstring
  ld_stream :: "lane_stream option"

record view_artifact =
  va_component :: bytes
  va_assets :: "(rstring, bytes) btree"

record module_artifact =
  ma_component :: bytes
  ma_index :: "bytes option"
  ma_view :: "view_artifact option"
  ma_lanes :: "lane_decl list"

datatype artifact = AModule module_artifact | AView view_artifact

datatype artifact_error =
    FrameTooLong | BadKindTag | TrailingBytes
  | BadMapperTag | BadViewTag
  | TooManyLanes | LaneIdTruncated | LaneNameNotUtf8 | BadStreamTag | BadPacingTag | LaneBudgetTruncated
  | LaneNameMalformed rstring | LanesOutOfOrder | LaneNameTaken rstring
  | TooManyAssets | AssetPathNotUtf8 | AssetPathLength | AssetPathNotCanonical | AssetsOutOfOrder | FileAncestor
  | TagMissing | LengthTruncated | BodyTruncated

type_synonym 'a ares = "artifact_error + 'a"

definition component_artifact :: "bytes \<Rightarrow> artifact" where
  "component_artifact component =
     AModule \<lparr>ma_component = component, ma_index = None, ma_view = None, ma_lanes = []\<rparr>"

definition artifact_view :: "artifact \<Rightarrow> view_artifact option" where
  "artifact_view a = (case a of AModule m \<Rightarrow> ma_view m | AView v \<Rightarrow> Some v)"

definition artifact_hash :: "(bytes \<Rightarrow> bytes) \<Rightarrow> (artifact \<Rightarrow> bytes) \<Rightarrow> artifact \<Rightarrow> bytes" where
  "artifact_hash H encode a = H (encode a)"

subsection \<open>Validation\<close>

definition lane_name_is_well_formed :: "rstring \<Rightarrow> bool" where
  "lane_name_is_well_formed name \<longleftrightarrow> name \<noteq> [] \<and> length name \<le> MAX_LANE_NAME_BYTES \<and>
     list_all (\<lambda>b. 0x61 \<le> b \<and> b \<le> 0x7A \<or> 0x30 \<le> b \<and> b \<le> 0x39 \<or> b = 0x5F) name"

fun validate_from :: "lane_decl list \<Rightarrow> lane_decl list \<Rightarrow> unit ares" where
  "validate_from earlier [] = Inr ()"
| "validate_from earlier (lane # lanes) =
     (if \<not> lane_name_is_well_formed (ld_name lane) then Inl (LaneNameMalformed (ld_name lane))
      else if earlier \<noteq> [] \<and> ld_id (last earlier) \<ge> ld_id lane then Inl LanesOutOfOrder
      else if list_ex (\<lambda>other. ld_name other = ld_name lane) earlier then Inl (LaneNameTaken (ld_name lane))
      else validate_from (earlier @ [lane]) lanes)"

definition validate_lanes :: "lane_decl list \<Rightarrow> unit ares" where
  "validate_lanes lanes =
     (if length lanes > MAX_ARTIFACT_LANES then Inl TooManyLanes else validate_from [] lanes)"

text \<open>\<open>char::is_control\<close> on well-formed UTF-8: U+0000 to U+001F, U+007F and U+0080 to U+009F (C2 80 to C2 9F).\<close>

fun has_control :: "bytes \<Rightarrow> bool" where
  "has_control [] = False"
| "has_control (a # bs) = (a < 0x20 \<or> a = 0x7F \<or> a = 0xC2 \<and> bs \<noteq> [] \<and> hd bs \<le> 0x9F \<or> has_control bs)"

definition validate_asset_path :: "rstring \<Rightarrow> unit ares" where
  "validate_asset_path path =
     (if path = [] \<or> length path > MAX_ASSET_PATH_BYTES then Inl AssetPathLength
      else if has_control path \<or> 0x5C \<in> set path \<or> 0x3A \<in> set path \<or>
          list_ex (\<lambda>part. part = [] \<or> part = str ''.'' \<or> part = str ''..'') (split_slash path)
      then Inl AssetPathNotCanonical else Inr ())"

text \<open>The parts of a path before each of its slashes.\<close>

definition ancestors :: "rstring \<Rightarrow> rstring list" where
  "ancestors path = map (\<lambda>n. take n path) (filter (\<lambda>n. path ! n = SLASH) [0 ..< length path])"

subsection \<open>Reading\<close>

definition take_tag :: "bytes \<Rightarrow> (byte \<times> bytes) ares" where
  "take_tag bs = (case bs of [] \<Rightarrow> Inl TagMissing | tag # tail \<Rightarrow> Inr (tag, tail))"

definition take_u32 :: "bytes \<Rightarrow> (u32 \<times> bytes) ares" where
  "take_u32 bs = (if length bs < 4 then Inl LengthTruncated else Inr (of_nat (le_val (take 4 bs)), drop 4 bs))"

definition take_u64 :: "bytes \<Rightarrow> (u64 \<times> bytes) ares" where
  "take_u64 bs = (if length bs < 8 then Inl LaneBudgetTruncated else Inr (of_nat (le_val (take 8 bs)), drop 8 bs))"

definition take_length :: "bytes \<Rightarrow> (nat \<times> bytes) ares" where
  "take_length bs = rbind (take_u32 bs) (\<lambda>(n, bs). Inr (unat n, bs))"

definition take_bytes :: "bytes \<Rightarrow> (bytes \<times> bytes) ares" where
  "take_bytes bs = rbind (take_length bs) (\<lambda>(n, bs).
     if length bs < n then Inl BodyTruncated else Inr (take n bs, drop n bs))"

definition take_text :: "artifact_error \<Rightarrow> bytes \<Rightarrow> (rstring \<times> bytes) ares" where
  "take_text e bs = rbind (take_bytes bs) (\<lambda>(s, bs). if utf8 s then Inr (s, bs) else Inl e)"

text \<open>The match on an option tag that three fields share.\<close>

definition take_option :: "artifact_error \<Rightarrow> (bytes \<Rightarrow> ('a \<times> bytes) ares) \<Rightarrow> bytes \<Rightarrow> ('a option \<times> bytes) ares" where
  "take_option e rd bs = rbind (take_tag bs) (\<lambda>(tag, bs).
     if tag = 0 then Inr (None, bs)
     else if tag = 1 then rbind (rd bs) (\<lambda>(x, bs). Inr (Some x, bs))
     else Inl e)"

definition take_pacing :: "bytes \<Rightarrow> (lane_pacing \<times> bytes) ares" where
  "take_pacing bs = rbind (take_tag bs) (\<lambda>(tag, bs).
     if tag = 0 then Inr (PacingShared, bs)
     else if tag = 1 then rbind (take_u64 bs) (\<lambda>(rate, bs). rbind (take_u64 bs) (\<lambda>(burst, bs). Inr (PacingLocal rate burst, bs)))
     else Inl BadPacingTag)"

definition take_lane_stream :: "bytes \<Rightarrow> (lane_stream \<times> bytes) ares" where
  "take_lane_stream bs =
     rbind (take_pacing bs) (\<lambda>(pacing, bs).
     rbind (take_u32 bs) (\<lambda>(accept_backlog, bs).
     Inr (\<lparr>ls_pacing = pacing, ls_accept_backlog = accept_backlog\<rparr>, bs)))"

definition take_lane_id :: "bytes \<Rightarrow> (byte \<times> bytes) ares" where
  "take_lane_id bs = (case bs of [] \<Rightarrow> Inl LaneIdTruncated | b # tail \<Rightarrow> Inr (b, tail))"

definition take_lane :: "bytes \<Rightarrow> (lane_decl \<times> bytes) ares" where
  "take_lane bs =
     rbind (take_lane_id bs) (\<lambda>(i, bs).
     rbind (take_text LaneNameNotUtf8 bs) (\<lambda>(name, bs).
     rbind (take_option BadStreamTag take_lane_stream bs) (\<lambda>(stream, bs).
     Inr (\<lparr>ld_id = i, ld_name = name, ld_stream = stream\<rparr>, bs))))"

fun take_count :: "(bytes \<Rightarrow> ('a \<times> bytes) ares) \<Rightarrow> nat \<Rightarrow> bytes \<Rightarrow> ('a list \<times> bytes) ares" where
  "take_count rd 0 bs = Inr ([], bs)"
| "take_count rd (Suc n) bs =
     rbind (rd bs) (\<lambda>(x, bs). rbind (take_count rd n bs) (\<lambda>(xs, bs). Inr (x # xs, bs)))"

definition take_lanes :: "bytes \<Rightarrow> (lane_decl list \<times> bytes) ares" where
  "take_lanes bs = rbind (take_length bs) (\<lambda>(count, bs).
     if count > MAX_ARTIFACT_LANES then Inl TooManyLanes
     else rbind (take_count take_lane count bs) (\<lambda>(lanes, bs).
       rbind (validate_lanes lanes) (\<lambda>_. Inr (lanes, bs))))"

fun take_assets :: "nat \<Rightarrow> (rstring, bytes) btree \<Rightarrow> rstring option \<Rightarrow> bytes \<Rightarrow> ((rstring, bytes) btree \<times> bytes) ares" where
  "take_assets 0 assets previous bs = Inr (assets, bs)"
| "take_assets (Suc n) assets previous bs =
     rbind (take_text AssetPathNotUtf8 bs) (\<lambda>(path, bs).
     rbind (validate_asset_path path) (\<lambda>_.
     if (case previous of None \<Rightarrow> False | Some p \<Rightarrow> p \<ge> path) then Inl AssetsOutOfOrder
     else if list_ex (bt_has assets) (ancestors path) then Inl FileAncestor
     else rbind (take_bytes bs) (\<lambda>(payload, bs).
       take_assets n (bt_insert path payload assets) (Some path) bs)))"

definition take_view :: "bytes \<Rightarrow> (view_artifact \<times> bytes) ares" where
  "take_view bs =
     rbind (take_bytes bs) (\<lambda>(component, bs).
     rbind (take_length bs) (\<lambda>(count, bs).
     if count > MAX_VIEW_ASSETS then Inl TooManyAssets
     else rbind (take_assets count [] None bs) (\<lambda>(assets, bs).
       Inr (\<lparr>va_component = component, va_assets = assets\<rparr>, bs))))"

definition take_module :: "bytes \<Rightarrow> (module_artifact \<times> bytes) ares" where
  "take_module bs =
     rbind (take_bytes bs) (\<lambda>(component, bs).
     rbind (take_option BadMapperTag take_bytes bs) (\<lambda>(index, bs).
     rbind (take_option BadViewTag take_view bs) (\<lambda>(view, bs).
     rbind (take_lanes bs) (\<lambda>(lanes, bs).
     Inr (\<lparr>ma_component = component, ma_index = index, ma_view = view, ma_lanes = lanes\<rparr>, bs)))))"

definition artifact_decode :: "bytes \<Rightarrow> artifact ares" where
  "artifact_decode bs =
     (if length bs > MAX_ARTIFACT_BYTES then Inl FrameTooLong
      else rbind (take_tag bs) (\<lambda>(tag, bs).
        rbind (if tag = 0 then rbind (take_module bs) (\<lambda>(m, bs). Inr (AModule m, bs))
               else if tag = 1 then rbind (take_view bs) (\<lambda>(v, bs). Inr (AView v, bs))
               else Inl BadKindTag) (\<lambda>(a, bs).
        if bs = [] then Inr a else Inl TrailingBytes)))"

subsection \<open>The layout\<close>

definition put_bytes :: "bytes \<Rightarrow> bytes" where
  "put_bytes bs = to_le32 (of_nat (length bs)) @ bs"

definition put_option :: "('a \<Rightarrow> bytes) \<Rightarrow> 'a option \<Rightarrow> bytes" where
  "put_option enc x = (case x of None \<Rightarrow> [0] | Some y \<Rightarrow> 1 # enc y)"

definition put_pacing :: "lane_pacing \<Rightarrow> bytes" where
  "put_pacing p = (case p of PacingShared \<Rightarrow> [0] | PacingLocal rate burst \<Rightarrow> 1 # to_le64 rate @ to_le64 burst)"

definition put_stream :: "lane_stream \<Rightarrow> bytes" where
  "put_stream s = put_pacing (ls_pacing s) @ to_le32 (ls_accept_backlog s)"

definition put_lane :: "lane_decl \<Rightarrow> bytes" where
  "put_lane l = ld_id l # put_bytes (ld_name l) @ put_option put_stream (ld_stream l)"

definition put_list :: "('a \<Rightarrow> bytes) \<Rightarrow> 'a list \<Rightarrow> bytes" where
  "put_list enc xs = to_le32 (of_nat (length xs)) @ concat (map enc xs)"

definition put_asset :: "rstring \<times> bytes \<Rightarrow> bytes" where
  "put_asset kv = put_bytes (fst kv) @ put_bytes (snd kv)"

definition put_view :: "view_artifact \<Rightarrow> bytes" where
  "put_view v = put_bytes (va_component v) @ put_list put_asset (va_assets v)"

definition put_module :: "module_artifact \<Rightarrow> bytes" where
  "put_module m = put_bytes (ma_component m) @ put_option put_bytes (ma_index m) @
     put_option put_view (ma_view m) @ put_list put_lane (ma_lanes m)"

definition artifact_frame :: "artifact \<Rightarrow> bytes" where
  "artifact_frame a = (case a of AModule m \<Rightarrow> 0 # put_module m | AView v \<Rightarrow> 1 # put_view v)"

subsection \<open>The contract of a reader\<close>

locale take_codec =
  fixes rd :: "bytes \<Rightarrow> ('a \<times> bytes) ares" and enc :: "'a \<Rightarrow> bytes" and ok :: "'a \<Rightarrow> bool"
  assumes iff: "rd bs = Inr (x, t) \<longleftrightarrow> ok x \<and> bs = enc x @ t"
begin

text \<open>No value has two written forms and no written form continues another.\<close>

lemma prefix_free: "ok x \<Longrightarrow> ok y \<Longrightarrow> enc x @ s = enc y @ t \<Longrightarrow> x = y \<and> s = t"
  using iff [of "enc x @ s" x s] iff [of "enc x @ s" y t] by simp

lemma count_iff:
  "take_count rd n bs = Inr (xs, t) \<longleftrightarrow> length xs = n \<and> list_all ok xs \<and> bs = concat (map enc xs) @ t"
proof (induction n arbitrary: bs xs)
  case 0
  then show ?case by auto
next
  case (Suc n)
  show ?case
  proof (cases xs)
    case Nil
    then show ?thesis by (auto simp: rbind_eq_Inr)
  next
    case (Cons x ys)
    have "take_count rd (Suc n) bs = Inr (x # ys, t) \<longleftrightarrow> (\<exists>u. rd bs = Inr (x, u) \<and> take_count rd n u = Inr (ys, t))"
      by (auto simp: rbind_eq_Inr)
    then show ?thesis using Cons by (auto simp: iff Suc.IH)
  qed
qed

lemma option_iff: "take_option e rd bs = Inr (x, t) \<longleftrightarrow> pred_option ok x \<and> bs = put_option enc x @ t"
proof (cases bs)
  case Nil
  then show ?thesis by (auto simp: take_option_def take_tag_def put_option_def split: option.splits)
next
  case (Cons tag u)
  consider (none) "tag = 0" | (some) "tag = 1" | (bad) "tag \<noteq> 0" "tag \<noteq> 1" by blast
  then show ?thesis
  proof cases
    case none
    then show ?thesis using Cons by (cases x) (auto simp: take_option_def take_tag_def put_option_def)
  next
    case some
    then have "take_option e rd bs = Inr (x, t) \<longleftrightarrow> (\<exists>y. x = Some y \<and> rd u = Inr (y, t))"
      using Cons by (auto simp: take_option_def take_tag_def rbind_eq_Inr)
    then show ?thesis using Cons some by (cases x) (auto simp: iff put_option_def)
  next
    case bad
    then show ?thesis using Cons by (cases x) (auto simp: take_option_def take_tag_def put_option_def)
  qed
qed

end

lemma take_split: "(\<not> length bs < n \<and> take n bs = a \<and> drop n bs = t) \<longleftrightarrow> length a = n \<and> bs = a @ t"
  by (auto simp: not_less)

lemma le_word:
  assumes "LENGTH('a::len) = 8 * n"
  shows "length a = n \<and> (of_nat (le_val a) :: 'a word) = w \<longleftrightarrow> a = le_bytes n (unat w)"
proof
  assume l: "length a = n \<and> (of_nat (le_val a) :: 'a word) = w"
  have "le_val a < 2 ^ LENGTH('a)" using le_val_lt [of a] l assms by (simp add: power_mult)
  then have "unat w = le_val a" using l by (auto simp: unat_of_nat)
  then show "a = le_bytes n (unat w)" using l le_bytes_le_val [of a] by simp
next
  assume a: "a = le_bytes n (unat w)"
  have "unat w < 256 ^ n" using unsigned_less [of w] assms by (simp add: power_mult)
  then show "length a = n \<and> (of_nat (le_val a) :: 'a word) = w" using a by (simp add: le_val_le_bytes)
qed

lemma take_word:
  assumes "LENGTH('a::len) = 8 * n"
  shows "(if length bs < n then Inl e else Inr (of_nat (le_val (take n bs)) :: 'a word, drop n bs)) = Inr (w, t) \<longleftrightarrow>
    bs = le_bytes n (unat w) @ t"
proof -
  have "(if length bs < n then Inl e else Inr (of_nat (le_val (take n bs)) :: 'a word, drop n bs)) = Inr (w, t) \<longleftrightarrow>
      (\<exists>a. (\<not> length bs < n \<and> take n bs = a \<and> drop n bs = t) \<and> of_nat (le_val a) = w)"
    by auto
  also have "\<dots> \<longleftrightarrow> (\<exists>a. (length a = n \<and> of_nat (le_val a) = w) \<and> bs = a @ t)"
    unfolding take_split by blast
  finally show ?thesis unfolding le_word [OF assms] by simp
qed

interpretation t_u32: take_codec take_u32 to_le32 "\<lambda>_. True"
  unfolding take_u32_def to_le32_def by unfold_locales (simp add: take_word)

interpretation t_u64: take_codec take_u64 to_le64 "\<lambda>_. True"
  unfolding take_u64_def to_le64_def by unfold_locales (simp add: take_word)

definition u32_fits :: "nat \<Rightarrow> bool" where "u32_fits n \<longleftrightarrow> n < 2 ^ 32"

interpretation t_length: take_codec take_length "\<lambda>n. to_le32 (of_nat n)" u32_fits
proof
  fix bs n t
  have "take_length bs = Inr (n, t) \<longleftrightarrow> (\<exists>w. bs = to_le32 w @ t \<and> unat w = n)"
    by (auto simp: take_length_def rbind_eq_Inr t_u32.iff)
  also have "\<dots> \<longleftrightarrow> u32_fits n \<and> bs = to_le32 (of_nat n) @ t"
    using unsigned_less [where 'b = 32] by (auto simp: u32_fits_def unat_of_nat intro: exI [of _ "of_nat n"])
  finally show "take_length bs = Inr (n, t) \<longleftrightarrow> u32_fits n \<and> bs = to_le32 (of_nat n) @ t" .
qed

definition bytes_fit :: "bytes \<Rightarrow> bool" where "bytes_fit bs \<longleftrightarrow> u32_fits (length bs)"

interpretation t_bytes: take_codec take_bytes put_bytes bytes_fit
proof
  fix bs x t
  have "take_bytes bs = Inr (x, t) \<longleftrightarrow> (\<exists>n u. take_length bs = Inr (n, u) \<and> (\<not> length u < n \<and> take n u = x \<and> drop n u = t))"
    by (auto simp: take_bytes_def rbind_eq_Inr split: if_splits)
  then show "take_bytes bs = Inr (x, t) \<longleftrightarrow> bytes_fit x \<and> bs = put_bytes x @ t"
    unfolding take_split t_length.iff by (auto simp: put_bytes_def bytes_fit_def)
qed

definition text_ok :: "rstring \<Rightarrow> bool" where "text_ok s \<longleftrightarrow> utf8 s \<and> bytes_fit s"

interpretation t_text: take_codec "take_text e" put_bytes text_ok for e
  by unfold_locales (auto simp: take_text_def rbind_eq_Inr t_bytes.iff text_ok_def split: if_splits)

interpretation t_pacing: take_codec take_pacing put_pacing "\<lambda>_. True"
proof
  fix bs x t
  show "take_pacing bs = Inr (x, t) \<longleftrightarrow> True \<and> bs = put_pacing x @ t"
  proof (cases bs)
    case Nil
    then show ?thesis by (auto simp: take_pacing_def take_tag_def put_pacing_def split: lane_pacing.splits)
  next
    case (Cons tag u)
    then show ?thesis
      by (cases x) (auto simp: take_pacing_def take_tag_def put_pacing_def rbind_eq_Inr t_u64.iff split: if_splits)
  qed
qed

interpretation t_stream: take_codec take_lane_stream put_stream "\<lambda>_. True"
proof
  fix bs x t
  have "take_lane_stream bs = Inr (x, t) \<longleftrightarrow> (\<exists>u. take_pacing bs = Inr (ls_pacing x, u) \<and> take_u32 u = Inr (ls_accept_backlog x, t))"
    by (cases x) (auto simp: take_lane_stream_def rbind_eq_Inr)
  then show "take_lane_stream bs = Inr (x, t) \<longleftrightarrow> True \<and> bs = put_stream x @ t"
    by (auto simp: t_pacing.iff t_u32.iff put_stream_def)
qed

interpretation t_lane_id: take_codec take_lane_id "\<lambda>b. [b]" "\<lambda>_. True"
  by unfold_locales (auto simp: take_lane_id_def split: list.splits)

definition lane_fits :: "lane_decl \<Rightarrow> bool" where "lane_fits l \<longleftrightarrow> text_ok (ld_name l)"

interpretation t_lane: take_codec take_lane put_lane lane_fits
proof
  fix bs x t
  have "take_lane bs = Inr (x, t) \<longleftrightarrow> (\<exists>u v. take_lane_id bs = Inr (ld_id x, u) \<and>
      take_text LaneNameNotUtf8 u = Inr (ld_name x, v) \<and> take_option BadStreamTag take_lane_stream v = Inr (ld_stream x, t))"
    by (cases x) (auto simp: take_lane_def rbind_eq_Inr)
  then show "take_lane bs = Inr (x, t) \<longleftrightarrow> lane_fits x \<and> bs = put_lane x @ t"
    by (auto simp: t_lane_id.iff t_text.iff t_stream.option_iff put_lane_def lane_fits_def pred_option_def)
qed

subsection \<open>Lanes\<close>

definition lanes_ok :: "lane_decl list \<Rightarrow> bool" where
  "lanes_ok ls \<longleftrightarrow> length ls \<le> MAX_ARTIFACT_LANES \<and> list_all (\<lambda>l. lane_name_is_well_formed (ld_name l)) ls \<and>
     sorted_wrt (<) (map ld_id ls) \<and> distinct (map ld_name ls)"

lemma sorted_wrt_last: "sorted_wrt (<) (xs :: 'a::linorder list) \<Longrightarrow> (\<forall>x \<in> set xs. x < y) \<longleftrightarrow> xs = [] \<or> last xs < y"
  by (induction xs) (auto dest: order.strict_trans split: if_splits)

lemma validate_from_iff:
  "sorted_wrt (<) (map ld_id e) \<Longrightarrow> distinct (map ld_name e) \<Longrightarrow>
   validate_from e ls = Inr () \<longleftrightarrow> list_all (\<lambda>l. lane_name_is_well_formed (ld_name l)) ls \<and>
     sorted_wrt (<) (map ld_id (e @ ls)) \<and> distinct (map ld_name (e @ ls))"
proof (induction ls arbitrary: e)
  case Nil
  then show ?case by simp
next
  case (Cons l ls)
  have order: "(e \<noteq> [] \<and> ld_id (last e) \<ge> ld_id l) \<longleftrightarrow> \<not> (\<forall>x \<in> set (map ld_id e). x < ld_id l)"
    using sorted_wrt_last [OF Cons.prems(1), of "ld_id l"] by (auto simp: last_map not_less)
  have named: "list_ex (\<lambda>other. ld_name other = ld_name l) e \<longleftrightarrow> ld_name l \<in> set (map ld_name e)"
    unfolding list_ex_iff set_map by (metis (no_types, lifting) imageE image_eqI)
  show ?case
  proof (cases "(\<forall>x \<in> set (map ld_id e). x < ld_id l) \<and> ld_name l \<notin> set (map ld_name e)")
    case True
    then have "sorted_wrt (<) (map ld_id (e @ [l]))" "distinct (map ld_name (e @ [l]))"
      using Cons.prems by (auto simp: sorted_wrt_append)
    from Cons.IH [OF this] show ?thesis using True order named by auto
  next
    case False
    then have "validate_from e (l # ls) \<noteq> Inr ()" using order named by auto
    moreover have "\<not> (sorted_wrt (<) (map ld_id (e @ l # ls)) \<and> distinct (map ld_name (e @ l # ls)))"
      using False by (auto simp: sorted_wrt_append)
    ultimately show ?thesis by blast
  qed
qed

lemma validate_lanes_iff: "validate_lanes ls = Inr () \<longleftrightarrow> lanes_ok ls"
  using validate_from_iff [of "[]" ls] by (simp add: validate_lanes_def lanes_ok_def)

lemma well_formed_fits: "lane_name_is_well_formed name \<Longrightarrow> text_ok name"
proof -
  assume n: "lane_name_is_well_formed name"
  have "b \<le> 0x7F" if "b \<in> set name" for b
  proof -
    have "0x61 \<le> b \<and> b \<le> 0x7A \<or> 0x30 \<le> b \<and> b \<le> 0x39 \<or> b = 0x5F"
      using n that by (auto simp: lane_name_is_well_formed_def list_all_iff)
    then show ?thesis by (auto intro: order_trans)
  qed
  then have "utf8 name" by (intro utf8_ascii) blast
  then show ?thesis
    using n by (simp add: text_ok_def bytes_fit_def u32_fits_def lane_name_is_well_formed_def MAX_LANE_NAME_BYTES_def)
qed

lemma lanes_fit: "lanes_ok ls \<Longrightarrow> list_all lane_fits ls \<and> u32_fits (length ls)"
  by (auto simp: lanes_ok_def lane_fits_def list_all_iff u32_fits_def MAX_ARTIFACT_LANES_def intro: well_formed_fits)

interpretation t_lanes: take_codec take_lanes "put_list put_lane" lanes_ok
proof
  fix bs x t
  have "take_lanes bs = Inr (x, t) \<longleftrightarrow> (\<exists>n u. take_length bs = Inr (n, u) \<and> n \<le> MAX_ARTIFACT_LANES \<and>
      take_count take_lane n u = Inr (x, t) \<and> validate_lanes x = Inr ())"
    by (cases "take_length bs") (auto simp: take_lanes_def rbind_eq_Inr split: if_splits)
  then show "take_lanes bs = Inr (x, t) \<longleftrightarrow> lanes_ok x \<and> bs = put_list put_lane x @ t"
    using lanes_fit [of x]
    by (auto simp: t_length.iff t_lane.count_iff validate_lanes_iff put_list_def lanes_ok_def)
qed

subsection \<open>Assets\<close>

definition path_ok :: "rstring \<Rightarrow> bool" where
  "path_ok path \<longleftrightarrow> utf8 path \<and> validate_asset_path path = Inr ()"

definition assets_ok :: "(rstring, bytes) btree \<Rightarrow> bool" where
  "assets_ok m \<longleftrightarrow> bt_wf m \<and> (\<forall>(p, b) \<in> set m. path_ok p \<and> bytes_fit b) \<and>
     (\<forall>p \<in> fst ` set m. \<forall>q \<in> fst ` set m. \<not> prefix (p @ [SLASH]) q)"

lemma in_ancestors: "p \<in> set (ancestors q) \<longleftrightarrow> prefix (p @ [SLASH]) q"
proof
  assume "p \<in> set (ancestors q)"
  then obtain n where n: "n < length q" "q ! n = SLASH" "p = take n q" by (auto simp: ancestors_def)
  then have "p @ [SLASH] = take (Suc n) q" by (simp add: take_Suc_conv_app_nth)
  then show "prefix (p @ [SLASH]) q" by (simp add: take_is_prefix)
next
  assume "prefix (p @ [SLASH]) q"
  then obtain r where "q = p @ SLASH # r" by (auto simp: prefix_def)
  then show "p \<in> set (ancestors q)" by (auto simp: ancestors_def intro!: image_eqI [of _ _ "length p"])
qed

lemma prefix_less: "prefix (q @ [c]) (p :: bytes) \<Longrightarrow> q < p"
proof (induction q arbitrary: p)
  case Nil
  then show ?case by (cases p) auto
next
  case (Cons a q)
  then show ?case by (cases p) auto
qed

lemma assets_ok_snoc:
  assumes "assets_ok m"
  shows "assets_ok (m @ [(p, b)]) \<longleftrightarrow> (\<forall>k \<in> fst ` set m. k < p) \<and> path_ok p \<and> bytes_fit b \<and> \<not> list_ex (bt_has m) (ancestors p)"
proof -
  have ex: "list_ex (bt_has m) (ancestors p) \<longleftrightarrow> (\<exists>k \<in> fst ` set m. prefix (k @ [SLASH]) p)"
    by (force simp: list_ex_iff in_ancestors bt_has_iff)
  have "\<not> prefix (p @ [SLASH]) k" if "\<forall>k \<in> fst ` set m. k < p" "k \<in> fst ` set m" for k
    using prefix_less [of p SLASH k] that by fastforce
  moreover have "\<not> prefix (p @ [SLASH]) p" using prefix_length_le [of "p @ [SLASH]" p] by auto
  moreover have "bt_wf (m @ [(p, b)]) \<longleftrightarrow> (\<forall>k \<in> fst ` set m. k < p)"
    using assms by (auto simp: assets_ok_def bt_wf_def sorted_wrt_append)
  ultimately show ?thesis using assms unfolding ex assets_ok_def by auto
qed

text \<open>The key before the one to come.\<close>

definition last_key :: "(rstring, bytes) btree \<Rightarrow> rstring option" where
  "last_key m = (if m = [] then None else Some (fst (last m)))"

lemma after_last_key:
  assumes "bt_wf m"
  shows "(case last_key m of None \<Rightarrow> False | Some q \<Rightarrow> q \<ge> p) \<longleftrightarrow> \<not> (\<forall>k \<in> fst ` set m. k < p)"
  using sorted_wrt_last [of "map fst m" p] assms by (auto simp: last_key_def bt_wf_def last_map not_less)

lemma bt_insert_last: "\<forall>k \<in> fst ` set m. k < p \<Longrightarrow> bt_insert p b m = m @ [(p, b)]"
  by (induction m) auto

lemma path_ok_fits: "path_ok p \<Longrightarrow> text_ok p"
  by (auto simp: path_ok_def text_ok_def bytes_fit_def u32_fits_def validate_asset_path_def MAX_ASSET_PATH_BYTES_def split: if_splits)

lemma path_ok_iff: "text_ok p \<and> validate_asset_path p = Inr () \<longleftrightarrow> path_ok p"
  using path_ok_fits by (auto simp: path_ok_def text_ok_def)

lemma take_assets_iff:
  "assets_ok m \<Longrightarrow> take_assets n m (last_key m) bs = Inr (out, t) \<longleftrightarrow>
   (\<exists>kvs. length kvs = n \<and> out = m @ kvs \<and> bs = concat (map put_asset kvs) @ t \<and> assets_ok out)"
proof (induction n arbitrary: m bs)
  case 0
  then show ?case by auto
next
  case (Suc n)
  have step: "take_assets (Suc n) m (last_key m) bs = Inr (out, t) \<longleftrightarrow>
      (\<exists>p b u. bs = put_asset (p, b) @ u \<and> assets_ok (m @ [(p, b)]) \<and> take_assets n (m @ [(p, b)]) (Some p) u = Inr (out, t))"
  proof -
    have wf: "bt_wf m" using Suc.prems by (simp add: assets_ok_def)
    have "take_assets (Suc n) m (last_key m) bs = Inr (out, t) \<longleftrightarrow>
      (\<exists>p u b v. take_text AssetPathNotUtf8 bs = Inr (p, u) \<and> validate_asset_path p = Inr () \<and> (\<forall>k \<in> fst ` set m. k < p) \<and>
        \<not> list_ex (bt_has m) (ancestors p) \<and> take_bytes u = Inr (b, v) \<and> take_assets n (bt_insert p b m) (Some p) v = Inr (out, t))"
      unfolding take_assets.simps by (cases "take_text AssetPathNotUtf8 bs") (auto simp: rbind_eq_Inr after_last_key [OF wf] split: if_splits)
    also have "\<dots> \<longleftrightarrow> (\<exists>p b v. (text_ok p \<and> validate_asset_path p = Inr ()) \<and> bs = put_bytes p @ put_bytes b @ v \<and>
        ((\<forall>k \<in> fst ` set m. k < p) \<and> bytes_fit b \<and> \<not> list_ex (bt_has m) (ancestors p)) \<and>
        take_assets n (m @ [(p, b)]) (Some p) v = Inr (out, t))"
      unfolding t_text.iff t_bytes.iff using bt_insert_last [of m] by metis
    also have "\<dots> \<longleftrightarrow> (\<exists>p b u. bs = put_asset (p, b) @ u \<and> assets_ok (m @ [(p, b)]) \<and> take_assets n (m @ [(p, b)]) (Some p) u = Inr (out, t))"
      unfolding path_ok_iff assets_ok_snoc [OF Suc.prems] put_asset_def by (simp; blast)
    finally show ?thesis .
  qed
  have key: "last_key (m @ [(p, b)]) = Some p" for p b by (simp add: last_key_def)
  show ?case
  proof
    assume "take_assets (Suc n) m (last_key m) bs = Inr (out, t)"
    then obtain p b u where "bs = put_asset (p, b) @ u" "assets_ok (m @ [(p, b)])" "take_assets n (m @ [(p, b)]) (Some p) u = Inr (out, t)"
      unfolding step by blast
    moreover from this obtain kvs where "length kvs = n" "out = (m @ [(p, b)]) @ kvs" "u = concat (map put_asset kvs) @ t" "assets_ok out"
      using Suc.IH [of "m @ [(p, b)]" u] key by auto
    ultimately show "\<exists>kvs. length kvs = Suc n \<and> out = m @ kvs \<and> bs = concat (map put_asset kvs) @ t \<and> assets_ok out"
      by (intro exI [of _ "(p, b) # kvs"]) simp
  next
    assume "\<exists>kvs. length kvs = Suc n \<and> out = m @ kvs \<and> bs = concat (map put_asset kvs) @ t \<and> assets_ok out"
    then obtain p b kvs where k: "length kvs = n" "out = (m @ [(p, b)]) @ kvs"
      "bs = put_asset (p, b) @ concat (map put_asset kvs) @ t" "assets_ok out"
      by (auto simp: length_Suc_conv)
    have "assets_ok (m @ [(p, b)])"
      using k(4) unfolding k(2) assets_ok_def by (auto simp: bt_wf_def sorted_wrt_append)
    moreover from this have "take_assets n (m @ [(p, b)]) (Some p) (concat (map put_asset kvs) @ t) = Inr (out, t)"
      using Suc.IH [of "m @ [(p, b)]"] k key by auto
    ultimately show "take_assets (Suc n) m (last_key m) bs = Inr (out, t)" unfolding step using k(3) by blast
  qed
qed

definition view_ok :: "view_artifact \<Rightarrow> bool" where
  "view_ok v \<longleftrightarrow> bytes_fit (va_component v) \<and> length (va_assets v) \<le> MAX_VIEW_ASSETS \<and> assets_ok (va_assets v)"

interpretation t_view: take_codec take_view put_view view_ok
proof
  fix bs x t
  have "take_view bs = Inr (x, t) \<longleftrightarrow> (\<exists>u n v. take_bytes bs = Inr (va_component x, u) \<and> take_length u = Inr (n, v) \<and>
      n \<le> MAX_VIEW_ASSETS \<and> take_assets n [] (last_key []) v = Inr (va_assets x, t))"
    unfolding take_view_def last_key_def
    by (cases x; cases "take_bytes bs"; cases "take_length (snd (projr (take_bytes bs)))") (auto simp: rbind_eq_Inr split: if_splits)
  moreover have "assets_ok []" by (simp add: assets_ok_def)
  ultimately show "take_view bs = Inr (x, t) \<longleftrightarrow> view_ok x \<and> bs = put_view x @ t"
    by (auto simp: t_bytes.iff t_length.iff take_assets_iff view_ok_def put_view_def put_list_def u32_fits_def MAX_VIEW_ASSETS_def)
qed

subsection \<open>The frame\<close>

definition module_ok :: "module_artifact \<Rightarrow> bool" where
  "module_ok m \<longleftrightarrow> bytes_fit (ma_component m) \<and> pred_option bytes_fit (ma_index m) \<and> pred_option view_ok (ma_view m) \<and> lanes_ok (ma_lanes m)"

interpretation t_module: take_codec take_module put_module module_ok
proof
  fix bs x t
  have "take_module bs = Inr (x, t) \<longleftrightarrow> (\<exists>u v w. take_bytes bs = Inr (ma_component x, u) \<and>
      take_option BadMapperTag take_bytes u = Inr (ma_index x, v) \<and> take_option BadViewTag take_view v = Inr (ma_view x, w) \<and>
      take_lanes w = Inr (ma_lanes x, t))"
    by (cases x) (auto simp: take_module_def rbind_eq_Inr)
  then show "take_module bs = Inr (x, t) \<longleftrightarrow> module_ok x \<and> bs = put_module x @ t"
    by (auto simp: t_bytes.iff t_bytes.option_iff t_view.option_iff t_lanes.iff module_ok_def put_module_def)
qed

definition artifact_ok :: "artifact \<Rightarrow> bool" where
  "artifact_ok a = (case a of AModule m \<Rightarrow> module_ok m | AView v \<Rightarrow> view_ok v)"

lemma decode_frame_iff:
  "artifact_decode bs = Inr a \<longleftrightarrow> length bs \<le> MAX_ARTIFACT_BYTES \<and> artifact_ok a \<and> bs = artifact_frame a"
proof (cases bs)
  case Nil
  then show ?thesis by (auto simp: artifact_decode_def take_tag_def artifact_frame_def split: artifact.splits)
next
  case (Cons tag u)
  have "artifact_decode bs = Inr a \<longleftrightarrow> length bs \<le> MAX_ARTIFACT_BYTES \<and>
      (case a of AModule m \<Rightarrow> tag = 0 \<and> take_module u = Inr (m, []) | AView v \<Rightarrow> tag = 1 \<and> take_view u = Inr (v, []))"
    using Cons by (auto simp: artifact_decode_def take_tag_def rbind_eq_Inr split: artifact.splits if_splits)
  then show ?thesis
    using Cons by (auto simp: t_module.iff t_view.iff artifact_ok_def artifact_frame_def split: artifact.splits)
qed

end
