(* ===== verification/Spec2Isabelle.thy ===== *)
theory Spec2Isabelle
  imports Fs_Sync Fs_Quota Retention_Exchange Query_Scenario Disk_Scenario Staged_Store Blob_Scenario Scratch_Scenario
    Module_Artifact
begin

text \<open>
  This library covers DuckFS and the parts of the kernel that persist module state, blobs and module code.
  DuckFS, the replicated filesystem of ducktape-sdk (\<open>src/crates/duckfs/core/src\<close>, with its disk stores in
  \<open>src/crates/duckfs/disk/src\<close>), is a deterministic
  state machine over a content-addressed object store. A node applies the operations of a block in
  order to a pending view of a small record, the refs; at the block boundary the objects the block
  staged are flushed to the store, the refs are saved and their hash becomes the state root. Nodes
  must agree byte for byte on that root, joiners rebuild the store from peers, and a collector drops
  what the refs no longer reach.

  Parts and theories, in the order of import:

  \<^item> \<open>Prelude\<close>, \<open>BTree\<close>: results as sums with their bind, saturating and checked 64-bit arithmetic,
    byte strings, and the ordered maps of the code (\<open>BTreeMap\<close>, \<open>BTreeSet\<close>) as strictly ascending
    association lists (\<open>bt_wf\<close>) with lookup, insertion and removal.
  \<^item> \<open>Errors\<close>: one datatype of errors per source file, a constructor for each error string.
  \<^item> \<open>Codec\<close> (\<open>codec.rs\<close>): the cursor reader and the writers, \<open>good_field\<close> and the contract of an
    ascending table. \<open>Text_Format\<close>, \<open>Wire\<close> (\<open>wire.rs\<close>): constants, hexadecimal, wire types.
  \<^item> \<open>Actors\<close> (\<open>actor.rs\<close>), \<open>Objects\<close> (\<open>objects.rs\<close>), \<open>Paths\<close> (\<open>paths.rs\<close>), \<open>Refs_State\<close>
    (\<open>state.rs\<close>): the data of the filesystem, each with its codec and the lemma that the codec accepts
    exactly what it writes.
  \<^item> \<open>Object_Store\<close> (\<open>store.rs\<close>): the traits \<open>ObjectStore\<close> and \<open>RefsStore\<close> as records of operations,
    their contracts as the locales \<open>object_store\<close> and \<open>refs_store\<close>, interpreted on \<open>MemStore\<close> and \<open>MemRefs\<close>.
  \<^item> \<open>Tree_Edit\<close> (\<open>tree.rs\<close>): the read view with its budget, path resolution and the copy-on-write
    edit. \<open>Tree_Spec\<close>: the abstract map from paths to items (\<open>den\<close>) that an overlay or a stored tree
    denotes, and the refinement of every edit and of the build.
  \<^item> \<open>Retention\<close> (\<open>retention.rs\<close>): the catalog of protected references. \<open>Retention_Spec\<close>,
    \<open>Retention_Exchange\<close>: its records, paths and the effect of a compare-and-exchange.
  \<^item> \<open>Gc\<close> (\<open>gc.rs\<close>): the mark and the search for missing objects. \<open>Gc_Spec\<close>: the object graph, its
    reachable part (an inductive set), soundness, completeness and termination of the mark.
  \<^item> \<open>Commit\<close> (the free functions of \<open>fs.rs\<close>): planning, validation, availability, conflicts, the edit
    and the seal of a commit. \<open>Commit_Spec\<close>: a commit as a fold of map updates.
  \<^item> \<open>Fs_Core\<close> (\<open>Fs\<close> in \<open>fs.rs\<close>): the state machine; every verb runs inside \<open>transact\<close>. The locale
    \<open>block_verb\<close> of \<open>Fs_Verbs\<close> states what \<open>transact\<close> relies on and is interpreted for all eight verbs;
    \<open>Fs_Invariant\<close> holds the invariant of the refs. \<open>Fs_Steps\<close> is the step relation \<open>fs_step\<close> and its invariant; \<open>Fs_Commit\<close> lifts the commit to
    the machine; \<open>Fs_Sync\<close>, \<open>Fs_Quota\<close> treat the sync lane and the staging quotas.
  \<^item> \<open>Queries\<close> (\<open>queries.rs\<close> and the read types of \<open>wire.rs\<close>): stat, ls, ranged read, find, grep,
    history, diff, the refs summary and the staging probe, over the committed store. \<open>Query_Spec\<close>: the
    enumeration \<open>listing\<close> of a tree and find as a page of it; \<open>Diff_Spec\<close>: diff as the pointwise comparison
    of two trees; \<open>Read_Spec\<close>: a ranged read as a slice; \<open>Query_Results\<close>, \<open>Query_Total\<close>: the same at the
    level of the queries, and that they return on a tree that the store holds (\<open>held\<close>); \<open>Round_Trip\<close>: what a
    commit stages is what a later read finds.
  \<^item> \<open>File_System\<close>: the calls of \<open>std::fs\<close> the disk crate makes, on a disk that records what a running
    process sees and what a power loss may leave; \<open>d_plan\<close> fixes for each call whether it succeeds, fails
    (with a torn effect) or finds the power gone. Triples over all plans, with a condition for each way out.
  \<^item> \<open>Disk\<close> (\<open>disk.rs\<close>): \<open>DiskStore\<close> and \<open>DiskRefs\<close>, call by call. \<open>Disk_Commit\<close> (\<open>commit.rs\<close>): the
    flush, the save and the collection of a block. \<open>Disk_Spec\<close>, \<open>Disk_Crash\<close>: the invariant of the object
    directory under faults and what a block leaves. \<open>Disk_Restart\<close>: reopening, the run of blocks and
    power losses (\<open>node_run\<close>, an inductive relation) and the replay that skips an fsync. \<open>Disk_Calm\<close>: the
    stores without faults, interpreted as \<open>object_store\<close> and \<open>refs_store\<close>.
  \<^item> \<open>Disk_Scratch\<close> (\<open>scratch.rs\<close> of the disk crate): the scratch directory of a joining node, its
    preparation, promotion and sweep. \<open>Scratch_Merge\<close>: what merging one object directory into another
    leaves; \<open>Scratch_Promote\<close>: the outcome of a promotion under every plan of failures, and that nothing
    else touches the canonical directory.

  Around the filesystem, under \<open>src/crates/kernel\<close>:

  \<^item> \<open>Sdk_Codec\<close> (\<open>sdk/src/codec.rs\<close>, \<open>hash.rs\<close>, \<open>genesis_config.rs\<close>): the writers and the \<open>Cursor\<close> of
    the kernel's modules, each field under the locale \<open>field_codec\<close>, the pair encoding that roots hash and
    the genesis configuration.
  \<^item> \<open>Staged_Store\<close> (\<open>sdk/src/staged_store.rs\<close>): the overlay every store-backed module keeps in front of an
    authenticated store. The trait \<open>MerkleStore\<close> is the record \<open>merkle_ops\<close>, its contract the locale
    \<open>merkle_store\<close>, interpreted on the in-memory store of \<open>sdk-testkit\<close>.
  \<^item> \<open>Blob_Store\<close> (\<open>blobstore/src/lib.rs\<close>): the content-addressed blobs with their memory cache, over the same
    model of the file system; the trait \<open>Blobs\<close> is the locale \<open>blobs\<close>, interpreted on \<open>BlobHandle\<close> and
    \<open>MemBlobs\<close>. \<open>Blob_Staging\<close> (\<open>staging.rs\<close>): the one-writer slots that stream a blob to disk, ingests, the
    sweep, and the step relation \<open>blob_reach\<close> of the store.
  \<^item> \<open>Module_Artifact\<close> (\<open>module-artifact/src/lib.rs\<close>): the reader of the module artifact frame, with the layout
    it accepts; each reader is an instance of the locale \<open>take_codec\<close>.
  \<^item> \<open>Scenario\<close>, \<open>Divergence\<close>, \<open>Write_Scenario\<close>, \<open>Query_Scenario\<close>, \<open>Disk_Scenario\<close>, \<open>Scratch_Scenario\<close>,
    \<open>Blob_Scenario\<close>: concrete runs and stores, used by the witnesses and by the defects C30, C31, C37 and C40.

  Correspondence. A Rust struct is a record with the fields' names, an enum a datatype, \<open>u64\<close> and \<open>u32\<close>
  are words of that width, \<open>usize\<close> lengths and counters are naturals, \<open>Result<T, String>\<close> is
  \<open>error + 'a\<close>. A string is the list of its UTF-8 bytes (type \<open>rstring\<close>; \<open>utf8\<close> says that it is one).
  \<open>&mut\<close> state is passed and returned; a verb returns its result together with the state also when it
  fails, so that what an error leaves behind is visible. The distinct objects an operation reads are
  charged to a budget that is threaded as state (\<open>reads\<close>).

  Parameters. SHA-256 (\<open>H\<close>), Unicode normalisation (\<open>nfc\<close>) and base64 are arguments of the
  definitions, as their code is not in the repository; where a theorem needs that a digest has 32 bytes or
  that two bodies do not collide, that is a hypothesis. The store is an argument \<open>ops\<close>; theorems over any
  store assume the locale's contract.

  Fuel. The tree walks of the mark and of the collection, and the walk of the retention catalog, end
  only because content addressing admits no cycles, so they carry fuel; more than the number of
  stored objects is enough (C20). Everything else terminates by structure or by a measure.

  Groups of properties. C1-C7: the state machine and its commits. C8, C9, C13, C14: codecs, paths and the
  write gate. C10-C12: the artifact frame, the genesis configuration and the staged overlay of the kernel.
  C15-C17: trees. C19-C21: collection. C22-C25: sync. C26, C28, C29: quotas, watches and
  retention. C30-C31: two inputs on which the code departs from what its comments promise. C32, C33, C35:
  queries. C36-C38: the disk, with a third such input (C37). C34, C39: the scratch of a joining node.
  C18, C27, C40: the blob store, with a fourth such input (C40).

  Disk. A file system call is atomic but for a write, a copy and a directory walk, which can stop in the
  middle; a rename replaces its target or not; bytes are durable after \<open>sync_all\<close>, names after an fsync of
  their directory. \<open>DiskStore\<close> takes the ids of the model, which are 32 bytes; where a theorem needs that of
  the hash it says so.

  Blobs and artifacts. A poisoned mutex, the counters that thin out log lines beyond their value, and the
  Borsh encoder of an artifact (a dependency) are not modelled; the frame that the reader accepts is given by
  its own layout. A call of a store that the code makes under its lock is one step.

  Not modelled: the JSON forms of wire types (serde derives), log output, and the other crates of the
  repository: the kernel's wasm host, key schemes and guest glue, the module SDK, the
  application modules, views, DNS and the build tooling.
\<close>

section \<open>The state machine\<close>

text \<open>
  C1. Every refs image the state machine produces from genesis decodes, committed or pending, and
  stays under the byte cap. Any sequence of verbs (accepted or refused), block boundaries, aborts,
  honest installs, ingests and collections is covered. This is what lets a node reload its refs
  file and a joiner install it.
\<close>

theorem reachable_images_decode:
  assumes "(fs_step H nfc b64_decode ops)\<^sup>*\<^sup>* (fs_new s refs_default) fs'"
    and "\<forall>b. length (H b) = 32"
  shows "decode_refs (snapshot_refs fs') = Inr (fs_refs fs') \<and>
    decode_refs (encode_refs (pending_refs fs')) = Inr (pending_refs fs') \<and>
    length (snapshot_refs fs') \<le> MAX_REFS_IMAGE_BYTES"
proof -
  have "fs_inv fs'"
    using fs_reachable_inv [OF assms fs_inv_new [OF refs_inv_default]] .
  then have "refs_ok (fs_refs fs')" "refs_ok (pending_refs fs')"
    by (simp_all add: fs_inv_def refs_inv_ok)
  then show ?thesis
    by (simp add: snapshot_refs_def decode_encode_refs length_encode_refs refs_ok_def)
qed

theorem reachable_images_decode_witness:
  "decode_refs (snapshot_refs (snd (putblob (\<lambda>_. replicate 32 0) AuthSystem 7 [1]
     (fs_new ([] :: mem_store) refs_default)))) = Inr refs_default"
proof -
  let ?H = "\<lambda>_ :: bytes. replicate 32 0 :: object_id" and ?g = "fs_new ([] :: mem_store) refs_default"
  obtain r fs' where p: "putblob ?H AuthSystem 7 [1] ?g = (r, fs')" by fastforce
  then have "fs_step ?H id (\<lambda>_. None) (mem_ops ?H) ?g fs'" by (rule step_putblob) simp
  then have "(fs_step ?H id (\<lambda>_. None) (mem_ops ?H))\<^sup>*\<^sup>* ?g fs'" by (rule r_into_rtranclp)
  from reachable_images_decode [OF this]
  have "decode_refs (snapshot_refs fs') = Inr (fs_refs fs')" by simp
  moreover have "fs_refs fs' = refs_default"
    using same_base_fields(1) [OF swept_verb.transact_frame [OF p [unfolded putblob_def]]]
    by (simp add: fs_new_def)
  ultimately show ?thesis using p by simp
qed

text \<open>
  C2. A refused verb is invisible: whatever the verb and whatever the error, the pending refs (the
  staging entries its sweep would have dropped included), the objects buffered in the block, the
  block's object index, the committed refs and the object store are exactly as before.
\<close>

theorem refused_verb_invisible:
  assumes "putblob H a height bs fs = (Inl e, fs') \<or>
    commit H nfc b64_decode ops a height time base message changes fs = (Inl e, fs') \<or>
    project_snapshot H nfc ops a height time snapshot path fs = (Inl e, fs') \<or>
    compare_exchange_retention H ops a height key expected replacement fs = (Inl e, fs') \<or>
    pin H ops a height snapshot name fs = (Inl e, fs') \<or>
    unpin a height name fs = (Inl e, fs') \<or>
    watch nfc a height path name fs = (Inl e, fs') \<or>
    unwatch nfc a height path name fs = (Inl e, fs')"
  shows "pending_refs fs' = pending_refs fs \<and> staged_of fs' = staged_of fs \<and>
    block_objects fs' = block_objects fs \<and> fs_refs fs' = fs_refs fs \<and> store fs' = store fs"
  using assms same_base_fields(1,2) [of fs fs']
  unfolding putblob_def commit_def project_snapshot_def compare_exchange_retention_def pin_def
    unpin_def watch_def unwatch_def
  by (elim disjE)
    (blast dest: swept_verb.transact_refused swept_verb.transact_frame commit_verb.transact_refused
      commit_verb.transact_frame project_verb.transact_refused project_verb.transact_frame
      retention_verb.transact_refused retention_verb.transact_frame)+

theorem refused_verb_invisible_witness:
  "block_objects (snd (unpin AuthSystem 3 [1] (fs_new () refs_default))) = []"
proof -
  let ?g = "fs_new () refs_default"
  have "fst (unpin AuthSystem 3 [1] ?g) = Inl (FsE PinNotFound)"
    by (simp add: unpin_def transact_def swept_def unpin_step_def fs_new_def refs_default_def
        require_pending_def pending_refs_def sweep_expired_def authority_validate_def Let_def
        checked_add64_def bt_has_def)
  then have "unpin AuthSystem 3 [1] ?g = (Inl (FsE PinNotFound), snd (unpin AuthSystem 3 [1] ?g))"
    by (metis prod.collapse)
  then show ?thesis
    using refused_verb_invisible [of undefined AuthSystem 3 undefined ?g] 
    by (metis block_objects_def fs_new_def option.simps(4) fs.select_convs(3))
qed

text \<open>
  C3. No verb moves the committed root or writes the object store: the root moves only when the
  caller adopts a block's refs (or installs a peer's).
\<close>

theorem verb_never_moves_root:
  assumes "putblob H a height bs fs = (r1, fs') \<or>
    commit H nfc b64_decode ops a height time base message changes fs = (r2, fs') \<or>
    project_snapshot H nfc ops a height time snapshot path fs = (r3, fs') \<or>
    compare_exchange_retention H ops a height key expected replacement fs = (r4, fs') \<or>
    pin H ops a height snapshot name fs = (r5, fs') \<or>
    unpin a height name fs = (r6, fs') \<or>
    watch nfc a height path name fs = (r7, fs') \<or>
    unwatch nfc a height path name fs = (r8, fs')"
  shows "fs_root_bytes H fs' = fs_root_bytes H fs \<and> store fs' = store fs"
proof -
  have "same_base fs fs'"
    using assms
    unfolding putblob_def commit_def project_snapshot_def compare_exchange_retention_def pin_def
      unpin_def watch_def unwatch_def
    by (elim disjE) (blast dest: swept_verb.transact_frame commit_verb.transact_frame
        project_verb.transact_frame retention_verb.transact_frame)+
  then show ?thesis by (simp add: fs_root_bytes_def same_base_fields)
qed

theorem verb_never_moves_root_witness:
  "fs_root_bytes (\<lambda>b. b) (snd (putblob (\<lambda>b. b) AuthSystem 0 [9] (fs_new () refs_default))) =
   encode_refs refs_default"
  using verb_never_moves_root [of "\<lambda>b. b" AuthSystem 0 "[9]" "fs_new () refs_default"
      "fst (putblob (\<lambda>b. b) AuthSystem 0 [9] (fs_new () refs_default))"
      "snd (putblob (\<lambda>b. b) AuthSystem 0 [9] (fs_new () refs_default))"]
  by (simp add: fs_root_bytes_def root_bytes_def fs_new_def)

section \<open>Commits\<close>

text \<open>
  C4. An accepted commit is its changes applied in order: the snapshot it makes the head denotes the
  path map of the previous head with each put, mkdir, rm, mv and symlink performed as an update of
  the map, and records the previous head as its parent, the authority, the time, the height and the
  message. \<open>F\<close> is any assignment of contents to ids that extends what the block could read and holds
  the objects it buffered, such as the store after the flush.
\<close>

theorem commit_refines_changes:
  assumes "commit H nfc b64_decode ops a height time base message changes fs = (Inr notes, fs')"
    and "\<forall>b. length (H b) = 32" and "\<forall>ch \<in> set changes. \<forall>p \<in> set (change_paths ch). utf8 p"
    and "utf8 message" and "authority_typed a" and "refs_inv (pending_refs fs)"
    and "block_contents H ops fs \<subseteq>\<^sub>m F" and "holds H F (empty_tree_object # staged_of fs')"
  shows "\<exists>snap s. head (pending_refs fs') = Some snap \<and> snapshot_at F snap = Some s \<and>
      s_parent s = head (pending_refs fs) \<and> s_author s = authority_actor a \<and> s_time s = time \<and>
      s_height s = height \<and> s_message s = message \<and>
      tree_of F (Some snap) = fold (change_map H nfc b64_decode) changes (tree_of F (head (pending_refs fs)))"
proof -
  from commit_verb_tree [OF assms] obtain snap root where c: "head (pending_refs fs') = Some snap"
    "snapshot_at F snap = Some (commit_snapshot (pending_refs fs) a height time message root)"
    "tree_of F (Some snap) = fold (change_map H nfc b64_decode) changes (tree_of F (head (pending_refs fs)))"
    by blast
  show ?thesis
    by (rule exI [of _ snap], rule exI [of _ "commit_snapshot (pending_refs fs) a height time message root"])
      (simp add: c commit_snapshot_def)
qed

theorem commit_refines_changes_witness:
  "tree_of first_contents (head (pending_refs (snd first_commit))) [[97]] = Some IDir"
proof -
  let ?fs' = "snd first_commit"
  have "first_commit = (Inr [], ?fs')" by (simp add: first_commit_result)
  moreover have "\<forall>ch \<in> set [Mkdir [47, 97]]. \<forall>p \<in> set (change_paths ch). utf8 p"
    using path_a(3) by (simp del: utf8.simps)
  ultimately have "\<exists>snap. head (pending_refs ?fs') = Some snap \<and>
      tree_of first_contents (Some snap) =
      fold (change_map short_hash id Some) [Mkdir [47, 97]] (tree_of first_contents (head (pending_refs genesis)))"
    using commit_refines_changes [OF _ short_hash_32 _ _ _ genesis_refs(2) _ first_holds] genesis_contents
    by force
  moreover have "change_map short_hash id Some (Mkdir [47, 97]) D [[97]] = Some IDir" for D
    by (simp add: change_map_def path_a pm_graft_def pm_empty_def)
  ultimately show ?thesis by auto
qed

text \<open>
  C5. No lost update and no forbidden write: when a commit is accepted, every path it touches is
  canonical, inside the authority's namespaces and touched once, and the entry there in the head it
  lands on is the entry in the base its author saw.
\<close>

theorem commit_no_lost_update:
  assumes "commit H nfc b64_decode ops a height time base message changes fs = (Inr notes, fs')"
  shows "\<exists>base_root r r'. resolve_base H (forked_view ops height fs) (sweep_expired height (pending_refs fs)) base r
      = Inr (base_root, r') \<and>
    (\<forall>ch \<in> set changes. \<forall>p \<in> set (change_paths ch).
       canonical nfc p = Inr (segs_of nfc p) \<and> check_authority a (segs_of nfc p) = Inr () \<and>
       (segs_of nfc p \<noteq> [] \<longrightarrow>
         node_at (block_contents H ops fs) (edit_load base_root) (segs_of nfc p) =
         node_at (block_contents H ops fs)
           (edit_load (root_of (block_contents H ops fs) (head (pending_refs fs)))) (segs_of nfc p))) \<and>
    distinct (concat (map change_paths changes))"
  using assms by (rule commit_verb_gate)

theorem commit_no_lost_update_witness:
  "check_authority AuthSystem (segs_of id [47, 97]) = Inr ()"
proof -
  have "first_commit = (Inr [], snd first_commit)" by (simp add: first_commit_result)
  from commit_no_lost_update [OF this] show ?thesis by auto
qed

text \<open>
  C6. The source revision is a fence: an accepted verb either leaves the refs as they were or
  advances the revision by exactly one, without wrapping.
\<close>

theorem source_revision_fence:
  assumes "putblob H a height bs fs = (Inr u1, fs') \<or>
    commit H nfc b64_decode ops a height time base message changes fs = (Inr u2, fs') \<or>
    project_snapshot H nfc ops a height time snapshot path fs = (Inr u3, fs') \<or>
    compare_exchange_retention H ops a height key expected replacement fs = (Inr u4, fs') \<or>
    pin H ops a height snapshot name fs = (Inr u5, fs') \<or>
    unpin a height name fs = (Inr u6, fs') \<or>
    watch nfc a height path name fs = (Inr u7, fs') \<or>
    unwatch nfc a height path name fs = (Inr u8, fs')"
  shows "pending_refs fs' = pending_refs fs \<or>
    unat (source_revision (pending_refs fs')) = unat (source_revision (pending_refs fs)) + 1"
  using assms
  unfolding putblob_def commit_def project_snapshot_def compare_exchange_retention_def pin_def
    unpin_def watch_def unwatch_def
  by (elim disjE) (blast dest: swept_verb.transact_revision commit_verb.transact_revision
      project_verb.transact_revision retention_verb.transact_revision)+

theorem source_revision_fence_witness:
  "unat (source_revision (pending_refs (snd first_commit))) = 1"
proof -
  have c: "first_commit = (Inr [], snd first_commit)" by (simp add: first_commit_result)
  have "pending_refs (snd first_commit) = pending_refs genesis \<or>
    unat (source_revision (pending_refs (snd first_commit))) = unat (source_revision (pending_refs genesis)) + 1"
    by (rule source_revision_fence [OF disjI2 [OF disjI1 [OF c]]])
  moreover have "pending_refs (snd first_commit) \<noteq> pending_refs genesis"
    using first_head genesis_refs by auto
  moreover have "unat (source_revision (pending_refs genesis)) = 0"
    unfolding genesis_refs(1) by (simp add: refs_default_def)
  ultimately show ?thesis by simp
qed



section \<open>Bodies and images\<close>

text \<open>
  C8. The refs decoder accepts exactly the images the encoder writes: a byte string decodes to \<open>r\<close>
  if and only if \<open>r\<close> is typed and within the caps and the string is its encoding. A committed image
  has one reading, and a state has one root.
\<close>

theorem refs_image_exact:
  "decode_refs bs = Inr r \<longleftrightarrow> refs_ok r \<and> bs = encode_refs r"
  by (rule decode_refs_iff)

text \<open>
  C9. The three object decoders accept exactly what the encoders write, so an object has one body
  and one id.
\<close>

theorem object_bodies_exact:
  "(file_decode bs = Inr f \<longleftrightarrow> file_ok f \<and> bs = file_encode f) \<and>
   (tree_decode bs = Inr t \<longleftrightarrow> tree_ok t \<and> bs = tree_encode t) \<and>
   (snapshot_decode bs = Inr s \<longleftrightarrow> snapshot_ok s \<and> bs = snapshot_encode s)"
  by (intro conjI file_decode_iff tree_decode_iff snapshot_decode_iff)

text \<open>
  A retention record has one body: decoding accepts exactly the file objects the encoder builds,
  with a canonical snapshot id and a positive canonical number.
\<close>

theorem retention_record_exact:
  "decode_record body = Inr r \<longleftrightarrow> record_ok r \<and> body = file_encode (record_file r)"
  by (rule decode_record_iff)

text \<open>
  The size the growth gates reckon with is the size of the image: \<open>encoded_refs_len\<close> is the
  length of \<open>encode_refs\<close>, computed without encoding.
\<close>

theorem refs_len_exact:
  assumes "refs_typed r"
  shows "length (encode_refs r) = encoded_refs_len r"
  using assms by (rule length_encode_refs)

theorem refs_len_exact_witness: "length (encode_refs refs_default) = 26"
  using refs_len_exact [of refs_default]
  by (simp add: refs_typed_def refs_default_def encoded_refs_len_def opt_len_def)

text \<open>
  The index of a block's objects survives the guest boundary: what \<open>encode_block_objects\<close> writes
  decodes to the same index.
\<close>

theorem block_objects_roundtrip:
  assumes "bt_wf index" "list_all block_object_ok index" "length index < 2 ^ 32"
  shows "decode_block_objects (encode_block_objects index) = Inr index"
  using assms by (rule decode_encode_block_objects)

theorem block_objects_roundtrip_witness:
  "decode_block_objects (encode_block_objects [(replicate 32 7, (KTree, 5))]) = Inr [(replicate 32 7, (KTree, 5))]"
  by (rule block_objects_roundtrip) (simp_all add: block_object_ok_def)

section \<open>Paths and trees\<close>

text \<open>
  C13. A path is accepted exactly when it is the join of well-formed segments in NFC and within the
  length cap, and the segments returned are those: \<open>canonical\<close> neither rewrites nor loses anything.
\<close>

theorem canonical_path_exact:
  "canonical nfc path = Inr segs \<longleftrightarrow>
     path = join_segs segs \<and> segs_ok segs \<and> nfc path = path \<and> length path \<le> MAX_PATH_BYTES"
  by (rule canonical_iff)


text \<open>
  C15. The copy-on-write edit is the update it stands for: a put, mkdir, rm or mv that succeeds turns
  the path map of the tree into the updated map and keeps the overlay well formed, however little of
  the tree was loaded.
\<close>

theorem tree_edit_refines:
  assumes "apply_op H v n op rs = Inr (n', rs')" and "op_ok op" and "node_ok n" and "item_of n = IDir"
    and "lookup H v \<subseteq>\<^sub>m F"
  shows "den F n' = op_map op (den F n) \<and> node_ok n' \<and> item_of n' = IDir"
  using assms by (rule apply_op_map)

theorem tree_edit_refines_witness:
  "den first_contents (NDir [([97], NDir [])]) [[97]] = Some IDir"
proof -
  let ?v = "\<lparr>v_get = \<lambda>_. Inr None, v_has = \<lambda>_. False, v_pending = [], v_budget = None\<rparr> :: view"
  have r: "apply_op short_hash ?v (NDir []) (PlanMkdir [[97]]) no_reads = Inr (NDir [([97], NDir [])], no_reads)"
    by (simp add: apply_op_def edit_mkdir_def materialize_def sbind_def slift_def sret_def bt_has_def)
  have "lookup short_hash ?v \<subseteq>\<^sub>m first_contents" by (simp add: lookup_def map_le_def dom_def)
  then have "den first_contents (NDir [([97], NDir [])]) = op_map (PlanMkdir [[97]]) (den first_contents (NDir []))"
    using tree_edit_refines [OF r, of first_contents] by (simp add: name_ok_def utf8_lead_def utf8_width_def caps)
  then show ?thesis by (simp add: pm_graft_def pm_empty_def)
qed

text \<open>
  C16. Building stores the edited tree and nothing else: over any store that holds the emitted
  objects, the new root denotes the map of the overlay.
\<close>

theorem tree_build_refines:
  assumes "\<forall>b. length (H b) = 32" and "edit_build H n = Inr (root, out)" and "node_ok n"
    and "item_of n = IDir" and "holds H F out"
  shows "den F (edit_load root) = den F n"
  using assms by (rule edit_build_spec)

theorem tree_build_refines_witness:
  "den first_contents (edit_load (Some (object_id short_hash KTree dir_body))) [[97]] = Some IDir"
proof -
  have "holds short_hash first_contents [(KTree, empty_body), (KTree, dir_body)]"
    using first_holds by (simp add: first_staged)
  moreover have "node_ok (NDir [([97], NDir [])])"
    by (simp add: name_ok_def utf8_lead_def utf8_width_def caps)
  ultimately have "den first_contents (edit_load (Some (object_id short_hash KTree dir_body))) =
      den first_contents (NDir [([97], NDir [])])"
    using tree_build_refines [OF short_hash_32 first_build] by simp
  then show ?thesis by (simp add: den_NDir_Cons bt_get_Cons)
qed

text \<open>
  C17. Reading agrees with the map: resolving a path in a committed tree finds the entry the map has
  there, and \<open>TreeEdit::get\<close> finds what the edited overlay has there.
\<close>

theorem path_resolution:
  assumes "segs \<noteq> []" and "entry_at H v root segs rs = Inr (x, rs')"
    and "walk_get H v n segs rs2 = Inr (y, rs3)"
  shows "node_at (lookup H v) (edit_load root) segs = map_option NRef x \<and>
    den (lookup H v) n segs = map_option (\<lambda>e. item_of (NRef e)) y"
  using entry_at_node_at [OF assms(2,1)] walk_get_den [OF assms(3,1) map_le_refl] by simp

theorem path_resolution_witness:
  "den (lookup id \<lparr>v_get = \<lambda>_. Inr None, v_has = \<lambda>_. False, v_pending = [], v_budget = None\<rparr>)
     (NDir [([97], NRef \<lparr>e_kind = EFile, e_id = [], e_exec = True, e_size = 3\<rparr>)]) [[97]] =
   Some (ILeaf \<lparr>e_kind = EFile, e_id = [], e_exec = True, e_size = 3\<rparr>)"
proof -
  let ?v = "\<lparr>v_get = \<lambda>_. Inr None, v_has = \<lambda>_. False, v_pending = [], v_budget = None\<rparr> :: view"
    and ?e = "\<lparr>e_kind = EFile, e_id = [], e_exec = True, e_size = 3\<rparr>"
  have "entry_at id ?v None [[97]] no_reads = Inr (None, no_reads)" by (simp add: entry_at_def)
  moreover have "walk_get id ?v (NDir [([97], NRef ?e)]) [[97]] no_reads = Inr (Some ?e, no_reads)"
    by (simp add: bt_get_Cons)
  ultimately show ?thesis using path_resolution [of "[[97]]"] by (fastforce simp: item_of_def)
qed

section \<open>Storage, collection and sync\<close>

text \<open>
  A block flush that succeeds leaves every object of the block readable under its id and loses
  none, on any store that keeps the \<open>ObjectStore\<close> contract, unless two bodies collide under the hash.
\<close>

theorem flush_keeps_objects:
  assumes "object_store H ops contents valid" and "valid s" and "put_all ops os s = (Inr u, s')"
    and "inj_on (\<lambda>(k, body). object_id H k body) (set os \<union> ran (contents s))"
  shows "contents s \<subseteq>\<^sub>m contents s' \<and>
    (\<forall>(k, body) \<in> set os. contents s' (object_id H k body) = Some (k, body))"
  using object_store.put_all_keeps(2,3) [OF assms] by blast

theorem flush_keeps_objects_witness:
  "bt_get (snd (put_all (mem_ops short_hash) [(KChunk, [1])] [])) chunk_digest = Some (KChunk, [1])"
proof -
  have p: "put_all (mem_ops short_hash) [(KChunk, [1])] [] = (Inr (), chunk_store)"
    by (simp add: mem_ops_def mem_put_def Let_def)
  have "ran (bt_get ([] :: mem_store)) = {}" by (simp add: ran_def)
  then show ?thesis
    using flush_keeps_objects [OF mem.object_store_axioms _ p] p by (simp add: mem_valid_def)
qed

text \<open>
  C19. The mark is exact: when it succeeds, the marked ids are exactly those reachable from the head,
  the window, the pins, the staging table and the retention catalog with its records' snapshots.
\<close>

theorem mark_exact:
  assumes "mark m n ops r s = Inr live"
    and "chunks_typed (store_contents ops s)" "staged_chunks_typed (store_contents ops s) r"
  shows "live = live_objects (store_contents ops s) r"
  using assms by (rule mark_live)

theorem mark_exact_witness:
  "live_objects (store_contents (mem_ops short_hash) chunk_store) chunk_refs = {chunk_digest}"
  using mark_exact [OF chunk_mark chunk_typed] by simp



text \<open>
  C21. A collection keeps what is reachable and nothing else, and moves neither the refs nor the
  pending view: the contents after it are the contents before, restricted to the live ids.
\<close>

theorem gc_keeps_reachable:
  assumes "object_store H ops contents valid" and "fs_gc m n ops fs = (Inr c, fs')" and "valid (store fs)"
    and "chunks_typed (store_contents ops (store fs))"
    and "staged_chunks_typed (store_contents ops (store fs)) (fs_refs fs)"
  shows "contents (store fs') = contents (store fs) |` live_objects (store_contents ops (store fs)) (fs_refs fs) \<and>
    fs_refs fs' = fs_refs fs \<and> pending fs' = pending fs \<and> valid (store fs')"
  using object_store.gc_keeps [OF assms] by blast

theorem gc_keeps_reachable_witness:
  "bt_get (store (snd (fs_gc 0 2 (mem_ops short_hash) (fs_new chunk_store chunk_refs)))) chunk_digest = Some (KChunk, [1])"
proof -
  let ?fs = "fs_new chunk_store chunk_refs"
  have s: "store ?fs = chunk_store" "fs_refs ?fs = chunk_refs" by (simp_all add: fs_new_def)
  have "fs_gc 0 2 (mem_ops short_hash) ?fs = (Inr 0, ?fs\<lparr>store := chunk_store\<rparr>)"
    unfolding fs_gc_def s chunk_mark by (simp add: mem_ops_def mem_list_def)
  then have e: "fs_gc 0 2 (mem_ops short_hash) ?fs = (Inr 0, snd (fs_gc 0 2 (mem_ops short_hash) ?fs))" by simp
  have "bt_get (store (snd (fs_gc 0 2 (mem_ops short_hash) ?fs))) =
      bt_get chunk_store |` live_objects (store_contents (mem_ops short_hash) chunk_store) chunk_refs"
    using gc_keeps_reachable [OF mem.object_store_axioms e, unfolded s, OF chunk_store_valid chunk_typed] by blast
  moreover have "live_objects (store_contents (mem_ops short_hash) chunk_store) chunk_refs = {chunk_digest}"
    using mark_live [OF chunk_mark chunk_typed] by simp
  ultimately show ?thesis by (simp add: bt_get_Cons)
qed

text \<open>
  C22. An install of a peer's refs is all or nothing: it is refused and changes nothing, or the state
  afterwards serves exactly the bytes that were installed, under the root that was expected, with no
  pending view.
\<close>

theorem install_all_or_nothing:
  assumes "install_refs H bs root fs = (q, fs')"
  shows "(q = Inr () \<and> snapshot_refs fs' = bs \<and> fs_root_bytes H fs' = root \<and> refs_ok (fs_refs fs') \<and>
      pending_refs fs' = fs_refs fs' \<and> store fs' = store fs) \<or>
    ((\<exists>e. q = Inl e) \<and> fs' = fs)"
  using assms
proof (cases rule: install_cases)
  case (adopted r)
  have "install_refs H bs root fs = (Inr (), fs')" using assms adopted(1) by simp
  from install_adopts [OF this] show ?thesis using adopted(1) by simp
qed simp_all

theorem install_all_or_nothing_witness:
  "snapshot_refs (snd (install_refs short_hash (encode_refs refs_default) (short_hash (encode_refs refs_default)) genesis))
     = encode_refs refs_default"
proof -
  let ?i = "install_refs short_hash (encode_refs refs_default) (short_hash (encode_refs refs_default)) genesis"
  have "decode_refs (encode_refs refs_default) = Inr refs_default"
    using refs_inv_ok [OF refs_inv_default] by (rule decode_encode_refs)
  then have "?i = (Inr (), snd ?i)" by (simp add: install_refs_def root_bytes_def)
  from install_all_or_nothing [OF this] show ?thesis by simp
qed

text \<open>
  C23. Sync ingest admits only authentic objects: on success the body hashes to the requested id, the
  store has gained that object (or held one under that id) and nothing else has changed, on any store
  that keeps its contract.
\<close>

theorem ingest_authentic:
  assumes "object_store H ops contents valid" and "ingest_object H ops i tag body fs = (Inr u, fs')"
    and "valid (store fs)"
  shows "\<exists>kind. kind_from_u8 tag = Some kind \<and> i = object_id H kind body \<and>
    (contents (store fs') = (contents (store fs))(i \<mapsto> (kind, body)) \<or>
      contents (store fs') = contents (store fs) \<and> contents (store fs) i \<noteq> None) \<and> valid (store fs') \<and>
    fs_refs fs' = fs_refs fs \<and> pending fs' = pending fs"
  using object_store.ingest_ok [OF assms] .

theorem ingest_authentic_witness:
  "bt_get (store (snd (ingest_object short_hash (mem_ops short_hash) chunk_digest (kind_tag KChunk) [1] genesis)))
     chunk_digest = Some (KChunk, [1])"
proof -
  let ?i = "ingest_object short_hash (mem_ops short_hash) chunk_digest (kind_tag KChunk) [1] genesis"
  have "kind_from_u8 (kind_tag KChunk) = Some KChunk" by (rule kind_from_u8_tag)
  then have "?i = (Inr (), snd ?i)"
    by (simp add: ingest_object_def mem_ops_def mem_put_def Let_def del: kind_tag.simps)
  moreover have "mem_valid short_hash (store genesis)" by (simp add: fs_new_def mem_valid_def)
  ultimately obtain kind where "kind_from_u8 (kind_tag KChunk) = Some kind"
    "bt_get (store (snd ?i)) = (bt_get (store genesis))(chunk_digest \<mapsto> (kind, [1])) \<or> bt_get (store genesis) chunk_digest \<noteq> None"
    using ingest_authentic [OF mem.object_store_axioms] by blast
  then show ?thesis by (simp add: kind_from_u8_tag fs_new_def del: kind_tag.simps)
qed

text \<open>
  C24. A sync reply answers each requested id in its place with the stored kind and bytes or as absent,
  and stays within the reply budget unless it carries a single object.
\<close>

theorem sync_reply_sound:
  assumes "serve_sync b64_encode ops (GetObjects ids) fs = Inr (SyncObjects out)"
  shows "list_all2 (served_as b64_encode ops (store fs)) ids out \<and>
    ((\<Sum>o1\<leftarrow>out. sync_cost o1) \<le> MAX_SYNC_REPLY_BYTES \<or> length (filter so_present out) = 1)"
proof -
  have s: "serve_objects b64_encode ops (store fs) 0 0 ids = Inr out"
    using assms by (auto simp: serve_sync_def split: if_splits)
  show ?thesis using serve_objects_answers [OF s] serve_objects_budget [OF s] by simp
qed

theorem sync_reply_sound_witness:
  "served_as id (mem_ops short_hash) chunk_store (to_hex chunk_digest) (present_object id chunk_digest KChunk [1])"
proof -
  have "from_hex_32 (to_hex chunk_digest) = Some chunk_digest"
    using short_hash_32 by (simp add: from_hex_32_iff object_id_def)
  then have "serve_sync id (mem_ops short_hash) (GetObjects [to_hex chunk_digest]) (fs_new chunk_store refs_default) =
      Inr (SyncObjects [present_object id chunk_digest KChunk [1]])"
    by (simp add: serve_sync_def fs_new_def mem_ops_def mem_get_def bt_get_Cons caps present_object_def Let_def)
  from sync_reply_sound [OF this] show ?thesis by (simp add: fs_new_def)
qed

text \<open>
  C25. Sync makes progress: a reply to a request in which some id is held carries at least one object,
  however large, so a joiner that asks again for what it misses never stalls.
\<close>

theorem sync_progress:
  assumes "serve_sync b64_encode ops (GetObjects ids) fs = Inr (SyncObjects out)" and "hex \<in> set ids"
    and "from_hex_32 hex = Some i" and "so_get ops (store fs) i = Inr (Some kb)"
  shows "\<exists>o1 \<in> set out. so_present o1"
proof -
  have "serve_objects b64_encode ops (store fs) 0 0 ids = Inr out"
    using assms(1) by (auto simp: serve_sync_def split: if_splits)
  then show ?thesis using assms(2-4) by (rule serve_objects_progress)
qed

theorem sync_progress_witness:
  "\<exists>out. serve_sync id (mem_ops short_hash) (GetObjects [to_hex chunk_digest]) (fs_new chunk_store refs_default) =
     Inr (SyncObjects out) \<and> (\<exists>o1 \<in> set out. so_present o1)"
proof -
  have h: "from_hex_32 (to_hex chunk_digest) = Some chunk_digest"
    using short_hash_32 by (simp add: from_hex_32_iff object_id_def)
  have g: "so_get (mem_ops short_hash) (store (fs_new chunk_store refs_default)) chunk_digest = Inr (Some (KChunk, [1]))"
    by (simp add: fs_new_def mem_ops_def mem_get_def bt_get_Cons)
  have "\<exists>out. serve_sync id (mem_ops short_hash) (GetObjects [to_hex chunk_digest]) (fs_new chunk_store refs_default) =
     Inr (SyncObjects out)"
    using h g by (simp add: serve_sync_def caps Let_def)
  then show ?thesis using sync_progress [OF _ _ h g] by fastforce
qed

section \<open>Quotas, watches and retention\<close>

text \<open>
  C26. Putblob keeps the staging quotas: if an authority's staged bytes and entries and the table are
  within the caps before, they are after, whatever expired entries the sweep drops and although the
  sum the code keeps saturates.
\<close>

theorem putblob_within_quota:
  assumes "putblob H a height bs fs = (Inr u, fs')" and "within_quota fs a (staging (pending_refs fs))"
    and "bt_wf (staging (pending_refs fs))" and "unat (quota fs) < 2 ^ 64 - 1"
  shows "within_quota fs a (staging (pending_refs fs'))"
  using assms by (rule putblob_quota)

theorem putblob_within_quota_witness:
  "\<exists>fs'. putblob short_hash AuthSystem 1 [1] genesis = (Inr (), fs') \<and>
     within_quota genesis AuthSystem (staging (pending_refs fs'))"
proof -
  obtain fs' where p: "putblob short_hash AuthSystem 1 [1] genesis = (Inr (), fs')" using first_blob by blast
  have st: "staging (pending_refs genesis) = []" unfolding genesis_refs(1) by (simp add: refs_default_def)
  have "within_quota genesis AuthSystem []" by (simp add: within_quota_def owner_bytes_def owner_entries_def)
  moreover have "unat (quota genesis) < 2 ^ 64 - 1" by (simp add: fs_new_def STAGING_QUOTA_BYTES_def)
  ultimately show ?thesis using putblob_within_quota [OF p] p unfolding st by auto
qed

text \<open>
  A watch matches at segment boundaries: on canonical paths, its textual prefix test is the prefix
  order of segment lists.
\<close>

theorem watch_at_boundary:
  assumes "segs_ok ss" "segs_ok ts"
  shows "watch_matches (join_segs ss) (join_segs ts) \<longleftrightarrow> prefix ss ts"
  using assms by (rule watch_matches_prefix)

theorem watch_at_boundary_witness: "\<not> watch_matches [47, 97] [47, 97, 98]"
  using watch_at_boundary [of "[[97]]" "[[97, 98]]"]
  by (simp add: segs_ok_def seg_ok_def join_segs_def SLASH_def str_def caps)

text \<open>
  C28. An accepted commit notifies exactly the watches whose prefix matches a touched path, with the
  new head's id.
\<close>

theorem commit_notifies:
  assumes "commit H nfc b64_decode ops a height time base message changes fs = (Inr notified, fs')"
  shows "\<exists>snap. head (pending_refs fs') = Some snap \<and>
    (\<forall>x. x \<in> set notified \<longleftrightarrow>
      (\<exists>p m u ch j. ((p, m), u) \<in> set (watches (pending_refs fs)) \<and> ch \<in> set changes \<and> j \<in> set (change_paths ch) \<and>
         watch_matches p j \<and> x = \<lparr>n_module = m, n_prefix = p, n_path = j, n_snapshot = to_hex snap\<rparr>))"
  using assms by (rule commit_verb_notifies)

theorem commit_notifies_witness: "fst first_commit = Inr [] \<and> head (pending_refs (snd first_commit)) \<noteq> None"
proof -
  have "first_commit = (Inr [], snd first_commit)" by (simp add: first_commit_result)
  from commit_notifies [OF this] show ?thesis by (metis first_commit_result fst_conv option.distinct(1))
qed



section \<open>What the code does not keep\<close>

text \<open>
  C30. A commit's outcome depends on the local object store, which the code sets out to avoid: on two
  nodes with the same refs, one of which holds an orphaned chunk, a commit that inlines the chunk and
  references it by digest is refused on the node that holds it and accepted on the other.
\<close>

theorem commit_depends_on_local_store:
  "fst (commit short_hash id Some (mem_ops short_hash) AuthSystem 1 2 None [] orphan_changes (fs_new chunk_store refs_default))
     = Inl (CommitE ChunkNotAvailable) \<and>
   (\<exists>n. fst (commit short_hash id Some (mem_ops short_hash) AuthSystem 1 2 None [] orphan_changes genesis) = Inr n)"
  by (rule orphan_decides)

text \<open>
  C31. A symbolic link with an empty target is accepted by a commit and stages a file object that no
  node can ingest over sync, on any store and in any state.
\<close>

theorem empty_link_never_syncs:
  "(\<exists>n. fst link_commit = Inr n \<and> (KFile, link_body) \<in> set (staged_of (snd link_commit))) \<and>
   ingest_object short_hash ops (object_id short_hash KFile link_body) (kind_tag KFile) link_body fs =
     (Inl (SyncE IngestFileShape), fs)"
  using link_committed link_never_ingested [OF short_hash_32] by blast

section \<open>Queries\<close>



text \<open>
  C33. Find enumerates the tree: on a snapshot whose directories and file objects the store holds, a find
  returns, and what it returns is the page its limit cuts from the enumeration \<open>M\<close> of the paths of the
  tree, in path order, that extend the prefix and lie after the cursor, with the path of its last entry
  as the next cursor exactly when more remain. Pruning and early exit lose nothing.
\<close>

theorem find_page_exact:
  assumes "named (store_contents ops (store fs))"
    and "resolve_head H ops fs snapshot rs = Inr (h, rs')" "held_head (store_contents ops (store fs)) n h"
  shows "\<exists>M. sorted_wrt (<) (map fst M) \<and>
    set M = {(p, e). p \<noteq> [] \<and> matching pre cursor p \<and>
      node_at (store_contents ops (store fs)) (committed_node ops fs snapshot) p = Some (NRef e)} \<and>
    query n H nfc b64_encode ops fs (QFind pre snapshot cursor limit) rs = Inr (RFind
      (map (\<lambda>(p, e). info_of (store_contents ops (store fs)) (path_str p) e) (take (page_limit limit) M))
      (if page_limit limit < length M then Some (path_str (fst (M ! (page_limit limit - 1)))) else None), rs')"
  using find_query_exact [OF assms] by (simp add: query_def)

theorem find_page_exact_witness:
  "query 1 short_hash id id (mem_ops short_hash) pair_fs (QFind [] None None 1) no_reads =
     Inr (RFind [info_of pair_contents [47, 97] leaf_entry] (Some [47, 97]), no_reads)"
proof -
  obtain M where M: "sorted_wrt (<) (map fst M)" "set M = {(p, e). p \<noteq> [] \<and> matching [] None p \<and>
      node_at pair_contents (committed_node (mem_ops short_hash) pair_fs None) p = Some (NRef e)}"
    and q: "query 1 short_hash id id (mem_ops short_hash) pair_fs (QFind [] None None 1) no_reads = Inr (RFind
      (map (\<lambda>(p, e). info_of pair_contents (path_str p) e) (take (page_limit 1) M))
      (if page_limit 1 < length M then Some (path_str (fst (M ! (page_limit 1 - 1)))) else None), no_reads)"
    using find_page_exact [OF pair_named pair_heads(1) pair_held_head(2)] by blast
  have "M = [([[97]], leaf_entry), ([[98]], leaf_entry)]"
    using M pair_nodes(2) by (intro sorted_pairs_eq) (auto simp: bt_wf_def matching_def after_cursor_def)
  then show ?thesis unfolding q by (simp add: page_limit_small MAX_PAGE_def SLASH_def)
qed

text \<open>
  Find pages tile: a page of \<open>l1\<close> entries followed by the page of \<open>l2\<close> entries asked for with its
  cursor is the page of \<open>l1 + l2\<close> entries, so a client that follows the cursors sees every entry once.
\<close>

theorem find_pages_compose:
  assumes "named (store_contents ops (store fs))"
    "resolve_head H ops fs snapshot rs = Inr (h, rs')" "held_head (store_contents ops (store fs)) n h"
    and "1 \<le> l1" "1 \<le> l2" "unat l1 + unat l2 \<le> unat MAX_PAGE"
    and "find_query n H ops fs pre snapshot cursor l1 rs = Inr (RFind es nx, rs')"
  shows "find_query n H ops fs pre snapshot cursor (l1 + l2) rs = (case nx of
      None \<Rightarrow> Inr (RFind es None, rs')
    | Some c \<Rightarrow> (case find_query n H ops fs pre snapshot (Some c) l2 rs of
        Inr (RFind es2 nx2, r) \<Rightarrow> Inr (RFind (es @ es2) nx2, r) | x \<Rightarrow> x))"
  by (rule find_compose [OF assms])

theorem find_pages_compose_witness:
  "\<exists>es nx. find_query 1 short_hash (mem_ops short_hash) pair_fs [] None None 1 no_reads = Inr (RFind es nx, no_reads) \<and>
    find_query 1 short_hash (mem_ops short_hash) pair_fs [] None None 2 no_reads = (case nx of
      None \<Rightarrow> Inr (RFind es None, no_reads)
    | Some c \<Rightarrow> (case find_query 1 short_hash (mem_ops short_hash) pair_fs [] None (Some c) 1 no_reads of
        Inr (RFind es2 nx2, r) \<Rightarrow> Inr (RFind (es @ es2) nx2, r) | x \<Rightarrow> x))"
proof -
  obtain es nx where q: "find_query 1 short_hash (mem_ops short_hash) pair_fs [] None None 1 no_reads = Inr (RFind es nx, no_reads)"
    using find_query_exact [OF pair_named pair_heads(1) pair_held_head(2)] by blast
  from find_pages_compose [OF pair_named pair_heads(1) pair_held_head(2) _ _ _ q, of 1]
  show ?thesis using q by (intro exI conjI) (simp_all add: MAX_PAGE_def)
qed



section \<open>The disk\<close>

text \<open>
  C36. Whatever the calls to the file system do, and wherever the power fails, a node that starts again
  loads the refs of the last block that reported success or of one tried after it, and every object of that
  block (on a store no block was applied to: every object that was durable) reads back under its id.
\<close>

theorem recovered_refs_have_objects:
  assumes "node_run H r s0 bs (ds, d)" and "fst (disk_refs_load H r d) = Inr y"
    and "odb_ok H s0" "module_dir r (ds_dir (fst s0))" "\<forall>b. length (H b) = 32"
    and "refs_kept r s0 = {x0}" "refs_at H x0 = Inr y0" "\<forall>i \<in> J0. sure_at H s0 i"
    and "\<forall>(b, ok) \<in> set bs. fits_envelope H (b_refs b)"
  shows "\<exists>c \<in> set (recent bs).
    y = (case c of None \<Rightarrow> y0 | Some b \<Rightarrow> Some (b_refs b, b_height b, b_watermark b)) \<and>
    (\<forall>i \<in> (case c of None \<Rightarrow> J0 | Some b \<Rightarrow> named_by H b). \<forall>x. fst (disk_get_io H i ds d) = Inr x \<longrightarrow>
      (\<exists>k body. x = Some (k, body) \<and> object_id H k body = i))"
proof -
  have inv: "odb_ok H (ds, d)" "\<forall>x \<in> d_kept d (refs_path r). backed H x0 J0 bs (ds, d) x"
    using node_run_inv [OF assms(1,3-6,8)] by simp_all
  have "bt_get (d_live d) (refs_path r) \<in> d_kept d (refs_path r)"
    using inv(1) by (simp add: odb_ok_def odb_inv_def sane_def)
  then obtain c where c: "c \<in> set (recent bs)" "case c of
      None \<Rightarrow> bt_get (d_live d) (refs_path r) = x0 \<and> (\<forall>i \<in> J0. sure_at H (ds, d) i)
    | Some b \<Rightarrow> bt_get (d_live d) (refs_path r) = image_of H b \<and> (\<forall>i \<in> named_by H b. sure_at H (ds, d) i)"
    using inv(2) by (auto simp: backed_def)
  note y = load_saved [OF assms(2)]
  show ?thesis
  proof (rule bexI [OF _ c(1)], cases c)
    case None
    then show "y = (case c of None \<Rightarrow> y0 | Some b \<Rightarrow> Some (b_refs b, b_height b, b_watermark b)) \<and>
      (\<forall>i \<in> (case c of None \<Rightarrow> J0 | Some b \<Rightarrow> named_by H b). \<forall>x. fst (disk_get_io H i ds d) = Inr x \<longrightarrow>
        (\<exists>k body. x = Some (k, body) \<and> object_id H k body = i))"
      using c(2) y assms(7) read_sure [OF inv(1)] by simp
  next
    case (Some b)
    then have "fits_envelope H (b_refs b)" using recent_tried c(1) assms(9) by blast
    with Some show "y = (case c of None \<Rightarrow> y0 | Some b \<Rightarrow> Some (b_refs b, b_height b, b_watermark b)) \<and>
      (\<forall>i \<in> (case c of None \<Rightarrow> J0 | Some b \<Rightarrow> named_by H b). \<forall>x. fst (disk_get_io H i ds d) = Inr x \<longrightarrow>
        (\<exists>k body. x = Some (k, body) \<and> object_id H k body = i))"
      using c(2) y refs_at_encode read_sure [OF inv(1)] by (simp add: image_of_def)
  qed
qed

theorem recovered_refs_have_objects_witness:
  "\<exists>d. node_run short_hash mod_dir (fresh_store, clean_disk) [(one_block, True)] (fresh_store, d) \<and>
     fst (disk_refs_load short_hash mod_dir d) = Inr (Some (refs_default, 1, 0)) \<and>
     (\<forall>x. fst (disk_get_io short_hash one_object fresh_store d) = Inr x \<longrightarrow>
        (\<exists>k body. x = Some (k, body) \<and> object_id short_hash k body = one_object))"
proof -
  have "module_dir mod_dir (ds_dir (fst (fresh_store, clean_disk)))" using clean_module by (simp add: fresh_store_def)
  moreover have "refs_kept mod_dir (fresh_store, clean_disk) = {None}"
    by (simp add: clean_kept clean_get) (simp add: refs_path_def str_def)
  moreover have "refs_at short_hash None = Inr None" by (simp add: refs_at_def)
  moreover have "\<forall>i \<in> {}. sure_at short_hash (fresh_store, clean_disk) i" by simp
  moreover have "\<forall>(b, ok) \<in> set [(one_block, True)]. fits_envelope short_hash (b_refs b)"
    using fits_default by (simp add: one_block_def)
  ultimately have "\<exists>c \<in> set (recent [(one_block, True)]).
      Some (refs_default, 1, 0) = (case c of None \<Rightarrow> None | Some b \<Rightarrow> Some (b_refs b, b_height b, b_watermark b)) \<and>
      (\<forall>i \<in> (case c of None \<Rightarrow> {} | Some b \<Rightarrow> named_by short_hash b). \<forall>x. fst (disk_get_io short_hash i fresh_store (snd reopened)) = Inr x \<longrightarrow>
        (\<exists>k body. x = Some (k, body) \<and> object_id short_hash k body = i))"
    by (rule recovered_refs_have_objects [OF restarted_run restarted_load clean_odb _ short_hash_32])
  then show ?thesis using restarted_run restarted_load by (auto simp: one_block_def named_by_def)
qed

text \<open>
  C37. A defect: the fsync of the object directories can be skipped. The set of dirty directories lives in
  memory. A process that dies after a put leaves the object visible but its directory entry not durable;
  the reopened store finds the file with the right length, returns early and marks nothing dirty, so the
  replayed block reports success after no fsync of that directory, and a power loss then leaves refs that
  name an object that is not there.
\<close>

theorem replayed_put_not_synced:
  assumes "d_plan d = []" "sane d" "d_kept d [] \<noteq> {}" "ds_dirty ds = []"
    and "ds_dir ds = r @ [name]" "r \<noteq> []" "\<forall>n \<le> length r. is_dir d (take n r)"
      "\<not> is_dir d (r @ [str ''refs.tmp''])" "\<not> is_dir d (refs_path r)"
    and "\<forall>(k, body) \<in> set (b_objects b). laid_out ds d (object_id H k body) (length body + 1)"
    and "i \<in> named_by H b" "None \<in> d_kept d (opath (ds_dir ds) i)"
  shows "\<exists>d' m. block_on_disk H b r (ds, d) = (Inr (), (ds, d')) \<and> survives d' m \<and>
    m (refs_path r) = image_of H b \<and> m (opath (ds_dir ds) i) = None"
  using replay_loses_object [OF assms(1-10,12)] .

theorem replayed_put_not_synced_witness:
  "\<exists>ds1 d1 d2 d3 m. disk_put_io short_hash KChunk [1] fresh_store clean_disk = (Inr (one_object, ds1), d1) \<and>
     disk_open 3 obj_dir d1 = (Inr fresh_store, d2) \<and>
     block_on_disk short_hash one_block mod_dir (fresh_store, d2) = (Inr (), (fresh_store, d3)) \<and>
     survives d3 m \<and> m (refs_path mod_dir) = image_of short_hash one_block \<and> m (opath obj_dir one_object) = None"
proof -
  note live = respawned_disk(3)
  have dir: "ds_dir fresh_store = mod_dir @ [[111]]" "ds_dirty fresh_store = []" "ds_dir fresh_store = obj_dir"
    by (simp_all add: fresh_store_def)
  have "is_dir respawn_disk (take n mod_dir)" if "n \<le> length mod_dir" for n
    using that by (cases n) (auto simp: is_dir_def at_path_def live bt_get_Cons)
  moreover have "\<not> is_dir respawn_disk (mod_dir @ [str ''refs.tmp''])" "\<not> is_dir respawn_disk (refs_path mod_dir)"
    by (simp_all add: is_dir_def at_path_def live bt_get_Cons refs_path_def opath_def fan_def str_def)
  ultimately obtain d3 m where "block_on_disk short_hash one_block mod_dir (fresh_store, respawn_disk) = (Inr (), (fresh_store, d3))"
    "survives d3 m" "m (refs_path mod_dir) = image_of short_hash one_block" "m (opath obj_dir one_object) = None"
    using replayed_put_not_synced [OF respawned_disk(2) respawn_sane respawned_disk(5) dir(2,1), of one_block short_hash one_object]
      respawned_disk(4) respawn_laid_out
    by (auto simp: one_block_def named_by_def dir(3) numeral_2_eq_2)
  then show ?thesis using put_run respawn_run by blast
qed

text \<open>
  C38. On a disk where no call fails, the objects of a flush that reports success can be read, are present,
  have their length and are listed, unless two bodies collide under the hash.
\<close>

theorem disk_flush_readable:
  assumes "disk_valid H s" and "put_all (disk_ops H) os s = (Inr u, s')" and "(k, body) \<in> set os"
    and "inj_on (\<lambda>(k, body). object_id H k body) (set os \<union> ran (disk_contents s))"
  shows "so_get (disk_ops H) s' (object_id H k body) = Inr (Some (k, body)) \<and>
    so_has (disk_ops H) s' (object_id H k body) \<and>
    so_stat (disk_ops H) s' (object_id H k body) = Inr (Some (k, of_nat (length body))) \<and>
    (\<forall>is. so_list (disk_ops H) s' = Inr is \<longrightarrow> object_id H k body \<in> set is)"
proof -
  let ?i = "object_id H k body"
  note flush = disk.put_all_keeps [OF assms(1,2,4)]
  have c: "disk_contents s' ?i = Some (k, body)" using flush(2) [OF assms(3)] .
  note files = disk_valid_files [OF flush(1)]
  obtain e where e: "file_at s' ?i = Some e" "intact_file H ?i e" "object_of (Some e) = Some (k, body)"
    using c disk_contents_iff [OF flush(1), of ?i] files by (auto simp: disk_contents_def)
  have "so_get (disk_ops H) s' ?i = Inr (Some (k, body))"
    using get_calm [of s' H ?i] files e by (simp add: disk_ops_def)
  moreover have "so_has (disk_ops H) s' ?i" using disk.has_iff [OF flush(1)] c by simp
  moreover have "so_stat (disk_ops H) s' ?i = Inr (Some (k, of_nat (length body)))"
    using stat_calm [of s' ?i H] files e c by (simp add: disk_ops_def)
  moreover have "?i \<in> set is" if "so_list (disk_ops H) s' = Inr is" for "is"
    using list_calm [OF flush(1) that] c by auto
  ultimately show ?thesis by blast
qed

theorem disk_flush_readable_witness:
  "so_get (disk_ops short_hash) (snd (put_all (disk_ops short_hash) [(KChunk, [1])] (fresh_store, clean_disk))) one_object =
     Inr (Some (KChunk, [1]))"
proof -
  let ?p = "put_all (disk_ops short_hash) [(KChunk, [1])] (fresh_store, clean_disk)"
  have "?p = (Inr (), (fresh_store\<lparr>ds_dirty := [fan obj_dir one_object]\<rparr>, put_disk))"
    by (simp add: disk_ops_def disk_put_def put_run)
  then have "?p = (Inr (), snd ?p)" by simp
  moreover have "ran (disk_contents (fresh_store, clean_disk)) = {}"
    by (simp add: ran_def disk_contents_def clean_no_object fresh_store_def)
  ultimately show ?thesis using disk_flush_readable [OF clean_valid, of "[(KChunk, [1])]" "()" _ KChunk "[1]"] by simp
qed

section \<open>Around the filesystem\<close>

text \<open>
  C10. The artifact reader returns an artifact from a byte string exactly when the artifact is well formed
  (lanes named, ordered and bounded, asset paths valid, ordered and free of file-directory clashes, lengths
  within the frame), the string is its frame and the frame is within the cap: every admitted artifact has
  one frame and nothing else is admitted.
\<close>

theorem artifact_frame_exact:
  "artifact_decode bs = Inr a \<longleftrightarrow> length bs \<le> MAX_ARTIFACT_BYTES \<and> artifact_ok a \<and> bs = artifact_frame a"
  by (rule decode_frame_iff)

text \<open>
  C11. The genesis configuration decoder returns parameters from a byte string exactly when the encoder
  accepts them, they fit the length fields, and the string is what it writes.
\<close>

theorem genesis_config_exact:
  "decode_config bs = Inr ps \<longleftrightarrow> encode_config ps = Some bs \<and> params_fit ps"
  by (rule decode_config_iff)

text \<open>
  C12. Over any store that keeps the contract of \<open>MerkleStore\<close>, the edits a block stages are seen by its own
  reads at once, by no committed read and not by the root before the commit, are gone after an abort, and
  after a commit that succeeds every key holds what the edits, applied in order, make of its old value.
\<close>

theorem staged_block_lands_whole:
  assumes "merkle_store ops view valid" "valid (sg_store s)" "sg_pending s = []"
    and "inj_on H (insert key (edit_key ` set es))"
    and "staged_commit H ops (fold run_edit es s) = (Inr u, s')"
  shows "valid (sg_store s') \<and> sg_pending s' = [] \<and>
    view (sg_store s') (store_key H key) = edited es key (view (sg_store s) (store_key H key)) \<and>
    (\<forall>v. staged_get H ops (fold run_edit es s) key = Inr v \<longrightarrow> v = view (sg_store s') (store_key H key)) \<and>
    (\<forall>v. staged_get_committed H ops (fold run_edit es s) key = Inr v \<longrightarrow> v = view (sg_store s) (store_key H key)) \<and>
    staged_root ops (fold run_edit es s) = staged_root ops s \<and> staged_abort (fold run_edit es s) = s"
proof -
  note laws = merkle_store.get_seen [OF assms(1)] merkle_store.get_committed_view [OF assms(1)]
  let ?t = "fold run_edit es s"
  have store: "sg_store ?t = sg_store s" by simp
  have new: "view (sg_store s') (store_key H key) = edited es key (view (sg_store s) (store_key H key))"
    by (rule merkle_store.block_of_edits [OF assms])
  have "valid (sg_store s') \<and> sg_pending s' = []"
    using merkle_store.commit_keeps_reads(1,2) [OF assms(1) _ _ assms(5)] assms(2,3) by (simp add: run_edits_wf)
  moreover have "v = view (sg_store s') (store_key H key)" if "staged_get H ops ?t key = Inr v" for v
    using laws(1) [OF _ that] assms(2,3) new by (simp add: seen_run_edits) (simp add: seen_def)
  moreover have "v = view (sg_store s) (store_key H key)" if "staged_get_committed H ops ?t key = Inr v" for v
    using laws(2) [OF _ that] assms(2) by simp
  moreover have "staged_abort ?t = s" using assms(3) by (simp add: staged_abort_def)
  ultimately show ?thesis using new by (simp add: staged_root_def)
qed

text \<open>One key overwritten and deleted, one written, over the in-memory store.\<close>

theorem staged_block_lands_whole_witness:
  "\<exists>s'. staged_commit short_hash (map_ops short_hash)
       (fold run_edit [Stage [1] [10], Stage [2] [20], Delete [1]] (staged_new [(short_hash [1], [9])])) = (Inr (), s') \<and>
     sg_pending s' = [] \<and> bt_get (sg_store s') (store_key short_hash [1]) = None"
proof -
  let ?s = "staged_new [(short_hash [1], [9])] :: map_store staged_store"
  let ?es = "[Stage [1] [10], Stage [2] [20], Delete [1]]"
  have start: "bt_wf (sg_store ?s)" "sg_pending ?s = []" by (simp_all add: staged_new_def)
  have inj: "inj_on short_hash (insert [1] (edit_key ` set ?es))" by (auto simp: inj_on_def short_hash_def)
  have "fst (staged_commit short_hash (map_ops short_hash) (fold run_edit ?es ?s)) = Inr ()" by code_simp
  then obtain s' where run: "staged_commit short_hash (map_ops short_hash) (fold run_edit ?es ?s) = (Inr (), s')"
    by (metis prod.collapse)
  note lands = staged_block_lands_whole [OF map_store_contract start inj run]
  have "edited ?es [1] x = None" for x by simp
  from trans [OF lands [THEN conjunct2, THEN conjunct2, THEN conjunct1] this]
  show ?thesis using run lands [THEN conjunct2, THEN conjunct1] by (intro exI conjI)
qed

text \<open>
  C18. Finishing a staged blob releases its slot whatever happens, and makes the digest addressable on disk
  only with a file of the declared length that hashes to it; a finish that fails, by a length, a hash or any
  call to the file system, leaves what was published under the digest as it was.
\<close>

theorem published_blob_verified:
  assumes "bs_root s = Some root" "st_sink w = DiskSink (staging_path root (st_digest w))"
    and "staged_finish H pid w s d = (out, d')"
  shows "\<exists>r s'. out = Inr (r, s') \<and> bs_staging s' = bs_staging s - {st_digest w} \<and>
    (case r of
       Inl _ \<Rightarrow> at_path d' (published_path root (st_digest w)) = at_path d (published_path root (st_digest w))
     | Inr k \<Rightarrow> k = st_digest w \<and> (\<exists>b. at_path d' (published_path root k) = Some (FileE b) \<and>
         H b = k \<and> length b = st_expected w))"
proof -
  obtain r d1 where r: "verify_and_publish H pid w s d = (r, d1)" by fastforce
  note disk = verify_and_publish_disk [OF r assms(1) assms(2) [unfolded staging_path_def]]
  show ?thesis
    using assms(3) r disk
    by (cases r) (auto simp: staged_finish_def iobind_def iotry_def ioret_def release_staging_def)
qed

theorem published_blob_verified_witness:
  "\<exists>b. at_path (snd slot_done) (published_path mod_dir (short_hash [1])) = Some (FileE b) \<and> short_hash b = short_hash [1]"
proof -
  have "\<exists>r s'. fst slot_done = Inr (r, s') \<and>
      bs_staging s' = bs_staging (snd (projr (fst slot_open))) - {st_digest (projr (fst slot_full))} \<and>
      (case r of
         Inl _ \<Rightarrow> at_path (snd slot_done) (published_path mod_dir (st_digest (projr (fst slot_full)))) =
           at_path (snd slot_full) (published_path mod_dir (st_digest (projr (fst slot_full))))
       | Inr k \<Rightarrow> k = st_digest (projr (fst slot_full)) \<and>
           (\<exists>b. at_path (snd slot_done) (published_path mod_dir k) = Some (FileE b) \<and>
             short_hash b = k \<and> length b = st_expected (projr (fst slot_full))))"
    by (rule published_blob_verified [OF slot_writer(3)]) (simp_all only: slot_writer slot_done_def prod.collapse)
  then show ?thesis using slot_done_ok by auto
qed

text \<open>
  C27. In every state a blob store reaches by its operations, on a disk that changes in any way between them
  and whose calls may fail, each resident blob has the digest it is stored under, the cache order and its
  byte count agree with the resident blobs and stay in the budget, every claimed digest has exactly one live
  writer, and no writer has passed its declared length.
\<close>

theorem blob_state_well_formed:
  assumes "blob_reach H pid s ws"
  shows "blob_ok H s \<and> writers_ok s ws"
  using assms by (rule reach_ok)

theorem blob_state_well_formed_witness:
  "\<exists>s. blob_reach short_hash [] s [\<lparr>st_digest = short_hash [2], st_expected = 3, st_written = 0, st_sink = MemorySink []\<rparr>] \<and>
     bs_chunks s (short_hash [1]) = Some [1] \<and> bs_staging s = {short_hash [2]} \<and> blob_ok short_hash s"
proof -
  define s0 :: blob_store where "s0 = blob_new None"
  define s1 where "s1 = keep_in_memory (short_hash [1]) [1] s0"
  define w where "w = \<lparr>st_digest = short_hash [2], st_expected = 3, st_written = 0, st_sink = MemorySink []\<rparr>"
  have "put_chunk short_hash [] [1] s0 clean_disk = (Inr (short_hash [1], s1) :: io_error + _, clean_disk)"
    by (simp add: put_chunk_def s1_def s0_def blob_new_def Let_def)
  then have one: "blob_reach short_hash [] s1 []"
    using blob_reach.put [OF blob_reach.start] by (simp add: no_clash_def s0_def blob_new_def)
  have "stage_blob (short_hash [2]) 3 s1 clean_disk =
      (Inr (Inr w, s1\<lparr>bs_staging := {short_hash [2]}\<rparr>), clean_disk)"
    by (simp add: stage_blob_def claim_staging_def open_slot_def s1_def s0_def blob_new_def keep_in_memory_def w_def)
  from blob_reach.stage [OF one this] have run: "blob_reach short_hash [] (s1\<lparr>bs_staging := {short_hash [2]}\<rparr>) [w]" by simp
  moreover have "blob_ok short_hash (s1\<lparr>bs_staging := {short_hash [2]}\<rparr>)" using blob_state_well_formed [OF run] by (rule conjunct1)
  ultimately show ?thesis
    by (intro exI [of _ "s1\<lparr>bs_staging := {short_hash [2]}\<rparr>"]) (simp add: w_def s1_def keep_in_memory_def)
qed



text \<open>
  C39. Nothing but a promotion touches the canonical directory: preparing a scratch and sweeping stale ones
  leave every path in it as it was, live and durable, whatever the calls do; and neither does a promotion
  whose scratch holds no refs image with the expected root, which also never succeeds.
\<close>

theorem canonical_untouched_before_promotion:
  assumes "\<forall>n \<le> length (sx_dir sc). is_dir d (take n (sx_dir sc))"
    and "\<forall>raw R h w. at_path d (refs_path (sx_dir sc)) = Some (FileE raw) \<longrightarrow>
      decode_envelope H raw = Inr (R, h, w) \<longrightarrow> root_bytes H R \<noteq> root"
  shows "untouched home d (snd (scratch_prepare home n d)) \<and> untouched home d (snd (sweep_stale home d)) \<and>
    fst (scratch_promote H root sc d) \<noteq> Inr () \<and> untouched home d (snd (scratch_promote H root sc d))"
proof -
  have "fst (scratch_promote H root sc d) \<noteq> Inr () \<and> replanned d (snd (scratch_promote H root sc d))"
    using promote_wrong_root [of sc d H root] assms by (metis prod.collapse)
  then show ?thesis
    using leaves_run [OF prepare_leaves] leaves_run [OF sweep_leaves] replanned_untouched by blast
qed

theorem canonical_untouched_before_promotion_witness:
  "fst (scratch_promote short_hash [] side side_disk) \<noteq> Inr () \<and>
   untouched mod_dir side_disk (snd (scratch_promote short_hash [] side side_disk))"
proof -
  have "\<forall>n \<le> length (sx_dir side). is_dir side_disk (take n (sx_dir side))"
    using side_ready by (simp add: scratch_ready_def)
  moreover have "\<forall>raw R h w. at_path side_disk (refs_path (sx_dir side)) = Some (FileE raw) \<longrightarrow>
      decode_envelope short_hash raw = Inr (R, h, w) \<longrightarrow> root_bytes short_hash R \<noteq> []"
  proof (intro allI impI)
    fix R
    have "length (root_bytes short_hash R) = 32" using short_hash_32 by (simp add: root_bytes_def)
    then show "root_bytes short_hash R \<noteq> []" by (metis list.size(3) zero_neq_numeral)
  qed
  ultimately show ?thesis using canonical_untouched_before_promotion [of side side_disk short_hash "[]" mod_dir 0] by blast
qed

text \<open>
  C40. A defect: appending to an ingest that is already sealed keeps the seal, and publishing then puts bytes
  the digest was not computed over under that digest.
\<close>

theorem stale_seal_published:
  assumes "in_sink g = Some (DiskSink (staging_dir root @ [name]))" "bs_root s = Some root"
    and "ingest_seal H g d = (Inr (k, g1), d1)" "ingest_append b g1 d1 = (Inr g2, d2)"
    and "ingest_publish H pid g2 s d2 = (Inr (k', s'), d')"
  shows "\<exists>a. k' = H a \<and> at_path d' (published_path root k') = Some (FileE (a @ b))"
proof -
  let ?p = "staging_dir root @ [name]"
  obtain n where h: "sink_hash H (DiskSink ?p) d = (Inr (k, n), d1)" "g1 = g\<lparr>in_sealed := Some k\<rparr>"
    using assms(1,3) by (auto simp: ingest_seal_def run_Inr)
  obtain a where a: "at_path d ?p = Some (FileE a)" "k = H a" using hash_file_outcome(2) [OF h(1) refl] by blast
  then have "at_path d1 ?p = Some (FileE a)" using hash_file_outcome(1) [OF h(1)] by simp
  then have "k' = k \<and> at_path d' (published_path root k) = Some (FileE (a @ b))"
    using append_after_seal [OF _ refl _ assms(2) _ assms(4,5)] assms(1) h(2) by simp
  then show ?thesis using a(2) by blast
qed

theorem stale_seal_published_witness:
  "\<exists>b. at_path (snd grown_done) (published_path mod_dir (short_hash [1])) = Some (FileE (b @ [2])) \<and> short_hash b = short_hash [1]"
proof -
  let ?v = "\<lambda>r. projr (fst r)"
  have "ingest_seal short_hash (?v grown_full) (snd grown_full) = (Inr (fst (?v grown_sealed), snd (?v grown_sealed)), snd grown_sealed)"
    using grown_ok(2) unfolding grown_sealed_def by (cases "ingest_seal short_hash (?v grown_full) (snd grown_full)") auto
  moreover have "ingest_append [2] (snd (?v grown_sealed)) (snd grown_sealed) = (Inr (?v grown_more), snd grown_more)"
    using grown_ok(3) unfolding grown_more_def by (cases "ingest_append [2] (snd (?v grown_sealed)) (snd grown_sealed)") auto
  moreover have "ingest_publish short_hash [] (?v grown_more) blobs_at_mod (snd grown_more) =
      (Inr (fst (?v grown_done), snd (?v grown_done)), snd grown_done)"
    using grown_ok(4) unfolding grown_done_def by (cases "ingest_publish short_hash [] (?v grown_more) blobs_at_mod (snd grown_more)") auto
  ultimately have "\<exists>a. fst (?v grown_done) = short_hash a \<and>
      at_path (snd grown_done) (published_path mod_dir (fst (?v grown_done))) = Some (FileE (a @ [2]))"
    by (rule stale_seal_published [OF grown_ok(5), rotated 1]) (simp add: blob_new_def)
  then show ?thesis unfolding grown_ok(6) by metis
qed

end
